(* ===== verification/Prelude.thy ===== *)
theory Prelude
  imports Main "HOL-Library.Word"
begin

unbundle bit_operations_syntax

text \<open>
  Shared vocabulary of the development: the machine integers of the crate, the outcome of a
  fallible operation (a panic or a memory-safety fault against a value), and the arithmetic of
  a power-of-two ring (mask indexing, round numbers by shift, distances of wrapping counters).
  The collection \<open>usize_arith\<close> turns word facts into facts on natural numbers;
  \<open>ring_simps\<close> holds the list lemmas on ring windows.
\<close>

named_theorems usize_arith
named_theorems ring_simps
named_theorems chan_defs

section \<open>Machine integers\<close>

text \<open>
  The model fixes the 64-bit target: \<open>usize\<close> and \<open>i64\<close> are 64-bit words, \<open>u32\<close> a 32-bit one.
  \<open>+\<close> and \<open>-\<close> wrap around, as Rust's do in a release build.
\<close>

type_synonym usize = "64 word"
type_synonym i64 = "64 word"
type_synonym u32 = "32 word"

abbreviation usize_max :: usize where
  "usize_max \<equiv> - 1"

definition saturating_add :: "usize \<Rightarrow> usize \<Rightarrow> usize" where
  "saturating_add a b = (if uint a + uint b < 2 ^ 64 then a + b else usize_max)"

definition saturating_add_u32 :: "u32 \<Rightarrow> u32 \<Rightarrow> u32" where
  "saturating_add_u32 a b = (if uint a + uint b < 2 ^ 32 then a + b else - 1)"

text \<open>\<open>usize::is_power_of_two\<close>: true exactly for the values \<open>2\<^sup>k\<close>.\<close>

definition is_power_of_two :: "usize \<Rightarrow> bool" where
  "is_power_of_two x \<longleftrightarrow> list_ex (\<lambda>k. x = push_bit k 1) [0..<64]"

text \<open>\<open>usize::trailing_zeros\<close>: the number of zero bits below the lowest one bit, 64 for zero.\<close>

definition trailing_zeros :: "usize \<Rightarrow> u32" where
  "trailing_zeros x = of_nat (length (takeWhile (\<lambda>k. \<not> bit x k) [0..<64]))"

lemma unat_usize_max [simp]: "unat usize_max = 2 ^ 64 - 1"
  by (simp add: unsigned_minus_1_eq_mask mask_eq_exp_minus_1)

lemma usize_bound: "unat (x :: usize) < 18446744073709551616"
  using unsigned_less [of x] by simp

lemma is_power_of_two_iff: "is_power_of_two x \<longleftrightarrow> (\<exists>k < 64. x = 2 ^ k)"
  by (auto simp: is_power_of_two_def list_ex_iff push_bit_eq_mult)

lemma pow2_less_range: "k < 64 \<Longrightarrow> (2 :: nat) ^ k < 2 ^ 64"
  by (rule power_strict_increasing) simp_all

lemma unat_pow2:
  assumes "k < 64"
  shows "unat (2 ^ k :: usize) = 2 ^ k"
proof -
  have "unat (of_nat (2 ^ k) :: usize) = 2 ^ k"
    using pow2_less_range [OF assms] by (simp add: unat_of_nat del: of_nat_power)
  then show ?thesis
    by simp
qed

lemma is_power_of_two_unat:
  "is_power_of_two x \<longleftrightarrow> (\<exists>k < 64. unat x = 2 ^ k)"
proof -
  have "(\<exists>k < 64. unat x = 2 ^ k) \<longleftrightarrow> (\<exists>k < 64. unat x = unat (2 ^ k :: usize))"
    by (auto simp: unat_pow2)
  then show ?thesis
    by (simp add: is_power_of_two_iff word_unat_eq_iff)
qed

lemma is_power_of_two_pos: "is_power_of_two x \<Longrightarrow> 0 < unat x"
  by (auto simp: is_power_of_two_unat)

lemma bit_usize_exp: "bit (2 ^ k :: usize) j \<longleftrightarrow> j = k \<and> j < 64"
  by (auto simp: bit_exp_iff)

lemma takeWhile_upt_first:
  assumes "k < n" "\<And>j. j < k \<Longrightarrow> P j" "\<not> P k"
  shows "takeWhile P [0..<n] = [0..<k]"
proof -
  have "[0..<n] = [0..<k] @ [k..<n]"
    using assms(1) upt_add_eq_append [of 0 k "n - k"] by simp
  moreover have "[k..<n] = k # [Suc k..<n]"
    using assms(1) by (rule upt_conv_Cons)
  moreover have "takeWhile P ([0..<k] @ k # [Suc k..<n]) = [0..<k]"
    using assms(2,3) by (subst takeWhile_append2) simp_all
  ultimately show ?thesis
    by simp
qed

lemma trailing_zeros_pow2:
  assumes "k < 64"
  shows "unat (trailing_zeros (2 ^ k)) = k"
proof -
  have "takeWhile (\<lambda>j. \<not> bit (2 ^ k :: usize) j) [0..<64] = [0..<k]"
    using assms by (intro takeWhile_upt_first) (auto simp: bit_usize_exp)
  moreover have "unat (of_nat k :: u32) = k"
    using assms by (simp add: unat_of_nat)
  ultimately show ?thesis
    by (simp add: trailing_zeros_def)
qed

lemma uint_sum_less: "uint a + uint b < 2 ^ n \<longleftrightarrow> unat a + unat b < 2 ^ n"
proof -
  have "uint a + uint b < 2 ^ n \<longleftrightarrow> int (unat a + unat b) < int (2 ^ n)"
    by simp
  then show ?thesis
    by (simp only: of_nat_less_iff)
qed

lemma unat_saturating_add:
  "unat (saturating_add a b) = min (unat a + unat b) (2 ^ 64 - 1)"
proof (cases "unat a + unat b < 2 ^ 64")
  case True
  then have "saturating_add a b = a + b"
    unfolding saturating_add_def uint_sum_less by (rule if_P)
  with True show ?thesis
    by (simp add: unat_word_ariths)
next
  case False
  then have "saturating_add a b = usize_max"
    unfolding saturating_add_def uint_sum_less by (rule if_not_P)
  with False show ?thesis
    by simp
qed

section \<open>Ring arithmetic\<close>

text \<open>
  With \<open>cap = 2\<^sup>k\<close> the slot of a sequence number is \<open>seq & (cap - 1) = seq mod cap\<close> and its
  round is \<open>seq >> k = seq div cap\<close>.
\<close>

lemma unat_mask_index:
  assumes "is_power_of_two c"
  shows "unat (x AND (c - 1)) = unat x mod unat c"
proof -
  from assms obtain k where k: "k < 64" "c = 2 ^ k"
    by (auto simp: is_power_of_two_iff)
  have "x AND (c - 1) = take_bit k x"
    by (simp add: k take_bit_eq_mask mask_eq_exp_minus_1)
  then have "unat (x AND (c - 1)) = take_bit k (unat x)"
    using k by (simp add: unsigned_take_bit_eq)
  then show ?thesis
    using k by (simp add: take_bit_eq_mod unat_pow2)
qed

lemma unat_shift_round:
  fixes x :: usize
  assumes "is_power_of_two c" "s = trailing_zeros c"
  shows "unat (drop_bit (unat s) x) = unat x div unat c"
proof -
  from assms(1) obtain k where k: "k < 64" "c = 2 ^ k"
    by (auto simp: is_power_of_two_iff)
  then have "unat s = k"
    using assms(2) trailing_zeros_pow2 by simp
  then show ?thesis
    using k by (simp add: drop_bit_eq_div unat_div unat_pow2)
qed

text \<open>\<open>push_bit k 1 = cap\<close> is the \<open>debug_assert_eq!\<close> of \<^verbatim>\<open>mpsc::channel\<close>.\<close>

lemma push_bit_trailing_zeros:
  "is_power_of_two c \<Longrightarrow> push_bit (unat (trailing_zeros c)) 1 = c"
  by (auto simp: is_power_of_two_iff trailing_zeros_pow2 push_bit_eq_mult)

lemma pow2_trailing_zeros: "is_power_of_two c \<Longrightarrow> 2 ^ unat (trailing_zeros c) = c"
  by (auto simp: is_power_of_two_iff trailing_zeros_pow2)

lemma cap_dvd_range: "is_power_of_two c \<Longrightarrow> unat c dvd 2 ^ 64"
  unfolding is_power_of_two_unat by (metis le_imp_power_dvd less_imp_le)

text \<open>Distances of wrapping counters: \<open>a - b\<close> on words against addition of natural numbers.\<close>

lemma unat_add_mod_cap:
  fixes x y :: usize
  assumes "is_power_of_two c"
  shows "unat (x + y) mod unat c = (unat x + unat y) mod unat c"
proof -
  have "unat (x + y) = (unat x + unat y) mod 2 ^ 64"
    by (simp add: unat_word_ariths)
  then show ?thesis
    using cap_dvd_range [OF assms] by (simp add: mod_mod_cancel)
qed

lemma unat_suc_distance:
  "unat (a - b) + 1 < 2 ^ 64 \<Longrightarrow> unat (a + 1 - b) = unat (a - b) + 1" for a b :: usize
proof -
  assume "unat (a - b) + 1 < 2 ^ 64"
  then have "unat ((a - b) + 1) = unat (a - b) + 1"
    by (simp add: unat_word_ariths)
  then show ?thesis
    by (simp add: algebra_simps)
qed

lemma unat_pred_distance:
  "a \<noteq> b \<Longrightarrow> unat (a - (b + 1)) = unat (a - b) - 1" for a b :: usize
proof -
  assume "a \<noteq> b"
  then have "unat ((a - b) - 1) = unat (a - b) - 1"
    by (simp add: unat_minus_one)
  then show ?thesis
    by (simp add: algebra_simps)
qed

lemma unat_distance_eq_0 [simp]: "unat (a - b) = 0 \<longleftrightarrow> a = b" for a b :: usize
  by (simp add: unat_eq_zero)

lemma unat_distance_Suc:
  "a \<noteq> b \<Longrightarrow> unat (a - b) = Suc (unat (a - (b + 1)))" for a b :: usize
proof -
  assume "a \<noteq> b"
  then have "unat (a - b) \<noteq> 0" by simp
  with unat_pred_distance [OF \<open>a \<noteq> b\<close>] show ?thesis by linarith
qed

lemma unat_le_add_one: "unat x < 2 ^ 64 - 1 \<Longrightarrow> unat (x + 1) = unat x + 1" for x :: usize
  by (simp add: unat_word_ariths)

lemma unat_less_suc:
  fixes a b :: usize
  assumes "a < b"
  shows "unat (a + 1) = unat a + 1"
proof -
  have "unat a < 2 ^ 64 - 1"
    using assms usize_bound [of b] unfolding word_less_nat_alt by simp
  then show ?thesis by (rule unat_le_add_one)
qed

lemma usize_loop_decreases:
  "a < b \<Longrightarrow> unat b - unat (a + 1) < unat b - unat a" for a b :: usize
  by (simp add: unat_less_suc word_less_nat_alt)

lemma unat_diff_Suc_of_less:
  fixes a b :: usize
  assumes "a < b"
  shows "unat b - unat a = Suc (unat b - unat (a + 1))"
  using assms by (simp add: unat_less_suc word_less_nat_alt)

lemma cap_less_range: "is_power_of_two c \<Longrightarrow> unat c < 2 ^ 64 - 1"
proof -
  assume "is_power_of_two c"
  then obtain k where "k < 64" "unat c = 2 ^ k"
    by (auto simp: is_power_of_two_unat)
  moreover from this have "(2 :: nat) ^ k \<le> 2 ^ 63"
    by (intro power_increasing) auto
  ultimately show ?thesis by simp
qed

section \<open>Outcomes\<close>

text \<open>
  What a run of a fallible operation can do besides returning: panic, or break one of the
  obligations that an \<^verbatim>\<open>unsafe\<close> block of the source discharges by its \<^verbatim>\<open>SAFETY\<close> comment.
  \<^item> \<open>Panic msg\<close>: a failed \<^verbatim>\<open>assert!\<close>, an index out of bounds, \<^verbatim>\<open>unreachable!()\<close>;
  \<^item> \<open>ReadUninit\<close>: \<^verbatim>\<open>assume_init_read\<close> or \<^verbatim>\<open>assume_init_drop\<close> of memory never written;
  \<^item> \<open>ReadMoved\<close>: a second read or a drop of a value that was already moved out;
  \<^item> \<open>OverwriteLive\<close>: a \<^verbatim>\<open>write\<close> over a value nobody has consumed;
  \<^item> \<open>HandleDropped\<close>: a method call on a handle that was dropped, which ownership excludes.
\<close>

datatype fault =
    Panic string
  | ReadUninit
  | ReadMoved
  | OverwriteLive
  | HandleDropped

type_synonym 'a outcome = "fault + 'a"

definition obind :: "'a outcome \<Rightarrow> ('a \<Rightarrow> 'b outcome) \<Rightarrow> 'b outcome" where
  "obind m f = (case m of Inl e \<Rightarrow> Inl e | Inr x \<Rightarrow> f x)"

lemma obind_simps [simp]:
  "obind (Inl e) f = Inl e"
  "obind (Inr x) f = f x"
  by (simp_all add: obind_def)

lemma obind_assoc: "obind (obind m f) g = obind m (\<lambda>x. obind (f x) g)"
  by (cases m) simp_all

lemma obind_eq_Inr [simp]:
  "obind m f = Inr y \<longleftrightarrow> (\<exists>x. m = Inr x \<and> f x = Inr y)"
  by (cases m) simp_all

section \<open>Printing a number\<close>

text \<open>\<^verbatim>\<open>{}\<close> of a \<^verbatim>\<open>usize\<close>: its decimal digits, of which a 64-bit number has at most twenty.\<close>

fun fmt_digits :: "nat \<Rightarrow> usize \<Rightarrow> string" where
  "fmt_digits 0 x = []"
| "fmt_digits (Suc k) x =
     (if x < 10 then [''0123456789'' ! unat x] else fmt_digits k (x div 10) @ [''0123456789'' ! unat (x mod 10)])"

definition fmt_usize :: "usize \<Rightarrow> string" where
  "fmt_usize x = fmt_digits 20 x"

section \<open>Counting in an updated list\<close>

lemma filter_update_same:
  "i < length xs \<Longrightarrow> P (xs ! i) = P x \<Longrightarrow> length (filter P (xs[i := x])) = length (filter P xs)"
  by (induction xs arbitrary: i) (auto split: nat.splits)

lemma filter_update_drop:
  "i < length xs \<Longrightarrow> P (xs ! i) \<Longrightarrow> \<not> P x \<Longrightarrow>
     Suc (length (filter P (xs[i := x]))) = length (filter P xs)"
  by (induction xs arbitrary: i) (auto split: nat.splits)

lemma sum_list_map_update:
  fixes f :: "'b \<Rightarrow> 'm :: comm_monoid_add"
  assumes "k < length xs"
  shows "sum_list (map f (xs[k := x])) + f (xs ! k) = sum_list (map f xs) + f x"
  using assms
proof (induction xs arbitrary: k)
  case (Cons y ys)
  then show ?case by (cases k) (simp_all add: ac_simps)
qed simp

section \<open>Windows of a ring\<close>

text \<open>
  \<open>window f h n\<close> lists \<open>f h, f (h + 1), \<dots>, f (h + n - 1)\<close>: the ring's contents read
  from a head counter.
\<close>

definition window :: "(nat \<Rightarrow> 'a) \<Rightarrow> nat \<Rightarrow> nat \<Rightarrow> 'a list" where
  "window f h n = map f [h..<h + n]"

lemma window_0 [simp, ring_simps]: "window f h 0 = []"
  by (simp add: window_def)

lemma window_Suc_front [ring_simps]: "window f h (Suc n) = f h # window f (Suc h) n"
  unfolding window_def by (subst upt_conv_Cons) simp_all

lemma window_Suc_back [ring_simps]: "window f h (Suc n) = window f h n @ [f (h + n)]"
  by (simp add: window_def)

lemma length_window [simp, ring_simps]: "length (window f h n) = n"
  by (simp add: window_def)

lemma window_cong [ring_simps]:
  "(\<And>i. h \<le> i \<Longrightarrow> i < h + n \<Longrightarrow> f i = g i) \<Longrightarrow> window f h n = window g h n"
  by (simp add: window_def)

lemma nth_window: "i < n \<Longrightarrow> window f h n ! i = f (h + i)"
  by (simp add: window_def)

text \<open>Two sequence numbers less than a lap apart never share a slot.\<close>

lemma mod_eq_imp_eq:
  fixes a b c :: nat
  assumes "a mod c = b mod c" "a \<le> b" "b < a + c"
  shows "a = b"
proof (rule ccontr)
  assume "a \<noteq> b"
  with assms(2) have "0 < b - a" by simp
  moreover have "c dvd b - a"
    using assms(1,2) by (metis mod_eq_dvd_iff_nat)
  ultimately have "c \<le> b - a"
    by (rule dvd_imp_le [rotated])
  with assms(2,3) show False by simp
qed

lemma mod_neq_within_lap:
  fixes a b c :: nat
  assumes "a \<noteq> b" "a < b + c" "b < a + c"
  shows "a mod c \<noteq> b mod c"
proof
  assume "a mod c = b mod c"
  then show False
    using assms mod_eq_imp_eq [of a c b] mod_eq_imp_eq [of b c a] by fastforce
qed

lemma mod_div_inject:
  fixes a b c :: nat
  shows "a mod c = b mod c \<Longrightarrow> a div c = b div c \<Longrightarrow> a = b"
  by (metis div_mult_mod_eq)

end
