(* ===== verification/Errors.thy ===== *)
theory Errors
  imports Prelude
begin

text \<open>
  The crate root (\<^verbatim>\<open>src/lib.rs\<close>): the error types that the two rings and the sharded channel
  return, their \<^verbatim>\<open>Display\<close> texts, and the capacity assertion of the constructors.
\<close>

section \<open>Results and errors\<close>

datatype ('a, 'e) rust_result = Ok 'a | Err 'e

datatype 'a try_send_error = Full 'a | SendDisconnected 'a

datatype 'a send_error = SendError 'a

datatype try_recv_error = Empty | RecvDisconnected

datatype recv_error = RecvError

fun fmt_try_send_error :: "'a try_send_error \<Rightarrow> string" where
  "fmt_try_send_error (Full _) = ''ring is full''"
| "fmt_try_send_error (SendDisconnected _) = ''receiver disconnected''"

fun fmt_send_error :: "'a send_error \<Rightarrow> string" where
  "fmt_send_error (SendError _) = ''receiver disconnected''"

fun fmt_try_recv_error :: "try_recv_error \<Rightarrow> string" where
  "fmt_try_recv_error Empty = ''ring is empty''"
| "fmt_try_recv_error RecvDisconnected = ''senders disconnected''"

fun fmt_recv_error :: "recv_error \<Rightarrow> string" where
  "fmt_recv_error RecvError = ''senders disconnected''"

text \<open>Every failed send hands its value back.\<close>

fun returned_value :: "'a try_send_error \<Rightarrow> 'a" where
  "returned_value (Full v) = v"
| "returned_value (SendDisconnected v) = v"

definition is_ok :: "('a, 'e) rust_result \<Rightarrow> bool" where
  "is_ok r = (case r of Ok _ \<Rightarrow> True | Err _ \<Rightarrow> False)"

lemma is_ok_simps [simp]: "is_ok (Ok x)" "\<not> is_ok (Err e)"
  by (simp_all add: is_ok_def)

section \<open>The capacity assertion\<close>

definition assert_cap :: "usize \<Rightarrow> unit outcome" where
  "assert_cap cap =
     (if cap > 0 \<and> is_power_of_two cap then Inr ()
      else Inl (Panic ''capacity must be a positive power of two''))"

lemma assert_cap_ok [simp]: "assert_cap cap = Inr u \<longleftrightarrow> is_power_of_two cap"
  by (auto simp: assert_cap_def word_greater_zero_iff dest: is_power_of_two_pos)

lemma assert_cap_cases:
  "assert_cap cap =
     (if is_power_of_two cap then Inr ()
      else Inl (Panic ''capacity must be a positive power of two''))"
  by (auto simp: assert_cap_def word_greater_zero_iff dest: is_power_of_two_pos)

end
