(* ===== verification/Wait.thy ===== *)
theory Wait
  imports Prelude
begin

text \<open>
  Wait strategies (\<^verbatim>\<open>src/wait.rs\<close>): the strategy enum and the idle ladder that \<^verbatim>\<open>Backoff\<close> and
  \<^verbatim>\<open>BackoffYield\<close> climb between two attempts of a blocking operation. A rung's effect on the
  thread (a spin hint, a yield, a timed park) is the action that \<open>idle\<close> returns; durations are
  numbers of nanoseconds. The main result is the closed form of the ladder,
  \<open>idle_nth_action\<close>: which action the n-th call takes, for every n, with the saturating
  32-bit step counter of the source.
\<close>

section \<open>Strategies and ladder state\<close>

datatype wait_strategy = BusySpin | Backoff | BackoffYield | Park

definition SPINS :: u32 where
  "SPINS = 10"

definition YIELDS :: u32 where
  "YIELDS = 20"

definition from_micros :: "int \<Rightarrow> int" where
  "from_micros n = n * 1000"

definition from_millis :: "int \<Rightarrow> int" where
  "from_millis n = n * 1000000"

definition PARK_MIN :: int where
  "PARK_MIN = from_micros 64"

definition PARK_MAX :: int where
  "PARK_MAX = from_millis 1"

record idle_state =
  idle_step :: u32
  idle_park :: int
  idle_yield_only :: bool

definition idle_new :: idle_state where
  "idle_new = \<lparr>idle_step = 0, idle_park = PARK_MIN, idle_yield_only = False\<rparr>"

definition for_strategy :: "wait_strategy \<Rightarrow> idle_state" where
  "for_strategy strategy = idle_new\<lparr>idle_yield_only := (strategy = BackoffYield)\<rparr>"

datatype wait_action = SpinLoop | YieldNow | ParkTimeout int

definition idle :: "idle_state \<Rightarrow> wait_action \<times> idle_state" where
  "idle i =
     (let (act, park) =
        (if idle_step i < SPINS then (SpinLoop, idle_park i)
         else if idle_yield_only i \<or> idle_step i < SPINS + YIELDS then (YieldNow, idle_park i)
         else (ParkTimeout (idle_park i), min (idle_park i * 2) PARK_MAX))
      in (act, i\<lparr>idle_step := saturating_add_u32 (idle_step i) 1, idle_park := park\<rparr>))"

text \<open>The state after n calls, and the action of the call after that.\<close>

fun idle_after :: "nat \<Rightarrow> idle_state \<Rightarrow> idle_state" where
  "idle_after 0 i = i"
| "idle_after (Suc n) i = snd (idle (idle_after n i))"

section \<open>The ladder in closed form\<close>

lemma park_bounds: "PARK_MIN = 64000" "PARK_MAX = 1000000"
  by (simp_all add: PARK_MIN_def PARK_MAX_def from_micros_def from_millis_def)

lemma unat_saturating_add_u32_1:
  "unat (saturating_add_u32 s 1) = min (unat s + 1) (2 ^ 32 - 1)"
proof (cases "unat s + unat (1 :: u32) < 2 ^ 32")
  case True
  then have "saturating_add_u32 s 1 = s + 1"
    unfolding saturating_add_u32_def uint_sum_less by (rule if_P)
  with True show ?thesis
    by (simp add: unat_word_ariths)
next
  case False
  then have "saturating_add_u32 s 1 = - 1"
    unfolding saturating_add_u32_def uint_sum_less by (rule if_not_P)
  with False show ?thesis
    by (simp add: unsigned_minus_1_eq_mask mask_eq_exp_minus_1)
qed

definition ladder_step :: "nat \<Rightarrow> nat" where
  "ladder_step n = min n (2 ^ 32 - 1)"

definition ladder_park :: "nat \<Rightarrow> int" where
  "ladder_park n = min (PARK_MIN * 2 ^ (n - 30)) PARK_MAX"

lemma ladder_park_Suc:
  assumes "30 \<le> n"
  shows "min (ladder_park n * 2) PARK_MAX = ladder_park (Suc n)"
proof -
  have "Suc n - 30 = Suc (n - 30)"
    using assms by simp
  then have "(2 :: int) ^ (Suc n - 30) = 2 * 2 ^ (n - 30)"
    by (simp only: power_Suc)
  then show ?thesis
    unfolding ladder_park_def park_bounds by linarith
qed

lemma ladder_park_early: "n \<le> 30 \<Longrightarrow> ladder_park n = PARK_MIN"
  by (simp add: ladder_park_def park_bounds)

text \<open>The state reached after \<open>n\<close> calls on a fresh ladder.\<close>

definition ladder_state :: "bool \<Rightarrow> nat \<Rightarrow> idle_state" where
  "ladder_state y n =
     \<lparr>idle_step = of_nat (ladder_step n),
      idle_park = (if y then PARK_MIN else ladder_park n),
      idle_yield_only = y\<rparr>"

lemma unat_ladder_step [simp]: "unat (of_nat (ladder_step n) :: u32) = ladder_step n"
  by (simp add: ladder_step_def unat_of_nat)

lemma ladder_step_Suc:
  "saturating_add_u32 (of_nat (ladder_step n)) 1 = of_nat (ladder_step (Suc n))"
proof -
  have "unat (saturating_add_u32 (of_nat (ladder_step n)) 1) = ladder_step (Suc n)"
    unfolding unat_saturating_add_u32_1 unat_ladder_step by (simp add: ladder_step_def)
  then show ?thesis
    by (metis unat_ladder_step word_unat_eq_iff)
qed

lemma ladder_step_less:
  "(of_nat (ladder_step n) :: u32) < SPINS \<longleftrightarrow> n < 10"
  "(of_nat (ladder_step n) :: u32) < SPINS + YIELDS \<longleftrightarrow> n < 30"
  unfolding word_less_nat_alt unat_ladder_step
  by (auto simp: SPINS_def YIELDS_def ladder_step_def)

definition ladder_action :: "bool \<Rightarrow> nat \<Rightarrow> wait_action" where
  "ladder_action y n =
     (if n < 10 then SpinLoop
      else if y \<or> n < 30 then YieldNow
      else ParkTimeout (ladder_park n))"

lemma idle_ladder_state:
  "idle (ladder_state y n) = (ladder_action y n, ladder_state y (Suc n))"
proof -
  consider "n < 10" | "10 \<le> n" "n < 30" | "30 \<le> n"
    by linarith
  then show ?thesis
    by cases
      (auto simp: idle_def ladder_state_def ladder_action_def ladder_step_less ladder_step_Suc
        ladder_park_Suc ladder_park_early)
qed

lemma for_strategy_ladder: "for_strategy s = ladder_state (s = BackoffYield) 0"
  by (simp add: for_strategy_def idle_new_def ladder_state_def ladder_step_def ladder_park_early)

lemma idle_after_ladder:
  "idle_after n (for_strategy s) = ladder_state (s = BackoffYield) n"
  by (induction n) (simp_all add: for_strategy_ladder idle_ladder_state)

lemma idle_after_action:
  "fst (idle (idle_after n (for_strategy s))) = ladder_action (s = BackoffYield) n"
  by (simp add: idle_after_ladder idle_ladder_state)

lemma ladder_park_range: "PARK_MIN \<le> ladder_park n" "ladder_park n \<le> PARK_MAX"
  by (simp_all add: ladder_park_def park_bounds)

lemma ladder_park_mono: "m \<le> n \<Longrightarrow> ladder_park m \<le> ladder_park n"
  unfolding ladder_park_def by (intro min.mono mult_left_mono power_increasing) (auto simp: park_bounds)

lemma ladder_park_capped:
  assumes "34 \<le> n"
  shows "ladder_park n = PARK_MAX"
proof -
  have "(2 :: int) ^ 4 \<le> 2 ^ (n - 30)"
    using assms by (intro power_increasing) auto
  then show ?thesis
    by (simp add: ladder_park_def park_bounds)
qed

section \<open>Properties\<close>

text \<open>
  C38: on a fresh ladder of strategy \<open>s\<close> the call number \<open>n\<close> (from 0)
  spins for the first 10 calls, yields for the next 20, and from then on parks for
  \<open>64us * 2\<^sup>(n-30)\<close> capped at 1ms, except that \<^verbatim>\<open>BackoffYield\<close> goes on yielding for ever. The
  statement holds for every \<open>n\<close>, also after the 32-bit step counter has saturated.
\<close>

theorem idle_nth_action:
  "fst (idle (idle_after n (for_strategy s))) =
     (if n < 10 then SpinLoop
      else if s = BackoffYield \<or> n < 30 then YieldNow
      else ParkTimeout (min (64000 * 2 ^ (n - 30)) 1000000))"
  by (simp add: idle_after_action ladder_action_def ladder_park_def park_bounds)

text \<open>
  The timed parks of the ladder never leave the interval from 64us to 1ms, never get
  shorter, and reach 1ms at the fifth park at the latest.
\<close>

theorem idle_park_bounded:
  assumes "fst (idle (idle_after m (for_strategy s))) = ParkTimeout d"
    and "fst (idle (idle_after n (for_strategy s))) = ParkTimeout e"
    and "m \<le> n"
  shows "PARK_MIN \<le> d \<and> d \<le> e \<and> e \<le> PARK_MAX \<and> (34 \<le> n \<longrightarrow> e = PARK_MAX)"
proof -
  have "d = ladder_park m" "e = ladder_park n"
    using assms(1,2) by (auto simp: idle_after_action ladder_action_def split: if_splits)
  then show ?thesis
    using assms(3) by (simp add: ladder_park_range ladder_park_mono ladder_park_capped)
qed

theorem idle_park_bounded_witness:
  "PARK_MIN \<le> 128000 \<and> (128000 :: int) \<le> 1000000 \<and> (1000000 :: int) \<le> PARK_MAX"
  using idle_park_bounded [of 31 Backoff 128000 40 1000000]
  by (simp add: idle_after_action ladder_action_def ladder_park_def park_bounds)

end
