(* ===== verification/Notify.thy ===== *)
theory Notify
  imports Prelude
begin

text \<open>
  The notify layer (\<^verbatim>\<open>src/notify.rs\<close>). A thread is a number; \<^verbatim>\<open>std::thread::park\<close>'s token is
  membership in the set \<open>tokens\<close>: \<open>unpark t\<close> puts \<open>t\<close> into it, a \<^verbatim>\<open>park\<close> of \<open>t\<close> can
  return once \<open>t\<close> is in it and takes it out. The mutexes guard single accesses, so each
  method that locks is one atomic update of the record. The \<^verbatim>\<open>loom\<close> build's variants, which
  replace the thread token by a mutex and a condition variable, follow in the second part.
\<close>

section \<open>Threads and park tokens\<close>

type_synonym tid = nat
type_synonym tokens = "tid set"

definition unpark :: "tid \<Rightarrow> tokens \<Rightarrow> tokens" where
  "unpark t tok = insert t tok"

text \<open>\<^verbatim>\<open>thread::park\<close>: returns, taking the token, or blocks (\<open>None\<close>).\<close>

definition thread_park :: "tid \<Rightarrow> tokens \<Rightarrow> tokens option" where
  "thread_park t tok = (if t \<in> tok then Some (tok - {t}) else None)"

section \<open>The single-waiter parker\<close>

record parker =
  pk_parked :: bool
  pk_slot :: "tid option"

definition parker_new :: parker where
  "parker_new = \<lparr>pk_parked = False, pk_slot = None\<rparr>"

definition prepare_park :: "tid \<Rightarrow> parker \<Rightarrow> parker" where
  "prepare_park me p = p\<lparr>pk_slot := Some me, pk_parked := True\<rparr>"

definition cancel :: "parker \<Rightarrow> parker" where
  "cancel p = p\<lparr>pk_parked := False\<rparr>"

text \<open>\<^verbatim>\<open>Parker::park\<close>: blocks in \<^verbatim>\<open>thread::park\<close>, then clears the flag.\<close>

definition park :: "tid \<Rightarrow> parker \<Rightarrow> tokens \<Rightarrow> (parker \<times> tokens) option" where
  "park me p tok =
     (case thread_park me tok of
        None \<Rightarrow> None
      | Some tok' \<Rightarrow> Some (p\<lparr>pk_parked := False\<rparr>, tok'))"

definition wake :: "parker \<Rightarrow> tokens \<Rightarrow> parker \<times> tokens" where
  "wake p tok =
     (if pk_parked p then
        (case pk_slot p of
           Some t \<Rightarrow> (p\<lparr>pk_parked := False, pk_slot := None\<rparr>, unpark t tok)
         | None \<Rightarrow> (p\<lparr>pk_parked := False\<rparr>, tok))
      else (p, tok))"

section \<open>The multi-waiter list\<close>

record waiter_list =
  wl_waiting :: bool
  wl_list :: "tid list"

definition waiter_list_new :: waiter_list where
  "waiter_list_new = \<lparr>wl_waiting = False, wl_list = []\<rparr>"

definition prepare_wait :: "tid \<Rightarrow> waiter_list \<Rightarrow> waiter_list" where
  "prepare_wait me w = w\<lparr>wl_list := wl_list w @ [me], wl_waiting := True\<rparr>"

definition waiter_park :: "tid \<Rightarrow> tokens \<Rightarrow> tokens option" where
  "waiter_park me tok = thread_park me tok"

definition wake_all :: "waiter_list \<Rightarrow> tokens \<Rightarrow> waiter_list \<times> tokens" where
  "wake_all w tok =
     (if wl_waiting w then (\<lparr>wl_waiting = False, wl_list = []\<rparr>, fold unpark (wl_list w) tok)
      else (w\<lparr>wl_waiting := False\<rparr>, tok))"

lemmas [chan_defs] =
  prepare_park_def cancel_def park_def wake_def prepare_wait_def waiter_park_def wake_all_def
  thread_park_def unpark_def parker_new_def waiter_list_new_def

lemma fold_unpark: "fold unpark ts tok = set ts \<union> tok"
  by (induction ts arbitrary: tok) (auto simp: unpark_def)

lemma wake_unparked [simp]: "\<not> pk_parked p \<Longrightarrow> wake p tok = (p, tok)"
  by (simp add: wake_def)

lemma wake_tokens_mono: "tok \<subseteq> snd (wake p tok)"
  by (auto simp: wake_def unpark_def split: option.splits)

lemma wake_all_tokens_mono: "tok \<subseteq> snd (wake_all w tok)"
  by (auto simp: wake_all_def fold_unpark)

lemma wake_registered:
  "pk_parked p \<Longrightarrow> pk_slot p = Some me \<Longrightarrow> me \<in> snd (wake p tok)"
  by (simp add: wake_def unpark_def)

text \<open>
  A parker is consistent when a raised flag has a registered thread behind it; every method
  keeps this, so a waker that sees the flag always finds somebody to unpark.
\<close>

definition parker_ok :: "parker \<Rightarrow> bool" where
  "parker_ok p \<longleftrightarrow> (pk_parked p \<longrightarrow> pk_slot p \<noteq> None)"

lemma parker_ok_ops [simp, intro]:
  "parker_ok parker_new"
  "parker_ok (prepare_park t p)"
  "parker_ok (cancel p)"
  "parker_ok p \<Longrightarrow> parker_ok (fst (wake p tok))"
  "park t p tok = Some (p', tok') \<Longrightarrow> parker_ok p'"
  by (auto simp: parker_ok_def chan_defs split: option.splits if_splits)

section \<open>The loom variants\<close>

text \<open>
  Under \<^verbatim>\<open>cfg(loom)\<close> the token lives in the parker (\<^verbatim>\<open>state: Mutex<bool>\<close>) and the waiter list
  counts wake generations (\<^verbatim>\<open>epoch\<close>). A condition-variable wait is the \<open>None\<close> branch.
\<close>

record loom_parker =
  lp_parked :: bool
  lp_state :: bool

definition loom_parker_new :: loom_parker where
  "loom_parker_new = \<lparr>lp_parked = False, lp_state = False\<rparr>"

definition loom_prepare_park :: "loom_parker \<Rightarrow> loom_parker" where
  "loom_prepare_park p = p\<lparr>lp_parked := True\<rparr>"

definition loom_cancel :: "loom_parker \<Rightarrow> loom_parker" where
  "loom_cancel p = p\<lparr>lp_parked := False\<rparr>"

definition loom_park :: "loom_parker \<Rightarrow> loom_parker option" where
  "loom_park p = (if lp_state p then Some (p\<lparr>lp_state := False, lp_parked := False\<rparr>) else None)"

definition loom_wake :: "loom_parker \<Rightarrow> loom_parker" where
  "loom_wake p = (if lp_parked p then p\<lparr>lp_parked := False, lp_state := True\<rparr> else p)"

record loom_waiters =
  lw_waiting :: bool
  lw_epoch :: usize

definition loom_waiters_new :: loom_waiters where
  "loom_waiters_new = \<lparr>lw_waiting = False, lw_epoch = 0\<rparr>"

definition loom_prepare_wait :: "loom_waiters \<Rightarrow> loom_waiters" where
  "loom_prepare_wait w = w\<lparr>lw_waiting := True\<rparr>"

text \<open>\<open>g0\<close> is the epoch that the waiter read when it took the lock.\<close>

definition loom_waiter_may_return :: "usize \<Rightarrow> loom_waiters \<Rightarrow> bool" where
  "loom_waiter_may_return g0 w \<longleftrightarrow> \<not> (lw_epoch w = g0 \<and> lw_waiting w)"

definition loom_wake_all :: "loom_waiters \<Rightarrow> loom_waiters" where
  "loom_wake_all w =
     (if lw_waiting w then w\<lparr>lw_waiting := False, lw_epoch := lw_epoch w + 1\<rparr>
      else w\<lparr>lw_waiting := False\<rparr>)"

text \<open>
  The loom parker simulates the real one for a single registered waiter: the flags agree and
  the mutex-guarded token is the thread's park token.
\<close>

definition loom_sim :: "tid \<Rightarrow> parker \<Rightarrow> tokens \<Rightarrow> loom_parker \<Rightarrow> bool" where
  "loom_sim me p tok lp \<longleftrightarrow>
     pk_parked p = lp_parked lp \<and> (me \<in> tok) = lp_state lp \<and> pk_slot p \<in> {None, Some me}
     \<and> parker_ok p"

lemma loom_sim_new: "loom_sim me parker_new {} loom_parker_new"
  by (simp add: loom_sim_def parker_new_def loom_parker_new_def parker_ok_def)

lemma loom_sim_prepare:
  "loom_sim me p tok lp \<Longrightarrow> loom_sim me (prepare_park me p) tok (loom_prepare_park lp)"
  by (auto simp: loom_sim_def prepare_park_def loom_prepare_park_def parker_ok_def)

lemma loom_sim_cancel:
  "loom_sim me p tok lp \<Longrightarrow> loom_sim me (cancel p) tok (loom_cancel lp)"
  by (auto simp: loom_sim_def cancel_def loom_cancel_def parker_ok_def)

lemma loom_sim_wake:
  "loom_sim me p tok lp \<Longrightarrow> loom_sim me (fst (wake p tok)) (snd (wake p tok)) (loom_wake lp)"
  by (auto simp: loom_sim_def wake_def loom_wake_def unpark_def parker_ok_def split: option.splits)

lemma loom_sim_park:
  "loom_sim me p tok lp \<Longrightarrow>
     (case park me p tok of
        None \<Rightarrow> loom_park lp = None
      | Some (p', tok') \<Rightarrow> (\<exists>lp'. loom_park lp = Some lp' \<and> loom_sim me p' tok' lp'))"
  by (auto simp: loom_sim_def park_def thread_park_def loom_park_def parker_ok_def)


text \<open>
  The waiter lists do not simulate each other. A sender \<open>a\<close> registers, the receiver's \<^verbatim>\<open>wake_all\<close> runs
  before \<open>a\<close> parks, and another sender registers: the real list has left \<open>a\<close> a token and its park returns at once;
  the loom list reads the generation after the wake and finds the flag raised again, so \<open>a\<close> waits for
  the next \<^verbatim>\<open>wake_all\<close>, which after a receiver's drop never comes.
\<close>

lemma loom_waiters_lose_wake:
  defines "after_wake \<equiv> \<lambda>w. loom_prepare_wait (loom_wake_all (loom_prepare_wait w))"
  shows "\<not> loom_waiter_may_return (lw_epoch (after_wake w)) (after_wake w)"
    and "waiter_park a (snd (wake_all (prepare_wait a v) tok)) \<noteq> None"
  by (simp_all add: after_wake_def loom_waiter_may_return_def loom_prepare_wait_def loom_wake_all_def chan_defs fold_unpark)

end
