(* ===== verification/Cells.thy ===== *)
theory Cells
  imports Prelude
begin

text \<open>
  Slots of a ring (\<^verbatim>\<open>UnsafeCell<MaybeUninit<T>>\<close> of \<^verbatim>\<open>src/atomic.rs\<close> and the two rings). A cell
  remembers whether its memory was never written, holds a value that nobody consumed, or held
  one that was moved out, so that each access of the source has a check for the obligation its
  \<^verbatim>\<open>SAFETY\<close> comment claims. The second part is the theory of a ring of such cells: which cells
  are live, the queue they hold, and how a write at the back and a read at the front change it.
\<close>

section \<open>One cell\<close>

datatype 'a cell = Uninit | Live 'a | Moved 'a

fun is_live :: "'a cell \<Rightarrow> bool" where
  "is_live (Live _) = True"
| "is_live _ = False"

fun cell_val :: "'a cell \<Rightarrow> 'a option" where
  "cell_val (Live v) = Some v"
| "cell_val _ = None"

text \<open>\<^verbatim>\<open>(*p).write(v)\<close>\<close>

fun cell_write :: "'a \<Rightarrow> 'a cell \<Rightarrow> 'a cell outcome" where
  "cell_write v (Live _) = Inl OverwriteLive"
| "cell_write v _ = Inr (Live v)"

text \<open>\<^verbatim>\<open>(*p).assume_init_read()\<close>: a bitwise copy out; the cell's value is moved.\<close>

fun assume_init_read :: "'a cell \<Rightarrow> ('a \<times> 'a cell) outcome" where
  "assume_init_read Uninit = Inl ReadUninit"
| "assume_init_read (Moved _) = Inl ReadMoved"
| "assume_init_read (Live v) = Inr (v, Moved v)"

text \<open>\<^verbatim>\<open>(*p).assume_init_drop()\<close>: runs the destructor of the value in place.\<close>

fun assume_init_drop :: "'a cell \<Rightarrow> ('a \<times> 'a cell) outcome" where
  "assume_init_drop Uninit = Inl ReadUninit"
| "assume_init_drop (Moved _) = Inl ReadMoved"
| "assume_init_drop (Live v) = Inr (v, Moved v)"

section \<open>A boxed slice of cells\<close>

text \<open>Indexing panics out of bounds; \<^verbatim>\<open>with\<close> and \<^verbatim>\<open>with_mut\<close> run a closure on the cell.\<close>

definition with_mut :: "('a cell \<Rightarrow> ('r \<times> 'a cell) outcome) \<Rightarrow> usize \<Rightarrow> 'a cell list \<Rightarrow>
    ('r \<times> 'a cell list) outcome" where
  "with_mut f i buf =
     (if unat i < length buf then
        obind (f (buf ! unat i)) (\<lambda>(r, c). Inr (r, buf[unat i := c]))
      else Inl (Panic ''index out of bounds''))"

definition slot_write :: "'a \<Rightarrow> usize \<Rightarrow> 'a cell list \<Rightarrow> 'a cell list outcome" where
  "slot_write v i buf =
     obind (with_mut (\<lambda>c. obind (cell_write v c) (\<lambda>c'. Inr ((), c'))) i buf) (\<lambda>(_, b). Inr b)"

definition slot_read :: "usize \<Rightarrow> 'a cell list \<Rightarrow> ('a \<times> 'a cell list) outcome" where
  "slot_read i buf = with_mut assume_init_read i buf"

definition slot_drop :: "usize \<Rightarrow> 'a cell list \<Rightarrow> ('a \<times> 'a cell list) outcome" where
  "slot_drop i buf = with_mut assume_init_drop i buf"

lemma slot_write_ok:
  "unat i < length buf \<Longrightarrow> \<not> is_live (buf ! unat i) \<Longrightarrow>
     slot_write v i buf = Inr (buf[unat i := Live v])"
  by (cases "buf ! unat i") (simp_all add: slot_write_def with_mut_def)

lemma slot_read_ok:
  "unat i < length buf \<Longrightarrow> buf ! unat i = Live v \<Longrightarrow>
     slot_read i buf = Inr (v, buf[unat i := Moved v])"
  by (simp add: slot_read_def with_mut_def)

lemma slot_drop_eq_read: "slot_drop i buf = slot_read i buf"
proof -
  have "assume_init_drop = (assume_init_read :: 'a cell \<Rightarrow> _)"
    by (rule ext, rule assume_init_drop.induct) simp_all
  then show ?thesis
    by (simp add: slot_drop_def slot_read_def)
qed

lemma is_live_conv: "is_live c \<longleftrightarrow> (\<exists>v. c = Live v)"
  by (cases c) simp_all

lemma cell_val_Some [simp]: "cell_val c = Some v \<longleftrightarrow> c = Live v"
  by (cases c) auto

section \<open>Rings of cells\<close>

text \<open>
  \<open>ring_ok buf h n\<close>: reading the slots from sequence number \<open>h\<close> on, exactly the first
  \<open>n\<close> are live. \<open>ring_queue buf h n\<close> is what they hold, oldest first.
\<close>

definition ring_ok :: "'a cell list \<Rightarrow> nat \<Rightarrow> nat \<Rightarrow> bool" where
  "ring_ok buf h n \<longleftrightarrow>
     0 < length buf \<and> n \<le> length buf \<and>
     (\<forall>i < length buf. is_live (buf ! ((h + i) mod length buf)) = (i < n))"

definition ring_queue :: "'a cell list \<Rightarrow> nat \<Rightarrow> nat \<Rightarrow> 'a list" where
  "ring_queue buf h n = window (\<lambda>j. the (cell_val (buf ! (j mod length buf)))) h n"

lemma ring_ok_bounds: "ring_ok buf h n \<Longrightarrow> 0 < length buf \<and> n \<le> length buf"
  by (simp add: ring_ok_def)

lemma length_ring_queue [simp]: "length (ring_queue buf h n) = n"
  by (simp add: ring_queue_def)

lemma ring_queue_0 [simp]: "ring_queue buf h 0 = []"
  by (simp add: ring_queue_def)

lemma ring_ok_live:
  "ring_ok buf h n \<Longrightarrow> i < length buf \<Longrightarrow>
     is_live (buf ! ((h + i) mod length buf)) \<longleftrightarrow> i < n"
  by (simp add: ring_ok_def)

text \<open>Only the head's position on the ring matters.\<close>

lemma ring_ok_mod_cong:
  assumes "h mod length buf = h' mod length buf"
  shows "ring_ok buf h n \<longleftrightarrow> ring_ok buf h' n"
proof -
  have "(h + i) mod length buf = (h' + i) mod length buf" for i
    using assms by (metis mod_add_left_eq)
  then show ?thesis
    by (simp add: ring_ok_def)
qed

lemma ring_queue_nth:
  "ring_queue buf h n = map (\<lambda>i. the (cell_val (buf ! ((h + i) mod length buf)))) [0..<n]"
  by (rule nth_equalityI) (simp_all add: ring_queue_def nth_window)

lemma ring_queue_mod_cong:
  assumes "h mod length buf = h' mod length buf"
  shows "ring_queue buf h n = ring_queue buf h' n"
proof -
  have "(h + i) mod length buf = (h' + i) mod length buf" for i
    using assms by (metis mod_add_left_eq)
  then show ?thesis
    by (simp add: ring_queue_nth)
qed

text \<open>A write behind the last live slot appends to the queue.\<close>

lemma ring_index_less: "i < c \<Longrightarrow> k mod c < c" for i k c :: nat
  by simp

lemma nth_ring_update:
  "i < length buf \<Longrightarrow> buf[k mod length buf := x] ! (k mod length buf) = x"
  by (rule nth_list_update_eq) (rule ring_index_less)

lemma ring_slot_neq:
  assumes "i < c" "j < c" "i \<noteq> j"
  shows "(h + i) mod c \<noteq> (h + j) mod (c :: nat)"
  using assms by (intro mod_neq_within_lap) auto

lemma ring_back_free:
  "ring_ok buf h n \<Longrightarrow> n < length buf \<Longrightarrow> \<not> is_live (buf ! ((h + n) mod length buf))"
  by (simp add: ring_ok_live)

lemma ring_ok_write:
  assumes ok: "ring_ok buf h n" and space: "n < length buf"
  shows "ring_ok (buf[(h + n) mod length buf := Live v]) h (Suc n)"
  unfolding ring_ok_def
proof (intro conjI allI impI)
  fix i
  assume i: "i < length (buf[(h + n) mod length buf := Live v])"
  show "is_live (buf[(h + n) mod length buf := Live v]
          ! ((h + i) mod length (buf[(h + n) mod length buf := Live v]))) = (i < Suc n)"
  proof (cases "i = n")
    case True
    with space show ?thesis by (simp add: nth_ring_update)
  next
    case False
    with i space have "(h + i) mod length buf \<noteq> (h + n) mod length buf"
      by (intro ring_slot_neq) auto
    with False i ring_ok_live [OF ok, of i] show ?thesis by auto
  qed
qed (use assms in \<open>auto simp: ring_ok_def\<close>)

lemma ring_queue_write:
  assumes space: "n < length buf"
  shows "ring_queue (buf[(h + n) mod length buf := Live v]) h (Suc n) = ring_queue buf h n @ [v]"
proof -
  have "buf[(h + n) mod length buf := Live v] ! ((h + i) mod length buf)
      = buf ! ((h + i) mod length buf)" if "i < n" for i
    using that space ring_slot_neq [of i "length buf" n h] by (subst nth_list_update_neq) auto
  then have "map (\<lambda>i. the (cell_val (buf[(h + n) mod length buf := Live v] ! ((h + i) mod length buf))))
        [0..<n] = ring_queue buf h n"
    by (simp add: ring_queue_nth)
  moreover have "buf[(h + n) mod length buf := Live v] ! ((h + n) mod length buf) = Live v"
    using space by (rule nth_ring_update)
  ultimately show ?thesis
    by (simp add: ring_queue_nth)
qed

text \<open>A read of the front slot takes the head of the queue.\<close>

lemma ring_front_live:
  assumes "ring_ok buf h (Suc n)"
  obtains v where "buf ! (h mod length buf) = Live v"
    and "ring_queue buf h (Suc n) = v # ring_queue buf (Suc h) n"
proof -
  from assms have "is_live (buf ! (h mod length buf))"
    using ring_ok_live [OF assms, of 0] ring_ok_bounds [OF assms] by simp
  then obtain v where "buf ! (h mod length buf) = Live v"
    by (auto simp: is_live_conv)
  then show thesis
    using that by (simp add: ring_queue_def window_Suc_front)
qed

lemma ring_ok_read:
  assumes ok: "ring_ok buf h (Suc n)"
  shows "ring_ok (buf[h mod length buf := Moved v]) (Suc h) n"
  unfolding ring_ok_def
proof (intro conjI allI impI)
  fix i
  let ?b = "buf[h mod length buf := Moved v]"
  assume i: "i < length ?b"
  from ok have pos: "0 < length buf" by (simp add: ring_ok_def)
  show "is_live (?b ! ((Suc h + i) mod length ?b)) = (i < n)"
  proof (cases "Suc i = length buf")
    case True
    then have "(Suc h + i) mod length buf = h mod length buf"
      by (metis add_Suc_shift mod_add_self2)
    moreover from True ok have "n \<le> i" by (auto simp: ring_ok_def)
    ultimately show ?thesis
      using pos by simp
  next
    case False
    with i have less: "Suc i < length buf" by simp
    then have "(h + Suc i) mod length buf \<noteq> (h + 0) mod length buf"
      using pos by (intro ring_slot_neq) auto
    then show ?thesis
      using ring_ok_live [OF ok less] by simp
  qed
qed (use ok in \<open>auto simp: ring_ok_def\<close>)

lemma ring_queue_read:
  assumes ok: "ring_ok buf h (Suc n)"
  shows "ring_queue (buf[h mod length buf := Moved v]) (Suc h) n = ring_queue buf (Suc h) n"
proof -
  from ok have "Suc n \<le> length buf" by (simp add: ring_ok_def)
  then have "(h + Suc i) mod length buf \<noteq> (h + 0) mod length buf" if "i < n" for i
    using that by (intro ring_slot_neq) auto
  then have "buf[h mod length buf := Moved v] ! ((Suc h + i) mod length buf)
      = buf ! ((Suc h + i) mod length buf)" if "i < n" for i
    using that by (metis add.right_neutral add_Suc_shift nth_list_update_neq)
  then show ?thesis
    by (simp add: ring_queue_nth)
qed

lemma ring_ok_new: "0 < c \<Longrightarrow> ring_ok (replicate c Uninit) 0 0"
  by (simp add: ring_ok_def)

text \<open>Live cells as a multiset do not depend on where the ring starts.\<close>

lemma ring_none_live:
  assumes ok: "ring_ok buf h 0" and mem: "c \<in> set buf"
  shows "\<not> is_live c"
proof -
  from mem obtain k where k: "k < length buf" "buf ! k = c"
    by (auto simp: in_set_conv_nth)
  define L where "L = length buf"
  from k have L: "0 < L" "k < L" by (auto simp: L_def)
  define i where "i = (k + (L - h mod L)) mod L"
  have "(h + i) mod L = (h mod L + (k + (L - h mod L))) mod L"
    unfolding i_def by (metis mod_add_eq mod_mod_trivial)
  also have "h mod L + (k + (L - h mod L)) = k + L"
    using mod_less_divisor [OF L(1), of h] by linarith
  also have "(k + L) mod L = k"
    using L by simp
  finally have "(h + i) mod L = k" .
  moreover have "i < L"
    using L by (simp add: i_def)
  ultimately show ?thesis
    using ring_ok_live [OF ok, of i] k by (simp add: L_def)
qed

end
