(* ===== verification/Channel_Spec.thy ===== *)
theory Channel_Spec
  imports Errors
begin

text \<open>
  What a bounded single-consumer channel promises, as a queue with a capacity. The locale
  \<open>bounded_channel\<close> is the interface between a ring and its clients: a ring's operations,
  seen through an abstraction function, are those of the queue. Everything a client may rely
  on (no operation faults, FIFO delivery, nothing lost or duplicated, the capacity bound) is
  proved once inside the locale, for every program of sends, receives and drains.
\<close>

section \<open>The bounded queue\<close>

record 'a bchan =
  bc_queue :: "'a list"
  bc_cap :: nat
  bc_senders :: nat
  bc_rx_live :: bool
  bc_quota :: "nat option"

text \<open>
  \<open>bc_quota\<close> is the number of values that the channel will still accept in its life; \<open>None\<close> is
  "no limit". (A sequence counter that may not wrap around gives a channel such a limit.)
\<close>

definition spec_try_send ::
    "'a \<Rightarrow> 'a bchan \<Rightarrow> (unit, 'a try_send_error) rust_result \<times> 'a bchan" where
  "spec_try_send v c =
     (if \<not> bc_rx_live c then (Err (SendDisconnected v), c)
      else if length (bc_queue c) = bc_cap c \<or> bc_quota c = Some 0 then (Err (Full v), c)
      else (Ok (), c\<lparr>bc_queue := bc_queue c @ [v], bc_quota := map_option (\<lambda>n. n - 1) (bc_quota c)\<rparr>))"

definition spec_try_recv :: "'a bchan \<Rightarrow> ('a, try_recv_error) rust_result \<times> 'a bchan" where
  "spec_try_recv c =
     (case bc_queue c of
        x # xs \<Rightarrow> (Ok x, c\<lparr>bc_queue := xs\<rparr>)
      | [] \<Rightarrow> (Err (if bc_senders c = 0 then RecvDisconnected else Empty), c))"

definition spec_drain :: "nat \<Rightarrow> 'a bchan \<Rightarrow> 'a list \<times> 'a bchan" where
  "spec_drain n c = (take n (bc_queue c), c\<lparr>bc_queue := drop n (bc_queue c)\<rparr>)"

definition bchan_ok :: "'a bchan \<Rightarrow> bool" where
  "bchan_ok c \<longleftrightarrow> 0 < bc_cap c \<and> length (bc_queue c) \<le> bc_cap c"

abbreviation fresh_bchan :: "usize \<Rightarrow> 'a bchan" where
  "fresh_bchan cap \<equiv> \<lparr>bc_queue = [], bc_cap = unat cap, bc_senders = 1, bc_rx_live = True,
     bc_quota = None\<rparr>"

section \<open>Programs and their events\<close>

datatype ('p, 'a) chan_op = OpSend 'p 'a | OpRecv | OpDrain usize

datatype ('p, 'a) chan_event =
    EvSend 'p 'a "(unit, 'a try_send_error) rust_result"
  | EvRecv "('a, try_recv_error) rust_result"
  | EvDrain "'a list"

fun spec_step :: "('p, 'a) chan_op \<Rightarrow> 'a bchan \<Rightarrow> ('p, 'a) chan_event \<times> 'a bchan" where
  "spec_step (OpSend p v) c = (let (r, c') = spec_try_send v c in (EvSend p v r, c'))"
| "spec_step OpRecv c = (let (r, c') = spec_try_recv c in (EvRecv r, c'))"
| "spec_step (OpDrain n) c = (let (vs, c') = spec_drain (unat n) c in (EvDrain vs, c'))"

fun spec_run :: "('p, 'a) chan_op list \<Rightarrow> 'a bchan \<Rightarrow> ('p, 'a) chan_event list \<times> 'a bchan" where
  "spec_run [] c = ([], c)"
| "spec_run (p # ps) c =
     (let (e, c1) = spec_step p c; (es, c2) = spec_run ps c1 in (e # es, c2))"

text \<open>Values that the channel took and values that it gave out, in order.\<close>

fun accepted :: "('p, 'a) chan_event list \<Rightarrow> 'a list" where
  "accepted [] = []"
| "accepted (EvSend _ v (Ok _) # es) = v # accepted es"
| "accepted (_ # es) = accepted es"

fun delivered :: "('p, 'a) chan_event list \<Rightarrow> 'a list" where
  "delivered [] = []"
| "delivered (EvRecv (Ok v) # es) = v # delivered es"
| "delivered (EvDrain vs # es) = vs @ delivered es"
| "delivered (_ # es) = delivered es"

lemma spec_try_send_ok: "bchan_ok c \<Longrightarrow> bchan_ok (snd (spec_try_send v c))"
  by (auto simp: bchan_ok_def spec_try_send_def)

lemma spec_try_recv_ok: "bchan_ok c \<Longrightarrow> bchan_ok (snd (spec_try_recv c))"
  by (auto simp: bchan_ok_def spec_try_recv_def split: list.splits)

lemma spec_drain_ok: "bchan_ok c \<Longrightarrow> bchan_ok (snd (spec_drain n c))"
  by (auto simp: bchan_ok_def spec_drain_def)

lemma spec_step_frame:
  "bc_cap (snd (spec_step p c)) = bc_cap c"
  "bc_senders (snd (spec_step p c)) = bc_senders c"
  "bc_rx_live (snd (spec_step p c)) = bc_rx_live c"
  by (cases p; simp add: spec_try_send_def spec_try_recv_def spec_drain_def split: list.splits)+

lemma spec_step_ok: "bchan_ok c \<Longrightarrow> bchan_ok (snd (spec_step p c))"
  using spec_try_send_ok [of c] spec_try_recv_ok [of c] spec_drain_ok [of c]
  by (cases p) (simp_all add: case_prod_unfold Let_def)

lemma spec_step_conserves:
  "bc_queue c @ accepted [fst (spec_step p c)]
     = delivered [fst (spec_step p c)] @ bc_queue (snd (spec_step p c))"
  by (cases p) (simp_all add: spec_try_send_def spec_try_recv_def spec_drain_def split: list.splits)

lemma accepted_Cons: "accepted (e # es) = accepted [e] @ accepted es"
proof (cases e)
  case (EvSend p v r)
  then show ?thesis by (cases r) simp_all
qed simp_all

lemma delivered_Cons: "delivered (e # es) = delivered [e] @ delivered es"
proof (cases e)
  case (EvRecv r)
  then show ?thesis by (cases r) simp_all
qed simp_all

lemma spec_run_conserves:
  "bc_queue c @ accepted (fst (spec_run ps c))
     = delivered (fst (spec_run ps c)) @ bc_queue (snd (spec_run ps c))"
proof (induction ps arbitrary: c)
  case Nil
  show ?case by simp
next
  case (Cons p ps)
  let ?e = "fst (spec_step p c)" and ?c = "snd (spec_step p c)"
  let ?r = "spec_run ps ?c"
  have unfold: "spec_run (p # ps) c = (?e # fst ?r, snd ?r)"
    by (simp add: case_prod_unfold Let_def)
  have "bc_queue c @ accepted (?e # fst ?r) = (bc_queue c @ accepted [?e]) @ accepted (fst ?r)"
    by (subst accepted_Cons) simp
  also have "\<dots> = delivered [?e] @ (bc_queue ?c @ accepted (fst ?r))"
    by (subst spec_step_conserves) simp
  also have "\<dots> = delivered [?e] @ delivered (fst ?r) @ bc_queue (snd ?r)"
    by (simp add: Cons.IH)
  finally show ?case
    unfolding unfold by (simp add: delivered_Cons [of ?e "fst ?r"])
qed

lemma spec_run_ok: "bchan_ok c \<Longrightarrow> bchan_ok (snd (spec_run ps c))"
  by (induction ps arbitrary: c) (auto simp: case_prod_unfold Let_def spec_step_ok)

lemma spec_run_frame:
  "bc_cap (snd (spec_run ps c)) = bc_cap c"
  "bc_senders (snd (spec_run ps c)) = bc_senders c"
  "bc_rx_live (snd (spec_run ps c)) = bc_rx_live c"
  by (induction ps arbitrary: c) (simp_all add: case_prod_unfold Let_def spec_step_frame)

lemma spec_run_append:
  "spec_run (ps @ qs) c =
     (let (es, c1) = spec_run ps c; (fs, c2) = spec_run qs c1 in (es @ fs, c2))"
  by (induction ps arbitrary: c) (simp_all add: case_prod_unfold Let_def)

lemma accepted_append: "accepted (es @ fs) = accepted es @ accepted fs"
proof (induction es)
  case (Cons e es)
  then show ?case
    by (metis accepted_Cons append_Cons append_assoc)
qed simp

lemma delivered_append: "delivered (es @ fs) = delivered es @ delivered fs"
proof (induction es)
  case (Cons e es)
  then show ?case
    by (metis delivered_Cons append_Cons append_assoc)
qed simp

text \<open>A value sent and received at once, \<open>n\<close> times over.\<close>

lemma spec_run_ping_pong:
  assumes "0 < unat cap"
  shows "\<exists>es. spec_run (concat (replicate n [OpSend p v, OpRecv])) (fresh_bchan cap) = (es, fresh_bchan cap)
    \<and> accepted es = replicate n v \<and> delivered es = replicate n v"
proof (induction n)
  case 0
  show ?case by simp
next
  case (Suc n)
  then obtain es where "spec_run (concat (replicate n [OpSend p v, OpRecv])) (fresh_bchan cap)
      = (es, fresh_bchan cap)" "accepted es = replicate n v" "delivered es = replicate n v"
    by blast
  with assms show ?case
    by (simp add: spec_try_send_def spec_try_recv_def)
qed

lemma spec_run_length: "length (fst (spec_run ps c)) = length ps"
  by (induction ps arbitrary: c) (simp_all add: case_prod_unfold Let_def)

lemma accepted_length: "length (accepted es) \<le> length es"
  by (induction es rule: accepted.induct) simp_all

lemma spec_run_accepted_le: "length (accepted (fst (spec_run ps c))) \<le> length ps"
  using accepted_length [of "fst (spec_run ps c)"] by (simp add: spec_run_length)

section \<open>Draining\<close>

text \<open>How a \<^verbatim>\<open>drain\<close> ends: with the count of consumed values, or unwound by the closure's panic.\<close>

datatype drain_exit = Returned usize | Unwound

text \<open>
  The values that a closure takes from a queue, up to \<open>n\<close> of them: it stops behind the
  first value on which the closure panics.
\<close>

fun feed :: "('a \<Rightarrow> 's \<Rightarrow> bool \<times> 's) \<Rightarrow> nat \<Rightarrow> 'a list \<Rightarrow> 's \<Rightarrow> bool \<times> nat \<times> 's" where
  "feed f 0 q s = (False, 0, s)"
| "feed f (Suc n) [] s = (False, 0, s)"
| "feed f (Suc n) (v # q) s =
     (let (panicked, s') = f v s
      in if panicked then (True, 1, s')
         else let (p, k, s'') = feed f n q s' in (p, Suc k, s''))"

lemma feed_count: "feed f n q s = (p, k, s') \<Longrightarrow> k \<le> n \<and> k \<le> length q"
  by (induction f n q s arbitrary: p k s' rule: feed.induct)
    (auto simp: Let_def split: prod.splits if_splits)

lemma feed_Nil [simp]: "feed f n [] s = (False, 0, s)"
  by (cases n) simp_all

text \<open>Draining into a vector, as \<^verbatim>\<open>drain(max, |v| got.push(v))\<close> does.\<close>

definition push_back :: "'a \<Rightarrow> 'a list \<Rightarrow> bool \<times> 'a list" where
  "push_back v got = (False, got @ [v])"

lemma feed_push_back: "feed push_back n q got = (False, min n (length q), got @ take n q)"
  by (induction n arbitrary: q got; case_tac q) (auto simp: push_back_def)

section \<open>Running a program on an implementation\<close>

fun impl_step ::
    "('p \<Rightarrow> 'a \<Rightarrow> 'c \<Rightarrow> ((unit, 'a try_send_error) rust_result \<times> 'c) outcome) \<Rightarrow>
     ('c \<Rightarrow> (('a, try_recv_error) rust_result \<times> 'c) outcome) \<Rightarrow>
     (usize \<Rightarrow> 'c \<Rightarrow> ('a list \<times> 'c) outcome) \<Rightarrow>
     ('p, 'a) chan_op \<Rightarrow> 'c \<Rightarrow> (('p, 'a) chan_event \<times> 'c) outcome" where
  "impl_step ts tr dr (OpSend p v) c = obind (ts p v c) (\<lambda>(r, c'). Inr (EvSend p v r, c'))"
| "impl_step ts tr dr OpRecv c = obind (tr c) (\<lambda>(r, c'). Inr (EvRecv r, c'))"
| "impl_step ts tr dr (OpDrain n) c = obind (dr n c) (\<lambda>(vs, c'). Inr (EvDrain vs, c'))"

fun impl_run ::
    "('p \<Rightarrow> 'a \<Rightarrow> 'c \<Rightarrow> ((unit, 'a try_send_error) rust_result \<times> 'c) outcome) \<Rightarrow>
     ('c \<Rightarrow> (('a, try_recv_error) rust_result \<times> 'c) outcome) \<Rightarrow>
     (usize \<Rightarrow> 'c \<Rightarrow> ('a list \<times> 'c) outcome) \<Rightarrow>
     ('p, 'a) chan_op list \<Rightarrow> 'c \<Rightarrow> (('p, 'a) chan_event list \<times> 'c) outcome" where
  "impl_run ts tr dr [] c = Inr ([], c)"
| "impl_run ts tr dr (p # ps) c =
     obind (impl_step ts tr dr p c) (\<lambda>(e, c1).
     obind (impl_run ts tr dr ps c1) (\<lambda>(es, c2). Inr (e # es, c2)))"

section \<open>The other side of a blocked thread\<close>

text \<open>
  What the peer of a blocked sender (receiver) may do between two of its attempts. A fault would
  leave the channel as it is; the refinement results show that there is none.
\<close>

datatype rx_action = RxIdle | RxTryRecv | RxDrain usize | RxDrop

datatype 'a tx_action = TxIdle | TxTrySend 'a | TxDrop

definition after_outcome :: "'c \<Rightarrow> ('r \<times> 'c) outcome \<Rightarrow> 'c" where
  "after_outcome c m = (case m of Inl _ \<Rightarrow> c | Inr (_, c') \<Rightarrow> c')"

lemma after_outcome_simps [simp]:
  "after_outcome c (Inl e) = c"
  "after_outcome c (Inr (r, c')) = c'"
  by (simp_all add: after_outcome_def)

fun rx_act ::
    "('c \<Rightarrow> (('a, try_recv_error) rust_result \<times> 'c) outcome) \<Rightarrow>
     (usize \<Rightarrow> 'c \<Rightarrow> ('a list \<times> 'c) outcome) \<Rightarrow> ('c \<Rightarrow> ('d \<times> 'c) outcome) \<Rightarrow>
     rx_action \<Rightarrow> 'c \<Rightarrow> 'c" where
  "rx_act tr dr dp RxIdle c = c"
| "rx_act tr dr dp RxTryRecv c = after_outcome c (tr c)"
| "rx_act tr dr dp (RxDrain n) c = after_outcome c (dr n c)"
| "rx_act tr dr dp RxDrop c = after_outcome c (dp c)"

fun tx_act ::
    "('a \<Rightarrow> 'c \<Rightarrow> ((unit, 'a try_send_error) rust_result \<times> 'c) outcome) \<Rightarrow>
     ('c \<Rightarrow> ('d \<times> 'c) outcome) \<Rightarrow> 'a tx_action \<Rightarrow> 'c \<Rightarrow> 'c" where
  "tx_act ts dp TxIdle c = c"
| "tx_act ts dp (TxTrySend v) c = after_outcome c (ts v c)"
| "tx_act ts dp TxDrop c = after_outcome c (dp c)"

text \<open>Actions that make room, or bring a value: the ones that end the peer's wait.\<close>

fun rx_progress :: "rx_action \<Rightarrow> bool" where
  "rx_progress RxIdle = False"
| "rx_progress RxTryRecv = True"
| "rx_progress (RxDrain n) = (n > 0)"
| "rx_progress RxDrop = True"

fun tx_progress :: "'a tx_action \<Rightarrow> bool" where
  "tx_progress TxIdle = False"
| "tx_progress (TxTrySend _) = True"
| "tx_progress TxDrop = True"

definition has_room :: "'a bchan \<Rightarrow> bool" where
  "has_room c \<longleftrightarrow>
     \<not> bc_rx_live c \<or> length (bc_queue c) < bc_cap c \<and> bc_quota c \<noteq> Some 0"

definition has_item :: "'a bchan \<Rightarrow> bool" where
  "has_item c \<longleftrightarrow> bc_senders c = 0 \<or> bc_queue c \<noteq> []"

section \<open>The interface\<close>

text \<open>
  The producers' handles have type \<open>'p\<close>; \<open>live p c\<close> says that handle \<open>p\<close> was not dropped. A
  program is admissible in a state when all the handles it uses are live, and the receiver is.
\<close>

locale bounded_channel =
  fixes invar :: "'c \<Rightarrow> bool"
    and abs :: "'c \<Rightarrow> 'a bchan"
    and live :: "'p \<Rightarrow> 'c \<Rightarrow> bool"
    and try_send :: "'p \<Rightarrow> 'a \<Rightarrow> 'c \<Rightarrow> ((unit, 'a try_send_error) rust_result \<times> 'c) outcome"
    and try_recv :: "'c \<Rightarrow> (('a, try_recv_error) rust_result \<times> 'c) outcome"
    and drain :: "usize \<Rightarrow> 'c \<Rightarrow> ('a list \<times> 'c) outcome"
  assumes abs_ok: "invar c \<Longrightarrow> bchan_ok (abs c)"
    and send_refines: "\<lbrakk>invar c; live p c\<rbrakk> \<Longrightarrow>
      \<exists>c'. try_send p v c = Inr (fst (spec_try_send v (abs c)), c') \<and> invar c'
        \<and> abs c' = snd (spec_try_send v (abs c)) \<and> (\<forall>q. live q c' = live q c)"
    and recv_refines: "\<lbrakk>invar c; bc_rx_live (abs c)\<rbrakk> \<Longrightarrow>
      \<exists>c'. try_recv c = Inr (fst (spec_try_recv (abs c)), c') \<and> invar c'
        \<and> abs c' = snd (spec_try_recv (abs c)) \<and> (\<forall>q. live q c' = live q c)"
    and drain_refines: "\<lbrakk>invar c; bc_rx_live (abs c)\<rbrakk> \<Longrightarrow>
      \<exists>c'. drain n c = Inr (fst (spec_drain (unat n) (abs c)), c') \<and> invar c'
        \<and> abs c' = snd (spec_drain (unat n) (abs c)) \<and> (\<forall>q. live q c' = live q c)"
begin

definition admissible :: "('p, 'a) chan_op list \<Rightarrow> 'c \<Rightarrow> bool" where
  "admissible ps c \<longleftrightarrow> bc_rx_live (abs c) \<and> (\<forall>p v. OpSend p v \<in> set ps \<longrightarrow> live p c)"

lemma step_refines:
  assumes "invar c" "admissible (p # ps) c"
  obtains c' where "impl_step try_send try_recv drain p c = Inr (fst (spec_step p (abs c)), c')"
    and "invar c'" and "abs c' = snd (spec_step p (abs c))" and "admissible ps c'"
proof -
  have next_ok: "admissible ps c'"
    if "abs c' = snd (spec_step p (abs c))" "\<forall>q. live q c' = live q c" for c'
    using that assms(2) by (auto simp: admissible_def spec_step_frame)
  show thesis
  proof (cases p)
    case (OpSend q v)
    with assms have "live q c" by (auto simp: admissible_def)
    with assms(1) obtain c' where "try_send q v c = Inr (fst (spec_try_send v (abs c)), c')"
      "invar c'" "abs c' = snd (spec_try_send v (abs c))" "\<forall>q. live q c' = live q c"
      using send_refines [of c q v] by blast
    with OpSend next_ok [of c'] that [of c'] show thesis
      by (simp add: case_prod_unfold Let_def)
  next
    case OpRecv
    from assms obtain c' where "try_recv c = Inr (fst (spec_try_recv (abs c)), c')"
      "invar c'" "abs c' = snd (spec_try_recv (abs c))" "\<forall>q. live q c' = live q c"
      using recv_refines [of c] by (auto simp: admissible_def)
    with OpRecv next_ok [of c'] that [of c'] show thesis
      by (simp add: case_prod_unfold Let_def)
  next
    case (OpDrain n)
    from assms obtain c' where "drain n c = Inr (fst (spec_drain (unat n) (abs c)), c')"
      "invar c'" "abs c' = snd (spec_drain (unat n) (abs c))" "\<forall>q. live q c' = live q c"
      using drain_refines [of c n] by (auto simp: admissible_def)
    with OpDrain next_ok [of c'] that [of c'] show thesis
      by (simp add: case_prod_unfold Let_def)
  qed
qed

lemma run_refines:
  assumes "invar c" "admissible ps c"
  shows "\<exists>c'. impl_run try_send try_recv drain ps c = Inr (fst (spec_run ps (abs c)), c')
      \<and> invar c' \<and> abs c' = snd (spec_run ps (abs c))"
  using assms
proof (induction ps arbitrary: c)
  case Nil
  then show ?case by simp
next
  case (Cons p ps)
  obtain c1 where s: "impl_step try_send try_recv drain p c = Inr (fst (spec_step p (abs c)), c1)"
    and i: "invar c1" and a: "abs c1 = snd (spec_step p (abs c))" and ok: "admissible ps c1"
    using Cons.prems by (rule step_refines)
  from Cons.IH [OF i ok] obtain c2
    where "impl_run try_send try_recv drain ps c1 = Inr (fst (spec_run ps (abs c1)), c2)"
      "invar c2" "abs c2 = snd (spec_run ps (abs c1))"
    by blast
  with s a show ?case
    by (simp add: case_prod_unfold Let_def)
qed

text \<open>The client's view: FIFO, no loss, no duplication, bounded occupancy.\<close>

lemma run_fifo:
  assumes "invar c" "admissible ps c"
  shows "\<exists>es c'. impl_run try_send try_recv drain ps c = Inr (es, c') \<and> invar c'
      \<and> bc_queue (abs c) @ accepted es = delivered es @ bc_queue (abs c')
      \<and> length (bc_queue (abs c')) \<le> bc_cap (abs c)"
proof -
  obtain c' where run: "impl_run try_send try_recv drain ps c = Inr (fst (spec_run ps (abs c)), c')"
    and i: "invar c'" and a: "abs c' = snd (spec_run ps (abs c))"
    using run_refines [OF assms] by blast
  have "length (bc_queue (abs c')) \<le> bc_cap (abs c')"
    using abs_ok [OF i] by (simp add: bchan_ok_def)
  then show ?thesis
    using run i spec_run_conserves [of "abs c" ps] by (auto simp: a spec_run_frame)
qed

text \<open>Once the senders are gone the receiver still gets what is queued, then \<^verbatim>\<open>Disconnected\<close>.\<close>

lemma disconnect_drains:
  assumes "invar c" "bc_rx_live (abs c)" "bc_senders (abs c) = 0"
  shows "\<exists>c'. impl_run try_send try_recv drain (replicate (length (bc_queue (abs c)) + m) OpRecv) c
      = Inr (map (\<lambda>v. EvRecv (Ok v)) (bc_queue (abs c))
             @ replicate m (EvRecv (Err RecvDisconnected)), c')
      \<and> invar c' \<and> abs c' = (abs c)\<lparr>bc_queue := []\<rparr>"
  using assms
proof (induction "length (bc_queue (abs c)) + m" arbitrary: c m)
  case 0
  then show ?case by (auto intro!: exI [of _ c])
next
  case (Suc n)
  from recv_refines [OF Suc.prems(1,2)] obtain c1
    where r: "try_recv c = Inr (fst (spec_try_recv (abs c)), c1)" "invar c1"
      "abs c1 = snd (spec_try_recv (abs c))"
    by blast
  show ?case
  proof (cases "bc_queue (abs c)")
    case Nil
    then obtain m' where m: "m = Suc m'" using Suc.hyps(2) by (cases m) auto
    with Nil r Suc.prems have "n = length (bc_queue (abs c1)) + m'" "abs c1 = abs c"
      using Suc.hyps(2) by (simp_all add: spec_try_recv_def)
    with Suc.hyps(1) [of c1 m'] r Suc.prems Nil m show ?thesis
      by (auto simp: spec_try_recv_def)
  next
    case (Cons v q)
    with r Suc.prems have a: "abs c1 = (abs c)\<lparr>bc_queue := q\<rparr>"
      by (simp add: spec_try_recv_def)
    with Cons Suc.hyps(2) have "n = length (bc_queue (abs c1)) + m" by simp
    with Suc.hyps(1) [of c1 m] r Suc.prems Cons a show ?thesis
      by (auto simp: spec_try_recv_def)
  qed
qed

text \<open>Once the receiver is gone every send fails and hands its value back.\<close>

lemma send_after_disconnect:
  assumes "invar c" "live p c" "\<not> bc_rx_live (abs c)"
  shows "\<exists>c'. try_send p v c = Inr (Err (SendDisconnected v), c') \<and> invar c' \<and> abs c' = abs c"
  using send_refines [OF assms(1,2), of v] assms(3) by (auto simp: spec_try_send_def)

end

end
