(* ===== verification/Blocking.thy ===== *)
theory Blocking
  imports Errors Wait Notify
begin

text \<open>
  The loop that every blocking operation of the crate is written as (\<^verbatim>\<open>send\<close> and \<^verbatim>\<open>recv\<close> of
  \<^verbatim>\<open>src/spsc.rs\<close>, \<^verbatim>\<open>src/mpsc.rs\<close> and \<^verbatim>\<open>src/sharded.rs\<close>): try, return on success or
  disconnection, otherwise wait as the strategy says and try again. The loop may run for ever,
  so it is fuelled; \<open>None\<close> is "still looping". Between two iterations the other threads act:
  \<open>env k\<close> is what they do to the state before iteration \<open>k + 1\<close>. A thread that blocks in
  \<^verbatim>\<open>thread::park\<close> stays in \<open>blocked_loop\<close> until its token is set.
\<close>

fun block_loop ::
    "('s \<Rightarrow> ('r option \<times> 's) outcome) \<Rightarrow> ('s \<Rightarrow> (bool \<times> 's) outcome) \<Rightarrow> ('s \<Rightarrow> 's option) \<Rightarrow>
     (nat \<Rightarrow> 's \<Rightarrow> 's) \<Rightarrow> nat \<Rightarrow> nat \<Rightarrow> 's \<Rightarrow> ('r \<times> 's) option outcome"
  and blocked_loop ::
    "('s \<Rightarrow> ('r option \<times> 's) outcome) \<Rightarrow> ('s \<Rightarrow> (bool \<times> 's) outcome) \<Rightarrow> ('s \<Rightarrow> 's option) \<Rightarrow>
     (nat \<Rightarrow> 's \<Rightarrow> 's) \<Rightarrow> nat \<Rightarrow> nat \<Rightarrow> 's \<Rightarrow> ('r \<times> 's) option outcome" where
  "block_loop attempt wait resume env 0 k s = Inr None"
| "block_loop attempt wait resume env (Suc n) k s =
     (case attempt s of
        Inl e \<Rightarrow> Inl e
      | Inr (Some r, s1) \<Rightarrow> Inr (Some (r, s1))
      | Inr (None, s1) \<Rightarrow>
          (case wait s1 of
             Inl e \<Rightarrow> Inl e
           | Inr (blocked, s2) \<Rightarrow>
               (if blocked then blocked_loop attempt wait resume env n (Suc k) (env k s2)
                else block_loop attempt wait resume env n (Suc k) (env k s2))))"
| "blocked_loop attempt wait resume env 0 k s = Inr None"
| "blocked_loop attempt wait resume env (Suc n) k s =
     (case resume s of
        Some s1 \<Rightarrow> block_loop attempt wait resume env n (Suc k) (env k s1)
      | None \<Rightarrow> blocked_loop attempt wait resume env n (Suc k) (env k s))"

text \<open>More fuel never changes a result.\<close>

lemma block_loop_mono:
  "block_loop a w r env n k s = Inr (Some x) \<Longrightarrow> n \<le> m \<Longrightarrow>
     block_loop a w r env m k s = Inr (Some x)"
  "blocked_loop a w r env n k s = Inr (Some x) \<Longrightarrow> n \<le> m \<Longrightarrow>
     blocked_loop a w r env m k s = Inr (Some x)"
proof (induction n arbitrary: m k s)
  case 0
  {
    case 1
    then show ?case by simp
  next
    case 2
    then show ?case by simp
  }
next
  case (Suc n)
  {
    case 1
    then obtain m' where "m = Suc m'" "n \<le> m'" by (cases m) auto
    with 1 Suc.IH show ?case
      by (auto split: sum.splits option.splits prod.splits if_splits)
  next
    case 2
    then obtain m' where "m = Suc m'" "n \<le> m'" by (cases m) auto
    with 2 Suc.IH show ?case
      by (auto split: option.splits)
  }
qed

lemma block_loop_ready:
  "attempt s = Inr (Some r, s') \<Longrightarrow> 0 < n \<Longrightarrow>
     block_loop attempt wait resume env n k s = Inr (Some (r, s'))"
  by (cases n) simp_all

text \<open>
  A blocking loop as an interface: an invariant of the state that an unsuccessful attempt,
  a wait, a wake-up and the other threads keep (it may depend on the iteration, since the other
  threads' schedule does). Then the loop never faults, and what it returns was returned by an
  attempt in a state that satisfies the invariant.
\<close>

locale blocking_operation =
  fixes attempt :: "'s \<Rightarrow> ('r option \<times> 's) outcome"
    and wait :: "'s \<Rightarrow> (bool \<times> 's) outcome"
    and resume :: "'s \<Rightarrow> 's option"
    and env :: "nat \<Rightarrow> 's \<Rightarrow> 's"
    and good :: "nat \<Rightarrow> 's \<Rightarrow> bool"
  assumes attempt_total: "good k s \<Longrightarrow> \<exists>r s'. attempt s = Inr (r, s') \<and> (r = None \<longrightarrow> good k s')"
    and wait_total: "\<lbrakk>good k s; attempt s = Inr (None, s')\<rbrakk> \<Longrightarrow>
      \<exists>b s''. wait s' = Inr (b, s'') \<and> good k s''"
    and resume_good: "\<lbrakk>good k s; resume s = Some s'\<rbrakk> \<Longrightarrow> good k s'"
    and env_good: "good k s \<Longrightarrow> good (Suc k) (env k s)"
begin

definition returned_by_attempt :: "('r \<times> 's) option \<Rightarrow> bool" where
  "returned_by_attempt x \<longleftrightarrow>
     (case x of None \<Rightarrow> True | Some (r, s') \<Rightarrow> (\<exists>j s0. good j s0 \<and> attempt s0 = Inr (Some r, s')))"

lemma loop_total:
  "good k s \<Longrightarrow> \<exists>x. block_loop attempt wait resume env n k s = Inr x \<and> returned_by_attempt x"
  "good k s \<Longrightarrow> \<exists>x. blocked_loop attempt wait resume env n k s = Inr x \<and> returned_by_attempt x"
proof (induction n arbitrary: k s)
  case 0
  {
    case 1
    then show ?case by (simp add: returned_by_attempt_def)
  next
    case 2
    then show ?case by (simp add: returned_by_attempt_def)
  }
next
  case (Suc n)
  {
    case 1
    then obtain r s1 where a: "attempt s = Inr (r, s1)" "r = None \<longrightarrow> good k s1"
      using attempt_total by blast
    show ?case
    proof (cases r)
      case (Some x)
      with a 1 show ?thesis by (auto simp: returned_by_attempt_def)
    next
      case None
      with a 1 wait_total [of k s s1] obtain b s2 where w: "wait s1 = Inr (b, s2)" "good k s2"
        by auto
      from w(2) have "good (Suc k) (env k s2)" by (rule env_good)
      with None a w Suc.IH [of "Suc k" "env k s2"] show ?thesis by simp
    qed
  next
    case 2
    show ?case
    proof (cases "resume s")
      case None
      from 2 have "good (Suc k) (env k s)" by (rule env_good)
      with None Suc.IH(2) [of "Suc k" "env k s"] show ?thesis by simp
    next
      case (Some s1)
      with 2 have "good (Suc k) (env k s1)" by (blast intro: resume_good env_good)
      with Some Suc.IH(1) [of "Suc k" "env k s1"] show ?thesis by simp
    qed
  }
qed

end

text \<open>
  The liveness half of the interface. \<open>ready\<close> says that an attempt will succeed, \<open>armed\<close> what
  holds of a thread that went to sleep: somebody will hand it a token once \<open>ready\<close> becomes
  true. Once the other threads have an \<open>event\<close> at some iteration \<open>K\<close>, the state is ready;
  then the loop returns, and three units of fuel beyond \<open>K\<close> are enough.
\<close>

locale live_blocking_operation = blocking_operation +
  fixes ready :: "'a \<Rightarrow> bool"
    and armed :: "'a \<Rightarrow> bool"
    and event :: "nat \<Rightarrow> bool"
  assumes ready_attempt: "\<lbrakk>good k s; ready s\<rbrakk> \<Longrightarrow> \<exists>r s'. attempt s = Inr (Some r, s')"
    and ready_env: "\<lbrakk>good k s; ready s\<rbrakk> \<Longrightarrow> ready (env k s)"
    and ready_event: "\<lbrakk>good k s; event k\<rbrakk> \<Longrightarrow> ready (env k s)"
    and wait_armed: "\<lbrakk>good k s; attempt s = Inr (None, s'); wait s' = Inr (True, s'')\<rbrakk> \<Longrightarrow> armed s''"
    and armed_env: "\<lbrakk>good k s; armed s\<rbrakk> \<Longrightarrow> armed (env k s)"
    and armed_resume: "\<lbrakk>good k s; armed s; ready s\<rbrakk> \<Longrightarrow> \<exists>s'. resume s = Some s' \<and> ready s'"
begin

lemma ready_returns:
  assumes "good k s" "ready s" "0 < n"
  shows "\<exists>x. block_loop attempt wait resume env n k s = Inr (Some x)"
  using ready_attempt [OF assms(1,2)] block_loop_ready [of attempt s _ _ n wait resume env k] assms(3)
  by blast

lemma armed_ready_returns:
  assumes "good k s" "armed s" "ready s" "Suc 0 < n"
  shows "\<exists>x. blocked_loop attempt wait resume env n k s = Inr (Some x)"
proof -
  from assms armed_resume obtain s1 where r: "resume s = Some s1" "ready s1" by blast
  from assms r have "good k s1" by (blast intro: resume_good)
  with r have "good (Suc k) (env k s1)" "ready (env k s1)"
    by (blast intro: env_good ready_env)+
  moreover obtain m where "n = Suc m" "0 < m"
    using assms(4) by (cases n) auto
  ultimately show ?thesis
    using r(1) ready_returns [of "Suc k" "env k s1" m] by simp
qed

lemma loop_returns:
  "\<lbrakk>event K; good k s; k \<le> K; K + 3 \<le> k + n\<rbrakk> \<Longrightarrow>
     \<exists>x. block_loop attempt wait resume env n k s = Inr (Some x)"
  "\<lbrakk>event K; good k s; armed s; k \<le> K; K + 3 \<le> k + n\<rbrakk> \<Longrightarrow>
     \<exists>x. blocked_loop attempt wait resume env n k s = Inr (Some x)"
proof (induction n arbitrary: k s)
  case 0
  {
    case 1
    then show ?case by simp
  next
    case 2
    then show ?case by simp
  }
next
  case (Suc n)
  {
    case 1
    then obtain r s1 where a: "attempt s = Inr (r, s1)" "r = None \<longrightarrow> good k s1"
      using attempt_total by blast
    show ?case
    proof (cases r)
      case (Some x)
      with a show ?thesis by simp
    next
      case None
      with a 1 wait_total [of k s s1] obtain b s2 where w: "wait s1 = Inr (b, s2)" "good k s2"
        by auto
      then have g: "good (Suc k) (env k s2)" by (blast intro: env_good)
      have arm: "armed (env k s2)" if b
        using that None a w 1 wait_armed [of k s s1 s2] armed_env [of k s2] by simp
      show ?thesis
      proof (cases "k = K")
        case True
        with w 1 have "ready (env k s2)" by (simp add: ready_event)
        with g arm True 1 None a w ready_returns [of "Suc k" "env k s2" n]
          armed_ready_returns [of "Suc k" "env k s2" n]
        show ?thesis by auto
      next
        case False
        with g arm 1 None a w Suc.IH [of "Suc k" "env k s2"] show ?thesis by auto
      qed
    qed
  next
    case 2
    show ?case
    proof (cases "resume s")
      case None
      have g: "good (Suc k) (env k s)" "armed (env k s)"
        using 2 by (auto intro: env_good armed_env)
      show ?thesis
      proof (cases "k = K")
        case True
        with 2 have "ready (env k s)" by (simp add: ready_event)
        with g True 2 None armed_ready_returns [of "Suc k" "env k s" n] show ?thesis by auto
      next
        case False
        with g 2 None Suc.IH(2) [of "Suc k" "env k s"] show ?thesis by auto
      qed
    next
      case (Some s1)
      with 2 have "good k s1" by (blast intro: resume_good)
      then have g: "good (Suc k) (env k s1)" by (rule env_good)
      show ?thesis
      proof (cases "k = K")
        case True
        with \<open>good k s1\<close> 2 have "ready (env k s1)" by (simp add: ready_event)
        with g True 2 Some ready_returns [of "Suc k" "env k s1" n] show ?thesis by auto
      next
        case False
        with g 2 Some Suc.IH(1) [of "Suc k" "env k s1"] show ?thesis by auto
      qed
    qed
  }
qed

text \<open>Both halves together.\<close>

lemma loop_completes:
  assumes "event K" "good 0 s" "K + 3 \<le> n"
  shows "\<exists>r s' j s0. block_loop attempt wait resume env n 0 s = Inr (Some (r, s'))
     \<and> good j s0 \<and> attempt s0 = Inr (Some r, s')"
proof -
  obtain r s' where "block_loop attempt wait resume env n 0 s = Inr (Some (r, s'))"
    using loop_returns(1) [OF assms(1,2), of n] assms(3) by auto
  with loop_total(1) [OF assms(2), of n] show ?thesis
    by (auto simp: returned_by_attempt_def)
qed

end

end
