(* ===== verification/Spsc.thy ===== *)
theory Spsc
  imports Cells Channel_Spec Blocking
begin

text \<open>
  The single-producer single-consumer ring (\<^verbatim>\<open>src/spsc.rs\<close>). \<open>spsc_shared\<close> is \<^verbatim>\<open>Shared<T>\<close>,
  \<open>spsc_sender\<close> and \<open>spsc_receiver\<close> are the private parts of the two handles; every method is a
  function of the shared state, its handle and the park tokens. Atomic loads and stores are
  field accesses here: a method runs without interference, which the theory
  \<open>Spsc_Concurrent\<close> removes. Counters are words that wrap; the invariant \<open>spsc_inv\<close> speaks of
  their distance only, so the results hold across the wrap-around as well.
\<close>

unbundle bit_operations_syntax

section \<open>State\<close>

record 'a spsc_shared =
  sp_buf :: "'a cell list"
  sp_mask :: usize
  sp_cap :: usize
  sp_tail :: usize
  sp_head :: usize
  sp_disconnected :: bool
  sp_strategy :: wait_strategy
  sp_consumer_parker :: parker
  sp_producer_parker :: parker

record spsc_sender =
  tx_tail :: usize
  tx_cached_head :: usize

record spsc_receiver =
  rx_head :: usize
  rx_cached_tail :: usize

definition spsc_channel ::
    "usize \<Rightarrow> wait_strategy \<Rightarrow> ('a spsc_shared \<times> spsc_sender \<times> spsc_receiver) outcome" where
  "spsc_channel cap strategy =
     obind (assert_cap cap) (\<lambda>_.
       Inr (\<lparr>sp_buf = replicate (unat cap) Uninit, sp_mask = cap - 1, sp_cap = cap,
             sp_tail = 0, sp_head = 0, sp_disconnected = False, sp_strategy = strategy,
             sp_consumer_parker = parker_new, sp_producer_parker = parker_new\<rparr>,
            \<lparr>tx_tail = 0, tx_cached_head = 0\<rparr>,
            \<lparr>rx_head = 0, rx_cached_tail = 0\<rparr>))"

section \<open>The sender\<close>

definition spsc_wake_consumer :: "'a spsc_shared \<Rightarrow> tokens \<Rightarrow> 'a spsc_shared \<times> tokens" where
  "spsc_wake_consumer sh tok =
     (let (p, tok') = wake (sp_consumer_parker sh) tok in (sh\<lparr>sp_consumer_parker := p\<rparr>, tok'))"

definition spsc_wake_producer :: "'a spsc_shared \<Rightarrow> tokens \<Rightarrow> 'a spsc_shared \<times> tokens" where
  "spsc_wake_producer sh tok =
     (let (p, tok') = wake (sp_producer_parker sh) tok in (sh\<lparr>sp_producer_parker := p\<rparr>, tok'))"

definition spsc_try_send ::
    "'a \<Rightarrow> 'a spsc_shared \<Rightarrow> spsc_sender \<Rightarrow> tokens \<Rightarrow>
     ((unit, 'a try_send_error) rust_result \<times> 'a spsc_shared \<times> spsc_sender \<times> tokens) outcome" where
  "spsc_try_send v sh tx tok =
     (if sp_disconnected sh then Inr (Err (SendDisconnected v), sh, tx, tok)
      else
        let tx1 = (if tx_tail tx - tx_cached_head tx = sp_cap sh
                   then tx\<lparr>tx_cached_head := sp_head sh\<rparr> else tx)
        in if tx_tail tx1 - tx_cached_head tx1 = sp_cap sh then Inr (Err (Full v), sh, tx1, tok)
           else
             obind (slot_write v (tx_tail tx1 AND sp_mask sh) (sp_buf sh)) (\<lambda>buf.
               let tx2 = tx1\<lparr>tx_tail := tx_tail tx1 + 1\<rparr>;
                   sh1 = sh\<lparr>sp_buf := buf, sp_tail := tx_tail tx2\<rparr>;
                   (sh2, tok2) = (if sp_strategy sh1 = Park then spsc_wake_consumer sh1 tok
                                  else (sh1, tok))
               in Inr (Ok (), sh2, tx2, tok2)))"

section \<open>The receiver\<close>

text \<open>The end of \<^verbatim>\<open>try_recv\<close>: read the slot, publish the head, wake a parked producer.\<close>

definition spsc_pop_with :: "'a spsc_shared \<Rightarrow> tokens \<Rightarrow> spsc_receiver \<Rightarrow>
     (('a, try_recv_error) rust_result \<times> 'a spsc_shared \<times> spsc_receiver \<times> tokens) outcome" where
  "spsc_pop_with sh tok rx1 =
     obind (slot_read (rx_head rx1 AND sp_mask sh) (sp_buf sh)) (\<lambda>(v, buf).
       let rx2 = rx1\<lparr>rx_head := rx_head rx1 + 1\<rparr>;
           sh1 = sh\<lparr>sp_buf := buf, sp_head := rx_head rx2\<rparr>;
           (sh2, tok2) = (if sp_strategy sh1 = Park then spsc_wake_producer sh1 tok
                          else (sh1, tok))
       in Inr (Ok v, sh2, rx2, tok2))"

definition spsc_try_recv ::
    "'a spsc_shared \<Rightarrow> spsc_receiver \<Rightarrow> tokens \<Rightarrow>
     (('a, try_recv_error) rust_result \<times> 'a spsc_shared \<times> spsc_receiver \<times> tokens) outcome" where
  "spsc_try_recv sh rx tok =
     (if rx_head rx = rx_cached_tail rx then
        (let rx1 = rx\<lparr>rx_cached_tail := sp_tail sh\<rparr>
         in if rx_head rx1 = rx_cached_tail rx1 then
              (if sp_disconnected sh then
                 (let t = sp_tail sh
                  in if t = rx_head rx1 then Inr (Err RecvDisconnected, sh, rx1, tok)
                     else spsc_pop_with sh tok (rx1\<lparr>rx_cached_tail := t\<rparr>))
               else Inr (Err Empty, sh, rx1, tok))
            else spsc_pop_with sh tok rx1)
      else spsc_pop_with sh tok rx)"

text \<open>The refresh of the cached tail when the cache says the ring is empty.\<close>

definition spsc_refresh_tail :: "'a spsc_shared \<Rightarrow> spsc_receiver \<Rightarrow> spsc_receiver" where
  "spsc_refresh_tail sh rx =
     (if rx_head rx = rx_cached_tail rx then rx\<lparr>rx_cached_tail := sp_tail sh\<rparr> else rx)"

text \<open>
  \<^verbatim>\<open>drain(max, f)\<close>. The closure \<open>f\<close> takes a value and its own state and says whether it
  panicked. The guard's \<^verbatim>\<open>Drop\<close> runs on both exits.
\<close>

definition publish_guard_drop :: "usize \<Rightarrow> usize \<Rightarrow> 'a spsc_shared \<Rightarrow> 'a spsc_shared" where
  "publish_guard_drop start head sh = (if head \<noteq> start then sh\<lparr>sp_head := head\<rparr> else sh)"

function spsc_drain_loop ::
    "('a \<Rightarrow> 's \<Rightarrow> bool \<times> 's) \<Rightarrow> usize \<Rightarrow> 'a spsc_shared \<Rightarrow> spsc_receiver \<Rightarrow> usize \<Rightarrow> 's \<Rightarrow>
     (bool \<times> 'a spsc_shared \<times> spsc_receiver \<times> usize \<times> 's) outcome" where
  "spsc_drain_loop f mx sh rx count s =
     (if count < mx then
        (let rx1 = spsc_refresh_tail sh rx
         in if rx_head rx1 = rx_cached_tail rx1 then Inr (False, sh, rx1, count, s)
            else
              (case slot_read (rx_head rx1 AND sp_mask sh) (sp_buf sh) of
                 Inl e \<Rightarrow> Inl e
               | Inr (v, buf) \<Rightarrow>
                   (let rx2 = rx1\<lparr>rx_head := rx_head rx1 + 1\<rparr>;
                        sh1 = sh\<lparr>sp_buf := buf\<rparr>;
                        (panicked, s') = f v s
                    in if panicked then Inr (True, sh1, rx2, count + 1, s')
                       else spsc_drain_loop f mx sh1 rx2 (count + 1) s')))
      else Inr (False, sh, rx, count, s))"
  by pat_completeness auto
termination
  by (relation "measure (\<lambda>(f, mx, sh, rx, count, s). unat mx - unat count)")
    (simp_all add: usize_loop_decreases)

declare spsc_drain_loop.simps [simp del]

definition spsc_drain ::
    "usize \<Rightarrow> ('a \<Rightarrow> 's \<Rightarrow> bool \<times> 's) \<Rightarrow> 's \<Rightarrow> 'a spsc_shared \<Rightarrow> spsc_receiver \<Rightarrow> tokens \<Rightarrow>
     (drain_exit \<times> 's \<times> 'a spsc_shared \<times> spsc_receiver \<times> tokens) outcome" where
  "spsc_drain mx f s sh rx tok =
     obind (spsc_drain_loop f mx sh rx 0 s) (\<lambda>(panicked, sh1, rx1, count, s1).
       let sh2 = publish_guard_drop (rx_head rx) (rx_head rx1) sh1
       in if panicked then Inr (Unwound, s1, sh2, rx1, tok)
          else
            let (sh3, tok3) = (if count > 0 \<and> sp_strategy sh2 = Park
                               then spsc_wake_producer sh2 tok else (sh2, tok))
            in Inr (Returned count, s1, sh3, rx1, tok3))"

section \<open>Dropping the handles and the ring\<close>

definition spsc_sender_drop :: "'a spsc_shared \<Rightarrow> tokens \<Rightarrow> 'a spsc_shared \<times> tokens" where
  "spsc_sender_drop sh tok =
     (let sh1 = sh\<lparr>sp_disconnected := True\<rparr>;
          (sh2, tok2) = spsc_wake_consumer sh1 tok
      in spsc_wake_producer sh2 tok2)"

definition spsc_receiver_drop :: "'a spsc_shared \<Rightarrow> tokens \<Rightarrow> 'a spsc_shared \<times> tokens" where
  "spsc_receiver_drop sh tok =
     (let sh1 = sh\<lparr>sp_disconnected := True\<rparr>;
          (sh2, tok2) = spsc_wake_consumer sh1 tok
      in spsc_wake_producer sh2 tok2)"

text \<open>\<^verbatim>\<open>for seq in head..tail\<close>: the range is empty unless \<open>head < tail\<close> as unsigned numbers.\<close>

function spsc_drop_loop ::
    "usize \<Rightarrow> usize \<Rightarrow> usize \<Rightarrow> 'a cell list \<Rightarrow> 'a list \<Rightarrow> ('a list \<times> 'a cell list) outcome" where
  "spsc_drop_loop seq tail msk buf dropped =
     (if seq < tail then
        (case slot_drop (seq AND msk) buf of
           Inl e \<Rightarrow> Inl e
         | Inr (v, buf') \<Rightarrow> spsc_drop_loop (seq + 1) tail msk buf' (dropped @ [v]))
      else Inr (dropped, buf))"
  by pat_completeness auto
termination
  by (relation "measure (\<lambda>(seq, tail, msk, buf, dropped). unat tail - unat seq)")
    (simp_all add: usize_loop_decreases)

declare spsc_drop_loop.simps [simp del]

definition spsc_shared_drop :: "'a spsc_shared \<Rightarrow> ('a list \<times> 'a spsc_shared) outcome" where
  "spsc_shared_drop sh =
     obind (spsc_drop_loop (sp_head sh) (sp_tail sh) (sp_mask sh) (sp_buf sh) [])
       (\<lambda>(dropped, buf). Inr (dropped, sh\<lparr>sp_buf := buf\<rparr>))"

section \<open>The ring's invariant\<close>

definition spsc_geometry :: "'a spsc_shared \<Rightarrow> bool" where
  "spsc_geometry sh \<longleftrightarrow>
     is_power_of_two (sp_cap sh) \<and> sp_mask sh = sp_cap sh - 1 \<and>
     length (sp_buf sh) = unat (sp_cap sh)"

text \<open>The slots from counter \<open>h\<close> up to the tail are live, all others are free.\<close>

definition spsc_ring :: "'a spsc_shared \<Rightarrow> usize \<Rightarrow> bool" where
  "spsc_ring sh h \<longleftrightarrow> ring_ok (sp_buf sh) (unat h) (unat (sp_tail sh - h))"

definition spsc_queue :: "'a spsc_shared \<Rightarrow> usize \<Rightarrow> 'a list" where
  "spsc_queue sh h = ring_queue (sp_buf sh) (unat h) (unat (sp_tail sh - h))"

definition spsc_shared_inv :: "'a spsc_shared \<Rightarrow> bool" where
  "spsc_shared_inv sh \<longleftrightarrow>
     spsc_geometry sh \<and> spsc_ring sh (sp_head sh) \<and>
     parker_ok (sp_consumer_parker sh) \<and> parker_ok (sp_producer_parker sh)"

text \<open>The cached head is never ahead of the real one, the cached tail never ahead of the tail.\<close>

definition spsc_tx_inv :: "'a spsc_shared \<Rightarrow> spsc_sender \<Rightarrow> bool" where
  "spsc_tx_inv sh tx \<longleftrightarrow>
     tx_tail tx = sp_tail sh \<and>
     unat (sp_tail sh - sp_head sh) \<le> unat (sp_tail sh - tx_cached_head tx) \<and>
     unat (sp_tail sh - tx_cached_head tx) \<le> unat (sp_cap sh)"

definition spsc_rx_inv :: "'a spsc_shared \<Rightarrow> spsc_receiver \<Rightarrow> bool" where
  "spsc_rx_inv sh rx \<longleftrightarrow>
     rx_head rx = sp_head sh \<and>
     unat (rx_cached_tail rx - rx_head rx) \<le> unat (sp_tail sh - rx_head rx)"

lemma spsc_queue_length [simp]: "length (spsc_queue sh h) = unat (sp_tail sh - h)"
  by (simp add: spsc_queue_def)

lemma spsc_queue_empty: "spsc_queue sh h = [] \<longleftrightarrow> sp_tail sh = h"
  using spsc_queue_length [of sh h] by (metis length_0_conv unat_distance_eq_0)

lemma spsc_ring_le_cap:
  "spsc_geometry sh \<Longrightarrow> spsc_ring sh h \<Longrightarrow> unat (sp_tail sh - h) \<le> unat (sp_cap sh)"
  by (simp add: spsc_ring_def spsc_geometry_def ring_ok_def)

lemma ring_index:
  "spsc_geometry sh \<Longrightarrow> unat (x AND sp_mask sh) = unat x mod length (sp_buf sh)"
  by (simp add: spsc_geometry_def unat_mask_index)

lemma ring_index_bound: "spsc_geometry sh \<Longrightarrow> unat x mod length (sp_buf sh) < length (sp_buf sh)"
  using is_power_of_two_pos [of "sp_cap sh"] by (simp add: spsc_geometry_def)

lemma counter_slot:
  fixes h t :: usize
  assumes "spsc_geometry sh"
  shows "(unat h + unat (t - h)) mod length (sp_buf sh) = unat t mod length (sp_buf sh)"
  using assms unat_add_mod_cap [of "sp_cap sh" h "t - h"] by (simp add: spsc_geometry_def)

lemma counter_suc_slot:
  fixes h :: usize
  assumes "spsc_geometry sh"
  shows "unat (h + 1) mod length (sp_buf sh) = Suc (unat h) mod length (sp_buf sh)"
  using assms unat_add_mod_cap [of "sp_cap sh" h 1] by (simp add: spsc_geometry_def)

text \<open>Writing the slot of the tail and advancing the tail appends to the queue.\<close>

lemma spsc_push:
  assumes geo: "spsc_geometry sh" and ring: "spsc_ring sh h"
    and space: "unat (sp_tail sh - h) < unat (sp_cap sh)"
  obtains buf where "slot_write v (sp_tail sh AND sp_mask sh) (sp_buf sh) = Inr buf"
    and "spsc_ring (sh\<lparr>sp_buf := buf, sp_tail := sp_tail sh + 1\<rparr>) h"
    and "spsc_queue (sh\<lparr>sp_buf := buf, sp_tail := sp_tail sh + 1\<rparr>) h = spsc_queue sh h @ [v]"
    and "length buf = length (sp_buf sh)"
proof -
  let ?n = "unat (sp_tail sh - h)" and ?i = "unat (sp_tail sh) mod length (sp_buf sh)"
  have len: "?n < length (sp_buf sh)"
    using geo space by (simp add: spsc_geometry_def)
  have i: "(unat h + ?n) mod length (sp_buf sh) = ?i"
    by (rule counter_slot [OF geo])
  have free: "\<not> is_live (sp_buf sh ! ?i)"
    using ring_back_free [OF ring [unfolded spsc_ring_def] len] by (simp add: i)
  have "slot_write v (sp_tail sh AND sp_mask sh) (sp_buf sh) = Inr ((sp_buf sh)[?i := Live v])"
    using free ring_index_bound [OF geo] slot_write_ok ring_index [OF geo] by metis
  moreover have "unat (sp_tail sh + 1 - h) = Suc ?n"
    using space cap_less_range [of "sp_cap sh"] geo
    by (subst unat_suc_distance) (simp_all add: spsc_geometry_def)
  moreover have "ring_ok ((sp_buf sh)[?i := Live v]) (unat h) (Suc ?n)"
    using ring_ok_write [OF ring [unfolded spsc_ring_def] len] by (simp add: i)
  moreover have "ring_queue ((sp_buf sh)[?i := Live v]) (unat h) (Suc ?n)
      = ring_queue (sp_buf sh) (unat h) ?n @ [v]"
    using ring_queue_write [OF len, of "unat h" v] by (simp add: i)
  ultimately show thesis
    using that by (simp add: spsc_ring_def spsc_queue_def)
qed

text \<open>Reading the slot of a head that has not reached the tail pops the queue.\<close>

lemma spsc_pop:
  assumes geo: "spsc_geometry sh" and ring: "spsc_ring sh h" and ne: "sp_tail sh \<noteq> h"
  obtains v buf where "slot_read (h AND sp_mask sh) (sp_buf sh) = Inr (v, buf)"
    and "spsc_ring (sh\<lparr>sp_buf := buf\<rparr>) (h + 1)"
    and "spsc_queue sh h = v # spsc_queue (sh\<lparr>sp_buf := buf\<rparr>) (h + 1)"
    and "length buf = length (sp_buf sh)"
proof -
  let ?b = "sp_buf sh"
  have n: "unat (sp_tail sh - h) = Suc (unat (sp_tail sh - (h + 1)))"
    using ne by (rule unat_distance_Suc)
  let ?n = "unat (sp_tail sh - (h + 1))"
  have ok: "ring_ok ?b (unat h) (Suc ?n)"
    using ring by (simp add: spsc_ring_def n)
  obtain v where v: "?b ! (unat h mod length ?b) = Live v"
    and q: "ring_queue ?b (unat h) (Suc ?n) = v # ring_queue ?b (Suc (unat h)) ?n"
    using ok by (rule ring_front_live)
  let ?b' = "?b[unat h mod length ?b := Moved v]"
  have read: "slot_read (h AND sp_mask sh) ?b = Inr (v, ?b')"
    using v ring_index_bound [OF geo] slot_read_ok ring_index [OF geo] by metis
  have suc: "unat (h + 1) mod length ?b' = Suc (unat h) mod length ?b'"
    using counter_suc_slot [OF geo, of h] by simp
  have "ring_ok ?b' (unat (h + 1)) ?n"
    using ring_ok_read [OF ok, of v] ring_ok_mod_cong [OF suc] by simp
  moreover have "ring_queue ?b' (unat (h + 1)) ?n = ring_queue ?b (Suc (unat h)) ?n"
    using ring_queue_read [OF ok, of v] ring_queue_mod_cong [OF suc] by simp
  ultimately show thesis
    using that read q by (simp add: spsc_ring_def spsc_queue_def n)
qed

section \<open>The operations refine the queue\<close>

lemma spsc_wake_consumer_frame:
  assumes "spsc_wake_consumer sh tok = (sh', tok')"
  shows "sp_buf sh' = sp_buf sh" "sp_mask sh' = sp_mask sh" "sp_cap sh' = sp_cap sh"
    "sp_tail sh' = sp_tail sh" "sp_head sh' = sp_head sh"
    "sp_disconnected sh' = sp_disconnected sh" "sp_strategy sh' = sp_strategy sh"
    "sp_producer_parker sh' = sp_producer_parker sh"
    "parker_ok (sp_consumer_parker sh) \<Longrightarrow> parker_ok (sp_consumer_parker sh')"
  using assms parker_ok_ops(4) [of "sp_consumer_parker sh" tok]
  by (auto simp: spsc_wake_consumer_def case_prod_unfold Let_def)

lemma spsc_wake_producer_frame:
  assumes "spsc_wake_producer sh tok = (sh', tok')"
  shows "sp_buf sh' = sp_buf sh" "sp_mask sh' = sp_mask sh" "sp_cap sh' = sp_cap sh"
    "sp_tail sh' = sp_tail sh" "sp_head sh' = sp_head sh"
    "sp_disconnected sh' = sp_disconnected sh" "sp_strategy sh' = sp_strategy sh"
    "sp_consumer_parker sh' = sp_consumer_parker sh"
    "parker_ok (sp_producer_parker sh) \<Longrightarrow> parker_ok (sp_producer_parker sh')"
  using assms parker_ok_ops(4) [of "sp_producer_parker sh" tok]
  by (auto simp: spsc_wake_producer_def case_prod_unfold Let_def)

lemmas spsc_defs = spsc_geometry_def spsc_ring_def spsc_queue_def

lemma spsc_wake_consumer_inv:
  assumes "spsc_wake_consumer sh tok = (sh', tok')"
  shows "spsc_shared_inv sh \<Longrightarrow> spsc_shared_inv sh'"
    "spsc_queue sh' h = spsc_queue sh h" "spsc_tx_inv sh' tx = spsc_tx_inv sh tx"
    "spsc_rx_inv sh' rx = spsc_rx_inv sh rx"
  using spsc_wake_consumer_frame [OF assms]
  by (simp_all add: spsc_shared_inv_def spsc_defs spsc_tx_inv_def spsc_rx_inv_def)

lemma spsc_wake_producer_inv:
  assumes "spsc_wake_producer sh tok = (sh', tok')"
  shows "spsc_shared_inv sh \<Longrightarrow> spsc_shared_inv sh'"
    "spsc_queue sh' h = spsc_queue sh h" "spsc_tx_inv sh' tx = spsc_tx_inv sh tx"
    "spsc_rx_inv sh' rx = spsc_rx_inv sh rx"
  using spsc_wake_producer_frame [OF assms]
  by (simp_all add: spsc_shared_inv_def spsc_defs spsc_tx_inv_def spsc_rx_inv_def)

text \<open>
  The full test of the source, on the cached and then on the real head, decides exactly
  whether the queue has reached the capacity.
\<close>

lemma spsc_full_test:
  assumes inv: "spsc_shared_inv sh" and tx: "spsc_tx_inv sh tx"
  defines "tx1 \<equiv> (if tx_tail tx - tx_cached_head tx = sp_cap sh
                   then tx\<lparr>tx_cached_head := sp_head sh\<rparr> else tx)"
  shows "tx_tail tx1 - tx_cached_head tx1 = sp_cap sh
      \<longleftrightarrow> length (spsc_queue sh (sp_head sh)) = unat (sp_cap sh)"
    and "spsc_tx_inv sh tx1" and "tx_tail tx1 = sp_tail sh"
proof -
  have le: "unat (sp_tail sh - sp_head sh) \<le> unat (sp_cap sh)"
    using inv spsc_ring_le_cap by (auto simp: spsc_shared_inv_def)
  have eq: "sp_tail sh - x = sp_cap sh \<longleftrightarrow> unat (sp_tail sh - x) = unat (sp_cap sh)" for x
    by (simp add: word_unat_eq_iff)
  show "tx_tail tx1 - tx_cached_head tx1 = sp_cap sh
      \<longleftrightarrow> length (spsc_queue sh (sp_head sh)) = unat (sp_cap sh)"
    using tx le by (auto simp: tx1_def spsc_tx_inv_def eq)
  show "spsc_tx_inv sh tx1" "tx_tail tx1 = sp_tail sh"
    using tx le by (auto simp: tx1_def spsc_tx_inv_def)
qed

lemma spsc_try_send_correct:
  assumes inv: "spsc_shared_inv sh" and tx: "spsc_tx_inv sh tx"
  obtains sh' tx' tok' where
    "spsc_try_send v sh tx tok =
       Inr (if sp_disconnected sh then Err (SendDisconnected v)
            else if length (spsc_queue sh (sp_head sh)) = unat (sp_cap sh) then Err (Full v)
            else Ok (), sh', tx', tok')"
    and "spsc_shared_inv sh'" and "spsc_tx_inv sh' tx'"
    and "\<And>rx. spsc_rx_inv sh rx \<Longrightarrow> spsc_rx_inv sh' rx"
    and "spsc_queue sh' (sp_head sh') =
       (if sp_disconnected sh \<or> length (spsc_queue sh (sp_head sh)) = unat (sp_cap sh)
        then spsc_queue sh (sp_head sh) else spsc_queue sh (sp_head sh) @ [v])"
    and "sp_cap sh' = sp_cap sh" "sp_disconnected sh' = sp_disconnected sh"
    and "sp_head sh' = sp_head sh" "sp_strategy sh' = sp_strategy sh"
proof (cases "sp_disconnected sh")
  case True
  then show thesis
    by (intro that [of sh tx tok]) (use inv tx in \<open>simp_all add: spsc_try_send_def\<close>)
next
  case conn: False
  define tx1 where "tx1 = (if tx_tail tx - tx_cached_head tx = sp_cap sh
                   then tx\<lparr>tx_cached_head := sp_head sh\<rparr> else tx)"
  note full = spsc_full_test [OF inv tx, folded tx1_def]
  show thesis
  proof (cases "length (spsc_queue sh (sp_head sh)) = unat (sp_cap sh)")
    case True
    then have "spsc_try_send v sh tx tok = Inr (Err (Full v), sh, tx1, tok)"
      using conn full by (simp add: spsc_try_send_def tx1_def [symmetric] Let_def)
    with True show thesis
      by (intro that [of sh tx1 tok]) (use conn inv full in simp_all)
  next
    case False
    have geo: "spsc_geometry sh" and ring: "spsc_ring sh (sp_head sh)"
      using inv by (auto simp: spsc_shared_inv_def)
    have space: "unat (sp_tail sh - sp_head sh) < unat (sp_cap sh)"
      using False spsc_ring_le_cap [OF geo ring] by simp
    obtain buf where w: "slot_write v (sp_tail sh AND sp_mask sh) (sp_buf sh) = Inr buf"
      and r: "spsc_ring (sh\<lparr>sp_buf := buf, sp_tail := sp_tail sh + 1\<rparr>) (sp_head sh)"
      and q: "spsc_queue (sh\<lparr>sp_buf := buf, sp_tail := sp_tail sh + 1\<rparr>) (sp_head sh)
          = spsc_queue sh (sp_head sh) @ [v]"
      and l: "length buf = length (sp_buf sh)"
      using geo ring space by (rule spsc_push)
    define sh1 where "sh1 = sh\<lparr>sp_buf := buf, sp_tail := sp_tail sh + 1\<rparr>"
    define tx2 where "tx2 = tx1\<lparr>tx_tail := sp_tail sh + 1\<rparr>"
    have c1: "unat (sp_tail sh - tx_cached_head tx1) < unat (sp_cap sh)"
      using full False by (auto simp: spsc_tx_inv_def word_unat_eq_iff)
    have capr: "unat (sp_cap sh) < 2 ^ 64 - 1"
      using geo cap_less_range by (simp add: spsc_geometry_def)
    have suc: "unat (sp_tail sh + 1 - x) = unat (sp_tail sh - x) + 1"
      if "unat (sp_tail sh - x) < unat (sp_cap sh)" for x
      using that capr by (intro unat_suc_distance) simp
    have inv1: "spsc_shared_inv sh1"
      using inv r l by (simp add: sh1_def spsc_shared_inv_def spsc_geometry_def)
    have tx2: "spsc_tx_inv sh1 tx2"
      using full(2) c1 space by (simp add: sh1_def tx2_def spsc_tx_inv_def suc)
    have rx: "spsc_rx_inv sh1 rx" if "spsc_rx_inv sh rx" for rx
      using that space by (auto simp: sh1_def spsc_rx_inv_def suc)
    obtain sh2 tok2 where
      step: "(if sp_strategy sh1 = Park then spsc_wake_consumer sh1 tok else (sh1, tok)) = (sh2, tok2)"
      by fastforce
    have "spsc_try_send v sh tx tok = Inr (Ok (), sh2, tx2, tok2)"
      using conn full False w step
      by (auto simp: spsc_try_send_def tx1_def [symmetric] sh1_def tx2_def Let_def split: if_splits)
    moreover have "spsc_shared_inv sh2" "spsc_tx_inv sh2 tx2"
      "\<And>rx. spsc_rx_inv sh rx \<Longrightarrow> spsc_rx_inv sh2 rx"
      "spsc_queue sh2 (sp_head sh2) = spsc_queue sh (sp_head sh) @ [v]"
      "sp_cap sh2 = sp_cap sh" "sp_disconnected sh2 = sp_disconnected sh"
      "sp_head sh2 = sp_head sh" "sp_strategy sh2 = sp_strategy sh"
      using step inv1 tx2 rx q spsc_wake_consumer_inv [of sh1 tok sh2 tok2]
        spsc_wake_consumer_frame [of sh1 tok sh2 tok2]
      by (auto simp: sh1_def split: if_splits)
    ultimately show thesis
      by (intro that [of sh2 tx2 tok2]) (use conn False in simp_all)
  qed
qed

lemma spsc_try_recv_alt:
  "spsc_try_recv sh rx tok =
     (let rx1 = spsc_refresh_tail sh rx
      in if rx_head rx1 = rx_cached_tail rx1 then
           Inr (Err (if sp_disconnected sh then RecvDisconnected else Empty), sh, rx1, tok)
         else spsc_pop_with sh tok rx1)"
  by (simp add: spsc_try_recv_def spsc_refresh_tail_def Let_def)

lemma spsc_empty_test:
  assumes "spsc_rx_inv sh rx"
  defines "rx1 \<equiv> spsc_refresh_tail sh rx"
  shows "rx_head rx1 = rx_cached_tail rx1 \<longleftrightarrow> spsc_queue sh (sp_head sh) = []"
    and "spsc_rx_inv sh rx1" and "rx_head rx1 = sp_head sh"
proof -
  have "unat (rx_cached_tail rx - rx_head rx) = 0" if "sp_tail sh = rx_head rx"
    using assms(1) that by (simp add: spsc_rx_inv_def)
  then show "rx_head rx1 = rx_cached_tail rx1 \<longleftrightarrow> spsc_queue sh (sp_head sh) = []"
    using assms by (auto simp: spsc_rx_inv_def spsc_refresh_tail_def spsc_queue_empty)
  show "spsc_rx_inv sh rx1" "rx_head rx1 = sp_head sh"
    using assms by (auto simp: spsc_rx_inv_def spsc_refresh_tail_def)
qed

text \<open>Moving the head forward keeps every cached counter on the right side.\<close>

lemma cached_after_pop:
  fixes t h c :: usize
  assumes "t \<noteq> h"
  shows "unat (t - h) \<le> unat (t - c) \<Longrightarrow> unat (t - (h + 1)) \<le> unat (t - c)"
    and "c \<noteq> h \<Longrightarrow> unat (c - h) \<le> unat (t - h) \<Longrightarrow> unat (c - (h + 1)) \<le> unat (t - (h + 1))"
  using unat_distance_Suc [OF assms] unat_distance_Suc [of c h] by auto

lemma spsc_pop_with_correct:
  assumes inv: "spsc_shared_inv sh" and rx: "spsc_rx_inv sh rx"
    and ne: "rx_head rx \<noteq> rx_cached_tail rx"
  obtains v q sh' rx' tok' where
    "spsc_pop_with sh tok rx = Inr (Ok v, sh', rx', tok')"
    and "spsc_queue sh (sp_head sh) = v # q" and "spsc_queue sh' (sp_head sh') = q"
    and "spsc_shared_inv sh'" and "spsc_rx_inv sh' rx'"
    and "\<And>tx. spsc_tx_inv sh tx \<Longrightarrow> spsc_tx_inv sh' tx"
    and "sp_cap sh' = sp_cap sh" "sp_disconnected sh' = sp_disconnected sh"
    and "sp_tail sh' = sp_tail sh" "sp_strategy sh' = sp_strategy sh"
proof -
  have geo: "spsc_geometry sh" and ring: "spsc_ring sh (sp_head sh)"
    using inv by (auto simp: spsc_shared_inv_def)
  have h: "rx_head rx = sp_head sh" using rx by (simp add: spsc_rx_inv_def)
  have th: "sp_tail sh \<noteq> sp_head sh"
    using rx ne by (auto simp: spsc_rx_inv_def)
  obtain v buf where read: "slot_read (sp_head sh AND sp_mask sh) (sp_buf sh) = Inr (v, buf)"
    and r: "spsc_ring (sh\<lparr>sp_buf := buf\<rparr>) (sp_head sh + 1)"
    and q: "spsc_queue sh (sp_head sh) = v # spsc_queue (sh\<lparr>sp_buf := buf\<rparr>) (sp_head sh + 1)"
    and l: "length buf = length (sp_buf sh)"
    using geo ring th by (rule spsc_pop)
  define sh1 where "sh1 = sh\<lparr>sp_buf := buf, sp_head := sp_head sh + 1\<rparr>"
  define rx2 where "rx2 = rx\<lparr>rx_head := sp_head sh + 1\<rparr>"
  have inv1: "spsc_shared_inv sh1"
    using inv r l by (simp add: sh1_def spsc_shared_inv_def spsc_geometry_def spsc_ring_def)
  have q1: "spsc_queue sh1 (sp_head sh1) = spsc_queue (sh\<lparr>sp_buf := buf\<rparr>) (sp_head sh + 1)"
    by (simp add: sh1_def spsc_queue_def)
  have rx2: "spsc_rx_inv sh1 rx2"
    using rx ne cached_after_pop(2) [OF th, of "rx_cached_tail rx"]
    by (auto simp: sh1_def rx2_def spsc_rx_inv_def)
  have tx: "spsc_tx_inv sh1 tx" if "spsc_tx_inv sh tx" for tx
    using that cached_after_pop(1) [OF th, of "tx_cached_head tx"]
    by (simp add: sh1_def spsc_tx_inv_def)
  obtain sh2 tok2 where
    step: "(if sp_strategy sh1 = Park then spsc_wake_producer sh1 tok else (sh1, tok)) = (sh2, tok2)"
    by fastforce
  have "spsc_pop_with sh tok rx = Inr (Ok v, sh2, rx2, tok2)"
    using read step h by (auto simp: spsc_pop_with_def sh1_def rx2_def Let_def split: if_splits)
  moreover have "spsc_shared_inv sh2" "spsc_rx_inv sh2 rx2"
    "\<And>tx. spsc_tx_inv sh tx \<Longrightarrow> spsc_tx_inv sh2 tx"
    "spsc_queue sh2 (sp_head sh2) = spsc_queue (sh\<lparr>sp_buf := buf\<rparr>) (sp_head sh + 1)"
    "sp_cap sh2 = sp_cap sh" "sp_disconnected sh2 = sp_disconnected sh"
    "sp_tail sh2 = sp_tail sh" "sp_strategy sh2 = sp_strategy sh"
    using step inv1 rx2 tx q1 spsc_wake_producer_inv [of sh1 tok sh2 tok2]
      spsc_wake_producer_frame [of sh1 tok sh2 tok2]
    by (auto simp: sh1_def split: if_splits)
  ultimately show thesis
    by (intro that [of v sh2 rx2 tok2 "spsc_queue (sh\<lparr>sp_buf := buf\<rparr>) (sp_head sh + 1)"])
      (use q in simp_all)
qed

lemma spsc_try_recv_correct:
  assumes inv: "spsc_shared_inv sh" and rx: "spsc_rx_inv sh rx"
  obtains sh' rx' tok' where
    "spsc_try_recv sh rx tok =
       Inr (case spsc_queue sh (sp_head sh) of
              [] \<Rightarrow> Err (if sp_disconnected sh then RecvDisconnected else Empty)
            | v # _ \<Rightarrow> Ok v, sh', rx', tok')"
    and "spsc_queue sh' (sp_head sh') = tl (spsc_queue sh (sp_head sh))"
    and "spsc_shared_inv sh'" and "spsc_rx_inv sh' rx'"
    and "\<And>tx. spsc_tx_inv sh tx \<Longrightarrow> spsc_tx_inv sh' tx"
    and "sp_cap sh' = sp_cap sh" "sp_disconnected sh' = sp_disconnected sh"
    and "sp_tail sh' = sp_tail sh" "sp_strategy sh' = sp_strategy sh"
proof -
  define rx1 where "rx1 = spsc_refresh_tail sh rx"
  note empty = spsc_empty_test [OF rx, folded rx1_def]
  have run: "spsc_try_recv sh rx tok =
     (if rx_head rx1 = rx_cached_tail rx1 then
           Inr (Err (if sp_disconnected sh then RecvDisconnected else Empty), sh, rx1, tok)
         else spsc_pop_with sh tok rx1)"
    by (simp add: spsc_try_recv_alt rx1_def [symmetric] Let_def)
  show thesis
  proof (cases "rx_head rx1 = rx_cached_tail rx1")
    case True
    with run empty have "spsc_queue sh (sp_head sh) = []" by simp
    with True run show thesis
      by (intro that [of sh rx1 tok]) (use inv empty in simp_all)
  next
    case False
    obtain v q sh' rx' tok' where pop: "spsc_pop_with sh tok rx1 = Inr (Ok v, sh', rx', tok')"
      and facts: "spsc_queue sh (sp_head sh) = v # q" "spsc_queue sh' (sp_head sh') = q"
      "spsc_shared_inv sh'" "spsc_rx_inv sh' rx'" "\<And>tx. spsc_tx_inv sh tx \<Longrightarrow> spsc_tx_inv sh' tx"
      "sp_cap sh' = sp_cap sh" "sp_disconnected sh' = sp_disconnected sh"
      "sp_tail sh' = sp_tail sh" "sp_strategy sh' = sp_strategy sh"
      using spsc_pop_with_correct [OF inv empty(2) False] by metis
    show thesis
      by (intro that [of sh' rx' tok']) (use False run pop facts in simp_all)
  qed
qed

subsection \<open>Draining\<close>

text \<open>The state of a drain in progress: the private head may be ahead of the shared one.\<close>

definition spsc_draining :: "'a spsc_shared \<Rightarrow> spsc_receiver \<Rightarrow> bool" where
  "spsc_draining sh rx \<longleftrightarrow>
     spsc_geometry sh \<and> spsc_ring sh (rx_head rx) \<and>
     unat (rx_cached_tail rx - rx_head rx) \<le> unat (sp_tail sh - rx_head rx)"

lemma spsc_drain_loop_correct:
  assumes "spsc_draining sh rx" and "count \<le> mx"
    and "feed f (unat mx - unat count) (spsc_queue sh (rx_head rx)) s = (p, k, s')"
  shows "\<exists>buf rx'. spsc_drain_loop f mx sh rx count s
        = Inr (p, sh\<lparr>sp_buf := buf\<rparr>, rx', count + of_nat k, s')
      \<and> spsc_draining (sh\<lparr>sp_buf := buf\<rparr>) rx'
      \<and> rx_head rx' = rx_head rx + of_nat k
      \<and> spsc_queue (sh\<lparr>sp_buf := buf\<rparr>) (rx_head rx') = drop k (spsc_queue sh (rx_head rx))"
  using assms
proof (induction f mx sh rx count s arbitrary: p k s' rule: spsc_drain_loop.induct)
  case (1 f mx sh rx count s)
  define rx1 where "rx1 = spsc_refresh_tail sh rx"
  have rx1: "rx_head rx1 = rx_head rx" "spsc_draining sh rx1"
    "rx_head rx1 = rx_cached_tail rx1 \<longleftrightarrow> sp_tail sh = rx_head rx"
    using "1.prems"(1) by (auto simp: rx1_def spsc_draining_def spsc_refresh_tail_def)
  show ?case
  proof (cases "count < mx")
    case False
    with "1.prems"(2) have "count = mx" by simp
    with "1.prems" show ?thesis
      by (subst spsc_drain_loop.simps) (auto intro!: exI [of _ "sp_buf sh"] exI [of _ rx])
  next
    case less: True
    show ?thesis
    proof (cases "sp_tail sh = rx_head rx")
      case True
      then have "spsc_queue sh (rx_head rx) = []" by (simp add: spsc_queue_empty)
      with "1.prems"(3) have "p = False" "k = 0" "s' = s" by auto
      with less True rx1 show ?thesis
        by (subst spsc_drain_loop.simps)
          (auto simp: rx1_def [symmetric] Let_def intro!: exI [of _ "sp_buf sh"] exI [of _ rx1])
    next
      case ne: False
      have geo: "spsc_geometry sh" and ring: "spsc_ring sh (rx_head rx)"
        using "1.prems"(1) by (auto simp: spsc_draining_def)
      obtain v buf where read: "slot_read (rx_head rx AND sp_mask sh) (sp_buf sh) = Inr (v, buf)"
        and r: "spsc_ring (sh\<lparr>sp_buf := buf\<rparr>) (rx_head rx + 1)"
        and q: "spsc_queue sh (rx_head rx) = v # spsc_queue (sh\<lparr>sp_buf := buf\<rparr>) (rx_head rx + 1)"
        and l: "length buf = length (sp_buf sh)"
        using geo ring ne by (rule spsc_pop)
      define sh1 where "sh1 = sh\<lparr>sp_buf := buf\<rparr>"
      define rx2 where "rx2 = rx1\<lparr>rx_head := rx_head rx1 + 1\<rparr>"
      obtain pf s1 where f: "f v s = (pf, s1)" by fastforce
      have dr: "spsc_draining sh1 rx2"
        using geo r l rx1 ne cached_after_pop(2) [OF ne, of "rx_cached_tail rx1"]
        by (auto simp: sh1_def rx2_def spsc_draining_def spsc_geometry_def)
      have unfold: "spsc_drain_loop f mx sh rx count s =
          (if pf then Inr (True, sh1, rx2, count + 1, s1)
           else spsc_drain_loop f mx sh1 rx2 (count + 1) s1)"
        using less ne rx1 read f
        by (subst spsc_drain_loop.simps)
          (simp add: rx1_def [symmetric] rx2_def sh1_def Let_def)
      have cnt: "unat mx - unat count = Suc (unat mx - unat (count + 1))"
        using less by (rule unat_diff_Suc_of_less)
      show ?thesis
      proof (cases pf)
        case True
        with "1.prems"(3) q f cnt have "p = True" "k = 1" "s' = s1" by auto
        with True unfold dr q rx1 show ?thesis
          by (auto simp: sh1_def rx2_def intro!: exI [of _ buf] exI [of _ rx2])
      next
        case False
        obtain p1 k1 s2 where rec: "feed f (unat mx - unat (count + 1))
            (spsc_queue sh1 (rx_head rx2)) s1 = (p1, k1, s2)"
          by (metis prod_cases3)
        have head: "rx_head rx2 = rx_head rx + 1"
          using rx1 by (simp add: rx2_def)
        have eqs: "p = p1" "k = Suc k1" "s' = s2"
          using "1.prems"(3) q f cnt False rec head by (auto simp: sh1_def)
        have "count + 1 \<le> mx"
          using less unat_less_suc [OF less] by (simp add: word_le_nat_alt word_less_nat_alt)
        note bound = this
        have ne1: "rx_head rx1 \<noteq> rx_cached_tail rx1"
          using ne rx1(3) by blast
        have read1: "slot_read (rx_head rx1 AND sp_mask sh) (sp_buf sh) = Inr (v, buf)"
          using read by (simp add: rx1(1))
        from "1.IH" [OF less rx1_def ne1 read1 refl rx2_def sh1_def refl f [symmetric] False
            dr bound rec]
        obtain buf' rx' where "spsc_drain_loop f mx sh1 rx2 (count + 1) s1
            = Inr (p1, sh1\<lparr>sp_buf := buf'\<rparr>, rx', count + 1 + of_nat k1, s2)"
          "spsc_draining (sh1\<lparr>sp_buf := buf'\<rparr>) rx'" "rx_head rx' = rx_head rx2 + of_nat k1"
          "spsc_queue (sh1\<lparr>sp_buf := buf'\<rparr>) (rx_head rx') = drop k1 (spsc_queue sh1 (rx_head rx2))"
          by blast
        with unfold False eqs head q show ?thesis
          by (auto simp: sh1_def algebra_simps intro!: exI [of _ buf'] exI [of _ rx'])
      qed
    qed
  qed
qed

lemma publish_guard_drop_eq:
  "sp_head sh = start \<Longrightarrow> publish_guard_drop start head sh = sh\<lparr>sp_head := head\<rparr>"
  by (auto simp: publish_guard_drop_def)

lemma spsc_drain_correct:
  assumes inv: "spsc_shared_inv sh" and rx: "spsc_rx_inv sh rx"
    and fed: "feed f (unat mx) (spsc_queue sh (sp_head sh)) s = (p, k, s')"
  obtains sh' rx' tok' where
    "spsc_drain mx f s sh rx tok
       = Inr (if p then Unwound else Returned (of_nat k), s', sh', rx', tok')"
    and "spsc_queue sh' (sp_head sh') = drop k (spsc_queue sh (sp_head sh))"
    and "spsc_shared_inv sh'" and "spsc_rx_inv sh' rx'"
    and "\<And>tx. spsc_tx_inv sh tx \<Longrightarrow> spsc_tx_inv sh' tx"
    and "sp_cap sh' = sp_cap sh" "sp_disconnected sh' = sp_disconnected sh"
    and "sp_tail sh' = sp_tail sh" "sp_strategy sh' = sp_strategy sh"
proof -
  have head: "rx_head rx = sp_head sh"
    using rx by (simp add: spsc_rx_inv_def)
  have dr: "spsc_draining sh rx"
    using inv rx by (auto simp: spsc_draining_def spsc_shared_inv_def spsc_rx_inv_def)
  have "feed f (unat mx - unat (0 :: usize)) (spsc_queue sh (rx_head rx)) s = (p, k, s')"
    using fed by (simp add: head)
  from spsc_drain_loop_correct [OF dr _ this] obtain buf rx' where
    loop: "spsc_drain_loop f mx sh rx 0 s = Inr (p, sh\<lparr>sp_buf := buf\<rparr>, rx', of_nat k, s')"
    and dr': "spsc_draining (sh\<lparr>sp_buf := buf\<rparr>) rx'"
    and q: "spsc_queue (sh\<lparr>sp_buf := buf\<rparr>) (rx_head rx') = drop k (spsc_queue sh (sp_head sh))"
    by (auto simp: head)
  define sh2 where "sh2 = sh\<lparr>sp_buf := buf, sp_head := rx_head rx'\<rparr>"
  have guard: "publish_guard_drop (rx_head rx) (rx_head rx') (sh\<lparr>sp_buf := buf\<rparr>) = sh2"
    by (simp add: publish_guard_drop_eq head sh2_def)
  have inv2: "spsc_shared_inv sh2" and rx2: "spsc_rx_inv sh2 rx'"
    using inv dr' by (auto simp: sh2_def spsc_draining_def spsc_shared_inv_def spsc_rx_inv_def
        spsc_geometry_def spsc_ring_def)
  have q2: "spsc_queue sh2 (sp_head sh2) = drop k (spsc_queue sh (sp_head sh))"
    using q by (simp add: sh2_def spsc_queue_def)
  then have "unat (sp_tail sh - rx_head rx') = unat (sp_tail sh - sp_head sh) - k"
    using spsc_queue_length [of sh2 "sp_head sh2"] by (simp add: sh2_def)
  then have tx2: "spsc_tx_inv sh2 tx" if "spsc_tx_inv sh tx" for tx
    using that by (auto simp: sh2_def spsc_tx_inv_def)
  obtain sh3 tok3 where step: "(if (of_nat k :: usize) > 0 \<and> sp_strategy sh2 = Park
      then spsc_wake_producer sh2 tok else (sh2, tok)) = (sh3, tok3)"
    by fastforce
  note frame = spsc_wake_producer_inv [of sh2 tok sh3 tok3]
    spsc_wake_producer_frame [of sh2 tok sh3 tok3]
  show thesis
  proof (cases p)
    case True
    then have "spsc_drain mx f s sh rx tok = Inr (Unwound, s', sh2, rx', tok)"
      using loop guard by (simp add: spsc_drain_def Let_def)
    with True show thesis
      by (intro that [of sh2 rx' tok]) (use inv2 rx2 q2 tx2 in \<open>simp_all add: sh2_def\<close>)
  next
    case False
    then have "spsc_drain mx f s sh rx tok = Inr (Returned (of_nat k), s', sh3, rx', tok3)"
      using loop guard step by (auto simp: spsc_drain_def Let_def split: if_splits)
    moreover have "spsc_shared_inv sh3" "spsc_rx_inv sh3 rx'"
      "\<And>tx. spsc_tx_inv sh tx \<Longrightarrow> spsc_tx_inv sh3 tx"
      "spsc_queue sh3 (sp_head sh3) = drop k (spsc_queue sh (sp_head sh))"
      "sp_cap sh3 = sp_cap sh" "sp_disconnected sh3 = sp_disconnected sh"
      "sp_tail sh3 = sp_tail sh" "sp_strategy sh3 = sp_strategy sh"
      using step inv2 rx2 tx2 q2 frame by (auto simp: sh2_def split: if_splits)
    ultimately show thesis
      by (intro that [of sh3 rx' tok3]) (use False in simp_all)
  qed
qed

subsection \<open>Dropping\<close>

lemma spsc_handle_drop_inv:
  assumes "spsc_sender_drop sh tok = (sh', tok')"
  shows "spsc_shared_inv sh \<Longrightarrow> spsc_shared_inv sh'"
    and "spsc_queue sh' h = spsc_queue sh h" and "spsc_tx_inv sh' tx = spsc_tx_inv sh tx"
    and "spsc_rx_inv sh' rx = spsc_rx_inv sh rx" and "sp_disconnected sh'"
    and "sp_cap sh' = sp_cap sh" and "sp_head sh' = sp_head sh" and "sp_tail sh' = sp_tail sh"
proof -
  define sh1 where "sh1 = sh\<lparr>sp_disconnected := True\<rparr>"
  obtain sh2 tok2 where w1: "spsc_wake_consumer sh1 tok = (sh2, tok2)" by fastforce
  have w2: "spsc_wake_producer sh2 tok2 = (sh', tok')"
    using assms w1 by (simp add: spsc_sender_drop_def sh1_def [symmetric] Let_def)
  have sh1: "spsc_shared_inv sh \<Longrightarrow> spsc_shared_inv sh1" "spsc_queue sh1 h = spsc_queue sh h"
    "spsc_tx_inv sh1 tx = spsc_tx_inv sh tx" "spsc_rx_inv sh1 rx = spsc_rx_inv sh rx"
    by (simp_all add: sh1_def spsc_shared_inv_def spsc_defs spsc_tx_inv_def spsc_rx_inv_def)
  note facts = sh1 spsc_wake_consumer_inv [OF w1] spsc_wake_producer_inv [OF w2]
    spsc_wake_consumer_frame [OF w1] spsc_wake_producer_frame [OF w2]
  show "spsc_shared_inv sh \<Longrightarrow> spsc_shared_inv sh'" "spsc_queue sh' h = spsc_queue sh h"
    "spsc_tx_inv sh' tx = spsc_tx_inv sh tx" "spsc_rx_inv sh' rx = spsc_rx_inv sh rx"
    "sp_disconnected sh'" "sp_cap sh' = sp_cap sh" "sp_head sh' = sp_head sh"
    "sp_tail sh' = sp_tail sh"
    using facts by (simp_all add: sh1_def)
qed

lemma spsc_receiver_drop_eq: "spsc_receiver_drop = spsc_sender_drop"
  by (intro ext) (simp add: spsc_receiver_drop_def spsc_sender_drop_def)

lemma spsc_drop_loop_correct:
  assumes "spsc_geometry sh" "spsc_ring sh seq" "seq \<le> sp_tail sh"
  shows "\<exists>buf. spsc_drop_loop seq (sp_tail sh) (sp_mask sh) (sp_buf sh) acc
        = Inr (acc @ spsc_queue sh seq, buf)
      \<and> ring_ok buf (unat (sp_tail sh)) 0 \<and> length buf = length (sp_buf sh)"
  using assms
proof (induction "unat (sp_tail sh) - unat seq" arbitrary: sh seq acc)
  case 0
  then have "seq = sp_tail sh"
    by (simp add: word_le_nat_alt word_unat_eq_iff)
  with 0 show ?case
    by (subst spsc_drop_loop.simps) (auto simp: spsc_queue_def spsc_ring_def)
next
  case (Suc n)
  then have less: "seq < sp_tail sh"
    by (simp add: word_less_nat_alt)
  then have ne: "sp_tail sh \<noteq> seq" by simp
  obtain v buf where read: "slot_read (seq AND sp_mask sh) (sp_buf sh) = Inr (v, buf)"
    and r: "spsc_ring (sh\<lparr>sp_buf := buf\<rparr>) (seq + 1)"
    and q: "spsc_queue sh seq = v # spsc_queue (sh\<lparr>sp_buf := buf\<rparr>) (seq + 1)"
    and l: "length buf = length (sp_buf sh)"
    using Suc.prems(1,2) ne by (rule spsc_pop)
  let ?sh = "sh\<lparr>sp_buf := buf\<rparr>"
  have "n = unat (sp_tail ?sh) - unat (seq + 1)"
    using Suc.hyps(2) less by (simp add: unat_less_suc)
  moreover have "spsc_geometry ?sh"
    using Suc.prems(1) l by (simp add: spsc_geometry_def)
  moreover have "seq + 1 \<le> sp_tail ?sh"
    using less by (simp add: word_le_nat_alt word_less_nat_alt unat_less_suc)
  ultimately have "\<exists>b. spsc_drop_loop (seq + 1) (sp_tail ?sh) (sp_mask ?sh) (sp_buf ?sh) (acc @ [v])
        = Inr ((acc @ [v]) @ spsc_queue ?sh (seq + 1), b)
      \<and> ring_ok b (unat (sp_tail ?sh)) 0 \<and> length b = length (sp_buf ?sh)"
    using Suc.hyps(1) [of ?sh "seq + 1" "acc @ [v]"] r by blast
  moreover have "spsc_drop_loop seq (sp_tail sh) (sp_mask sh) (sp_buf sh) acc
      = spsc_drop_loop (seq + 1) (sp_tail ?sh) (sp_mask ?sh) (sp_buf ?sh) (acc @ [v])"
    using less read by (subst spsc_drop_loop.simps) (simp add: slot_drop_eq_read)
  ultimately show ?case
    using l q by simp
qed

lemma spsc_shared_drop_correct:
  assumes "spsc_shared_inv sh" "sp_head sh \<le> sp_tail sh"
  shows "\<exists>sh'. spsc_shared_drop sh = Inr (spsc_queue sh (sp_head sh), sh')
      \<and> (\<forall>c \<in> set (sp_buf sh'). \<not> is_live c)"
proof -
  have "spsc_geometry sh" "spsc_ring sh (sp_head sh)"
    using assms(1) by (auto simp: spsc_shared_inv_def)
  from spsc_drop_loop_correct [OF this assms(2), of "[]"] obtain buf where
    "spsc_drop_loop (sp_head sh) (sp_tail sh) (sp_mask sh) (sp_buf sh) []
       = Inr (spsc_queue sh (sp_head sh), buf)"
    and ok: "ring_ok buf (unat (sp_tail sh)) 0"
    by auto
  with ring_none_live [OF ok] show ?thesis
    by (auto simp: spsc_shared_drop_def)
qed

section \<open>The channel with its two handles\<close>

text \<open>
  A channel as its users hold it: the ring behind the \<^verbatim>\<open>Arc\<close>, each handle until it is dropped,
  and the park tokens of the threads. The second drop also drops the ring.
\<close>

record 'a spsc =
  ch_shared :: "'a spsc_shared"
  ch_tx :: "spsc_sender option"
  ch_rx :: "spsc_receiver option"
  ch_tokens :: tokens

definition spsc_open :: "usize \<Rightarrow> wait_strategy \<Rightarrow> 'a spsc outcome" where
  "spsc_open cap strategy =
     obind (spsc_channel cap strategy) (\<lambda>(sh, tx, rx).
       Inr \<lparr>ch_shared = sh, ch_tx = Some tx, ch_rx = Some rx, ch_tokens = {}\<rparr>)"

definition spsc_send_op ::
    "'a \<Rightarrow> 'a spsc \<Rightarrow> ((unit, 'a try_send_error) rust_result \<times> 'a spsc) outcome" where
  "spsc_send_op v c =
     (case ch_tx c of
        None \<Rightarrow> Inl HandleDropped
      | Some tx \<Rightarrow>
          obind (spsc_try_send v (ch_shared c) tx (ch_tokens c)) (\<lambda>(r, sh, tx', tok).
            Inr (r, c\<lparr>ch_shared := sh, ch_tx := Some tx', ch_tokens := tok\<rparr>)))"

definition spsc_recv_op :: "'a spsc \<Rightarrow> (('a, try_recv_error) rust_result \<times> 'a spsc) outcome" where
  "spsc_recv_op c =
     (case ch_rx c of
        None \<Rightarrow> Inl HandleDropped
      | Some rx \<Rightarrow>
          obind (spsc_try_recv (ch_shared c) rx (ch_tokens c)) (\<lambda>(r, sh, rx', tok).
            Inr (r, c\<lparr>ch_shared := sh, ch_rx := Some rx', ch_tokens := tok\<rparr>)))"

definition spsc_drain_op ::
    "usize \<Rightarrow> ('a \<Rightarrow> 's \<Rightarrow> bool \<times> 's) \<Rightarrow> 's \<Rightarrow> 'a spsc \<Rightarrow> (drain_exit \<times> 's \<times> 'a spsc) outcome" where
  "spsc_drain_op mx f s c =
     (case ch_rx c of
        None \<Rightarrow> Inl HandleDropped
      | Some rx \<Rightarrow>
          obind (spsc_drain mx f s (ch_shared c) rx (ch_tokens c)) (\<lambda>(e, s', sh, rx', tok).
            Inr (e, s', c\<lparr>ch_shared := sh, ch_rx := Some rx', ch_tokens := tok\<rparr>)))"

definition spsc_drain_vec :: "usize \<Rightarrow> 'a spsc \<Rightarrow> ('a list \<times> 'a spsc) outcome" where
  "spsc_drain_vec mx c = obind (spsc_drain_op mx push_back [] c) (\<lambda>(_, got, c'). Inr (got, c'))"

definition spsc_drop_tx :: "'a spsc \<Rightarrow> ('a list \<times> 'a spsc) outcome" where
  "spsc_drop_tx c =
     (case ch_tx c of
        None \<Rightarrow> Inl HandleDropped
      | Some tx \<Rightarrow>
          (let (sh, tok) = spsc_sender_drop (ch_shared c) (ch_tokens c);
               c1 = c\<lparr>ch_shared := sh, ch_tx := None, ch_tokens := tok\<rparr>
           in if ch_rx c = None then
                obind (spsc_shared_drop sh) (\<lambda>(vs, sh'). Inr (vs, c1\<lparr>ch_shared := sh'\<rparr>))
              else Inr ([], c1)))"

definition spsc_drop_rx :: "'a spsc \<Rightarrow> ('a list \<times> 'a spsc) outcome" where
  "spsc_drop_rx c =
     (case ch_rx c of
        None \<Rightarrow> Inl HandleDropped
      | Some rx \<Rightarrow>
          (let (sh, tok) = spsc_receiver_drop (ch_shared c) (ch_tokens c);
               c1 = c\<lparr>ch_shared := sh, ch_rx := None, ch_tokens := tok\<rparr>
           in if ch_tx c = None then
                obind (spsc_shared_drop sh) (\<lambda>(vs, sh'). Inr (vs, c1\<lparr>ch_shared := sh'\<rparr>))
              else Inr ([], c1)))"

definition spsc_inv :: "'a spsc \<Rightarrow> bool" where
  "spsc_inv c \<longleftrightarrow>
     spsc_shared_inv (ch_shared c) \<and>
     (\<forall>tx. ch_tx c = Some tx \<longrightarrow> spsc_tx_inv (ch_shared c) tx) \<and>
     (\<forall>rx. ch_rx c = Some rx \<longrightarrow> spsc_rx_inv (ch_shared c) rx) \<and>
     sp_disconnected (ch_shared c) = (ch_tx c = None \<or> ch_rx c = None)"

definition spsc_abs :: "'a spsc \<Rightarrow> 'a bchan" where
  "spsc_abs c =
     \<lparr>bc_queue = spsc_queue (ch_shared c) (sp_head (ch_shared c)),
      bc_cap = unat (sp_cap (ch_shared c)),
      bc_senders = (if ch_tx c = None then 0 else 1),
      bc_rx_live = (ch_rx c \<noteq> None),
      bc_quota = None\<rparr>"

lemma spsc_abs_quota [simp]: "bc_quota (spsc_abs c) = None"
  by (simp add: spsc_abs_def)

lemma spsc_open_inv:
  assumes "is_power_of_two cap"
  obtains c where "spsc_open cap strategy = Inr c" and "spsc_inv c"
    and "spsc_abs c = fresh_bchan cap"
    and "sp_strategy (ch_shared c) = strategy"
proof -
  let ?sh = "\<lparr>sp_buf = replicate (unat cap) Uninit, sp_mask = cap - 1, sp_cap = cap,
     sp_tail = 0, sp_head = 0, sp_disconnected = False, sp_strategy = strategy,
     sp_consumer_parker = parker_new, sp_producer_parker = parker_new\<rparr>"
  let ?c = "\<lparr>ch_shared = ?sh, ch_tx = Some \<lparr>tx_tail = 0, tx_cached_head = 0\<rparr>,
     ch_rx = Some \<lparr>rx_head = 0, rx_cached_tail = 0\<rparr>, ch_tokens = {}\<rparr>"
  have "spsc_open cap strategy = Inr ?c"
    using assms by (simp add: spsc_open_def spsc_channel_def assert_cap_cases)
  moreover have "spsc_inv ?c"
    using assms ring_ok_new [OF is_power_of_two_pos [OF assms]]
    by (simp add: spsc_inv_def spsc_shared_inv_def spsc_defs spsc_tx_inv_def spsc_rx_inv_def)
  ultimately show thesis
    by (rule that) (simp_all add: spsc_abs_def spsc_queue_def)
qed

lemma spsc_abs_ok: "spsc_inv c \<Longrightarrow> bchan_ok (spsc_abs c)"
  using spsc_ring_le_cap [of "ch_shared c"]
  by (auto simp: spsc_inv_def spsc_abs_def bchan_ok_def spsc_shared_inv_def spsc_geometry_def
      dest: is_power_of_two_pos)

lemma spsc_send_op_refines:
  assumes inv: "spsc_inv c" and live: "0 < bc_senders (spsc_abs c)"
  shows "\<exists>c'. spsc_send_op v c = Inr (fst (spec_try_send v (spsc_abs c)), c') \<and> spsc_inv c'
      \<and> spsc_abs c' = snd (spec_try_send v (spsc_abs c))"
proof -
  from live obtain tx where tx: "ch_tx c = Some tx"
    by (auto simp: spsc_abs_def split: if_splits)
  have "spsc_shared_inv (ch_shared c)" "spsc_tx_inv (ch_shared c) tx"
    using inv tx by (auto simp: spsc_inv_def)
  then show ?thesis
    by (rule spsc_try_send_correct [of "ch_shared c" tx v "ch_tokens c"])
      (use inv tx in \<open>auto simp: spsc_send_op_def spsc_inv_def spsc_abs_def spec_try_send_def\<close>)
qed

lemma spsc_recv_op_refines:
  assumes inv: "spsc_inv c" and live: "bc_rx_live (spsc_abs c)"
  shows "\<exists>c'. spsc_recv_op c = Inr (fst (spec_try_recv (spsc_abs c)), c') \<and> spsc_inv c'
      \<and> spsc_abs c' = snd (spec_try_recv (spsc_abs c))"
proof -
  from live obtain rx where rx: "ch_rx c = Some rx"
    by (auto simp: spsc_abs_def)
  have "spsc_shared_inv (ch_shared c)" "spsc_rx_inv (ch_shared c) rx"
    using inv rx by (auto simp: spsc_inv_def)
  then show ?thesis
    by (rule spsc_try_recv_correct [of "ch_shared c" rx "ch_tokens c"])
      (use inv rx in \<open>auto simp: spsc_recv_op_def spsc_inv_def spsc_abs_def spec_try_recv_def
         split: list.splits\<close>)
qed

lemma spsc_drain_op_correct:
  assumes inv: "spsc_inv c" and live: "bc_rx_live (spsc_abs c)"
    and fed: "feed f (unat mx) (bc_queue (spsc_abs c)) s = (p, k, s')"
  shows "\<exists>c'. spsc_drain_op mx f s c = Inr (if p then Unwound else Returned (of_nat k), s', c')
      \<and> spsc_inv c'
      \<and> spsc_abs c' = (spsc_abs c)\<lparr>bc_queue := drop k (bc_queue (spsc_abs c))\<rparr>"
proof -
  from live obtain rx where rx: "ch_rx c = Some rx"
    by (auto simp: spsc_abs_def)
  have "spsc_shared_inv (ch_shared c)" "spsc_rx_inv (ch_shared c) rx"
    "feed f (unat mx) (spsc_queue (ch_shared c) (sp_head (ch_shared c))) s = (p, k, s')"
    using inv rx fed by (auto simp: spsc_inv_def spsc_abs_def)
  then show ?thesis
    by (rule spsc_drain_correct [of "ch_shared c" rx f mx s p k s' "ch_tokens c"])
      (use inv rx in \<open>auto simp: spsc_drain_op_def spsc_inv_def spsc_abs_def\<close>)
qed

lemma spsc_drain_vec_refines:
  assumes "spsc_inv c" and "bc_rx_live (spsc_abs c)"
  shows "\<exists>c'. spsc_drain_vec n c = Inr (fst (spec_drain (unat n) (spsc_abs c)), c') \<and> spsc_inv c'
      \<and> spsc_abs c' = snd (spec_drain (unat n) (spsc_abs c))"
  using spsc_drain_op_correct [OF assms feed_push_back, of n "[]"]
  by (auto simp: spsc_drain_vec_def spec_drain_def min_def)

text \<open>There is one producer handle; it is live until it is dropped.\<close>

definition spsc_tx_live :: "unit \<Rightarrow> 'a spsc \<Rightarrow> bool" where
  "spsc_tx_live _ c \<longleftrightarrow> ch_tx c \<noteq> None"

lemma spsc_tx_live_abs: "spsc_tx_live p c \<longleftrightarrow> 0 < bc_senders (spsc_abs c)"
  by (simp add: spsc_tx_live_def spsc_abs_def)

interpretation spsc: bounded_channel spsc_inv spsc_abs spsc_tx_live "\<lambda>_. spsc_send_op" spsc_recv_op
    spsc_drain_vec
proof unfold_locales
  fix c :: "'a spsc" and v n
  assume inv: "spsc_inv c"
  then show "bchan_ok (spsc_abs c)" by (rule spsc_abs_ok)
  show "\<exists>c'. spsc_send_op v c = Inr (fst (spec_try_send v (spsc_abs c)), c') \<and> spsc_inv c'
      \<and> spsc_abs c' = snd (spec_try_send v (spsc_abs c)) \<and> (\<forall>q. spsc_tx_live q c' = spsc_tx_live q c)"
    if "spsc_tx_live p c" for p
    using spsc_send_op_refines [OF inv that [unfolded spsc_tx_live_abs], of v]
    by (auto simp: spsc_tx_live_abs spec_try_send_def)
  show "\<exists>c'. spsc_recv_op c = Inr (fst (spec_try_recv (spsc_abs c)), c') \<and> spsc_inv c'
      \<and> spsc_abs c' = snd (spec_try_recv (spsc_abs c)) \<and> (\<forall>q. spsc_tx_live q c' = spsc_tx_live q c)"
    if "bc_rx_live (spsc_abs c)"
    using spsc_recv_op_refines [OF inv that]
    by (auto simp: spsc_tx_live_abs spec_try_recv_def split: list.splits)
  show "\<exists>c'. spsc_drain_vec n c = Inr (fst (spec_drain (unat n) (spsc_abs c)), c') \<and> spsc_inv c'
      \<and> spsc_abs c' = snd (spec_drain (unat n) (spsc_abs c))
      \<and> (\<forall>q. spsc_tx_live q c' = spsc_tx_live q c)"
    if "bc_rx_live (spsc_abs c)"
    using spsc_drain_vec_refines [OF inv that, of n]
    by (auto simp: spsc_tx_live_abs spec_drain_def)
qed

lemma spsc_admissible:
  "spsc.admissible ps c \<longleftrightarrow> bc_rx_live (spsc_abs c) \<and> (\<forall>v. OpSend () v \<in> set ps \<longrightarrow> 0 < bc_senders (spsc_abs c))"
  by (auto simp: spsc.admissible_def spsc_tx_live_abs)

section \<open>Counters over a whole program\<close>

abbreviation spsc_run ::
    "(unit, 'a) chan_op list \<Rightarrow> 'a spsc \<Rightarrow> ((unit, 'a) chan_event list \<times> 'a spsc) outcome" where
  "spsc_run \<equiv> impl_run (\<lambda>_. spsc_send_op) spsc_recv_op spsc_drain_vec"

abbreviation spsc_step ::
    "(unit, 'a) chan_op \<Rightarrow> 'a spsc \<Rightarrow> ((unit, 'a) chan_event \<times> 'a spsc) outcome" where
  "spsc_step \<equiv> impl_step (\<lambda>_. spsc_send_op) spsc_recv_op spsc_drain_vec"

text \<open>The published tail counts the accepted values, modulo the word size.\<close>

lemma spsc_send_op_tail:
  assumes inv: "spsc_inv c" and run: "spsc_send_op v c = Inr (r, c')"
  shows "sp_tail (ch_shared c') = sp_tail (ch_shared c) + of_nat (length (accepted [EvSend () v r]))
     \<and> ch_rx c' = ch_rx c"
proof -
  obtain tx where tx: "ch_tx c = Some tx"
    using run by (auto simp: spsc_send_op_def split: option.splits)
  have "spsc_shared_inv (ch_shared c)" "spsc_tx_inv (ch_shared c) tx"
    using inv tx by (auto simp: spsc_inv_def)
  then obtain sh' tx' tok' where t: "spsc_try_send v (ch_shared c) tx (ch_tokens c) =
       Inr (if sp_disconnected (ch_shared c) then Err (SendDisconnected v)
            else if length (spsc_queue (ch_shared c) (sp_head (ch_shared c))) = unat (sp_cap (ch_shared c))
            then Err (Full v) else Ok (), sh', tx', tok')"
    and q: "spsc_queue sh' (sp_head sh') =
       (if sp_disconnected (ch_shared c)
           \<or> length (spsc_queue (ch_shared c) (sp_head (ch_shared c))) = unat (sp_cap (ch_shared c))
        then spsc_queue (ch_shared c) (sp_head (ch_shared c))
        else spsc_queue (ch_shared c) (sp_head (ch_shared c)) @ [v])"
    and h: "sp_head sh' = sp_head (ch_shared c)"
    by (rule spsc_try_send_correct)
  from t tx run have c': "ch_shared c' = sh'" "ch_rx c' = ch_rx c"
    and r: "r = (if sp_disconnected (ch_shared c) then Err (SendDisconnected v)
            else if length (spsc_queue (ch_shared c) (sp_head (ch_shared c))) = unat (sp_cap (ch_shared c))
            then Err (Full v) else Ok ())"
    by (auto simp: spsc_send_op_def)
  have "unat (sp_tail sh' - sp_head (ch_shared c))
      = unat (sp_tail (ch_shared c) - sp_head (ch_shared c)) + length (accepted [EvSend () v r])"
    using arg_cong [OF q, of length] by (auto simp: h r)
  from arg_cong [OF this, of "of_nat :: nat \<Rightarrow> usize"] have "sp_tail sh' - sp_head (ch_shared c)
      = (sp_tail (ch_shared c) - sp_head (ch_shared c)) + of_nat (length (accepted [EvSend () v r]))"
    by simp
  then show ?thesis
    by (simp add: c' algebra_simps)
qed

lemma spsc_recv_op_tail:
  assumes inv: "spsc_inv c" and run: "spsc_recv_op c = Inr (r, c')"
  shows "sp_tail (ch_shared c') = sp_tail (ch_shared c)"
proof -
  obtain rx where rx: "ch_rx c = Some rx"
    using run by (auto simp: spsc_recv_op_def split: option.splits)
  have "spsc_shared_inv (ch_shared c)" "spsc_rx_inv (ch_shared c) rx"
    using inv rx by (auto simp: spsc_inv_def)
  then show ?thesis
    by (rule spsc_try_recv_correct [of "ch_shared c" rx "ch_tokens c"])
      (use rx run in \<open>auto simp: spsc_recv_op_def\<close>)
qed

lemma spsc_drain_vec_tail:
  assumes inv: "spsc_inv c" and run: "spsc_drain_vec n c = Inr (vs, c')"
  shows "sp_tail (ch_shared c') = sp_tail (ch_shared c)"
proof -
  obtain rx where rx: "ch_rx c = Some rx"
    using run by (auto simp: spsc_drain_vec_def spsc_drain_op_def split: option.splits)
  have "spsc_shared_inv (ch_shared c)" "spsc_rx_inv (ch_shared c) rx"
    using inv rx by (auto simp: spsc_inv_def)
  then show ?thesis
    by (rule spsc_drain_correct [OF _ _ feed_push_back, of "ch_shared c" rx n "[]" "ch_tokens c"])
      (use rx run in \<open>auto simp: spsc_drain_vec_def spsc_drain_op_def\<close>)
qed

lemma spsc_step_tail:
  assumes inv: "spsc_inv c" and run: "spsc_step p c = Inr (e, c')"
  shows "sp_tail (ch_shared c') = sp_tail (ch_shared c) + of_nat (length (accepted [e]))"
  using run spsc_send_op_tail [OF inv] spsc_recv_op_tail [OF inv] spsc_drain_vec_tail [OF inv]
  by (cases p) auto

lemma spsc_run_tail:
  assumes "spsc_inv c" "spsc.admissible ps c" "spsc_run ps c = Inr (es, c')"
  shows "sp_tail (ch_shared c') = sp_tail (ch_shared c) + of_nat (length (accepted es))"
  using assms
proof (induction ps arbitrary: c es)
  case Nil
  then show ?case by simp
next
  case (Cons p ps)
  then obtain e c1 es1 where s: "spsc_step p c = Inr (e, c1)" "spsc_run ps c1 = Inr (es1, c')"
    and es: "es = e # es1"
    by auto
  obtain c2 where "spsc_step p c = Inr (fst (spec_step p (spsc_abs c)), c2)" "spsc_inv c2"
    "spsc.admissible ps c2"
    using Cons.prems(1,2) by (rule spsc.step_refines)
  with s have "sp_tail (ch_shared c') = sp_tail (ch_shared c1) + of_nat (length (accepted es1))"
    using Cons.IH by simp
  then show ?case
    using spsc_step_tail [OF Cons.prems(1) s(1)] by (simp add: es accepted_Cons [of e es1])
qed

text \<open>What a program leaves behind on a fresh channel.\<close>

lemma spsc_reach:
  fixes ps :: "(unit, 'a) chan_op list"
  assumes "is_power_of_two cap"
  obtains c0 es c where "spsc_open cap strategy = Inr c0" and "spsc_run ps c0 = Inr (es, c)"
    and "spsc_inv c" and "ch_tx c \<noteq> None" and "ch_rx c \<noteq> None"
    and "es = fst (spec_run ps (fresh_bchan cap))"
    and "spsc_abs c =
      snd (spec_run ps (fresh_bchan cap))"
    and "sp_tail (ch_shared c) = of_nat (length (accepted es))"
proof -
  let ?b = "fresh_bchan cap"
  obtain c0 :: "'a spsc"
    where c0: "spsc_open cap strategy = Inr c0" "spsc_inv c0" "spsc_abs c0 = ?b"
    using assms by (rule spsc_open_inv)
  then have live: "spsc.admissible ps c0" by (simp add: spsc_admissible)
  from spsc.run_refines [OF c0(2) live] obtain c
    where c: "spsc_run ps c0 = Inr (fst (spec_run ps ?b), c)" "spsc_inv c"
      "spsc_abs c = snd (spec_run ps ?b)"
    by (auto simp: c0)
  have "bc_senders (spsc_abs c) = 1" "bc_rx_live (spsc_abs c)"
    by (simp_all add: c spec_run_frame)
  then have "ch_tx c \<noteq> None" "ch_rx c \<noteq> None"
    by (auto simp: spsc_abs_def split: if_splits)
  moreover have "sp_tail (ch_shared c0) = 0"
    using c0(1) by (auto simp: spsc_open_def spsc_channel_def)
  ultimately show thesis
    using that [OF c0(1) c(1,2)] c spsc_run_tail [OF c0(2) live c(1)] by simp
qed

end
