(* ===== verification/Spsc_Blocking.thy ===== *)
theory Spsc_Blocking
  imports Spsc
begin

text \<open>
  The blocking methods \<^verbatim>\<open>Sender::send\<close> and \<^verbatim>\<open>Receiver::recv\<close> of \<^verbatim>\<open>src/spsc.rs\<close> as instances
  of \<open>block_loop\<close>. The state of a blocked call is the value in flight (send only), the idle
  ladder and the channel. Between two iterations the peer acts as its schedule says. The
  interpretations of \<open>live_blocking_operation\<close> discharge the parking protocol: a thread that
  went to sleep is registered with its parker, and every action of the peer that ends the wait
  also hands it the token.
\<close>

section \<open>The methods\<close>

type_synonym 'a spsc_sending = "'a \<times> idle_state \<times> 'a spsc"
type_synonym 'a spsc_receiving = "idle_state \<times> 'a spsc"

definition spsc_send_attempt ::
    "'a spsc_sending \<Rightarrow> ((unit, 'a send_error) rust_result option \<times> 'a spsc_sending) outcome" where
  "spsc_send_attempt s =
     (case s of (v, i, c) \<Rightarrow>
        obind (spsc_send_op v c) (\<lambda>(r, c').
          case r of
            Ok _ \<Rightarrow> Inr (Some (Ok ()), (v, i, c'))
          | Err (SendDisconnected back) \<Rightarrow> Inr (Some (Err (SendError back)), (back, i, c'))
          | Err (Full back) \<Rightarrow> Inr (None, (back, i, c'))))"

text \<open>The wait on a full ring; \<open>True\<close> means that the thread goes to sleep in \<^verbatim>\<open>park\<close>.\<close>

definition spsc_send_wait :: "tid \<Rightarrow> 'a spsc_sending \<Rightarrow> (bool \<times> 'a spsc_sending) outcome" where
  "spsc_send_wait me s =
     (case s of (v, i, c) \<Rightarrow>
        (case ch_tx c of
           None \<Rightarrow> Inl HandleDropped
         | Some tx \<Rightarrow>
             let sh = ch_shared c
             in case sp_strategy sh of
                  BusySpin \<Rightarrow> Inr (False, s)
                | Backoff \<Rightarrow> Inr (False, (v, snd (idle i), c))
                | BackoffYield \<Rightarrow> Inr (False, (v, snd (idle i), c))
                | Park \<Rightarrow>
                    let sh1 = sh\<lparr>sp_producer_parker := prepare_park me (sp_producer_parker sh)\<rparr>;
                        head = sp_head sh1
                    in if tx_tail tx - head < sp_cap sh1 \<or> sp_disconnected sh1 then
                         Inr (False, (v, i, c\<lparr>ch_shared :=
                           sh1\<lparr>sp_producer_parker := cancel (sp_producer_parker sh1)\<rparr>\<rparr>))
                       else Inr (True, (v, i, c\<lparr>ch_shared := sh1\<rparr>))))"

definition spsc_send_resume :: "tid \<Rightarrow> 'a spsc_sending \<Rightarrow> 'a spsc_sending option" where
  "spsc_send_resume me s =
     (case s of (v, i, c) \<Rightarrow>
        (case park me (sp_producer_parker (ch_shared c)) (ch_tokens c) of
           None \<Rightarrow> None
         | Some (p, tok) \<Rightarrow>
             Some (v, i, c\<lparr>ch_shared := (ch_shared c)\<lparr>sp_producer_parker := p\<rparr>,
                            ch_tokens := tok\<rparr>)))"

definition sending_env :: "(nat \<Rightarrow> 'a spsc \<Rightarrow> 'a spsc) \<Rightarrow> nat \<Rightarrow> 'a spsc_sending \<Rightarrow> 'a spsc_sending" where
  "sending_env env k s = (case s of (v, i, c) \<Rightarrow> (v, i, env k c))"

definition spsc_send ::
    "tid \<Rightarrow> (nat \<Rightarrow> 'a spsc \<Rightarrow> 'a spsc) \<Rightarrow> nat \<Rightarrow> 'a \<Rightarrow> 'a spsc \<Rightarrow>
     ((unit, 'a send_error) rust_result \<times> 'a spsc_sending) option outcome" where
  "spsc_send me env fuel v c =
     block_loop spsc_send_attempt (spsc_send_wait me) (spsc_send_resume me) (sending_env env)
       fuel 0 (v, for_strategy (sp_strategy (ch_shared c)), c)"

definition spsc_recv_attempt ::
    "'a spsc_receiving \<Rightarrow> (('a, recv_error) rust_result option \<times> 'a spsc_receiving) outcome" where
  "spsc_recv_attempt s =
     (case s of (i, c) \<Rightarrow>
        obind (spsc_recv_op c) (\<lambda>(r, c').
          case r of
            Ok v \<Rightarrow> Inr (Some (Ok v), (i, c'))
          | Err RecvDisconnected \<Rightarrow> Inr (Some (Err RecvError), (i, c'))
          | Err Empty \<Rightarrow> Inr (None, (i, c'))))"

definition spsc_recv_wait :: "tid \<Rightarrow> 'a spsc_receiving \<Rightarrow> (bool \<times> 'a spsc_receiving) outcome" where
  "spsc_recv_wait me s =
     (case s of (i, c) \<Rightarrow>
        (case ch_rx c of
           None \<Rightarrow> Inl HandleDropped
         | Some rx \<Rightarrow>
             let sh = ch_shared c
             in case sp_strategy sh of
                  BusySpin \<Rightarrow> Inr (False, s)
                | Backoff \<Rightarrow> Inr (False, (snd (idle i), c))
                | BackoffYield \<Rightarrow> Inr (False, (snd (idle i), c))
                | Park \<Rightarrow>
                    let sh1 = sh\<lparr>sp_consumer_parker := prepare_park me (sp_consumer_parker sh)\<rparr>
                    in if sp_tail sh1 \<noteq> rx_head rx \<or> sp_disconnected sh1 then
                         Inr (False, (i, c\<lparr>ch_shared :=
                           sh1\<lparr>sp_consumer_parker := cancel (sp_consumer_parker sh1)\<rparr>\<rparr>))
                       else Inr (True, (i, c\<lparr>ch_shared := sh1\<rparr>))))"

definition spsc_recv_resume :: "tid \<Rightarrow> 'a spsc_receiving \<Rightarrow> 'a spsc_receiving option" where
  "spsc_recv_resume me s =
     (case s of (i, c) \<Rightarrow>
        (case park me (sp_consumer_parker (ch_shared c)) (ch_tokens c) of
           None \<Rightarrow> None
         | Some (p, tok) \<Rightarrow>
             Some (i, c\<lparr>ch_shared := (ch_shared c)\<lparr>sp_consumer_parker := p\<rparr>,
                        ch_tokens := tok\<rparr>)))"

definition receiving_env ::
    "(nat \<Rightarrow> 'a spsc \<Rightarrow> 'a spsc) \<Rightarrow> nat \<Rightarrow> 'a spsc_receiving \<Rightarrow> 'a spsc_receiving" where
  "receiving_env env k s = (case s of (i, c) \<Rightarrow> (i, env k c))"

definition spsc_recv ::
    "tid \<Rightarrow> (nat \<Rightarrow> 'a spsc \<Rightarrow> 'a spsc) \<Rightarrow> nat \<Rightarrow> 'a spsc \<Rightarrow>
     (('a, recv_error) rust_result \<times> 'a spsc_receiving) option outcome" where
  "spsc_recv me env fuel c =
     block_loop spsc_recv_attempt (spsc_recv_wait me) (spsc_recv_resume me) (receiving_env env)
       fuel 0 (for_strategy (sp_strategy (ch_shared c)), c)"

text \<open>The peers' schedules as environments.\<close>

definition spsc_rx_env :: "(nat \<Rightarrow> rx_action) \<Rightarrow> nat \<Rightarrow> 'a spsc \<Rightarrow> 'a spsc" where
  "spsc_rx_env sched k = rx_act spsc_recv_op spsc_drain_vec spsc_drop_rx (sched k)"

definition spsc_tx_env :: "(nat \<Rightarrow> 'a tx_action) \<Rightarrow> nat \<Rightarrow> 'a spsc \<Rightarrow> 'a spsc" where
  "spsc_tx_env sched k = tx_act spsc_send_op spsc_drop_tx (sched k)"

section \<open>What the operations do to the parkers\<close>

lemma spsc_try_send_notify:
  assumes "spsc_try_send v sh tx tok = Inr (r, sh', tx', tok')"
  shows "(sp_consumer_parker sh', tok') =
      (if is_ok r \<and> sp_strategy sh = Park then wake (sp_consumer_parker sh) tok
       else (sp_consumer_parker sh, tok))"
    and "sp_producer_parker sh' = sp_producer_parker sh" and "sp_strategy sh' = sp_strategy sh"
  using assms
  by (auto simp: spsc_try_send_def Let_def spsc_wake_consumer_def case_prod_unfold split: if_splits)

lemma spsc_wake_producer_alt:
  "spsc_wake_producer sh tok =
     (sh\<lparr>sp_producer_parker := fst (wake (sp_producer_parker sh) tok)\<rparr>,
      snd (wake (sp_producer_parker sh) tok))"
  by (simp add: spsc_wake_producer_def case_prod_unfold Let_def)

lemma spsc_pop_run:
  assumes "slot_read (rx_head rx AND sp_mask sh) (sp_buf sh) = Inr (v, buf)"
  shows "spsc_pop_with sh tok rx =
     (let w = wake (sp_producer_parker sh) tok;
          sh1 = sh\<lparr>sp_buf := buf, sp_head := rx_head rx + 1\<rparr>;
          rx1 = rx\<lparr>rx_head := rx_head rx + 1\<rparr>
      in if sp_strategy sh = Park then Inr (Ok v, sh1\<lparr>sp_producer_parker := fst w\<rparr>, rx1, snd w)
         else Inr (Ok v, sh1, rx1, tok))"
  by (simp add: spsc_pop_with_def assms Let_def spsc_wake_producer_alt)

lemma spsc_pop_notify:
  assumes "spsc_pop_with sh tok rx = Inr (r, sh', rx', tok')"
  shows "is_ok r \<and> (sp_producer_parker sh', tok') =
      (if sp_strategy sh = Park then wake (sp_producer_parker sh) tok
       else (sp_producer_parker sh, tok))
    \<and> sp_consumer_parker sh' = sp_consumer_parker sh \<and> sp_strategy sh' = sp_strategy sh"
proof (cases "slot_read (rx_head rx AND sp_mask sh) (sp_buf sh)")
  case (Inl e)
  with assms show ?thesis by (simp add: spsc_pop_with_def)
next
  case (Inr p)
  obtain v buf where "p = (v, buf)" by fastforce
  with Inr have "slot_read (rx_head rx AND sp_mask sh) (sp_buf sh) = Inr (v, buf)" by simp
  from trans [OF assms [symmetric] spsc_pop_run [OF this, of tok]] show ?thesis
    by (cases "sp_strategy sh = Park") (simp_all add: Let_def)
qed

lemma spsc_try_recv_notify:
  assumes "spsc_try_recv sh rx tok = Inr (r, sh', rx', tok')"
  shows "(sp_producer_parker sh', tok') =
      (if is_ok r \<and> sp_strategy sh = Park then wake (sp_producer_parker sh) tok
       else (sp_producer_parker sh, tok))"
    and "sp_consumer_parker sh' = sp_consumer_parker sh" and "sp_strategy sh' = sp_strategy sh"
proof -
  consider e where "r = Err e" "sh' = sh" "tok' = tok"
    | rx1 where "spsc_pop_with sh tok rx1 = Inr (r, sh', rx', tok')"
    using assms unfolding spsc_try_recv_def Let_def by (metis Inr_inject Pair_inject)
  note cases = this
  show "(sp_producer_parker sh', tok') =
      (if is_ok r \<and> sp_strategy sh = Park then wake (sp_producer_parker sh) tok
       else (sp_producer_parker sh, tok))"
    by (rule cases) (auto dest: spsc_pop_notify)
  show "sp_consumer_parker sh' = sp_consumer_parker sh"
    by (rule cases) (auto dest: spsc_pop_notify)
  show "sp_strategy sh' = sp_strategy sh"
    by (rule cases) (auto dest: spsc_pop_notify)
qed

lemma spsc_drain_loop_notify:
  "spsc_drain_loop f mx sh rx n s = Inr (p, sh', rx', n', s') \<Longrightarrow>
     sp_consumer_parker sh' = sp_consumer_parker sh \<and> sp_producer_parker sh' = sp_producer_parker sh
     \<and> sp_strategy sh' = sp_strategy sh"
proof (induction f mx sh rx n s arbitrary: p sh' rx' n' s' rule: spsc_drain_loop.induct)
  case (1 f mx sh rx count s)
  define rx1 where "rx1 = spsc_refresh_tail sh rx"
  note run = "1.prems" [unfolded spsc_drain_loop.simps [of f mx sh rx count s] Let_def,
      folded rx1_def]
  show ?case
  proof (cases "count < mx \<and> rx_head rx1 \<noteq> rx_cached_tail rx1")
    case False
    with run show ?thesis by (auto split: if_splits)
  next
    case True
    then obtain v buf where read: "slot_read (rx_head rx1 AND sp_mask sh) (sp_buf sh) = Inr (v, buf)"
      using run by (auto split: sum.splits)
    obtain pf s1 where f: "f v s = (pf, s1)" by fastforce
    show ?thesis
    proof (cases pf)
      case True
      with \<open>count < mx \<and> _\<close> run read f show ?thesis by auto
    next
      case False
      with True run read f
      have "spsc_drain_loop f mx (sh\<lparr>sp_buf := buf\<rparr>) (rx1\<lparr>rx_head := rx_head rx1 + 1\<rparr>) (count + 1) s1
          = Inr (p, sh', rx', n', s')"
        by simp
      from "1.IH" [OF _ rx1_def _ read refl refl refl refl f [symmetric] False this] True
      show ?thesis by simp
    qed
  qed
qed

lemma spsc_drain_notify:
  assumes "spsc_drain mx f s sh rx tok = Inr (e, s', sh', rx', tok')"
  shows "(sp_producer_parker sh', tok') =
      (if e \<noteq> Unwound \<and> e \<noteq> Returned 0 \<and> sp_strategy sh = Park
       then wake (sp_producer_parker sh) tok else (sp_producer_parker sh, tok))"
    and "sp_consumer_parker sh' = sp_consumer_parker sh" and "sp_strategy sh' = sp_strategy sh"
  using assms
  by (auto simp: spsc_drain_def Let_def publish_guard_drop_def spsc_wake_producer_def
      case_prod_unfold word_greater_zero_iff split: if_splits dest!: spsc_drain_loop_notify)

text \<open>The same at the level of the channel.\<close>

lemma spsc_recv_op_notify:
  assumes "spsc_recv_op c = Inr (r, c')"
  shows "(sp_producer_parker (ch_shared c'), ch_tokens c') =
      (if is_ok r \<and> sp_strategy (ch_shared c) = Park
       then wake (sp_producer_parker (ch_shared c)) (ch_tokens c)
       else (sp_producer_parker (ch_shared c), ch_tokens c))"
    and "sp_strategy (ch_shared c') = sp_strategy (ch_shared c)" and "ch_tx c' = ch_tx c"
proof -
  obtain rx sh rx' tok where run: "spsc_try_recv (ch_shared c) rx (ch_tokens c) = Inr (r, sh, rx', tok)"
    and c': "c' = c\<lparr>ch_shared := sh, ch_rx := Some rx', ch_tokens := tok\<rparr>"
    using assms by (auto simp: spsc_recv_op_def split: option.splits)
  show "(sp_producer_parker (ch_shared c'), ch_tokens c') =
      (if is_ok r \<and> sp_strategy (ch_shared c) = Park
       then wake (sp_producer_parker (ch_shared c)) (ch_tokens c)
       else (sp_producer_parker (ch_shared c), ch_tokens c))"
    "sp_strategy (ch_shared c') = sp_strategy (ch_shared c)" "ch_tx c' = ch_tx c"
    using spsc_try_recv_notify [OF run] by (simp_all add: c')
qed

lemma spsc_send_op_notify:
  assumes "spsc_send_op v c = Inr (r, c')"
  shows "(sp_consumer_parker (ch_shared c'), ch_tokens c') =
      (if is_ok r \<and> sp_strategy (ch_shared c) = Park
       then wake (sp_consumer_parker (ch_shared c)) (ch_tokens c)
       else (sp_consumer_parker (ch_shared c), ch_tokens c))"
    and "sp_strategy (ch_shared c') = sp_strategy (ch_shared c)" and "ch_rx c' = ch_rx c"
proof -
  obtain tx sh tx' tok where run: "spsc_try_send v (ch_shared c) tx (ch_tokens c) = Inr (r, sh, tx', tok)"
    and c': "c' = c\<lparr>ch_shared := sh, ch_tx := Some tx', ch_tokens := tok\<rparr>"
    using assms by (auto simp: spsc_send_op_def split: option.splits)
  show "(sp_consumer_parker (ch_shared c'), ch_tokens c') =
      (if is_ok r \<and> sp_strategy (ch_shared c) = Park
       then wake (sp_consumer_parker (ch_shared c)) (ch_tokens c)
       else (sp_consumer_parker (ch_shared c), ch_tokens c))"
    "sp_strategy (ch_shared c') = sp_strategy (ch_shared c)" "ch_rx c' = ch_rx c"
    using spsc_try_send_notify [OF run] by (simp_all add: c')
qed

lemma spsc_drain_vec_notify:
  assumes inv: "spsc_inv c" and live: "bc_rx_live (spsc_abs c)"
    and run: "spsc_drain_vec mx c = Inr (vs, c')"
  shows "(sp_producer_parker (ch_shared c'), ch_tokens c') =
      (if vs \<noteq> [] \<and> sp_strategy (ch_shared c) = Park
       then wake (sp_producer_parker (ch_shared c)) (ch_tokens c)
       else (sp_producer_parker (ch_shared c), ch_tokens c))"
    and "sp_strategy (ch_shared c') = sp_strategy (ch_shared c)" and "ch_tx c' = ch_tx c"
proof -
  let ?q = "bc_queue (spsc_abs c)" and ?k = "min (unat mx) (length (bc_queue (spsc_abs c)))"
  from spsc_drain_op_correct [OF inv live feed_push_back, of mx "[]"] run
  have op: "spsc_drain_op mx push_back [] c = Inr (Returned (of_nat ?k), vs, c')"
    and vs: "vs = take (unat mx) ?q"
    by (auto simp: spsc_drain_vec_def)
  have "unat (of_nat ?k :: usize) = ?k"
    using usize_bound [of mx] by (simp add: unat_of_nat)
  then have empty: "(of_nat ?k :: usize) = 0 \<longleftrightarrow> vs = []"
    by (auto simp: vs unat_eq_0 [symmetric] min_def split: if_splits)
  obtain rx sh rx' tok
    where d: "spsc_drain mx push_back [] (ch_shared c) rx (ch_tokens c)
        = Inr (Returned (of_nat ?k), vs, sh, rx', tok)"
      and c': "c' = c\<lparr>ch_shared := sh, ch_rx := Some rx', ch_tokens := tok\<rparr>"
    using op by (auto simp: spsc_drain_op_def split: option.splits)
  show "(sp_producer_parker (ch_shared c'), ch_tokens c') =
      (if vs \<noteq> [] \<and> sp_strategy (ch_shared c) = Park
       then wake (sp_producer_parker (ch_shared c)) (ch_tokens c)
       else (sp_producer_parker (ch_shared c), ch_tokens c))"
    "sp_strategy (ch_shared c') = sp_strategy (ch_shared c)" "ch_tx c' = ch_tx c"
    using spsc_drain_notify [OF d] empty by (simp_all add: c')
qed

lemma spsc_drop_tokens:
  assumes "spsc_sender_drop sh tok = (sh', tok')"
  shows "sp_strategy sh' = sp_strategy sh"
    and "snd (wake (sp_producer_parker sh) tok) \<subseteq> tok'"
    and "snd (wake (sp_consumer_parker sh) tok) \<subseteq> tok'"
  using assms
  by (auto simp: spsc_sender_drop_def spsc_wake_consumer_def spsc_wake_producer_alt wake_def
      unpark_def Let_def split: if_splits option.splits)

lemma spsc_drop_rx_live:
  assumes inv: "spsc_inv c" and tx: "ch_tx c = Some tx" and rx: "ch_rx c = Some rx"
  obtains c' where "spsc_drop_rx c = Inr ([], c')" and "spsc_inv c'" and "ch_tx c' = ch_tx c"
    and "spsc_abs c' = (spsc_abs c)\<lparr>bc_rx_live := False\<rparr>"
    and "sp_strategy (ch_shared c') = sp_strategy (ch_shared c)"
    and "snd (wake (sp_producer_parker (ch_shared c)) (ch_tokens c)) \<subseteq> ch_tokens c'"
proof -
  obtain sh tok where d: "spsc_sender_drop (ch_shared c) (ch_tokens c) = (sh, tok)" by fastforce
  let ?c = "c\<lparr>ch_shared := sh, ch_rx := None, ch_tokens := tok\<rparr>"
  note h = spsc_handle_drop_inv [OF d] spsc_drop_tokens [OF d]
  have "spsc_drop_rx c = Inr ([], ?c)"
    using tx rx d by (simp add: spsc_drop_rx_def spsc_receiver_drop_eq)
  moreover have "spsc_inv ?c"
    using inv h by (simp add: spsc_inv_def)
  moreover have "spsc_abs ?c = (spsc_abs c)\<lparr>bc_rx_live := False\<rparr>"
    using h by (simp add: spsc_abs_def)
  ultimately show thesis
    by (intro that [of ?c]) (use h in simp_all)
qed

lemma spsc_drop_tx_live:
  assumes inv: "spsc_inv c" and tx: "ch_tx c = Some tx" and rx: "ch_rx c = Some rx"
  obtains c' where "spsc_drop_tx c = Inr ([], c')" and "spsc_inv c'" and "ch_rx c' = ch_rx c"
    and "spsc_abs c' = (spsc_abs c)\<lparr>bc_senders := 0\<rparr>"
    and "sp_strategy (ch_shared c') = sp_strategy (ch_shared c)"
    and "snd (wake (sp_consumer_parker (ch_shared c)) (ch_tokens c)) \<subseteq> ch_tokens c'"
proof -
  obtain sh tok where d: "spsc_sender_drop (ch_shared c) (ch_tokens c) = (sh, tok)" by fastforce
  let ?c = "c\<lparr>ch_shared := sh, ch_tx := None, ch_tokens := tok\<rparr>"
  note h = spsc_handle_drop_inv [OF d] spsc_drop_tokens [OF d]
  have "spsc_drop_tx c = Inr ([], ?c)"
    using tx rx d by (simp add: spsc_drop_tx_def)
  moreover have "spsc_inv ?c"
    using inv h by (simp add: spsc_inv_def)
  moreover have "spsc_abs ?c = (spsc_abs c)\<lparr>bc_senders := 0\<rparr>"
    using h by (simp add: spsc_abs_def)
  ultimately show thesis
    by (intro that [of ?c]) (use h in simp_all)
qed

text \<open>Dropping both handles, in either order, drops what the queue holds.\<close>

lemma head_le_tail:
  fixes h t :: usize
  assumes "unat (t - h) \<le> unat t"
  shows "h \<le> t"
proof (rule ccontr)
  assume "\<not> h \<le> t"
  then have "unat t < unat h" by (simp add: word_le_nat_alt)
  moreover have "unat (t - h) = (if unat h \<le> unat t then unat t - unat h
      else unat t + 2 ^ 64 - unat h)"
    by (simp add: unat_sub_if_size word_size)
  ultimately show False
    using assms usize_bound [of h] by simp
qed

lemma spsc_drop_both:
  assumes inv: "spsc_inv c" and tx: "ch_tx c = Some tx" and rx: "ch_rx c = Some rx"
    and ht: "sp_head (ch_shared c) \<le> sp_tail (ch_shared c)"
  shows "\<exists>c1 c2. spsc_drop_tx c = Inr ([], c1) \<and> spsc_drop_rx c1 = Inr (bc_queue (spsc_abs c), c2)
      \<and> \<not> list_ex is_live (sp_buf (ch_shared c2))"
    and "\<exists>c1 c2. spsc_drop_rx c = Inr ([], c1) \<and> spsc_drop_tx c1 = Inr (bc_queue (spsc_abs c), c2)
      \<and> \<not> list_ex is_live (sp_buf (ch_shared c2))"
proof -
  obtain sh tok where d: "spsc_sender_drop (ch_shared c) (ch_tokens c) = (sh, tok)" by fastforce
  obtain sh' tok' where d': "spsc_sender_drop sh tok = (sh', tok')" by fastforce
  note h = spsc_handle_drop_inv [OF d] and h' = spsc_handle_drop_inv [OF d']
  have "spsc_shared_inv sh'" "sp_head sh' \<le> sp_tail sh'"
    using inv ht h h' by (auto simp: spsc_inv_def)
  from spsc_shared_drop_correct [OF this] obtain sh3
    where s: "spsc_shared_drop sh' = Inr (bc_queue (spsc_abs c), sh3)"
      "\<not> list_ex is_live (sp_buf sh3)"
    using h h' by (auto simp: spsc_abs_def list_ex_iff)
  show "\<exists>c1 c2. spsc_drop_tx c = Inr ([], c1) \<and> spsc_drop_rx c1 = Inr (bc_queue (spsc_abs c), c2)
      \<and> \<not> list_ex is_live (sp_buf (ch_shared c2))"
    "\<exists>c1 c2. spsc_drop_rx c = Inr ([], c1) \<and> spsc_drop_tx c1 = Inr (bc_queue (spsc_abs c), c2)
      \<and> \<not> list_ex is_live (sp_buf (ch_shared c2))"
    using tx rx d d' s
    by (auto simp: spsc_drop_tx_def spsc_drop_rx_def spsc_receiver_drop_eq)
qed

text \<open>The loop of \<^verbatim>\<open>Drop\<close> does nothing once the tail has wrapped below the head.\<close>

lemma spsc_drop_leak:
  assumes tx: "ch_tx c \<noteq> None" and rx: "ch_rx c \<noteq> None"
    and none: "\<not> sp_head (ch_shared c) < sp_tail (ch_shared c)"
  shows "\<exists>c1 c2. spsc_drop_tx c = Inr ([], c1) \<and> spsc_drop_rx c1 = Inr ([], c2)"
proof -
  obtain sh tok where d: "spsc_sender_drop (ch_shared c) (ch_tokens c) = (sh, tok)" by fastforce
  obtain sh' tok' where d': "spsc_sender_drop sh tok = (sh', tok')" by fastforce
  have "spsc_shared_drop sh' = Inr ([], sh')"
    using none spsc_handle_drop_inv [OF d] spsc_handle_drop_inv [OF d']
    by (simp add: spsc_shared_drop_def spsc_drop_loop.simps)
  with tx rx d d' show ?thesis
    by (auto simp: spsc_drop_tx_def spsc_drop_rx_def spsc_receiver_drop_eq)
qed

section \<open>The peers\<close>

text \<open>
  \<open>notified\<close>: with the strategy \<^verbatim>\<open>Park\<close>, a step that changes whether the waiting side can go
  on also wakes it.
\<close>

definition sender_notified :: "'a spsc \<Rightarrow> 'a spsc \<Rightarrow> bool" where
  "sender_notified c c' \<longleftrightarrow>
     ch_tokens c \<subseteq> ch_tokens c' \<and>
     (snd (wake (sp_producer_parker (ch_shared c)) (ch_tokens c)) \<subseteq> ch_tokens c' \<or>
      sp_producer_parker (ch_shared c') = sp_producer_parker (ch_shared c) \<and>
      has_room (spsc_abs c') = has_room (spsc_abs c))"

definition receiver_notified :: "'a spsc \<Rightarrow> 'a spsc \<Rightarrow> bool" where
  "receiver_notified c c' \<longleftrightarrow>
     ch_tokens c \<subseteq> ch_tokens c' \<and>
     (snd (wake (sp_consumer_parker (ch_shared c)) (ch_tokens c)) \<subseteq> ch_tokens c' \<or>
      sp_consumer_parker (ch_shared c') = sp_consumer_parker (ch_shared c) \<and>
      has_item (spsc_abs c') = has_item (spsc_abs c))"

definition rx_step_ok :: "'a spsc \<Rightarrow> 'a spsc \<Rightarrow> bool" where
  "rx_step_ok c c' \<longleftrightarrow>
     spsc_inv c' \<and> ch_tx c' = ch_tx c \<and> sp_strategy (ch_shared c') = sp_strategy (ch_shared c) \<and>
     (has_room (spsc_abs c) \<longrightarrow> has_room (spsc_abs c')) \<and>
     (sp_strategy (ch_shared c) = Park \<longrightarrow> sender_notified c c')"

definition tx_step_ok :: "'a spsc \<Rightarrow> 'a spsc \<Rightarrow> bool" where
  "tx_step_ok c c' \<longleftrightarrow>
     spsc_inv c' \<and> ch_rx c' = ch_rx c \<and> sp_strategy (ch_shared c') = sp_strategy (ch_shared c) \<and>
     (has_item (spsc_abs c) \<longrightarrow> has_item (spsc_abs c')) \<and>
     (sp_strategy (ch_shared c) = Park \<longrightarrow> receiver_notified c c')"

lemma sender_notified_wake:
  assumes "(sp_producer_parker (ch_shared c'), ch_tokens c')
      = wake (sp_producer_parker (ch_shared c)) (ch_tokens c)"
  shows "sender_notified c c'"
proof -
  have "ch_tokens c' = snd (wake (sp_producer_parker (ch_shared c)) (ch_tokens c))"
    using assms by (metis snd_conv)
  then show ?thesis
    using wake_tokens_mono by (simp add: sender_notified_def)
qed

lemma receiver_notified_wake:
  assumes "(sp_consumer_parker (ch_shared c'), ch_tokens c')
      = wake (sp_consumer_parker (ch_shared c)) (ch_tokens c)"
  shows "receiver_notified c c'"
proof -
  have "ch_tokens c' = snd (wake (sp_consumer_parker (ch_shared c)) (ch_tokens c))"
    using assms by (metis snd_conv)
  then show ?thesis
    using wake_tokens_mono by (simp add: receiver_notified_def)
qed

lemma rx_step_ok_refl: "spsc_inv c \<Longrightarrow> rx_step_ok c c"
  by (simp add: rx_step_ok_def sender_notified_def)

lemma tx_step_ok_refl: "spsc_inv c \<Longrightarrow> tx_step_ok c c"
  by (simp add: tx_step_ok_def receiver_notified_def)

lemma spsc_recv_op_step:
  assumes inv: "spsc_inv c" and live: "bc_rx_live (spsc_abs c)"
    and run: "spsc_recv_op c = Inr (r, c')"
  shows "rx_step_ok c c' \<and> has_room (spsc_abs c')"
proof -
  from spsc_recv_op_refines [OF inv live] run
  have r: "r = fst (spec_try_recv (spsc_abs c))" and inv': "spsc_inv c'"
    and abs: "spsc_abs c' = snd (spec_try_recv (spsc_abs c))"
    by auto
  have bound: "length (bc_queue (spsc_abs c)) \<le> bc_cap (spsc_abs c)" "0 < bc_cap (spsc_abs c)"
    using spsc_abs_ok [OF inv] by (auto simp: bchan_ok_def)
  note n = spsc_recv_op_notify [OF run]
  have room: "has_room (spsc_abs c')"
    using bound by (auto simp: abs has_room_def spec_try_recv_def split: list.splits)
  moreover have "sender_notified c c'" if "sp_strategy (ch_shared c) = Park"
  proof (cases "bc_queue (spsc_abs c)")
    case Nil
    with n that show ?thesis by (simp add: sender_notified_def r abs spec_try_recv_def)
  next
    case Cons
    with n that show ?thesis by (intro sender_notified_wake) (simp add: r spec_try_recv_def)
  qed
  ultimately show ?thesis
    using inv' n by (simp add: rx_step_ok_def)
qed

lemma spsc_drain_vec_step:
  assumes inv: "spsc_inv c" and live: "bc_rx_live (spsc_abs c)"
    and run: "spsc_drain_vec mx c = Inr (vs, c')"
  shows "rx_step_ok c c' \<and> (mx > 0 \<longrightarrow> has_room (spsc_abs c'))"
proof -
  from spsc_drain_vec_refines [OF inv live, of mx] run
  have vs: "vs = take (unat mx) (bc_queue (spsc_abs c))" and inv': "spsc_inv c'"
    and abs: "spsc_abs c' = (spsc_abs c)\<lparr>bc_queue := drop (unat mx) (bc_queue (spsc_abs c))\<rparr>"
    by (auto simp: spec_drain_def)
  have bound: "length (bc_queue (spsc_abs c)) \<le> bc_cap (spsc_abs c)" "0 < bc_cap (spsc_abs c)"
    using spsc_abs_ok [OF inv] by (auto simp: bchan_ok_def)
  note n = spsc_drain_vec_notify [OF inv live run]
  have "mx > 0 \<Longrightarrow> has_room (spsc_abs c')"
    using bound by (auto simp: abs has_room_def word_less_nat_alt)
  moreover have "has_room (spsc_abs c) \<Longrightarrow> has_room (spsc_abs c')"
    by (auto simp: abs has_room_def)
  moreover have "sender_notified c c'" if "sp_strategy (ch_shared c) = Park"
  proof (cases "vs = []")
    case True
    with n that show ?thesis by (auto simp: sender_notified_def abs has_room_def vs)
  next
    case False
    with n that show ?thesis by (intro sender_notified_wake) simp
  qed
  ultimately show ?thesis
    using inv' n by (simp add: rx_step_ok_def)
qed

lemma spsc_send_op_step:
  assumes inv: "spsc_inv c" and live: "0 < bc_senders (spsc_abs c)"
    and run: "spsc_send_op v c = Inr (r, c')" and rx: "bc_rx_live (spsc_abs c)"
  shows "tx_step_ok c c' \<and> has_item (spsc_abs c')"
proof -
  from spsc_send_op_refines [OF inv live, of v] run
  have r: "r = fst (spec_try_send v (spsc_abs c))" and inv': "spsc_inv c'"
    and abs: "spsc_abs c' = snd (spec_try_send v (spsc_abs c))"
    by auto
  have bound: "0 < bc_cap (spsc_abs c)"
    using spsc_abs_ok [OF inv] by (auto simp: bchan_ok_def)
  note n = spsc_send_op_notify [OF run]
  have item: "has_item (spsc_abs c')"
    using bound rx by (auto simp: abs has_item_def spec_try_send_def)
  moreover have "receiver_notified c c'" if "sp_strategy (ch_shared c) = Park"
  proof (cases "length (bc_queue (spsc_abs c)) = bc_cap (spsc_abs c)")
    case True
    with n that rx show ?thesis by (simp add: receiver_notified_def r abs spec_try_send_def)
  next
    case False
    with n that rx show ?thesis by (intro receiver_notified_wake) (simp add: r spec_try_send_def)
  qed
  ultimately show ?thesis
    using inv' n by (simp add: tx_step_ok_def)
qed

lemma spsc_rx_env_step:
  assumes inv: "spsc_inv c" and tx: "ch_tx c = Some tx"
  shows "rx_step_ok c (spsc_rx_env sched k c)
     \<and> (rx_progress (sched k) \<longrightarrow> has_room (spsc_abs (spsc_rx_env sched k c)))"
proof (cases "ch_rx c")
  case None
  then have "spsc_rx_env sched k c = c"
    by (cases "sched k") (simp_all add: spsc_rx_env_def spsc_recv_op_def spsc_drain_vec_def
        spsc_drain_op_def spsc_drop_rx_def)
  with None inv show ?thesis
    by (simp add: rx_step_ok_refl) (simp add: has_room_def spsc_abs_def)
next
  case (Some rx)
  then have live: "bc_rx_live (spsc_abs c)" by (simp add: spsc_abs_def)
  show ?thesis
  proof (cases "sched k")
    case RxIdle
    with inv show ?thesis by (simp add: spsc_rx_env_def rx_step_ok_refl)
  next
    case RxTryRecv
    with spsc_recv_op_refines [OF inv live] spsc_recv_op_step [OF inv live] show ?thesis
      by (auto simp: spsc_rx_env_def)
  next
    case (RxDrain n)
    with spsc_drain_vec_refines [OF inv live, of n] spsc_drain_vec_step [OF inv live, of n]
    show ?thesis
      by (auto simp: spsc_rx_env_def)
  next
    case RxDrop
    obtain c' where d: "spsc_drop_rx c = Inr ([], c')" "spsc_inv c'" "ch_tx c' = ch_tx c"
        "spsc_abs c' = (spsc_abs c)\<lparr>bc_rx_live := False\<rparr>"
        "sp_strategy (ch_shared c') = sp_strategy (ch_shared c)"
        "snd (wake (sp_producer_parker (ch_shared c)) (ch_tokens c)) \<subseteq> ch_tokens c'"
      using inv tx Some by (rule spsc_drop_rx_live)
    from d(4) have "has_room (spsc_abs c')" by (simp add: has_room_def)
    with d RxDrop wake_tokens_mono [of "ch_tokens c" "sp_producer_parker (ch_shared c)"]
    show ?thesis
      by (auto simp: spsc_rx_env_def rx_step_ok_def sender_notified_def)
  qed
qed

lemma spsc_tx_env_step:
  assumes inv: "spsc_inv c" and rx: "ch_rx c = Some rx"
  shows "tx_step_ok c (spsc_tx_env sched k c)
     \<and> (tx_progress (sched k) \<longrightarrow> has_item (spsc_abs (spsc_tx_env sched k c)))"
proof (cases "ch_tx c")
  case None
  then have "spsc_tx_env sched k c = c"
    by (cases "sched k") (simp_all add: spsc_tx_env_def spsc_send_op_def spsc_drop_tx_def)
  with None inv show ?thesis
    by (simp add: tx_step_ok_refl) (simp add: has_item_def spsc_abs_def)
next
  case (Some tx)
  then have live: "0 < bc_senders (spsc_abs c)" by (simp add: spsc_abs_def)
  have rx_live: "bc_rx_live (spsc_abs c)" using rx by (simp add: spsc_abs_def)
  show ?thesis
  proof (cases "sched k")
    case TxIdle
    with inv show ?thesis by (simp add: spsc_tx_env_def tx_step_ok_refl)
  next
    case (TxTrySend v)
    with spsc_send_op_refines [OF inv live, of v] spsc_send_op_step [OF inv live _ rx_live, of v]
    show ?thesis
      by (auto simp: spsc_tx_env_def)
  next
    case TxDrop
    obtain c' where d: "spsc_drop_tx c = Inr ([], c')" "spsc_inv c'" "ch_rx c' = ch_rx c"
        "spsc_abs c' = (spsc_abs c)\<lparr>bc_senders := 0\<rparr>"
        "sp_strategy (ch_shared c') = sp_strategy (ch_shared c)"
        "snd (wake (sp_consumer_parker (ch_shared c)) (ch_tokens c)) \<subseteq> ch_tokens c'"
      using inv Some rx by (rule spsc_drop_tx_live)
    from d(4) have "has_item (spsc_abs c')" by (simp add: has_item_def)
    with d TxDrop wake_tokens_mono [of "ch_tokens c" "sp_consumer_parker (ch_shared c)"]
    show ?thesis
      by (auto simp: spsc_tx_env_def tx_step_ok_def receiver_notified_def)
  qed
qed

section \<open>The blocking loops meet their interface\<close>

definition sending_good :: "'a \<Rightarrow> 'a spsc_sending \<Rightarrow> bool" where
  "sending_good v0 s \<longleftrightarrow> (case s of (v, i, c) \<Rightarrow> v = v0 \<and> spsc_inv c \<and> ch_tx c \<noteq> None)"

definition sending_ready :: "'a spsc_sending \<Rightarrow> bool" where
  "sending_ready s \<longleftrightarrow> (case s of (v, i, c) \<Rightarrow> has_room (spsc_abs c))"

definition sending_armed :: "tid \<Rightarrow> 'a spsc_sending \<Rightarrow> bool" where
  "sending_armed me s \<longleftrightarrow>
     (case s of (v, i, c) \<Rightarrow>
        sp_strategy (ch_shared c) = Park \<and>
        (me \<in> ch_tokens c \<or>
         pk_parked (sp_producer_parker (ch_shared c)) \<and>
         pk_slot (sp_producer_parker (ch_shared c)) = Some me \<and> \<not> has_room (spsc_abs c)))"

definition receiving_good :: "'a spsc_receiving \<Rightarrow> bool" where
  "receiving_good s \<longleftrightarrow> (case s of (i, c) \<Rightarrow> spsc_inv c \<and> ch_rx c \<noteq> None)"

definition receiving_ready :: "'a spsc_receiving \<Rightarrow> bool" where
  "receiving_ready s \<longleftrightarrow> (case s of (i, c) \<Rightarrow> has_item (spsc_abs c))"

definition receiving_armed :: "tid \<Rightarrow> 'a spsc_receiving \<Rightarrow> bool" where
  "receiving_armed me s \<longleftrightarrow>
     (case s of (i, c) \<Rightarrow>
        sp_strategy (ch_shared c) = Park \<and>
        (me \<in> ch_tokens c \<or>
         pk_parked (sp_consumer_parker (ch_shared c)) \<and>
         pk_slot (sp_consumer_parker (ch_shared c)) = Some me \<and> \<not> has_item (spsc_abs c)))"

lemmas sending_defs = sending_good_def sending_ready_def sending_armed_def
lemmas receiving_defs = receiving_good_def receiving_ready_def receiving_armed_def

lemma spsc_send_attempt_result:
  assumes inv: "spsc_inv c" and tx: "ch_tx c \<noteq> None"
  shows "\<exists>c'. spsc_send_attempt (v, i, c) =
      Inr (if has_room (spsc_abs c)
           then Some (if bc_rx_live (spsc_abs c) then Ok () else Err (SendError v)) else None, (v, i, c'))
    \<and> spsc_inv c' \<and> ch_tx c' \<noteq> None \<and> spsc_abs c' = snd (spec_try_send v (spsc_abs c))"
proof -
  have live: "0 < bc_senders (spsc_abs c)" using tx by (simp add: spsc_abs_def)
  from spsc_send_op_refines [OF inv live, of v] obtain c' where
    run: "spsc_send_op v c = Inr (fst (spec_try_send v (spsc_abs c)), c')"
    and c': "spsc_inv c'" "spsc_abs c' = snd (spec_try_send v (spsc_abs c))"
    by blast
  have "bc_senders (spsc_abs c') = bc_senders (spsc_abs c)"
    by (simp add: c' spec_try_send_def)
  with live have "ch_tx c' \<noteq> None" by (simp add: spsc_abs_def split: if_splits)
  moreover have "length (bc_queue (spsc_abs c)) \<le> bc_cap (spsc_abs c)"
    using spsc_abs_ok [OF inv] by (simp add: bchan_ok_def)
  ultimately show ?thesis
    using run c' by (auto simp: spsc_send_attempt_def spec_try_send_def has_room_def)
qed

lemma spsc_recv_attempt_result:
  assumes inv: "spsc_inv c" and rx: "ch_rx c \<noteq> None"
  shows "\<exists>c'. spsc_recv_attempt (i, c) =
      Inr (case bc_queue (spsc_abs c) of
             v # _ \<Rightarrow> Some (Ok v)
           | [] \<Rightarrow> (if bc_senders (spsc_abs c) = 0 then Some (Err RecvError) else None), (i, c'))
    \<and> spsc_inv c' \<and> ch_rx c' \<noteq> None \<and> spsc_abs c' = snd (spec_try_recv (spsc_abs c))"
proof -
  have live: "bc_rx_live (spsc_abs c)" using rx by (simp add: spsc_abs_def)
  from spsc_recv_op_refines [OF inv live] obtain c' where
    run: "spsc_recv_op c = Inr (fst (spec_try_recv (spsc_abs c)), c')"
    and c': "spsc_inv c'" "spsc_abs c' = snd (spec_try_recv (spsc_abs c))"
    by blast
  have "bc_rx_live (spsc_abs c') = bc_rx_live (spsc_abs c)"
    by (simp add: c' spec_try_recv_def split: list.splits)
  with live have "ch_rx c' \<noteq> None" by (simp add: spsc_abs_def)
  with run c' show ?thesis
    by (auto simp: spsc_recv_attempt_def spec_try_recv_def split: list.splits)
qed

text \<open>Registering with a parker, cancelling and waking up leave the queue alone.\<close>

lemma spsc_parker_frame [simp]:
  "spsc_queue (sh\<lparr>sp_producer_parker := p\<rparr>) h = spsc_queue sh h"
  "spsc_queue (sh\<lparr>sp_consumer_parker := p\<rparr>) h = spsc_queue sh h"
  "spsc_tx_inv (sh\<lparr>sp_producer_parker := p\<rparr>) tx = spsc_tx_inv sh tx"
  "spsc_tx_inv (sh\<lparr>sp_consumer_parker := p\<rparr>) tx = spsc_tx_inv sh tx"
  "spsc_rx_inv (sh\<lparr>sp_producer_parker := p\<rparr>) rx = spsc_rx_inv sh rx"
  "spsc_rx_inv (sh\<lparr>sp_consumer_parker := p\<rparr>) rx = spsc_rx_inv sh rx"
  "spsc_shared_inv sh \<Longrightarrow> parker_ok p \<Longrightarrow> spsc_shared_inv (sh\<lparr>sp_producer_parker := p\<rparr>)"
  "spsc_shared_inv sh \<Longrightarrow> parker_ok p \<Longrightarrow> spsc_shared_inv (sh\<lparr>sp_consumer_parker := p\<rparr>)"
  by (simp_all add: spsc_shared_inv_def spsc_defs spsc_tx_inv_def spsc_rx_inv_def)

lemma spsc_parker_update:
  "spsc_abs (c\<lparr>ch_shared := (ch_shared c)\<lparr>sp_producer_parker := p\<rparr>\<rparr>) = spsc_abs c"
  "spsc_abs (c\<lparr>ch_shared := (ch_shared c)\<lparr>sp_consumer_parker := p\<rparr>\<rparr>) = spsc_abs c"
  "spsc_inv c \<Longrightarrow> parker_ok p \<Longrightarrow>
     spsc_inv (c\<lparr>ch_shared := (ch_shared c)\<lparr>sp_producer_parker := p\<rparr>\<rparr>)"
  "spsc_inv c \<Longrightarrow> parker_ok p \<Longrightarrow>
     spsc_inv (c\<lparr>ch_shared := (ch_shared c)\<lparr>sp_consumer_parker := p\<rparr>\<rparr>)"
  "spsc_abs (c\<lparr>ch_tokens := tok\<rparr>) = spsc_abs c"
  "spsc_inv (c\<lparr>ch_tokens := tok\<rparr>) = spsc_inv c"
  by (simp_all add: spsc_abs_def spsc_inv_def)

lemma spsc_resume_update:
  "spsc_abs (c\<lparr>ch_shared := (ch_shared c)\<lparr>sp_producer_parker := p\<rparr>, ch_tokens := tok\<rparr>) = spsc_abs c"
  "spsc_abs (c\<lparr>ch_shared := (ch_shared c)\<lparr>sp_consumer_parker := p\<rparr>, ch_tokens := tok\<rparr>) = spsc_abs c"
  "spsc_inv c \<Longrightarrow> parker_ok p \<Longrightarrow>
     spsc_inv (c\<lparr>ch_shared := (ch_shared c)\<lparr>sp_producer_parker := p\<rparr>, ch_tokens := tok\<rparr>)"
  "spsc_inv c \<Longrightarrow> parker_ok p \<Longrightarrow>
     spsc_inv (c\<lparr>ch_shared := (ch_shared c)\<lparr>sp_consumer_parker := p\<rparr>, ch_tokens := tok\<rparr>)"
  by (simp_all add: spsc_abs_def spsc_inv_def)

text \<open>The re-check before the park decides exactly whether the sender must wait.\<close>

lemma spsc_send_recheck:
  assumes "spsc_inv c" "ch_tx c = Some tx"
  shows "tx_tail tx - sp_head (ch_shared c) < sp_cap (ch_shared c) \<or> sp_disconnected (ch_shared c)
     \<longleftrightarrow> has_room (spsc_abs c)"
  using assms by (auto simp: spsc_inv_def has_room_def spsc_abs_def word_less_nat_alt spsc_tx_inv_def)

lemma spsc_recv_recheck:
  assumes "spsc_inv c" "ch_rx c = Some rx"
  shows "sp_tail (ch_shared c) \<noteq> rx_head rx \<or> sp_disconnected (ch_shared c)
     \<longleftrightarrow> has_item (spsc_abs c)"
  using assms by (auto simp: spsc_inv_def has_item_def spsc_abs_def spsc_rx_inv_def spsc_queue_empty)

lemma spsc_send_wait_result:
  assumes inv: "spsc_inv c" and tx: "ch_tx c \<noteq> None"
  shows "\<exists>b i' c'. spsc_send_wait me (v, i, c) = Inr (b, (v, i', c')) \<and> spsc_inv c' \<and> ch_tx c' \<noteq> None
    \<and> (b \<longrightarrow> sending_armed me (v, i', c'))"
proof -
  obtain tx' where tx': "ch_tx c = Some tx'" using tx by auto
  note check = spsc_send_recheck [OF inv tx']
  show ?thesis
  proof (cases "sp_strategy (ch_shared c)")
    case Park
    show ?thesis
    proof (cases "has_room (spsc_abs c)")
      case True
      with Park check tx' inv show ?thesis
        by (auto simp: spsc_send_wait_def Let_def spsc_parker_update)
    next
      case False
      with Park check tx' inv show ?thesis
        by (auto simp: spsc_send_wait_def Let_def spsc_parker_update sending_armed_def prepare_park_def
            parker_ok_def)
    qed
  qed (use inv tx' in \<open>auto simp: spsc_send_wait_def Let_def\<close>)
qed

lemma spsc_recv_wait_result:
  assumes inv: "spsc_inv c" and rx: "ch_rx c \<noteq> None"
  shows "\<exists>b i' c'. spsc_recv_wait me (i, c) = Inr (b, (i', c')) \<and> spsc_inv c' \<and> ch_rx c' \<noteq> None
    \<and> (b \<longrightarrow> receiving_armed me (i', c'))"
proof -
  obtain rx' where rx': "ch_rx c = Some rx'" using rx by auto
  note check = spsc_recv_recheck [OF inv rx']
  show ?thesis
  proof (cases "sp_strategy (ch_shared c)")
    case Park
    show ?thesis
    proof (cases "has_item (spsc_abs c)")
      case True
      with Park check rx' inv show ?thesis
        by (auto simp: spsc_recv_wait_def Let_def spsc_parker_update)
    next
      case False
      with Park check rx' inv show ?thesis
        by (auto simp: spsc_recv_wait_def Let_def spsc_parker_update receiving_armed_def
            prepare_park_def parker_ok_def)
    qed
  qed (use inv rx' in \<open>auto simp: spsc_recv_wait_def Let_def\<close>)
qed

lemma spsc_send_resume_result:
  assumes "spsc_send_resume me (v, i, c) = Some s" and "spsc_inv c" "ch_tx c \<noteq> None"
  shows "\<exists>c'. s = (v, i, c') \<and> spsc_inv c' \<and> ch_tx c' \<noteq> None \<and> spsc_abs c' = spsc_abs c"
  using assms
  by (auto simp: spsc_send_resume_def spsc_resume_update split: option.splits)

lemma spsc_recv_resume_result:
  assumes "spsc_recv_resume me (i, c) = Some s" and "spsc_inv c" "ch_rx c \<noteq> None"
  shows "\<exists>c'. s = (i, c') \<and> spsc_inv c' \<and> ch_rx c' \<noteq> None \<and> spsc_abs c' = spsc_abs c"
  using assms
  by (auto simp: spsc_recv_resume_def spsc_resume_update split: option.splits)

interpretation spsc_send: live_blocking_operation spsc_send_attempt "spsc_send_wait me"
    "spsc_send_resume me" "sending_env (spsc_rx_env sched)" "\<lambda>_. sending_good v" sending_ready
    "sending_armed me" "\<lambda>k. rx_progress (sched k)"
  for me sched v
proof unfold_locales
  fix s :: "'a spsc_sending" and s' s'' k
  obtain w i c where s: "s = (w, i, c)" by (metis prod_cases3)
  assume "sending_good v s"
  then have w: "w = v" and inv: "spsc_inv c" and tx: "ch_tx c \<noteq> None"
    by (auto simp: s sending_defs)
  from spsc_send_attempt_result [OF inv tx, of v i] obtain c1 where
    a: "spsc_send_attempt s = Inr (if has_room (spsc_abs c)
           then Some (if bc_rx_live (spsc_abs c) then Ok () else Err (SendError v)) else None, (v, i, c1))"
    and c1: "spsc_inv c1" "ch_tx c1 \<noteq> None" "spsc_abs c1 = snd (spec_try_send v (spsc_abs c))"
    by (auto simp: s w)
  show "\<exists>r s'. spsc_send_attempt s = Inr (r, s') \<and> (r = None \<longrightarrow> sending_good v s')"
    using a c1 by (auto simp: sending_defs)
  show "\<exists>r s'. spsc_send_attempt s = Inr (Some r, s')" if "sending_ready s"
    using a that by (auto simp: s sending_defs)
  show "\<exists>b s''. spsc_send_wait me s' = Inr (b, s'') \<and> sending_good v s''"
    if "spsc_send_attempt s = Inr (None, s')"
    using that a spsc_send_wait_result [OF c1(1,2), of me v i] by (auto simp: sending_good_def)
  show "sending_armed me s''"
    if "spsc_send_attempt s = Inr (None, s')" "spsc_send_wait me s' = Inr (True, s'')"
    using that a spsc_send_wait_result [OF c1(1,2), of me v i] by auto
  show "sending_good v s'" if "spsc_send_resume me s = Some s'"
    using spsc_send_resume_result [OF that [unfolded s] inv tx] w by (auto simp: sending_defs)
  obtain tx' where tx': "ch_tx c = Some tx'" using tx by auto
  note env = spsc_rx_env_step [OF inv tx', of sched k]
  show "sending_good v (sending_env (spsc_rx_env sched) k s)"
    using env w tx' by (auto simp: s sending_env_def sending_good_def rx_step_ok_def)
  show "sending_ready (sending_env (spsc_rx_env sched) k s)" if "sending_ready s"
    using env that by (auto simp: s sending_env_def sending_ready_def rx_step_ok_def)
  show "sending_ready (sending_env (spsc_rx_env sched) k s)" if "rx_progress (sched k)"
    using env that by (auto simp: s sending_env_def sending_ready_def)
  show "sending_armed me (sending_env (spsc_rx_env sched) k s)" if "sending_armed me s"
    using env that wake_registered [of "sp_producer_parker (ch_shared c)" me "ch_tokens c"]
    by (auto simp: s sending_env_def sending_armed_def rx_step_ok_def sender_notified_def)
  show "\<exists>s'. spsc_send_resume me s = Some s' \<and> sending_ready s'"
    if "sending_armed me s" "sending_ready s"
    using that
    by (auto simp: s sending_defs spsc_send_resume_def park_def thread_park_def spsc_resume_update)
qed

interpretation spsc_recv: live_blocking_operation spsc_recv_attempt "spsc_recv_wait me"
    "spsc_recv_resume me" "receiving_env (spsc_tx_env sched)" "\<lambda>_. receiving_good" receiving_ready
    "receiving_armed me" "\<lambda>k. tx_progress (sched k)"
  for me sched
proof unfold_locales
  fix s :: "'a spsc_receiving" and s' s'' k
  obtain i c where s: "s = (i, c)" by fastforce
  assume "receiving_good s"
  then have inv: "spsc_inv c" and rx: "ch_rx c \<noteq> None"
    by (auto simp: s receiving_defs)
  from spsc_recv_attempt_result [OF inv rx, of i] obtain c1 where
    a: "spsc_recv_attempt s = Inr (case bc_queue (spsc_abs c) of
             v # _ \<Rightarrow> Some (Ok v)
           | [] \<Rightarrow> (if bc_senders (spsc_abs c) = 0 then Some (Err RecvError) else None), (i, c1))"
    and c1: "spsc_inv c1" "ch_rx c1 \<noteq> None"
    by (auto simp: s)
  show "\<exists>r s'. spsc_recv_attempt s = Inr (r, s') \<and> (r = None \<longrightarrow> receiving_good s')"
    using a c1 by (auto simp: receiving_defs)
  show "\<exists>r s'. spsc_recv_attempt s = Inr (Some r, s')" if "receiving_ready s"
    using a that by (auto simp: s receiving_defs has_item_def split: list.splits)
  show "\<exists>b s''. spsc_recv_wait me s' = Inr (b, s'') \<and> receiving_good s''"
    if "spsc_recv_attempt s = Inr (None, s')"
    using that a spsc_recv_wait_result [OF c1(1,2), of me i] by (auto simp: receiving_good_def)
  show "receiving_armed me s''"
    if "spsc_recv_attempt s = Inr (None, s')" "spsc_recv_wait me s' = Inr (True, s'')"
    using that a spsc_recv_wait_result [OF c1(1,2), of me i] by auto
  show "receiving_good s'" if "spsc_recv_resume me s = Some s'"
    using spsc_recv_resume_result [OF that [unfolded s] inv rx] by (auto simp: receiving_defs)
  obtain rx' where rx': "ch_rx c = Some rx'" using rx by auto
  note env = spsc_tx_env_step [OF inv rx', of sched k]
  show "receiving_good (receiving_env (spsc_tx_env sched) k s)"
    using env rx' by (auto simp: s receiving_env_def receiving_good_def tx_step_ok_def)
  show "receiving_ready (receiving_env (spsc_tx_env sched) k s)" if "receiving_ready s"
    using env that by (auto simp: s receiving_env_def receiving_ready_def tx_step_ok_def)
  show "receiving_ready (receiving_env (spsc_tx_env sched) k s)" if "tx_progress (sched k)"
    using env that by (auto simp: s receiving_env_def receiving_ready_def)
  show "receiving_armed me (receiving_env (spsc_tx_env sched) k s)" if "receiving_armed me s"
    using env that wake_registered [of "sp_consumer_parker (ch_shared c)" me "ch_tokens c"]
    by (auto simp: s receiving_env_def receiving_armed_def tx_step_ok_def receiver_notified_def)
  show "\<exists>s'. spsc_recv_resume me s = Some s' \<and> receiving_ready s'"
    if "receiving_armed me s" "receiving_ready s"
    using that
    by (auto simp: s receiving_defs spsc_recv_resume_def park_def thread_park_def spsc_resume_update)
qed

text \<open>A send returns from every well-formed state, once the receiver makes room or goes away.\<close>

lemma spsc_send_completes:
  assumes "spsc_inv c" "ch_tx c \<noteq> None" "rx_progress (sched K)" "K + 3 \<le> fuel"
  shows "\<exists>r i c' q. spsc_send me (spsc_rx_env sched) fuel v c = Inr (Some (r, (v, i, c'))) \<and> spsc_inv c'
     \<and> (r = Ok () \<and> bc_queue (spsc_abs c') = q @ [v]
       \<or> r = Err (SendError v) \<and> \<not> bc_rx_live (spsc_abs c'))"
proof -
  have good: "sending_good v (v, for_strategy (sp_strategy (ch_shared c)), c)"
    using assms(1,2) by (auto simp: sending_good_def)
  from spsc_send.loop_completes [where sched = sched and me = me, OF assms(3) good assms(4)]
  obtain r s' i c1 where ret: "spsc_send me (spsc_rx_env sched) fuel v c = Inr (Some (r, s'))"
    and at: "spsc_inv c1" "ch_tx c1 \<noteq> None" "spsc_send_attempt (v, i, c1) = Inr (Some r, s')"
    by (auto simp: spsc_send_def sending_good_def)
  with spsc_send_attempt_result [OF at(1,2), of v i] ret show ?thesis
    by (auto simp: spec_try_send_def has_room_def split: if_splits)
qed

end
