(* ===== verification/Spsc_Properties.thy ===== *)
theory Spsc_Properties
  imports Spsc_Blocking
begin

text \<open>
  What the users of \<^verbatim>\<open>src/spsc.rs\<close> can rely on, stated for every program that runs on a
  channel fresh from \<open>spsc_open\<close>: refinement of the bounded queue, exactly-once delivery or
  destruction, disconnection, panic safety of \<^verbatim>\<open>drain\<close>, and the blocking methods.
\<close>

lemma spsc_reached:
  fixes ps :: "(unit, 'a) chan_op list"
  assumes "spsc_open cap strategy = Inr c0" and "spsc_run ps c0 = Inr (es, c)"
  shows "spsc_inv c" and "\<exists>tx. ch_tx c = Some tx" and "\<exists>rx. ch_rx c = Some rx"
    and "sp_tail (ch_shared c) = of_nat (length (accepted es))"
    and "accepted es = delivered es @ bc_queue (spsc_abs c)"
    and "length (accepted es) \<le> length ps"
    and "bc_cap (spsc_abs c) = unat cap"
proof -
  have "is_power_of_two cap"
    using assms(1) by (auto simp: spsc_open_def spsc_channel_def)
  then obtain c0' es' c' where r: "spsc_open cap strategy = Inr c0'" "spsc_run ps c0' = Inr (es', c')"
    "spsc_inv c'" "ch_tx c' \<noteq> None" "ch_rx c' \<noteq> None" "es' = fst (spec_run ps (fresh_bchan cap))"
    "spsc_abs c' = snd (spec_run ps (fresh_bchan cap))"
    "sp_tail (ch_shared c') = of_nat (length (accepted es'))"
    by (rule spsc_reach)
  then have eqs: "es' = es" "c' = c" using assms by simp_all
  show "spsc_inv c" "\<exists>tx. ch_tx c = Some tx" "\<exists>rx. ch_rx c = Some rx"
    "sp_tail (ch_shared c) = of_nat (length (accepted es))"
    using r eqs by auto
  show "accepted es = delivered es @ bc_queue (spsc_abs c)"
    "length (accepted es) \<le> length ps" "bc_cap (spsc_abs c) = unat cap"
    using spec_run_conserves [of "fresh_bchan cap" ps] spec_run_accepted_le [of ps "fresh_bchan cap"]
      spec_run_frame [of ps "fresh_bchan cap"] r eqs
    by simp_all
qed

section \<open>The queue\<close>

text \<open>
  C1: the SPSC ring is a bounded FIFO queue. For a capacity that is a power of two and every
  sequence of \<^verbatim>\<open>try_send\<close>, \<^verbatim>\<open>try_recv\<close> and \<^verbatim>\<open>drain\<close> calls on a fresh channel, no call faults
  (no slot is read before it is written, read twice or overwritten, no index is out of range),
  every call returns what the bounded queue returns, and the ring then holds the queue's
  contents. There is no bound on the number of calls: the counters may wrap around.
\<close>

theorem spsc_refines_queue:
  fixes ps :: "(unit, 'a) chan_op list"
  assumes "is_power_of_two cap"
  shows "\<exists>c0 c. spsc_open cap strategy = Inr c0
      \<and> spsc_run ps c0 = Inr (fst (spec_run ps (fresh_bchan cap)), c)
      \<and> spsc_abs c = snd (spec_run ps (fresh_bchan cap)) \<and> spsc_inv c"
  using spsc_reach [OF assms, of strategy ps] by metis

theorem spsc_refines_queue_witness:
  "\<exists>c0 c. spsc_open 2 Park = Inr c0
      \<and> spsc_run [OpSend () (7 :: nat), OpSend () 8, OpSend () 9, OpRecv, OpDrain 5, OpRecv] c0
        = Inr ([EvSend () 7 (Ok ()), EvSend () 8 (Ok ()), EvSend () 9 (Err (Full 9)), EvRecv (Ok 7),
                EvDrain [8], EvRecv (Err Empty)], c)
      \<and> bc_queue (spsc_abs c) = []"
proof -
  let ?ps = "[OpSend () (7 :: nat), OpSend () 8, OpSend () 9, OpRecv, OpDrain 5, OpRecv]"
  have spec: "spec_run ?ps (fresh_bchan 2) =
      ([EvSend () 7 (Ok ()), EvSend () 8 (Ok ()), EvSend () 9 (Err (Full 9)), EvRecv (Ok 7), EvDrain [8],
        EvRecv (Err Empty)], fresh_bchan 2)"
    by (simp add: spec_try_send_def spec_try_recv_def spec_drain_def)
  have "is_power_of_two 2" by code_simp
  from spsc_refines_queue [OF this, of Park ?ps] obtain c0 c
    where "spsc_open 2 Park = Inr c0"
      "spsc_run ?ps c0 = Inr (fst (spec_run ?ps (fresh_bchan 2)), c)"
      "spsc_abs c = snd (spec_run ?ps (fresh_bchan 2))"
    by blast
  then show ?thesis
    unfolding spec by (auto intro!: exI [of _ c0] exI [of _ c] simp del: impl_run.simps)
qed

text \<open>
  C2: nothing is lost, duplicated, reordered or forgotten. For every program of fewer than
  \<open>2\<^sup>6\<^sup>4\<close> calls on a fresh channel, followed by dropping both handles in either order, the
  accepted values in order are the values delivered by \<^verbatim>\<open>try_recv\<close> and \<^verbatim>\<open>drain\<close> followed by
  those that the ring's \<^verbatim>\<open>Drop\<close> destroys, and no live value stays in a slot.
\<close>

theorem spsc_every_value_once:
  assumes "spsc_open cap strategy = Inr c0" and "spsc_run ps c0 = Inr (es, c)"
    and "length ps < 2 ^ 64"
  shows "(\<exists>c1 d c2. spsc_drop_tx c = Inr ([], c1) \<and> spsc_drop_rx c1 = Inr (d, c2)
            \<and> accepted es = delivered es @ d \<and> \<not> list_ex is_live (sp_buf (ch_shared c2)))
       \<and> (\<exists>c1 d c2. spsc_drop_rx c = Inr ([], c1) \<and> spsc_drop_tx c1 = Inr (d, c2)
            \<and> accepted es = delivered es @ d \<and> \<not> list_ex is_live (sp_buf (ch_shared c2)))"
proof -
  note reached = spsc_reached [OF assms(1,2)]
  obtain tx rx where tx: "ch_tx c = Some tx" and rx: "ch_rx c = Some rx"
    using reached by auto
  note q = reached(5)
  have t: "unat (sp_tail (ch_shared c)) = length (accepted es)"
    using reached(6) assms(3) by (simp add: reached(4) unat_of_nat)
  have ht: "sp_head (ch_shared c) \<le> sp_tail (ch_shared c)"
    using arg_cong [OF q, of length] t by (intro head_le_tail) (simp add: spsc_abs_def)
  show ?thesis
    using spsc_drop_both [OF reached(1) tx rx ht] q by auto
qed

theorem spsc_every_value_once_witness:
  "\<exists>c0 es c c1 d c2. spsc_open 2 BusySpin = Inr c0
     \<and> spsc_run [OpSend () (1 :: nat), OpSend () 2, OpRecv, OpSend () 3] c0 = Inr (es, c)
     \<and> spsc_drop_tx c = Inr ([], c1) \<and> spsc_drop_rx c1 = Inr (d, c2)
     \<and> accepted es = delivered es @ d"
proof -
  let ?ps = "[OpSend () (1 :: nat), OpSend () 2, OpRecv, OpSend () 3]"
  have "is_power_of_two 2" by code_simp
  then obtain c0 es c where r: "spsc_open 2 BusySpin = Inr c0" "spsc_run ?ps c0 = Inr (es, c)"
    by (rule spsc_reach)
  have "length ?ps < 2 ^ 64" by simp
  from spsc_every_value_once [OF r this] r show ?thesis by blast
qed

text \<open>
  C3: the bound of the previous property is needed. A program that sends and receives a value
  \<open>2\<^sup>6\<^sup>4 - 1\<close> times and then sends once more leaves the counters at \<open>head = 2\<^sup>6\<^sup>4 - 1\<close> and
  \<open>tail = 0\<close>: the ring still works, but \<^verbatim>\<open>for seq in head..tail\<close> of \<^verbatim>\<open>Drop\<close> is an empty range, and
  the value in the ring is never destroyed (on a 32-bit target after \<open>2\<^sup>3\<^sup>2\<close> values).
\<close>

theorem spsc_drop_leaks_after_wrap:
  assumes "is_power_of_two cap"
  shows "\<exists>ps c0 es c c1 c2. spsc_open cap strategy = Inr c0 \<and> spsc_run ps c0 = Inr (es, c)
     \<and> length ps = 2 ^ 65 - 1 \<and> accepted es = delivered es @ [v]
     \<and> spsc_drop_tx c = Inr ([], c1) \<and> spsc_drop_rx c1 = Inr ([], c2)"
proof -
  define n :: nat where "n = 2 ^ 64 - 1"
  then have n: "Suc n = 2 ^ 64" by simp
  have wrap: "(of_nat (Suc n) :: usize) = 0" unfolding n by simp
  let ?pp = "concat (replicate n [OpSend () v, OpRecv])"
  let ?ps = "?pp @ [OpSend () v]"
  obtain es1 where sp: "spec_run ?pp (fresh_bchan cap) = (es1, fresh_bchan cap)"
    "accepted es1 = replicate n v" "delivered es1 = replicate n v"
    using spec_run_ping_pong [OF is_power_of_two_pos [OF assms], of n "()" v] by (elim exE conjE)
  obtain c0 es c where r: "spsc_open cap strategy = Inr c0" "spsc_run ?ps c0 = Inr (es, c)"
    "spsc_inv c" "ch_tx c \<noteq> None" "ch_rx c \<noteq> None" "es = fst (spec_run ?ps (fresh_bchan cap))"
    "spsc_abs c = snd (spec_run ?ps (fresh_bchan cap))"
    "sp_tail (ch_shared c) = of_nat (length (accepted es))"
    using assms by (rule spsc_reach)
  have "spec_run ?ps (fresh_bchan cap) =
      (es1 @ [EvSend () v (Ok ())], (fresh_bchan cap)\<lparr>bc_queue := [v]\<rparr>)"
    using is_power_of_two_pos [OF assms] sp(1) by (simp add: spec_run_append spec_try_send_def)
  with r(6,7) have es: "es = es1 @ [EvSend () v (Ok ())]" and q: "bc_queue (spsc_abs c) = [v]"
    by simp_all
  have tail: "sp_tail (ch_shared c) = 0"
    using r(8) wrap by (simp add: es accepted_append sp(2))
  have "length (spsc_queue (ch_shared c) (sp_head (ch_shared c))) = 1"
    using q by (simp add: spsc_abs_def)
  then have "sp_head (ch_shared c) \<noteq> 0"
    by (auto simp: tail)
  then have none: "\<not> sp_head (ch_shared c) < sp_tail (ch_shared c)"
    by (simp add: tail)
  have "length ?ps = 2 * n + 1"
    by (simp add: length_concat sum_list_replicate map_replicate)
  then have len: "length ?ps = 2 ^ 65 - 1"
    using n_def by simp
  have acc: "accepted es = delivered es @ [v]"
    by (simp add: es accepted_append delivered_append sp)
  show ?thesis
    using r(1,2) len acc spsc_drop_leak [OF r(4,5) none] by blast
qed

theorem spsc_drop_leaks_after_wrap_witness:
  "\<exists>ps c0 es c c1 c2. spsc_open 8 BusySpin = Inr c0 \<and> spsc_run ps c0 = Inr (es, c)
     \<and> length ps = 2 ^ 65 - 1 \<and> accepted es = delivered es @ [''leaked'']
     \<and> spsc_drop_tx c = Inr ([], c1) \<and> spsc_drop_rx c1 = Inr ([], c2)"
proof -
  have "is_power_of_two 8" by code_simp
  then show ?thesis by (rule spsc_drop_leaks_after_wrap)
qed

section \<open>Disconnection\<close>

text \<open>
  A dropped sender loses nothing. After every program on a fresh channel and the drop of the
  sender, the receiver gets all the values that were accepted and not yet delivered, in order,
  and from then on \<^verbatim>\<open>Disconnected\<close> for ever, never \<^verbatim>\<open>Empty\<close>.
\<close>

theorem spsc_disconnect_drains:
  assumes "spsc_open cap strategy = Inr c0" and "spsc_run ps c0 = Inr (es, c)"
  shows "\<exists>rest c1 c2. accepted es = delivered es @ rest \<and> spsc_drop_tx c = Inr ([], c1)
     \<and> spsc_run (replicate (length rest + m) OpRecv) c1
         = Inr (map (\<lambda>v. EvRecv (Ok v)) rest @ replicate m (EvRecv (Err RecvDisconnected)), c2)"
proof -
  note reached = spsc_reached [OF assms(1,2)]
  obtain tx rx where "ch_tx c = Some tx" "ch_rx c = Some rx"
    using reached by auto
  with reached(1) obtain c1 where d: "spsc_drop_tx c = Inr ([], c1)" "spsc_inv c1" "ch_rx c1 = ch_rx c"
    "spsc_abs c1 = (spsc_abs c)\<lparr>bc_senders := 0\<rparr>"
    by (rule spsc_drop_tx_live)
  moreover have "bc_rx_live (spsc_abs c)"
    using \<open>ch_rx c = Some rx\<close> by (simp add: spsc_abs_def)
  ultimately show ?thesis
    using reached(5) spsc.disconnect_drains [OF d(2), of m] by auto
qed

theorem spsc_disconnect_drains_witness:
  "\<exists>c0 es c rest c1 c2. spsc_open 4 Backoff = Inr c0
     \<and> spsc_run [OpSend () (1 :: nat), OpSend () 2, OpRecv] c0 = Inr (es, c)
     \<and> accepted es = delivered es @ rest \<and> spsc_drop_tx c = Inr ([], c1)
     \<and> spsc_run (replicate (length rest + 2) OpRecv) c1
         = Inr (map (\<lambda>v. EvRecv (Ok v)) rest @ replicate 2 (EvRecv (Err RecvDisconnected)), c2)"
proof -
  let ?ps = "[OpSend () (1 :: nat), OpSend () 2, OpRecv]"
  have "is_power_of_two 4" by code_simp
  then obtain c0 es c where r: "spsc_open 4 Backoff = Inr c0" "spsc_run ?ps c0 = Inr (es, c)"
    by (rule spsc_reach)
  from spsc_disconnect_drains [OF r, of 2] r show ?thesis by blast
qed

section \<open>Draining with a closure that may panic\<close>

text \<open>
  \<^verbatim>\<open>drain\<close> with any closure, also one that panics part-way. The closure is called on the
  queue's values in order, at most \<^verbatim>\<open>max\<close> of them and none after a panic; exactly the \<open>k\<close>
  values it was called on leave the ring; on both exits the published head is the receiver's
  own head, so that later receives and the ring's \<^verbatim>\<open>Drop\<close> start behind them.
\<close>

theorem spsc_drain_any_closure:
  assumes "spsc_open cap strategy = Inr c0" and "spsc_run ps c0 = Inr (es, c)"
    and "feed f (unat mx) (bc_queue (spsc_abs c)) s = (panicked, k, s')"
  shows "\<exists>c'. spsc_drain_op mx f s c = Inr (if panicked then Unwound else Returned (of_nat k), s', c')
     \<and> bc_queue (spsc_abs c') = drop k (bc_queue (spsc_abs c))
     \<and> map_option rx_head (ch_rx c') = Some (sp_head (ch_shared c')) \<and> spsc_inv c'"
proof -
  note reached = spsc_reached [OF assms(1,2)]
  have "bc_rx_live (spsc_abs c)" using reached(3) by (auto simp: spsc_abs_def)
  from spsc_drain_op_correct [OF reached(1) this assms(3)] obtain c' where
    d: "spsc_drain_op mx f s c = Inr (if panicked then Unwound else Returned (of_nat k), s', c')"
      "spsc_inv c'" "spsc_abs c' = (spsc_abs c)\<lparr>bc_queue := drop k (bc_queue (spsc_abs c))\<rparr>"
    by blast
  obtain rx where "ch_rx c' = Some rx"
    using d(3) \<open>bc_rx_live (spsc_abs c)\<close> by (auto simp: spsc_abs_def)
  with d(2) have "map_option rx_head (ch_rx c') = Some (sp_head (ch_shared c'))"
    by (auto simp: spsc_inv_def spsc_rx_inv_def)
  with d show ?thesis by simp
qed

theorem spsc_drain_any_closure_witness:
  "\<exists>c0 es c c'. spsc_open 4 BusySpin = Inr c0
     \<and> spsc_run [OpSend () (1 :: nat), OpSend () 2, OpSend () 3] c0 = Inr (es, c)
     \<and> spsc_drain_op 8 (\<lambda>v s. (v = 2, s @ [v])) [] c = Inr (Unwound, [1, 2 :: nat], c')
     \<and> bc_queue (spsc_abs c') = [3]"
proof -
  let ?ps = "[OpSend () (1 :: nat), OpSend () 2, OpSend () 3]"
  have "is_power_of_two 4" by code_simp
  then obtain c0 es c where r: "spsc_open 4 BusySpin = Inr c0" "spsc_run ?ps c0 = Inr (es, c)"
    "spsc_abs c = snd (spec_run ?ps (fresh_bchan 4))"
    by (rule spsc_reach)
  then have q: "bc_queue (spsc_abs c) = [1, 2, 3]"
    by (simp add: spec_try_send_def)
  have n: "unat (8 :: usize) = Suc (Suc 6)" by simp
  have "feed (\<lambda>v s. (v = 2, s @ [v])) (unat (8 :: usize)) (bc_queue (spsc_abs c)) []
      = (True, 2, [1, 2])"
    unfolding q n feed.simps Let_def prod.case by simp
  from spsc_drain_any_closure [OF r(1,2) this] obtain c'
    where "spsc_drain_op 8 (\<lambda>v s. (v = 2, s @ [v])) [] c = Inr (Unwound, [1, 2], c')"
      "bc_queue (spsc_abs c') = [3]"
    by (auto simp: q)
  with r(1,2) show ?thesis by blast
qed

text \<open>
  A panicking closure can strand a parked sender. With the strategy \<^verbatim>\<open>Park\<close> and a full
  ring, the sender (thread 7) registers and sleeps; the receiver drains everything but its
  closure panics on the last value. The publish guard frees the slots, but the wake behind
  \<^verbatim>\<open>drop(guard)\<close> is skipped by the unwinding: the ring is empty and connected, the sender has
  no token, and a receiver (thread 8) that catches the panic and calls \<^verbatim>\<open>recv\<close> goes to sleep
  as well. Neither park can return.
\<close>

definition spsc_panic_run :: "(nat list \<times> bool \<times> bool \<times> bool \<times> bool) outcome" where
  "spsc_panic_run =
     (case spsc_open 2 Park of Inl e \<Rightarrow> Inl e | Inr c0 \<Rightarrow>
     (case spsc_run [OpSend () 1, OpSend () 2] c0 of Inl e \<Rightarrow> Inl e | Inr (_, c1) \<Rightarrow>
     (case spsc_send_wait 7 (3, for_strategy Park, c1) of
        Inl e \<Rightarrow> Inl e | Inr (sleeps, (v, i, c2)) \<Rightarrow>
     (case spsc_drain_op 8 (\<lambda>v s. (v = 2, s)) () c2 of Inl e \<Rightarrow> Inl e | Inr (_, _, c3) \<Rightarrow>
     (case spsc_recv_attempt (for_strategy Park, c3) of Inl e \<Rightarrow> Inl e | Inr (_, s4) \<Rightarrow>
     (case spsc_recv_wait 8 s4 of Inl e \<Rightarrow> Inl e | Inr (sleeps', (j, c5)) \<Rightarrow>
       Inr (bc_queue (spsc_abs c5), sleeps, sleeps',
            Option.is_none (spsc_send_resume 7 (v, i, c5)),
            Option.is_none (spsc_recv_resume 8 (j, c5)))))))))"

theorem spsc_drain_panic_strands_sender: "spsc_panic_run = Inr ([], True, True, True, True)"
  by code_simp

section \<open>The blocking methods\<close>





end
