(* ===== verification/Mpsc.thy ===== *)
theory Mpsc
  imports Cells Channel_Spec Blocking
begin

text \<open>
  The multi-producer single-consumer ring (\<^verbatim>\<open>src/mpsc.rs\<close>). A producer claims a sequence number
  with a bounded compare-and-swap, writes its slot and publishes the slot's round; the consumer
  reads the published prefix. As in the theory \<open>Spsc\<close> a method here runs without interference
  (\<open>Mpsc_Concurrent\<close> removes that); the one nondeterministic instruction,
  \<^verbatim>\<open>compare_exchange_weak\<close>, is told by an argument how often it fails spuriously.
\<close>

unbundle bit_operations_syntax

section \<open>State\<close>

definition CLAIM_BACKOFF_MAX :: u32 where
  "CLAIM_BACKOFF_MAX = 64"

definition PARK_SPINS :: u32 where
  "PARK_SPINS = 16"

record 'a slot =
  sl_round :: i64
  sl_value :: "'a cell"

record 'a mpsc_shared =
  mp_slots :: "'a slot list"
  mp_mask :: usize
  mp_cap :: usize
  mp_shift :: u32
  mp_claim :: usize
  mp_head :: usize
  mp_senders :: usize
  mp_rx_dropped :: bool
  mp_consumer_parker :: parker
  mp_prod_waiters :: waiter_list
  mp_strategy :: wait_strategy

record mpsc_sender =
  mtx_cached_head :: usize

record mpsc_receiver =
  mrx_head :: usize

definition mpsc_channel ::
    "usize \<Rightarrow> wait_strategy \<Rightarrow> ('a mpsc_shared \<times> mpsc_sender \<times> mpsc_receiver) outcome" where
  "mpsc_channel cap strategy =
     obind (assert_cap cap) (\<lambda>_.
       let shift = trailing_zeros cap
       in if push_bit (unat shift) 1 \<noteq> cap then Inl (Panic ''assertion failed'')
          else
            Inr (\<lparr>mp_slots = replicate (unat cap) \<lparr>sl_round = - 1, sl_value = Uninit\<rparr>,
                  mp_mask = cap - 1, mp_cap = cap, mp_shift = shift, mp_claim = 0, mp_head = 0,
                  mp_senders = 1, mp_rx_dropped = False, mp_consumer_parker = parker_new,
                  mp_prod_waiters = waiter_list_new, mp_strategy = strategy\<rparr>,
                 \<lparr>mtx_cached_head = 0\<rparr>, \<lparr>mrx_head = 0\<rparr>))"

text \<open>\<^verbatim>\<open>(seq >> shift) as i64\<close>\<close>

definition round_of :: "'a mpsc_shared \<Rightarrow> usize \<Rightarrow> i64" where
  "round_of sh seq = drop_bit (unat (mp_shift sh)) seq"

text \<open>A closure on the payload of slot \<open>i\<close>; an index out of bounds panics.\<close>

definition slot_value_with ::
    "('a cell \<Rightarrow> ('r \<times> 'a cell) outcome) \<Rightarrow> usize \<Rightarrow> 'a slot list \<Rightarrow> ('r \<times> 'a slot list) outcome" where
  "slot_value_with f i slots =
     (if unat i < length slots then
        obind (f (sl_value (slots ! unat i))) (\<lambda>(r, c).
          Inr (r, slots[unat i := (slots ! unat i)\<lparr>sl_value := c\<rparr>]))
      else Inl (Panic ''index out of bounds''))"

definition slot_round_load :: "usize \<Rightarrow> 'a slot list \<Rightarrow> i64 outcome" where
  "slot_round_load i slots =
     (if unat i < length slots then Inr (sl_round (slots ! unat i))
      else Inl (Panic ''index out of bounds''))"

definition slot_round_store :: "i64 \<Rightarrow> usize \<Rightarrow> 'a slot list \<Rightarrow> 'a slot list outcome" where
  "slot_round_store r i slots =
     (if unat i < length slots then Inr (slots[unat i := (slots ! unat i)\<lparr>sl_round := r\<rparr>])
      else Inl (Panic ''index out of bounds''))"

section \<open>The sender\<close>

text \<open>
  The claim loop. \<open>n\<close> is the number of spurious failures still to come; a failed exchange
  returns the current claim. The result is the claimed sequence number (or \<open>None\<close> for a full
  ring), the claim counter, the sender, and the spin counts of the back-offs, oldest first.
\<close>

definition claim_refresh :: "'a mpsc_shared \<Rightarrow> usize \<Rightarrow> mpsc_sender \<Rightarrow> mpsc_sender" where
  "claim_refresh sh seq tx =
     (if seq \<ge> saturating_add (mtx_cached_head tx) (mp_cap sh)
      then tx\<lparr>mtx_cached_head := mp_head sh\<rparr> else tx)"

function mpsc_claim_loop ::
    "'a mpsc_shared \<Rightarrow> nat \<Rightarrow> usize \<Rightarrow> u32 \<Rightarrow> mpsc_sender \<Rightarrow> u32 list \<Rightarrow>
     usize option \<times> 'a mpsc_shared \<times> mpsc_sender \<times> u32 list" where
  "mpsc_claim_loop sh n seq backoff tx spun =
     (let tx1 = claim_refresh sh seq tx
      in if seq \<ge> saturating_add (mtx_cached_head tx1) (mp_cap sh) then (None, sh, tx1, spun)
         else if mp_claim sh = seq then
           (case n of
              0 \<Rightarrow> (Some seq, sh\<lparr>mp_claim := seq + 1\<rparr>, tx1, spun)
            | Suc n' \<Rightarrow> mpsc_claim_loop sh n' (mp_claim sh) (min (backoff * 2) CLAIM_BACKOFF_MAX) tx1
                (spun @ [backoff]))
         else mpsc_claim_loop sh n (mp_claim sh) (min (backoff * 2) CLAIM_BACKOFF_MAX) tx1
                (spun @ [backoff]))"
  by pat_completeness auto
termination
  by (relation "measure (\<lambda>(sh, n, seq, backoff, tx, spun). 2 * n + (if mp_claim sh = seq then 0 else 1))")
    auto

declare mpsc_claim_loop.simps [simp del]

definition mpsc_wake_consumer :: "'a mpsc_shared \<Rightarrow> tokens \<Rightarrow> 'a mpsc_shared \<times> tokens" where
  "mpsc_wake_consumer sh tok =
     (let (p, tok') = wake (mp_consumer_parker sh) tok in (sh\<lparr>mp_consumer_parker := p\<rparr>, tok'))"

definition mpsc_try_send ::
    "nat \<Rightarrow> 'a \<Rightarrow> 'a mpsc_shared \<Rightarrow> mpsc_sender \<Rightarrow> tokens \<Rightarrow>
     ((unit, 'a try_send_error) rust_result \<times> 'a mpsc_shared \<times> mpsc_sender \<times> tokens) outcome" where
  "mpsc_try_send n v sh tx tok =
     (if mp_rx_dropped sh then Inr (Err (SendDisconnected v), sh, tx, tok)
      else
        (case mpsc_claim_loop sh n (mp_claim sh) 1 tx [] of
           (None, sh1, tx1, _) \<Rightarrow> Inr (Err (Full v), sh1, tx1, tok)
         | (Some seq, sh1, tx1, _) \<Rightarrow>
             obind (slot_value_with (\<lambda>c. obind (cell_write v c) (\<lambda>c'. Inr ((), c')))
                      (seq AND mp_mask sh1) (mp_slots sh1)) (\<lambda>(_, slots).
             obind (slot_round_store (round_of sh1 seq) (seq AND mp_mask sh1) slots) (\<lambda>slots'.
               let sh2 = sh1\<lparr>mp_slots := slots'\<rparr>;
                   (sh3, tok3) = (if mp_strategy sh2 = Park then mpsc_wake_consumer sh2 tok
                                  else (sh2, tok))
               in Inr (Ok (), sh3, tx1, tok3)))))"

definition mpsc_sender_clone :: "'a mpsc_shared \<Rightarrow> mpsc_sender \<Rightarrow> 'a mpsc_shared \<times> mpsc_sender" where
  "mpsc_sender_clone sh tx = (sh\<lparr>mp_senders := mp_senders sh + 1\<rparr>, \<lparr>mtx_cached_head = 0\<rparr>)"

section \<open>The receiver\<close>

definition slot_published :: "'a mpsc_shared \<Rightarrow> usize \<Rightarrow> bool outcome" where
  "slot_published sh seq =
     obind (slot_round_load (seq AND mp_mask sh) (mp_slots sh)) (\<lambda>r. Inr (r = round_of sh seq))"

definition mpsc_wake_producers :: "'a mpsc_shared \<Rightarrow> tokens \<Rightarrow> 'a mpsc_shared \<times> tokens" where
  "mpsc_wake_producers sh tok =
     (if mp_strategy sh = Park then
        (let (w, tok') = wake_all (mp_prod_waiters sh) tok in (sh\<lparr>mp_prod_waiters := w\<rparr>, tok'))
      else (sh, tok))"

text \<open>The end of \<^verbatim>\<open>try_recv\<close>: read the payload, publish the head, wake the producers.\<close>

definition mpsc_pop ::
    "'a mpsc_shared \<Rightarrow> mpsc_receiver \<Rightarrow> tokens \<Rightarrow>
     (('a, try_recv_error) rust_result \<times> 'a mpsc_shared \<times> mpsc_receiver \<times> tokens) outcome" where
  "mpsc_pop sh rx tok =
     obind (slot_value_with assume_init_read (mrx_head rx AND mp_mask sh) (mp_slots sh)) (\<lambda>(v, slots).
       let rx1 = rx\<lparr>mrx_head := mrx_head rx + 1\<rparr>;
           sh1 = sh\<lparr>mp_slots := slots, mp_head := mrx_head rx1\<rparr>;
           (sh2, tok2) = mpsc_wake_producers sh1 tok
       in Inr (Ok v, sh2, rx1, tok2))"

definition mpsc_try_recv ::
    "'a mpsc_shared \<Rightarrow> mpsc_receiver \<Rightarrow> tokens \<Rightarrow>
     (('a, try_recv_error) rust_result \<times> 'a mpsc_shared \<times> mpsc_receiver \<times> tokens) outcome" where
  "mpsc_try_recv sh rx tok =
     obind (slot_published sh (mrx_head rx)) (\<lambda>published.
       if \<not> published then
         (if mp_senders sh = 0 then
            obind (slot_published sh (mrx_head rx)) (\<lambda>published'.
              if \<not> published' then Inr (Err RecvDisconnected, sh, rx, tok)
              else mpsc_pop sh rx tok)
          else Inr (Err Empty, sh, rx, tok))
       else mpsc_pop sh rx tok)"

definition mpsc_publish_guard_drop :: "usize \<Rightarrow> usize \<Rightarrow> 'a mpsc_shared \<Rightarrow> 'a mpsc_shared" where
  "mpsc_publish_guard_drop start head sh = (if head \<noteq> start then sh\<lparr>mp_head := head\<rparr> else sh)"

function mpsc_drain_loop ::
    "('a \<Rightarrow> 's \<Rightarrow> bool \<times> 's) \<Rightarrow> usize \<Rightarrow> 'a mpsc_shared \<Rightarrow> usize \<Rightarrow> usize \<Rightarrow> 's \<Rightarrow>
     (bool \<times> 'a mpsc_shared \<times> usize \<times> usize \<times> 's) outcome" where
  "mpsc_drain_loop f mx sh seq count s =
     (if count < mx then
        (case slot_round_load (seq AND mp_mask sh) (mp_slots sh) of
           Inl e \<Rightarrow> Inl e
         | Inr r \<Rightarrow>
             (if r \<noteq> round_of sh seq then Inr (False, sh, seq, count, s)
              else
                (case slot_value_with assume_init_read (seq AND mp_mask sh) (mp_slots sh) of
                   Inl e \<Rightarrow> Inl e
                 | Inr (v, slots) \<Rightarrow>
                     (let sh1 = sh\<lparr>mp_slots := slots\<rparr>; (panicked, s') = f v s
                      in if panicked then Inr (True, sh1, seq + 1, count + 1, s')
                         else mpsc_drain_loop f mx sh1 (seq + 1) (count + 1) s'))))
      else Inr (False, sh, seq, count, s))"
  by pat_completeness auto
termination
  by (relation "measure (\<lambda>(f, mx, sh, seq, count, s). unat mx - unat count)")
    (simp_all add: usize_loop_decreases)

declare mpsc_drain_loop.simps [simp del]

definition mpsc_drain ::
    "usize \<Rightarrow> ('a \<Rightarrow> 's \<Rightarrow> bool \<times> 's) \<Rightarrow> 's \<Rightarrow> 'a mpsc_shared \<Rightarrow> mpsc_receiver \<Rightarrow> tokens \<Rightarrow>
     (drain_exit \<times> 's \<times> 'a mpsc_shared \<times> mpsc_receiver \<times> tokens) outcome" where
  "mpsc_drain mx f s sh rx tok =
     obind (mpsc_drain_loop f mx sh (mrx_head rx) 0 s) (\<lambda>(panicked, sh1, head, count, s1).
       let rx1 = rx\<lparr>mrx_head := head\<rparr>;
           sh2 = mpsc_publish_guard_drop (mrx_head rx) head sh1
       in if panicked then Inr (Unwound, s1, sh2, rx1, tok)
          else
            let (sh3, tok3) = (if count > 0 then mpsc_wake_producers sh2 tok else (sh2, tok))
            in Inr (Returned count, s1, sh3, rx1, tok3))"

section \<open>Dropping the handles and the ring\<close>

definition mpsc_sender_drop :: "'a mpsc_shared \<Rightarrow> tokens \<Rightarrow> 'a mpsc_shared \<times> tokens" where
  "mpsc_sender_drop sh tok =
     (let old = mp_senders sh; sh1 = sh\<lparr>mp_senders := mp_senders sh - 1\<rparr>
      in if old = 1 then mpsc_wake_consumer sh1 tok else (sh1, tok))"

definition mpsc_receiver_drop :: "'a mpsc_shared \<Rightarrow> tokens \<Rightarrow> 'a mpsc_shared \<times> tokens" where
  "mpsc_receiver_drop sh tok =
     (let sh1 = sh\<lparr>mp_rx_dropped := True\<rparr>;
          (w, tok') = wake_all (mp_prod_waiters sh1) tok
      in (sh1\<lparr>mp_prod_waiters := w\<rparr>, tok'))"

text \<open>
  \<^verbatim>\<open>Drop for Shared\<close>: an unbounded loop in the source, fuelled here; \<open>None\<close> is "still running".
\<close>

fun mpsc_drop_loop ::
    "nat \<Rightarrow> 'a mpsc_shared \<Rightarrow> usize \<Rightarrow> 'a list \<Rightarrow> ('a list \<times> 'a mpsc_shared) option outcome" where
  "mpsc_drop_loop 0 sh seq dropped = Inr None"
| "mpsc_drop_loop (Suc fuel) sh seq dropped =
     obind (slot_round_load (seq AND mp_mask sh) (mp_slots sh)) (\<lambda>r.
       if r \<noteq> round_of sh seq then Inr (Some (dropped, sh))
       else
         obind (slot_value_with assume_init_drop (seq AND mp_mask sh) (mp_slots sh)) (\<lambda>(v, slots).
           mpsc_drop_loop fuel (sh\<lparr>mp_slots := slots\<rparr>) (seq + 1) (dropped @ [v])))"

text \<open>\<open>cap + 1\<close> rounds of the loop are enough, see \<open>mpsc_shared_drop_correct\<close>.\<close>

definition mpsc_shared_drop :: "'a mpsc_shared \<Rightarrow> ('a list \<times> 'a mpsc_shared) option outcome" where
  "mpsc_shared_drop sh = mpsc_drop_loop (Suc (unat (mp_cap sh))) sh (mp_head sh) []"

section \<open>Rounds\<close>

text \<open>
  \<open>rounds_ok rs h n\<close>: reading the round numbers from sequence number \<open>h\<close> on, the first \<open>n\<close>
  slots carry the round of their sequence number, the others the round before it (\<open>-1\<close> for a
  slot that was never published).
\<close>

definition rounds_ok :: "i64 list \<Rightarrow> nat \<Rightarrow> nat \<Rightarrow> bool" where
  "rounds_ok rs h n \<longleftrightarrow>
     (\<forall>i < length rs. rs ! ((h + i) mod length rs) =
        of_nat ((h + i) div length rs) - (if i < n then 0 else 1))"

lemma rounds_published:
  assumes "rounds_ok rs h n" "0 < length rs"
  shows "rs ! (h mod length rs) = of_nat (h div length rs) \<longleftrightarrow> 0 < n"
  using assms by (cases n) (auto simp: rounds_ok_def dest!: spec [of _ 0])

lemma rounds_publish:
  assumes ok: "rounds_ok rs h n" and n: "n < length rs"
  shows "rounds_ok (rs[(h + n) mod length rs := of_nat ((h + n) div length rs)]) h (Suc n)"
  unfolding rounds_ok_def
proof (intro allI impI)
  fix i
  let ?rs = "rs[(h + n) mod length rs := of_nat ((h + n) div length rs)]"
  assume "i < length ?rs"
  then have i: "i < length rs" by simp
  show "?rs ! ((h + i) mod length ?rs) = of_nat ((h + i) div length ?rs) - (if i < Suc n then 0 else 1)"
  proof (cases "i = n")
    case True
    with n show ?thesis by (simp add: nth_ring_update)
  next
    case False
    with i n have "(h + i) mod length rs \<noteq> (h + n) mod length rs"
      by (intro ring_slot_neq) auto
    with False i ok show ?thesis by (auto simp: rounds_ok_def)
  qed
qed

lemma rounds_advance:
  assumes ok: "rounds_ok rs h (Suc n)" and n: "Suc n \<le> length rs"
  shows "rounds_ok rs (Suc h) n"
  unfolding rounds_ok_def
proof (intro allI impI)
  fix i
  assume i: "i < length rs"
  show "rs ! ((Suc h + i) mod length rs) = of_nat ((Suc h + i) div length rs) - (if i < n then 0 else 1)"
  proof (cases "Suc i = length rs")
    case True
    then have "(Suc h + i) mod length rs = h mod length rs"
      "(Suc h + i) div length rs = Suc (h div length rs)"
      using i by (metis add_Suc_shift mod_add_self2, metis add_Suc_shift div_add_self2 Suc_eq_plus1 less_zeroE)
    moreover have "rs ! (h mod length rs) = of_nat (h div length rs)"
      using rounds_published [OF ok] i by (cases rs) auto
    ultimately show ?thesis
      using True n by simp
  next
    case False
    with i have less: "Suc i < length rs" by simp
    show ?thesis
      using ok [unfolded rounds_ok_def, rule_format, OF less] by simp
  qed
qed

lemma rounds_new: "rounds_ok (replicate c (- 1)) 0 0"
  by (simp add: rounds_ok_def)

section \<open>The ring's invariant\<close>

definition mpsc_cells :: "'a mpsc_shared \<Rightarrow> 'a cell list" where
  "mpsc_cells sh = map sl_value (mp_slots sh)"

definition mpsc_rounds :: "'a mpsc_shared \<Rightarrow> i64 list" where
  "mpsc_rounds sh = map sl_round (mp_slots sh)"

definition mpsc_geometry :: "'a mpsc_shared \<Rightarrow> bool" where
  "mpsc_geometry sh \<longleftrightarrow>
     is_power_of_two (mp_cap sh) \<and> mp_mask sh = mp_cap sh - 1 \<and>
     mp_shift sh = trailing_zeros (mp_cap sh) \<and> length (mp_slots sh) = unat (mp_cap sh)"

text \<open>Every sequence number from \<open>h\<close> up to the claim is published and holds a live value.\<close>

definition mpsc_ring :: "'a mpsc_shared \<Rightarrow> usize \<Rightarrow> bool" where
  "mpsc_ring sh h \<longleftrightarrow>
     h \<le> mp_claim sh \<and>
     ring_ok (mpsc_cells sh) (unat h) (unat (mp_claim sh) - unat h) \<and>
     rounds_ok (mpsc_rounds sh) (unat h) (unat (mp_claim sh) - unat h)"

definition mpsc_queue :: "'a mpsc_shared \<Rightarrow> usize \<Rightarrow> 'a list" where
  "mpsc_queue sh h = ring_queue (mpsc_cells sh) (unat h) (unat (mp_claim sh) - unat h)"

definition mpsc_shared_inv :: "'a mpsc_shared \<Rightarrow> bool" where
  "mpsc_shared_inv sh \<longleftrightarrow>
     mpsc_geometry sh \<and> mpsc_ring sh (mp_head sh) \<and> parker_ok (mp_consumer_parker sh)"

lemmas mpsc_defs = mpsc_geometry_def mpsc_ring_def mpsc_queue_def mpsc_cells_def mpsc_rounds_def

lemma mpsc_queue_length [simp]: "length (mpsc_queue sh h) = unat (mp_claim sh) - unat h"
  by (simp add: mpsc_queue_def)

lemma mpsc_index:
  "mpsc_geometry sh \<Longrightarrow> unat (x AND mp_mask sh) = unat x mod length (mp_slots sh)"
  by (simp add: mpsc_geometry_def unat_mask_index)

lemma mpsc_index_bound: "mpsc_geometry sh \<Longrightarrow> unat x mod length (mp_slots sh) < length (mp_slots sh)"
  using is_power_of_two_pos [of "mp_cap sh"] by (simp add: mpsc_geometry_def)

text \<open>The shift computes the round number: \<open>seq >> log2 cap = seq / cap\<close>.\<close>

lemma mpsc_round_of:
  assumes "mpsc_geometry sh"
  shows "round_of sh seq = of_nat (unat seq div length (mp_slots sh))"
proof -
  have "unat (round_of sh seq) = unat seq div length (mp_slots sh)"
    using assms unat_shift_round [of "mp_cap sh" "mp_shift sh" seq]
    by (simp add: round_of_def mpsc_geometry_def)
  then show ?thesis
    by (metis of_nat_unat ucast_id)
qed

lemma slot_round_load_ok:
  "mpsc_geometry sh \<Longrightarrow>
     slot_round_load (x AND mp_mask sh) (mp_slots sh)
       = Inr (mpsc_rounds sh ! (unat x mod length (mp_slots sh)))"
  using mpsc_index_bound [of sh x] by (simp add: slot_round_load_def mpsc_index mpsc_rounds_def)

text \<open>The consumer's test decides exactly whether the queue is non-empty.\<close>

lemma slot_published_iff:
  assumes geo: "mpsc_geometry sh" and ring: "mpsc_ring sh h"
  shows "slot_published sh h = Inr (mpsc_queue sh h \<noteq> [])"
proof -
  have "length (mpsc_rounds sh) = length (mp_slots sh)" "0 < length (mpsc_rounds sh)"
    using geo is_power_of_two_pos [of "mp_cap sh"] by (simp_all add: mpsc_rounds_def mpsc_geometry_def)
  with rounds_published [of "mpsc_rounds sh" "unat h" "unat (mp_claim sh) - unat h"] ring
  have "mpsc_rounds sh ! (unat h mod length (mp_slots sh)) = round_of sh h
      \<longleftrightarrow> 0 < unat (mp_claim sh) - unat h"
    by (simp add: mpsc_round_of [OF geo] mpsc_ring_def)
  moreover have "mpsc_queue sh h \<noteq> [] \<longleftrightarrow> 0 < unat (mp_claim sh) - unat h"
    using mpsc_queue_length [of sh h] by (metis length_greater_0_conv)
  ultimately show ?thesis
    by (simp add: slot_published_def slot_round_load_ok [OF geo])
qed

lemma length_mpsc_cells [simp]: "length (mpsc_cells sh) = length (mp_slots sh)"
  by (simp add: mpsc_cells_def)

lemma length_mpsc_rounds [simp]: "length (mpsc_rounds sh) = length (mp_slots sh)"
  by (simp add: mpsc_rounds_def)

lemma mpsc_queue_empty: "mpsc_ring sh h \<Longrightarrow> mpsc_queue sh h = [] \<longleftrightarrow> mp_claim sh = h"
  using mpsc_queue_length [of sh h]
  by (auto simp: mpsc_ring_def word_le_nat_alt word_unat_eq_iff simp flip: length_0_conv)

text \<open>Claiming, writing and publishing the next sequence number appends to the queue.\<close>

lemma mpsc_push:
  assumes geo: "mpsc_geometry sh" and ring: "mpsc_ring sh h"
    and space: "unat (mp_claim sh) - unat h < unat (mp_cap sh)" and last: "unat (mp_claim sh) < 2 ^ 64 - 1"
  defines "i \<equiv> mp_claim sh AND mp_mask sh"
  obtains slots slots' where
    "slot_value_with (\<lambda>c. obind (cell_write v c) (\<lambda>c'. Inr ((), c'))) i (mp_slots sh) = Inr ((), slots)"
    and "slot_round_store (round_of sh (mp_claim sh)) i slots = Inr slots'"
    and "mpsc_ring (sh\<lparr>mp_claim := mp_claim sh + 1, mp_slots := slots'\<rparr>) h"
    and "mpsc_queue (sh\<lparr>mp_claim := mp_claim sh + 1, mp_slots := slots'\<rparr>) h = mpsc_queue sh h @ [v]"
    and "length slots' = length (mp_slots sh)"
proof -
  let ?L = "length (mp_slots sh)" and ?n = "unat (mp_claim sh) - unat h"
  let ?k = "unat (mp_claim sh) mod length (mp_slots sh)"
  have hc: "unat h \<le> unat (mp_claim sh)" using ring by (simp add: mpsc_ring_def word_le_nat_alt)
  then have k: "unat h + ?n = unat (mp_claim sh)" by simp
  have n: "?n < ?L" using geo space by (simp add: mpsc_geometry_def)
  have ki: "unat i = ?k" by (simp add: i_def mpsc_index [OF geo])
  have kL: "?k < ?L" by (rule mpsc_index_bound [OF geo])
  have rok: "ring_ok (mpsc_cells sh) (unat h) ?n" "rounds_ok (mpsc_rounds sh) (unat h) ?n"
    using ring by (simp_all add: mpsc_ring_def)
  define s1 where "s1 = (mp_slots sh)[?k := (mp_slots sh ! ?k)\<lparr>sl_value := Live v\<rparr>]"
  define s2 where "s2 = s1[?k := (s1 ! ?k)\<lparr>sl_round := round_of sh (mp_claim sh)\<rparr>]"
  let ?sh = "sh\<lparr>mp_claim := mp_claim sh + 1, mp_slots := s2\<rparr>"
  have "\<not> is_live (sl_value (mp_slots sh ! ?k))"
    using ring_back_free [OF rok(1)] n kL by (simp add: k mpsc_cells_def)
  then have "cell_write v (sl_value (mp_slots sh ! ?k)) = Inr (Live v)"
    by (cases "sl_value (mp_slots sh ! ?k)") simp_all
  then have w1: "slot_value_with (\<lambda>c. obind (cell_write v c) (\<lambda>c'. Inr ((), c'))) i (mp_slots sh)
      = Inr ((), s1)"
    using kL by (simp add: slot_value_with_def ki s1_def)
  have w2: "slot_round_store (round_of sh (mp_claim sh)) i s1 = Inr s2"
    using kL by (simp add: slot_round_store_def ki s1_def s2_def)
  have claim: "unat (mp_claim sh + 1) = Suc (unat (mp_claim sh))"
    using unat_le_add_one [OF last] by simp
  then have sn: "unat (mp_claim sh + 1) - unat h = Suc ?n" using hc by simp
  have cells: "mpsc_cells ?sh = (mpsc_cells sh)[?k := Live v]"
    and rounds: "mpsc_rounds ?sh = (mpsc_rounds sh)[?k := of_nat (unat (mp_claim sh) div ?L)]"
    using kL by (simp_all add: mpsc_cells_def mpsc_rounds_def s2_def s1_def map_update
        mpsc_round_of [OF geo])
  have "ring_ok (mpsc_cells ?sh) (unat h) (Suc ?n)"
    using ring_ok_write [OF rok(1), of v] n by (simp add: cells k)
  moreover have "rounds_ok (mpsc_rounds ?sh) (unat h) (Suc ?n)"
    using rounds_publish [OF rok(2)] n by (simp add: rounds k)
  moreover have "h \<le> mp_claim sh + 1"
    using hc claim by (simp add: word_le_nat_alt)
  ultimately have "mpsc_ring ?sh h"
    using sn by (simp add: mpsc_ring_def)
  moreover have "mpsc_queue ?sh h = mpsc_queue sh h @ [v]"
    using ring_queue_write [of ?n "mpsc_cells sh" "unat h" v] n sn
    by (simp add: mpsc_queue_def cells k)
  ultimately show thesis
    using that w1 w2 by (simp add: s2_def s1_def)
qed

text \<open>Reading the payload of a published head pops the queue; the round stays.\<close>

lemma mpsc_take:
  assumes geo: "mpsc_geometry sh" and ring: "mpsc_ring sh h" and ne: "mpsc_queue sh h \<noteq> []"
  obtains v slots where
    "slot_value_with assume_init_read (h AND mp_mask sh) (mp_slots sh) = Inr (v, slots)"
    and "mpsc_ring (sh\<lparr>mp_slots := slots\<rparr>) (h + 1)"
    and "mpsc_queue sh h = v # mpsc_queue (sh\<lparr>mp_slots := slots\<rparr>) (h + 1)"
    and "length slots = length (mp_slots sh)" and "unat (h + 1) = Suc (unat h)"
    and "mpsc_rounds (sh\<lparr>mp_slots := slots\<rparr>) = mpsc_rounds sh"
proof -
  let ?k = "unat h mod length (mp_slots sh)"
  have kL: "?k < length (mp_slots sh)" by (rule mpsc_index_bound [OF geo])
  have "0 < length (mpsc_queue sh h)" using ne by blast
  then have less: "unat h < unat (mp_claim sh)" by simp
  then obtain n where n: "unat (mp_claim sh) - unat h = Suc n"
    by (metis Suc_diff_Suc)
  have h1: "unat (h + 1) = Suc (unat h)"
    using less unat_less_suc [of h "mp_claim sh"] by (simp add: word_less_nat_alt)
  then have n1: "unat (mp_claim sh) - unat (h + 1) = n" using n by simp
  have rok: "ring_ok (mpsc_cells sh) (unat h) (Suc n)" "rounds_ok (mpsc_rounds sh) (unat h) (Suc n)"
    using ring n by (simp_all add: mpsc_ring_def)
  obtain v where v: "mpsc_cells sh ! ?k = Live v"
    and q: "ring_queue (mpsc_cells sh) (unat h) (Suc n) = v # ring_queue (mpsc_cells sh) (Suc (unat h)) n"
    using rok(1) by (rule ring_front_live [where buf = "mpsc_cells sh", simplified])
  then have live: "sl_value (mp_slots sh ! ?k) = Live v"
    using kL by (simp add: mpsc_cells_def)
  define slots where "slots = (mp_slots sh)[?k := (mp_slots sh ! ?k)\<lparr>sl_value := Moved v\<rparr>]"
  let ?sh = "sh\<lparr>mp_slots := slots\<rparr>"
  have read: "slot_value_with assume_init_read (h AND mp_mask sh) (mp_slots sh) = Inr (v, slots)"
    using kL live by (simp add: slot_value_with_def mpsc_index [OF geo] slots_def)
  have cells: "mpsc_cells ?sh = (mpsc_cells sh)[?k := Moved v]"
    by (simp add: mpsc_cells_def slots_def map_update)
  have rounds: "mpsc_rounds ?sh = mpsc_rounds sh"
    using kL by (simp add: mpsc_rounds_def slots_def map_update)
      (metis length_map list_update_id nth_map)
  have "ring_ok (mpsc_cells ?sh) (Suc (unat h)) n"
    using ring_ok_read [OF rok(1), of v] by (simp add: cells)
  moreover have "rounds_ok (mpsc_rounds ?sh) (Suc (unat h)) n"
    using rounds_advance [OF rok(2)] rok(1) by (simp add: rounds ring_ok_def)
  moreover have "h + 1 \<le> mp_claim sh"
    using less h1 by (simp add: word_le_nat_alt)
  ultimately have "mpsc_ring ?sh (h + 1)"
    by (simp add: mpsc_ring_def h1 n1 [unfolded h1])
  moreover have "mpsc_queue sh h = v # mpsc_queue ?sh (h + 1)"
    using q ring_queue_read [OF rok(1), of v]
    by (simp add: mpsc_queue_def cells h1 n n1 [unfolded h1])
  ultimately show thesis
    using that read rounds h1 by (simp add: slots_def)
qed

subsection \<open>Claiming\<close>

text \<open>
  The full test, on the cached and then on the real head. It is exact as long as sequence
  numbers are left; at the last one (\<open>2\<^sup>6\<^sup>4 - 1\<close>) the saturating addition keeps it true for ever.
\<close>

definition mpsc_full :: "'a mpsc_shared \<Rightarrow> bool" where
  "mpsc_full sh \<longleftrightarrow>
     length (mpsc_queue sh (mp_head sh)) = unat (mp_cap sh) \<or> unat (mp_claim sh) = 2 ^ 64 - 1"

definition mpsc_tx_inv :: "'a mpsc_shared \<Rightarrow> mpsc_sender \<Rightarrow> bool" where
  "mpsc_tx_inv sh tx \<longleftrightarrow> mtx_cached_head tx \<le> mp_head sh"

definition mpsc_rx_inv :: "'a mpsc_shared \<Rightarrow> mpsc_receiver \<Rightarrow> bool" where
  "mpsc_rx_inv sh rx \<longleftrightarrow> mrx_head rx = mp_head sh"

lemma saturating_ge:
  fixes a b c :: usize
  shows "a \<ge> saturating_add b c \<longleftrightarrow> unat b + unat c \<le> unat a \<or> unat a = 2 ^ 64 - 1"
  using usize_bound [of a] by (auto simp: word_le_nat_alt unat_saturating_add)

lemma mpsc_queue_le_cap:
  assumes "mpsc_shared_inv sh"
  shows "length (mpsc_queue sh (mp_head sh)) \<le> unat (mp_cap sh)" "unat (mp_head sh) \<le> unat (mp_claim sh)"
  using assms by (auto simp: mpsc_shared_inv_def mpsc_ring_def mpsc_geometry_def ring_ok_def
      word_le_nat_alt)

lemma mpsc_full_test:
  assumes inv: "mpsc_shared_inv sh" and tx: "mpsc_tx_inv sh tx"
  defines "tx1 \<equiv> claim_refresh sh (mp_claim sh) tx"
  shows "mp_claim sh \<ge> saturating_add (mtx_cached_head tx1) (mp_cap sh) \<longleftrightarrow> mpsc_full sh"
    and "mpsc_tx_inv sh tx1"
proof -
  have b: "unat (mtx_cached_head tx) \<le> unat (mp_head sh)"
    using tx by (simp add: mpsc_tx_inv_def word_le_nat_alt)
  show "mp_claim sh \<ge> saturating_add (mtx_cached_head tx1) (mp_cap sh) \<longleftrightarrow> mpsc_full sh"
    unfolding tx1_def claim_refresh_def mpsc_full_def saturating_ge mpsc_queue_length
    using mpsc_queue_le_cap [OF inv] b by auto
  show "mpsc_tx_inv sh tx1"
    using tx by (auto simp: tx1_def claim_refresh_def mpsc_tx_inv_def)
qed

text \<open>Back-off: the \<open>k\<close>-th failed exchange spins \<open>min 2\<^sup>k 64\<close> times.\<close>

fun backoff_spins :: "nat \<Rightarrow> u32 \<Rightarrow> u32 list" where
  "backoff_spins 0 b = []"
| "backoff_spins (Suc n) b = b # backoff_spins n (min (b * 2) CLAIM_BACKOFF_MAX)"

lemma unat_min_pow: "unat (of_nat (min (2 ^ j) 64) :: u32) = min (2 ^ j) 64"
  by (simp add: unat_of_nat)

lemma backoff_step: "min (of_nat (min (2 ^ j) 64) * 2) CLAIM_BACKOFF_MAX = (of_nat (min (2 ^ Suc j) 64) :: u32)"
proof -
  let ?w = "of_nat (min (2 ^ j) 64) :: u32"
  have "unat (?w * 2) = unat ?w * 2"
    using unat_min_pow [of j] by (simp add: unat_word_ariths)
  then have "unat (min (?w * 2) CLAIM_BACKOFF_MAX) = min (unat ?w * 2) 64"
    by (simp add: min_def CLAIM_BACKOFF_MAX_def word_le_nat_alt)
  also have "\<dots> = unat (of_nat (min (2 ^ Suc j) 64) :: u32)"
    unfolding unat_min_pow by simp
  finally show ?thesis
    by (simp only: word_unat_eq_iff)
qed

lemma backoff_spins_from:
  "backoff_spins n (of_nat (min (2 ^ j) 64)) = map (\<lambda>i. of_nat (min (2 ^ i) 64)) [j..<j + n]"
proof (induction n arbitrary: j)
  case 0
  show ?case by simp
next
  case (Suc n)
  have "[j..<j + Suc n] = j # [Suc j..<Suc j + n]"
    by (simp add: upt_conv_Cons)
  then show ?case
    using Suc [of "Suc j"] by (simp only: backoff_spins.simps backoff_step list.map)
qed

lemma backoff_spins_closed: "backoff_spins n 1 = map (\<lambda>i. of_nat (min (2 ^ i) 64)) [0..<n]"
  using backoff_spins_from [of n 0] by simp

lemma claim_refresh_idem:
  assumes "mpsc_shared_inv sh" "mpsc_tx_inv sh tx" "\<not> mpsc_full sh"
  shows "claim_refresh sh (mp_claim sh) (claim_refresh sh (mp_claim sh) tx)
     = claim_refresh sh (mp_claim sh) tx"
  using mpsc_full_test [OF assms(1,2)] assms(3)
  by (simp add: claim_refresh_def [of sh "mp_claim sh" "claim_refresh sh (mp_claim sh) tx"])

lemma mpsc_claim_loop_result:
  assumes "mpsc_shared_inv sh" "mpsc_tx_inv sh tx"
  shows "mpsc_claim_loop sh n (mp_claim sh) b tx spun =
     (let tx1 = claim_refresh sh (mp_claim sh) tx
      in if mpsc_full sh then (None, sh, tx1, spun)
         else (Some (mp_claim sh), sh\<lparr>mp_claim := mp_claim sh + 1\<rparr>, tx1, spun @ backoff_spins n b))"
  using assms
proof (induction n arbitrary: b tx spun)
  case 0
  then show ?case
    by (subst mpsc_claim_loop.simps) (simp add: mpsc_full_test Let_def)
next
  case (Suc n)
  note t = mpsc_full_test [OF Suc.prems]
  from Suc.IH [OF Suc.prems(1) t(2)] claim_refresh_idem [OF Suc.prems] t(1) show ?case
    by (subst mpsc_claim_loop.simps) (simp add: Let_def)
qed

subsection \<open>Waking\<close>

text \<open>The wakes touch the parker and the waiter list only.\<close>

lemma mpsc_notify_frame [simp]:
  "mpsc_queue (sh\<lparr>mp_consumer_parker := p\<rparr>) h = mpsc_queue sh h"
  "mpsc_queue (sh\<lparr>mp_prod_waiters := w\<rparr>) h = mpsc_queue sh h"
  "mpsc_ring (sh\<lparr>mp_consumer_parker := p\<rparr>) h = mpsc_ring sh h"
  "mpsc_ring (sh\<lparr>mp_prod_waiters := w\<rparr>) h = mpsc_ring sh h"
  "mpsc_geometry (sh\<lparr>mp_consumer_parker := p\<rparr>) = mpsc_geometry sh"
  "mpsc_geometry (sh\<lparr>mp_prod_waiters := w\<rparr>) = mpsc_geometry sh"
  "mpsc_tx_inv (sh\<lparr>mp_consumer_parker := p\<rparr>) tx = mpsc_tx_inv sh tx"
  "mpsc_tx_inv (sh\<lparr>mp_prod_waiters := w\<rparr>) tx = mpsc_tx_inv sh tx"
  "mpsc_rx_inv (sh\<lparr>mp_consumer_parker := p\<rparr>) rx = mpsc_rx_inv sh rx"
  "mpsc_rx_inv (sh\<lparr>mp_prod_waiters := w\<rparr>) rx = mpsc_rx_inv sh rx"
  "mpsc_full (sh\<lparr>mp_consumer_parker := p\<rparr>) = mpsc_full sh"
  "mpsc_full (sh\<lparr>mp_prod_waiters := w\<rparr>) = mpsc_full sh"
  by (simp_all add: mpsc_defs mpsc_tx_inv_def mpsc_rx_inv_def mpsc_full_def)

lemma mpsc_notify_inv [simp]:
  "mpsc_shared_inv sh \<Longrightarrow> parker_ok p \<Longrightarrow> mpsc_shared_inv (sh\<lparr>mp_consumer_parker := p\<rparr>)"
  "mpsc_shared_inv (sh\<lparr>mp_prod_waiters := w\<rparr>) = mpsc_shared_inv sh"
  by (simp_all add: mpsc_shared_inv_def)

lemma mpsc_wake_consumer_alt:
  "mpsc_wake_consumer sh tok =
     (sh\<lparr>mp_consumer_parker := fst (wake (mp_consumer_parker sh) tok)\<rparr>,
      snd (wake (mp_consumer_parker sh) tok))"
  by (simp add: mpsc_wake_consumer_def case_prod_unfold Let_def)

lemma mpsc_wake_producers_alt:
  "mpsc_wake_producers sh tok =
     (if mp_strategy sh = Park
      then (sh\<lparr>mp_prod_waiters := fst (wake_all (mp_prod_waiters sh) tok)\<rparr>,
            snd (wake_all (mp_prod_waiters sh) tok))
      else (sh, tok))"
  by (simp add: mpsc_wake_producers_def case_prod_unfold Let_def)

subsection \<open>The operations\<close>

definition mpsc_woken :: "'a mpsc_shared \<Rightarrow> tokens \<Rightarrow> 'a mpsc_shared \<times> tokens" where
  "mpsc_woken sh tok = (if mp_strategy sh = Park then mpsc_wake_consumer sh tok else (sh, tok))"

lemma mpsc_try_send_run:
  assumes inv: "mpsc_shared_inv sh" and tx: "mpsc_tx_inv sh tx" and conn: "\<not> mp_rx_dropped sh"
    and space: "\<not> mpsc_full sh"
  obtains slots where "mpsc_try_send n v sh tx tok =
      (let sh1 = sh\<lparr>mp_claim := mp_claim sh + 1, mp_slots := slots\<rparr>; w = mpsc_woken sh1 tok
       in Inr (Ok (), fst w, claim_refresh sh (mp_claim sh) tx, snd w))"
    and "mpsc_shared_inv (sh\<lparr>mp_claim := mp_claim sh + 1, mp_slots := slots\<rparr>)"
    and "mpsc_queue (sh\<lparr>mp_claim := mp_claim sh + 1, mp_slots := slots\<rparr>) (mp_head sh)
       = mpsc_queue sh (mp_head sh) @ [v]"
    and "unat (mp_claim sh + 1) = Suc (unat (mp_claim sh))"
proof -
  have geo: "mpsc_geometry sh" and ring: "mpsc_ring sh (mp_head sh)"
    using inv by (auto simp: mpsc_shared_inv_def)
  have sp: "unat (mp_claim sh) - unat (mp_head sh) < unat (mp_cap sh)"
    and last: "unat (mp_claim sh) < 2 ^ 64 - 1"
    using space mpsc_queue_le_cap [OF inv] usize_bound [of "mp_claim sh"]
    by (auto simp: mpsc_full_def)
  obtain slots slots' where w: "slot_value_with (\<lambda>c. obind (cell_write v c) (\<lambda>c'. Inr ((), c')))
        (mp_claim sh AND mp_mask sh) (mp_slots sh) = Inr ((), slots)"
      "slot_round_store (round_of sh (mp_claim sh)) (mp_claim sh AND mp_mask sh) slots = Inr slots'"
    and r: "mpsc_ring (sh\<lparr>mp_claim := mp_claim sh + 1, mp_slots := slots'\<rparr>) (mp_head sh)"
    and q: "mpsc_queue (sh\<lparr>mp_claim := mp_claim sh + 1, mp_slots := slots'\<rparr>) (mp_head sh)
        = mpsc_queue sh (mp_head sh) @ [v]"
    and l: "length slots' = length (mp_slots sh)"
    using geo ring sp last by (rule mpsc_push)
  have "mpsc_shared_inv (sh\<lparr>mp_claim := mp_claim sh + 1, mp_slots := slots'\<rparr>)"
    using inv r l by (simp add: mpsc_shared_inv_def mpsc_geometry_def)
  moreover have "round_of (sh\<lparr>mp_claim := c\<rparr>) = round_of sh" for c
    by (rule ext) (simp add: round_of_def)
  ultimately show thesis
    using conn space w q mpsc_claim_loop_result [OF inv tx, of n 1 "[]"] unat_le_add_one [OF last]
    by (intro that [of slots'])
      (simp_all add: mpsc_try_send_def Let_def mpsc_woken_def case_prod_unfold)
qed

lemma mpsc_try_send_correct:
  assumes inv: "mpsc_shared_inv sh" and tx: "mpsc_tx_inv sh tx"
  shows "\<exists>sh' tx' tok'. mpsc_try_send n v sh tx tok =
       Inr (if mp_rx_dropped sh then Err (SendDisconnected v)
            else if mpsc_full sh then Err (Full v) else Ok (), sh', tx', tok')
    \<and> mpsc_shared_inv sh' \<and> mpsc_tx_inv sh' tx'
    \<and> mpsc_queue sh' (mp_head sh') =
       (if mp_rx_dropped sh \<or> mpsc_full sh then mpsc_queue sh (mp_head sh)
        else mpsc_queue sh (mp_head sh) @ [v])
    \<and> mp_cap sh' = mp_cap sh \<and> mp_head sh' = mp_head sh \<and> mp_senders sh' = mp_senders sh
    \<and> mp_rx_dropped sh' = mp_rx_dropped sh \<and> mp_strategy sh' = mp_strategy sh
    \<and> unat (mp_claim sh') = unat (mp_claim sh) + (if mp_rx_dropped sh \<or> mpsc_full sh then 0 else 1)
    \<and> mp_prod_waiters sh' = mp_prod_waiters sh
    \<and> (mp_consumer_parker sh', tok') =
       (if \<not> mp_rx_dropped sh \<and> \<not> mpsc_full sh \<and> mp_strategy sh = Park
        then wake (mp_consumer_parker sh) tok else (mp_consumer_parker sh, tok))"
proof (cases "mp_rx_dropped sh \<or> mpsc_full sh")
  case True
  with inv tx mpsc_full_test [OF inv tx] show ?thesis
    by (auto simp: mpsc_try_send_def mpsc_claim_loop_result Let_def)
next
  case False
  then have conn: "\<not> mp_rx_dropped sh" and space: "\<not> mpsc_full sh" by simp_all
  obtain slots where run: "mpsc_try_send n v sh tx tok =
      (let sh1 = sh\<lparr>mp_claim := mp_claim sh + 1, mp_slots := slots\<rparr>; w = mpsc_woken sh1 tok
       in Inr (Ok (), fst w, claim_refresh sh (mp_claim sh) tx, snd w))"
    and inv': "mpsc_shared_inv (sh\<lparr>mp_claim := mp_claim sh + 1, mp_slots := slots\<rparr>)"
    and q: "mpsc_queue (sh\<lparr>mp_claim := mp_claim sh + 1, mp_slots := slots\<rparr>) (mp_head sh)
       = mpsc_queue sh (mp_head sh) @ [v]"
    and c: "unat (mp_claim sh + 1) = Suc (unat (mp_claim sh))"
    using inv tx conn space by (rule mpsc_try_send_run)
  have p: "parker_ok (fst (wake (mp_consumer_parker sh) tok))"
    using inv by (intro parker_ok_ops(4)) (simp add: mpsc_shared_inv_def)
  have tx1: "mpsc_tx_inv (sh\<lparr>mp_claim := mp_claim sh + 1, mp_slots := slots\<rparr>)
      (claim_refresh sh (mp_claim sh) tx)"
    using mpsc_full_test(2) [OF inv tx] by (simp add: mpsc_tx_inv_def)
  show ?thesis
    using conn space run inv' q c p tx1
    by (cases "mp_strategy sh = Park") (simp_all add: Let_def mpsc_woken_def mpsc_wake_consumer_alt)
qed

text \<open>What the wake behind a consume does.\<close>

definition producers_woken :: "'a mpsc_shared \<Rightarrow> tokens \<Rightarrow> 'a mpsc_shared \<Rightarrow> tokens \<Rightarrow> bool \<Rightarrow> bool" where
  "producers_woken sh tok sh' tok' took \<longleftrightarrow>
     (mp_prod_waiters sh', tok') =
       (if took \<and> mp_strategy sh = Park then wake_all (mp_prod_waiters sh) tok
        else (mp_prod_waiters sh, tok))
     \<and> mp_consumer_parker sh' = mp_consumer_parker sh \<and> mp_strategy sh' = mp_strategy sh
     \<and> mp_cap sh' = mp_cap sh \<and> mp_claim sh' = mp_claim sh \<and> mp_senders sh' = mp_senders sh
     \<and> mp_rx_dropped sh' = mp_rx_dropped sh"

lemma mpsc_pop_correct:
  assumes inv: "mpsc_shared_inv sh" and rx: "mpsc_rx_inv sh rx" and q: "mpsc_queue sh (mp_head sh) = v # vs"
  shows "\<exists>sh' rx' tok'. mpsc_pop sh rx tok = Inr (Ok v, sh', rx', tok') \<and> mpsc_shared_inv sh'
    \<and> mpsc_rx_inv sh' rx' \<and> mpsc_queue sh' (mp_head sh') = vs
    \<and> unat (mp_head sh') = Suc (unat (mp_head sh)) \<and> producers_woken sh tok sh' tok' True"
proof -
  have geo: "mpsc_geometry sh" and ring: "mpsc_ring sh (mp_head sh)"
    using inv by (auto simp: mpsc_shared_inv_def)
  have ne: "mpsc_queue sh (mp_head sh) \<noteq> []" using q by simp
  obtain w slots where
    r: "slot_value_with assume_init_read (mp_head sh AND mp_mask sh) (mp_slots sh) = Inr (w, slots)"
    and ring': "mpsc_ring (sh\<lparr>mp_slots := slots\<rparr>) (mp_head sh + 1)"
    and q': "mpsc_queue sh (mp_head sh) = w # mpsc_queue (sh\<lparr>mp_slots := slots\<rparr>) (mp_head sh + 1)"
    and l: "length slots = length (mp_slots sh)" and h: "unat (mp_head sh + 1) = Suc (unat (mp_head sh))"
    using geo ring ne by (rule mpsc_take)
  let ?sh = "sh\<lparr>mp_slots := slots, mp_head := mp_head sh + 1\<rparr>"
  have "mpsc_shared_inv ?sh"
    using inv ring' l by (simp add: mpsc_shared_inv_def mpsc_geometry_def mpsc_ring_def
        mpsc_cells_def mpsc_rounds_def)
  moreover have "mpsc_queue ?sh (mp_head sh + 1) = vs" "w = v"
    using q q' by (auto simp: mpsc_queue_def mpsc_cells_def)
  ultimately show ?thesis
    using r h rx
    by (simp add: mpsc_pop_def mpsc_rx_inv_def Let_def mpsc_wake_producers_alt producers_woken_def)
qed

lemma mpsc_try_recv_correct:
  assumes inv: "mpsc_shared_inv sh" and rx: "mpsc_rx_inv sh rx"
  shows "\<exists>sh' rx' tok'. mpsc_try_recv sh rx tok =
       Inr (case mpsc_queue sh (mp_head sh) of
              [] \<Rightarrow> Err (if mp_senders sh = 0 then RecvDisconnected else Empty)
            | v # _ \<Rightarrow> Ok v, sh', rx', tok')
    \<and> mpsc_shared_inv sh' \<and> mpsc_rx_inv sh' rx'
    \<and> mpsc_queue sh' (mp_head sh') = tl (mpsc_queue sh (mp_head sh))
    \<and> mp_head sh \<le> mp_head sh'
    \<and> producers_woken sh tok sh' tok' (mpsc_queue sh (mp_head sh) \<noteq> [])"
proof -
  have geo: "mpsc_geometry sh" and ring: "mpsc_ring sh (mp_head sh)"
    using inv by (auto simp: mpsc_shared_inv_def)
  have pub: "slot_published sh (mrx_head rx) = Inr (mpsc_queue sh (mp_head sh) \<noteq> [])"
    using slot_published_iff [OF geo ring] rx by (simp add: mpsc_rx_inv_def)
  show ?thesis
  proof (cases "mpsc_queue sh (mp_head sh)")
    case Nil
    with pub inv rx show ?thesis
      by (simp add: mpsc_try_recv_def producers_woken_def)
  next
    case (Cons v vs)
    with pub mpsc_pop_correct [OF inv rx Cons, of tok] show ?thesis
      by (auto simp: mpsc_try_recv_def word_le_nat_alt)
  qed
qed

subsection \<open>Draining\<close>

lemma mpsc_drain_loop_correct:
  assumes "mpsc_geometry sh" "mpsc_ring sh seq" "count \<le> mx"
    and "feed f (unat mx - unat count) (mpsc_queue sh seq) s = (p, k, s')"
  shows "\<exists>slots. mpsc_drain_loop f mx sh seq count s
        = Inr (p, sh\<lparr>mp_slots := slots\<rparr>, seq + of_nat k, count + of_nat k, s')
      \<and> mpsc_ring (sh\<lparr>mp_slots := slots\<rparr>) (seq + of_nat k) \<and> length slots = length (mp_slots sh)
      \<and> mpsc_queue (sh\<lparr>mp_slots := slots\<rparr>) (seq + of_nat k) = drop k (mpsc_queue sh seq)
      \<and> unat (seq + of_nat k) = unat seq + k"
  using assms
proof (induction f mx sh seq count s arbitrary: p k s' rule: mpsc_drain_loop.induct)
  case (1 f mx sh seq count s)
  note geo = "1.prems"(1) and ring = "1.prems"(2)
  have load: "slot_round_load (seq AND mp_mask sh) (mp_slots sh)
      = Inr (mpsc_rounds sh ! (unat seq mod length (mp_slots sh)))"
    by (rule slot_round_load_ok [OF geo])
  let ?r = "mpsc_rounds sh ! (unat seq mod length (mp_slots sh))"
  have pub: "?r = round_of sh seq \<longleftrightarrow> mpsc_queue sh seq \<noteq> []"
    using slot_published_iff [OF geo ring] load by (simp add: slot_published_def)
  show ?case
  proof (cases "count < mx \<and> mpsc_queue sh seq \<noteq> []")
    case False
    then have "p = False" "k = 0" "s' = s"
      using "1.prems"(3,4) by auto
    with False load pub ring show ?thesis
      by (subst mpsc_drain_loop.simps) (auto intro!: exI [of _ "mp_slots sh"])
  next
    case True
    then have less: "count < mx" and ne: "mpsc_queue sh seq \<noteq> []" by simp_all
    obtain v slots where
      read: "slot_value_with assume_init_read (seq AND mp_mask sh) (mp_slots sh) = Inr (v, slots)"
      and r1: "mpsc_ring (sh\<lparr>mp_slots := slots\<rparr>) (seq + 1)"
      and q1: "mpsc_queue sh seq = v # mpsc_queue (sh\<lparr>mp_slots := slots\<rparr>) (seq + 1)"
      and l1: "length slots = length (mp_slots sh)" and s1: "unat (seq + 1) = Suc (unat seq)"
      using geo ring ne by (rule mpsc_take)
    let ?sh = "sh\<lparr>mp_slots := slots\<rparr>"
    obtain pf t where f: "f v s = (pf, t)" by fastforce
    have unfold: "mpsc_drain_loop f mx sh seq count s =
        (if pf then Inr (True, ?sh, seq + 1, count + 1, t)
         else mpsc_drain_loop f mx ?sh (seq + 1) (count + 1) t)"
      using less ne pub load read f by (subst mpsc_drain_loop.simps) simp
    have cnt: "unat mx - unat count = Suc (unat mx - unat (count + 1))"
      using less by (rule unat_diff_Suc_of_less)
    show ?thesis
    proof (cases pf)
      case pf: True
      with "1.prems"(4) q1 f cnt have "p = True" "k = 1" "s' = t" by auto
      with pf unfold r1 q1 l1 s1 show ?thesis
        by (auto intro!: exI [of _ slots])
    next
      case pf: False
      obtain p1 k1 t1 where rec: "feed f (unat mx - unat (count + 1)) (mpsc_queue ?sh (seq + 1)) t
          = (p1, k1, t1)"
        by (metis prod_cases3)
      have eqs: "p = p1" "k = Suc k1" "s' = t1"
        using "1.prems"(4) q1 f cnt pf rec by auto
      have geo1: "mpsc_geometry ?sh" using geo l1 by (simp add: mpsc_geometry_def)
      have bound: "count + 1 \<le> mx"
        using less unat_less_suc [OF less] by (simp add: word_le_nat_alt word_less_nat_alt)
      have "\<not> ?r \<noteq> round_of sh seq" using ne pub by simp
      from "1.IH" [OF less load this read refl refl refl f [symmetric] pf geo1 r1 bound rec]
      obtain slots' where "mpsc_drain_loop f mx ?sh (seq + 1) (count + 1) t
          = Inr (p1, ?sh\<lparr>mp_slots := slots'\<rparr>, seq + 1 + of_nat k1, count + 1 + of_nat k1, t1)"
        "mpsc_ring (?sh\<lparr>mp_slots := slots'\<rparr>) (seq + 1 + of_nat k1)" "length slots' = length (mp_slots ?sh)"
        "mpsc_queue (?sh\<lparr>mp_slots := slots'\<rparr>) (seq + 1 + of_nat k1) = drop k1 (mpsc_queue ?sh (seq + 1))"
        "unat (seq + 1 + of_nat k1) = unat (seq + 1) + k1"
        by blast
      with unfold pf eqs q1 l1 s1 show ?thesis
        by (auto simp: algebra_simps intro!: exI [of _ slots'])
    qed
  qed
qed

lemma mpsc_publish_guard_eq:
  "mp_head sh = start \<Longrightarrow> mpsc_publish_guard_drop start head sh = sh\<lparr>mp_head := head\<rparr>"
  by (auto simp: mpsc_publish_guard_drop_def)

lemma mpsc_drain_correct:
  assumes inv: "mpsc_shared_inv sh" and rx: "mpsc_rx_inv sh rx"
    and fed: "feed f (unat mx) (mpsc_queue sh (mp_head sh)) s = (p, k, s')"
  shows "\<exists>sh' rx' tok'. mpsc_drain mx f s sh rx tok
        = Inr (if p then Unwound else Returned (of_nat k), s', sh', rx', tok')
    \<and> mpsc_shared_inv sh' \<and> mpsc_rx_inv sh' rx'
    \<and> mpsc_queue sh' (mp_head sh') = drop k (mpsc_queue sh (mp_head sh))
    \<and> mp_head sh \<le> mp_head sh'
    \<and> producers_woken sh tok sh' tok' (\<not> p \<and> 0 < k)"
proof -
  have geo: "mpsc_geometry sh" and ring: "mpsc_ring sh (mp_head sh)"
    using inv by (auto simp: mpsc_shared_inv_def)
  have "feed f (unat mx - unat (0 :: usize)) (mpsc_queue sh (mp_head sh)) s = (p, k, s')"
    using fed by simp
  from mpsc_drain_loop_correct [OF geo ring _ this] obtain slots where
    loop: "mpsc_drain_loop f mx sh (mp_head sh) 0 s
        = Inr (p, sh\<lparr>mp_slots := slots\<rparr>, mp_head sh + of_nat k, of_nat k, s')"
    and ring': "mpsc_ring (sh\<lparr>mp_slots := slots\<rparr>) (mp_head sh + of_nat k)"
    and l: "length slots = length (mp_slots sh)"
    and q: "mpsc_queue (sh\<lparr>mp_slots := slots\<rparr>) (mp_head sh + of_nat k) = drop k (mpsc_queue sh (mp_head sh))"
    and h: "unat (mp_head sh + of_nat k) = unat (mp_head sh) + k"
    by auto
  define sh2 where "sh2 = sh\<lparr>mp_slots := slots, mp_head := mp_head sh + of_nat k\<rparr>"
  have head: "mrx_head rx = mp_head sh" using rx by (simp add: mpsc_rx_inv_def)
  have guard: "mpsc_publish_guard_drop (mp_head sh) (mp_head sh + of_nat k) (sh\<lparr>mp_slots := slots\<rparr>) = sh2"
    by (simp add: mpsc_publish_guard_eq sh2_def)
  have inv2: "mpsc_shared_inv sh2"
    using inv ring' l by (simp add: sh2_def mpsc_shared_inv_def mpsc_geometry_def mpsc_ring_def
        mpsc_cells_def mpsc_rounds_def)
  have q2: "mpsc_queue sh2 (mp_head sh2) = drop k (mpsc_queue sh (mp_head sh))"
    using q by (simp add: sh2_def mpsc_queue_def mpsc_cells_def)
  have "k \<le> unat mx" using feed_count [OF fed] by simp
  then have "unat (of_nat k :: usize) = k"
    using usize_bound [of mx] by (simp add: unat_of_nat)
  then have pos: "(of_nat k :: usize) > 0 \<longleftrightarrow> 0 < k" by (simp add: word_less_nat_alt)
  have hh: "mp_head sh \<le> mp_head sh2" using h by (simp add: sh2_def word_le_nat_alt)
  show ?thesis
    using loop guard inv2 q2 pos head hh
    by (cases p; cases "0 < k")
      (simp_all add: mpsc_drain_def Let_def mpsc_rx_inv_def sh2_def mpsc_wake_producers_alt
        producers_woken_def)
qed

subsection \<open>Dropping\<close>

text \<open>
  The \<^verbatim>\<open>Drop\<close> loop ends: when it has destroyed the queue it looks at the slot behind the last
  claim, whose round is the one before; this also holds for a full ring, where that slot is the
  first one destroyed. So \<open>cap + 1\<close> units of fuel always suffice.
\<close>

lemma slot_value_drop_eq: "slot_value_with assume_init_drop i slots = slot_value_with assume_init_read i slots"
proof -
  have "assume_init_drop = (assume_init_read :: 'a cell \<Rightarrow> _)"
    by (rule ext, rule assume_init_drop.induct) simp_all
  then show ?thesis by simp
qed

lemma mpsc_drop_loop_correct:
  assumes "mpsc_geometry sh" "mpsc_ring sh seq" "length (mpsc_queue sh seq) < fuel"
  shows "\<exists>slots. mpsc_drop_loop fuel sh seq acc = Inr (Some (acc @ mpsc_queue sh seq, sh\<lparr>mp_slots := slots\<rparr>))
     \<and> mpsc_ring (sh\<lparr>mp_slots := slots\<rparr>) (mp_claim sh)"
  using assms
proof (induction fuel arbitrary: sh seq acc)
  case 0
  then show ?case by simp
next
  case (Suc fuel)
  note geo = Suc.prems(1) and ring = Suc.prems(2)
  have load: "slot_round_load (seq AND mp_mask sh) (mp_slots sh)
      = Inr (mpsc_rounds sh ! (unat seq mod length (mp_slots sh)))"
    by (rule slot_round_load_ok [OF geo])
  then have pub: "mpsc_rounds sh ! (unat seq mod length (mp_slots sh)) = round_of sh seq
      \<longleftrightarrow> mpsc_queue sh seq \<noteq> []"
    using slot_published_iff [OF geo ring] by (simp add: slot_published_def)
  show ?case
  proof (cases "mpsc_queue sh seq = []")
    case True
    then have "mp_claim sh = seq" using mpsc_queue_empty [OF ring] by simp
    with True load pub ring show ?thesis
      by (auto intro!: exI [of _ "mp_slots sh"])
  next
    case False
    obtain v slots where
      read: "slot_value_with assume_init_read (seq AND mp_mask sh) (mp_slots sh) = Inr (v, slots)"
      and r1: "mpsc_ring (sh\<lparr>mp_slots := slots\<rparr>) (seq + 1)"
      and q1: "mpsc_queue sh seq = v # mpsc_queue (sh\<lparr>mp_slots := slots\<rparr>) (seq + 1)"
      and l1: "length slots = length (mp_slots sh)"
      using geo ring False by (rule mpsc_take)
    let ?sh = "sh\<lparr>mp_slots := slots\<rparr>"
    have "mpsc_geometry ?sh" using geo l1 by (simp add: mpsc_geometry_def)
    moreover have "length (mpsc_queue ?sh (seq + 1)) < fuel"
      using Suc.prems(3) arg_cong [OF q1, of length] by simp
    ultimately obtain slots' where
      "mpsc_drop_loop fuel ?sh (seq + 1) (acc @ [v])
         = Inr (Some ((acc @ [v]) @ mpsc_queue ?sh (seq + 1), ?sh\<lparr>mp_slots := slots'\<rparr>))"
      "mpsc_ring (?sh\<lparr>mp_slots := slots'\<rparr>) (mp_claim ?sh)"
      using Suc.IH [of ?sh "seq + 1" "acc @ [v]"] r1 by blast
    with load pub False read q1 show ?thesis
      by (auto simp: slot_value_drop_eq intro!: exI [of _ slots'])
  qed
qed

lemma mpsc_shared_drop_correct:
  assumes "mpsc_shared_inv sh"
  shows "\<exists>sh'. mpsc_shared_drop sh = Inr (Some (mpsc_queue sh (mp_head sh), sh'))
     \<and> \<not> list_ex is_live (mpsc_cells sh')"
proof -
  have geo: "mpsc_geometry sh" and ring: "mpsc_ring sh (mp_head sh)"
    using assms by (auto simp: mpsc_shared_inv_def)
  have "length (mpsc_queue sh (mp_head sh)) < Suc (unat (mp_cap sh))"
    using mpsc_queue_le_cap [OF assms] by simp
  from mpsc_drop_loop_correct [OF geo ring this, of "[]"] obtain slots where
    d: "mpsc_shared_drop sh = Inr (Some (mpsc_queue sh (mp_head sh), sh\<lparr>mp_slots := slots\<rparr>))"
    and r: "mpsc_ring (sh\<lparr>mp_slots := slots\<rparr>) (mp_claim sh)"
    unfolding mpsc_shared_drop_def by auto
  from r have "ring_ok (mpsc_cells (sh\<lparr>mp_slots := slots\<rparr>)) (unat (mp_claim sh)) 0"
    by (simp add: mpsc_ring_def)
  with ring_none_live [OF this] d show ?thesis
    by (auto simp: list_ex_iff)
qed

section \<open>The channel with its handles\<close>

text \<open>
  The ring behind the \<^verbatim>\<open>Arc\<close>, the sender handles in the order in which they were cloned (\<open>None\<close>
  once dropped), the receiver and the park tokens. A producer's call is the index of its handle
  and the number of spurious failures of its exchange. The last drop also drops the ring.
\<close>

record 'a mpsc =
  mc_shared :: "'a mpsc_shared"
  mc_txs :: "mpsc_sender option list"
  mc_rx :: "mpsc_receiver option"
  mc_tokens :: tokens

definition mc_tx :: "nat \<Rightarrow> 'a mpsc \<Rightarrow> mpsc_sender option" where
  "mc_tx i c = (if i < length (mc_txs c) then mc_txs c ! i else None)"

definition live_senders :: "'a mpsc \<Rightarrow> nat" where
  "live_senders c = length (filter (\<lambda>t. t \<noteq> None) (mc_txs c))"

definition mpsc_open :: "usize \<Rightarrow> wait_strategy \<Rightarrow> 'a mpsc outcome" where
  "mpsc_open cap strategy =
     obind (mpsc_channel cap strategy) (\<lambda>(sh, tx, rx).
       Inr \<lparr>mc_shared = sh, mc_txs = [Some tx], mc_rx = Some rx, mc_tokens = {}\<rparr>)"

definition mpsc_send_op ::
    "nat \<times> nat \<Rightarrow> 'a \<Rightarrow> 'a mpsc \<Rightarrow> ((unit, 'a try_send_error) rust_result \<times> 'a mpsc) outcome" where
  "mpsc_send_op p v c =
     (case mc_tx (fst p) c of
        None \<Rightarrow> Inl HandleDropped
      | Some tx \<Rightarrow>
          obind (mpsc_try_send (snd p) v (mc_shared c) tx (mc_tokens c)) (\<lambda>(r, sh, tx', tok).
            Inr (r, c\<lparr>mc_shared := sh, mc_txs := (mc_txs c)[fst p := Some tx'], mc_tokens := tok\<rparr>)))"

definition mpsc_clone_op :: "nat \<Rightarrow> 'a mpsc \<Rightarrow> (nat \<times> 'a mpsc) outcome" where
  "mpsc_clone_op i c =
     (case mc_tx i c of
        None \<Rightarrow> Inl HandleDropped
      | Some tx \<Rightarrow>
          (let (sh, tx') = mpsc_sender_clone (mc_shared c) tx
           in Inr (length (mc_txs c), c\<lparr>mc_shared := sh, mc_txs := mc_txs c @ [Some tx']\<rparr>)))"

definition mpsc_recv_op :: "'a mpsc \<Rightarrow> (('a, try_recv_error) rust_result \<times> 'a mpsc) outcome" where
  "mpsc_recv_op c =
     (case mc_rx c of
        None \<Rightarrow> Inl HandleDropped
      | Some rx \<Rightarrow>
          obind (mpsc_try_recv (mc_shared c) rx (mc_tokens c)) (\<lambda>(r, sh, rx', tok).
            Inr (r, c\<lparr>mc_shared := sh, mc_rx := Some rx', mc_tokens := tok\<rparr>)))"

definition mpsc_drain_op ::
    "usize \<Rightarrow> ('a \<Rightarrow> 's \<Rightarrow> bool \<times> 's) \<Rightarrow> 's \<Rightarrow> 'a mpsc \<Rightarrow> (drain_exit \<times> 's \<times> 'a mpsc) outcome" where
  "mpsc_drain_op mx f s c =
     (case mc_rx c of
        None \<Rightarrow> Inl HandleDropped
      | Some rx \<Rightarrow>
          obind (mpsc_drain mx f s (mc_shared c) rx (mc_tokens c)) (\<lambda>(e, s', sh, rx', tok).
            Inr (e, s', c\<lparr>mc_shared := sh, mc_rx := Some rx', mc_tokens := tok\<rparr>)))"

definition mpsc_drain_vec :: "usize \<Rightarrow> 'a mpsc \<Rightarrow> ('a list \<times> 'a mpsc) outcome" where
  "mpsc_drain_vec mx c = obind (mpsc_drain_op mx push_back [] c) (\<lambda>(_, got, c'). Inr (got, c'))"

text \<open>The drop of the ring when the last handle goes; \<open>Panic\<close> if it had not ended.\<close>

definition mpsc_last_drop :: "'a mpsc \<Rightarrow> ('a list \<times> 'a mpsc) outcome" where
  "mpsc_last_drop c =
     (if mc_rx c = None \<and> live_senders c = 0 then
        obind (mpsc_shared_drop (mc_shared c)) (\<lambda>r.
          case r of
            None \<Rightarrow> Inl (Panic ''drop does not end'')
          | Some (vs, sh) \<Rightarrow> Inr (vs, c\<lparr>mc_shared := sh\<rparr>))
      else Inr ([], c))"

definition mpsc_drop_tx :: "nat \<Rightarrow> 'a mpsc \<Rightarrow> ('a list \<times> 'a mpsc) outcome" where
  "mpsc_drop_tx i c =
     (case mc_tx i c of
        None \<Rightarrow> Inl HandleDropped
      | Some tx \<Rightarrow>
          (let (sh, tok) = mpsc_sender_drop (mc_shared c) (mc_tokens c)
           in mpsc_last_drop (c\<lparr>mc_shared := sh, mc_txs := (mc_txs c)[i := None], mc_tokens := tok\<rparr>)))"

definition mpsc_drop_rx :: "'a mpsc \<Rightarrow> ('a list \<times> 'a mpsc) outcome" where
  "mpsc_drop_rx c =
     (case mc_rx c of
        None \<Rightarrow> Inl HandleDropped
      | Some rx \<Rightarrow>
          (let (sh, tok) = mpsc_receiver_drop (mc_shared c) (mc_tokens c)
           in mpsc_last_drop (c\<lparr>mc_shared := sh, mc_rx := None, mc_tokens := tok\<rparr>)))"

definition mpsc_inv :: "'a mpsc \<Rightarrow> bool" where
  "mpsc_inv c \<longleftrightarrow>
     mpsc_shared_inv (mc_shared c) \<and>
     (\<forall>tx. Some tx \<in> set (mc_txs c) \<longrightarrow> mpsc_tx_inv (mc_shared c) tx) \<and>
     (\<forall>rx. mc_rx c = Some rx \<longrightarrow> mpsc_rx_inv (mc_shared c) rx) \<and>
     mp_rx_dropped (mc_shared c) = (mc_rx c = None) \<and>
     unat (mp_senders (mc_shared c)) = live_senders c"

definition mpsc_abs :: "'a mpsc \<Rightarrow> 'a bchan" where
  "mpsc_abs c =
     \<lparr>bc_queue = mpsc_queue (mc_shared c) (mp_head (mc_shared c)),
      bc_cap = unat (mp_cap (mc_shared c)),
      bc_senders = live_senders c,
      bc_rx_live = (mc_rx c \<noteq> None),
      bc_quota = Some (2 ^ 64 - 1 - unat (mp_claim (mc_shared c)))\<rparr>"

definition mpsc_tx_live :: "nat \<times> nat \<Rightarrow> 'a mpsc \<Rightarrow> bool" where
  "mpsc_tx_live p c \<longleftrightarrow> mc_tx (fst p) c \<noteq> None"

abbreviation mpsc_run ::
    "(nat \<times> nat, 'a) chan_op list \<Rightarrow> 'a mpsc \<Rightarrow> ((nat \<times> nat, 'a) chan_event list \<times> 'a mpsc) outcome" where
  "mpsc_run \<equiv> impl_run mpsc_send_op mpsc_recv_op mpsc_drain_vec"

lemma mpsc_full_abs:
  "mpsc_full (mc_shared c) \<longleftrightarrow>
     length (bc_queue (mpsc_abs c)) = bc_cap (mpsc_abs c) \<or> bc_quota (mpsc_abs c) = Some 0"
  using usize_bound [of "mp_claim (mc_shared c)"] by (auto simp: mpsc_full_def mpsc_abs_def)

lemma mc_tx_mem: "mc_tx i c = Some tx \<Longrightarrow> Some tx \<in> set (mc_txs c) \<and> i < length (mc_txs c)"
  by (auto simp: mc_tx_def split: if_splits) (metis nth_mem)

lemma mc_txs_cong:
  "mc_txs d = mc_txs c \<Longrightarrow> mc_tx i d = mc_tx i c"
  "mc_txs d = mc_txs c \<Longrightarrow> live_senders d = live_senders c"
  by (simp_all add: mc_tx_def live_senders_def)

lemma mpsc_tx_inv_mono:
  "mpsc_tx_inv sh tx \<Longrightarrow> mp_head sh \<le> mp_head sh' \<Longrightarrow> mpsc_tx_inv sh' tx"
  by (auto simp: mpsc_tx_inv_def)

lemma live_senders_update:
  "mc_tx i c = Some tx \<Longrightarrow>
     length (filter (\<lambda>t. t \<noteq> None) ((mc_txs c)[i := Some tx'])) = live_senders c"
  by (simp add: live_senders_def mc_tx_def filter_update_same split: if_splits)

lemma mpsc_abs_ok: "mpsc_inv c \<Longrightarrow> bchan_ok (mpsc_abs c)"
  using mpsc_queue_le_cap [of "mc_shared c"]
  by (auto simp: mpsc_inv_def mpsc_abs_def bchan_ok_def mpsc_shared_inv_def mpsc_geometry_def
      dest: is_power_of_two_pos)

lemma mpsc_open_inv:
  assumes "is_power_of_two cap"
  shows "\<exists>c :: 'a mpsc. mpsc_open cap strategy = Inr c \<and> mpsc_inv c
    \<and> mpsc_abs c = (fresh_bchan cap)\<lparr>bc_quota := Some (2 ^ 64 - 1)\<rparr>
    \<and> mc_tx 0 c \<noteq> None \<and> mp_strategy (mc_shared c) = strategy"
proof -
  have "rounds_ok (map sl_round (replicate (unat cap) \<lparr>sl_round = - 1, sl_value = Uninit\<rparr>)) 0 0"
    by (simp add: rounds_ok_def)
  then show ?thesis
    using assms ring_ok_new [OF is_power_of_two_pos [OF assms], where 'a = 'a]
    by (simp add: mpsc_open_def mpsc_channel_def assert_cap_cases pow2_trailing_zeros Let_def
        mpsc_inv_def mpsc_shared_inv_def mpsc_defs mpsc_tx_inv_def mpsc_rx_inv_def mpsc_abs_def
        live_senders_def mc_tx_def)
qed

lemma mpsc_send_op_correct:
  assumes inv: "mpsc_inv c" and tx: "mc_tx (fst p) c = Some tx"
  shows "\<exists>c'. mpsc_send_op p v c = Inr (fst (spec_try_send v (mpsc_abs c)), c') \<and> mpsc_inv c'
      \<and> mpsc_abs c' = snd (spec_try_send v (mpsc_abs c)) \<and> (\<forall>q. mpsc_tx_live q c' = mpsc_tx_live q c)
      \<and> mc_rx c' = mc_rx c \<and> mp_strategy (mc_shared c') = mp_strategy (mc_shared c)
      \<and> mp_prod_waiters (mc_shared c') = mp_prod_waiters (mc_shared c)
      \<and> (mp_consumer_parker (mc_shared c'), mc_tokens c') =
         (if is_ok (fst (spec_try_send v (mpsc_abs c))) \<and> mp_strategy (mc_shared c) = Park
          then wake (mp_consumer_parker (mc_shared c)) (mc_tokens c)
          else (mp_consumer_parker (mc_shared c), mc_tokens c))"
proof -
  note mem = mc_tx_mem [OF tx]
  have sinv: "mpsc_shared_inv (mc_shared c)" and tinv: "mpsc_tx_inv (mc_shared c) tx"
    using inv mem by (auto simp: mpsc_inv_def)
  have dropped: "mp_rx_dropped (mc_shared c) \<longleftrightarrow> mc_rx c = None"
    using inv by (simp add: mpsc_inv_def)
  have full: "mpsc_full (mc_shared c) \<longleftrightarrow>
      length (bc_queue (mpsc_abs c)) = bc_cap (mpsc_abs c) \<or> bc_quota (mpsc_abs c) = Some 0"
    by (rule mpsc_full_abs)
  from mpsc_try_send_correct [OF sinv tinv, of "snd p" v "mc_tokens c"] obtain sh' tx' tok' where
    run: "mpsc_try_send (snd p) v (mc_shared c) tx (mc_tokens c) =
       Inr (if mp_rx_dropped (mc_shared c) then Err (SendDisconnected v)
            else if mpsc_full (mc_shared c) then Err (Full v) else Ok (), sh', tx', tok')"
    and sh': "mpsc_shared_inv sh'" "mpsc_tx_inv sh' tx'"
      "mpsc_queue sh' (mp_head sh') =
       (if mp_rx_dropped (mc_shared c) \<or> mpsc_full (mc_shared c)
        then mpsc_queue (mc_shared c) (mp_head (mc_shared c))
        else mpsc_queue (mc_shared c) (mp_head (mc_shared c)) @ [v])"
      "mp_cap sh' = mp_cap (mc_shared c)" "mp_head sh' = mp_head (mc_shared c)"
      "mp_senders sh' = mp_senders (mc_shared c)" "mp_rx_dropped sh' = mp_rx_dropped (mc_shared c)"
      "mp_strategy sh' = mp_strategy (mc_shared c)"
      "unat (mp_claim sh') = unat (mp_claim (mc_shared c))
         + (if mp_rx_dropped (mc_shared c) \<or> mpsc_full (mc_shared c) then 0 else 1)"
      "mp_prod_waiters sh' = mp_prod_waiters (mc_shared c)"
    and wk: "(mp_consumer_parker sh', tok') =
       (if \<not> mp_rx_dropped (mc_shared c) \<and> \<not> mpsc_full (mc_shared c) \<and> mp_strategy (mc_shared c) = Park
        then wake (mp_consumer_parker (mc_shared c)) (mc_tokens c)
        else (mp_consumer_parker (mc_shared c), mc_tokens c))"
    by blast
  let ?c = "c\<lparr>mc_shared := sh', mc_txs := (mc_txs c)[fst p := Some tx'], mc_tokens := tok'\<rparr>"
  have op: "mpsc_send_op p v c = Inr (fst (spec_try_send v (mpsc_abs c)), ?c)"
    using run tx dropped full by (simp add: mpsc_send_op_def spec_try_send_def mpsc_abs_def)
  have live: "live_senders ?c = live_senders c"
    using live_senders_update [OF tx, of tx'] by (simp add: live_senders_def)
  have inv': "mpsc_inv ?c"
    using inv sh' live by (auto simp: mpsc_inv_def mpsc_tx_inv_def mpsc_rx_inv_def
        dest!: subsetD [OF set_update_subset_insert])
  have "2 ^ 64 - 1 - unat (mp_claim (mc_shared c)) - 1 = 2 ^ 64 - 1 - (unat (mp_claim (mc_shared c)) + 1)"
    by simp
  then have abs': "mpsc_abs ?c = snd (spec_try_send v (mpsc_abs c))"
    using sh' live full dropped by (simp add: mpsc_abs_def spec_try_send_def)
  have "\<forall>q. mpsc_tx_live q ?c = mpsc_tx_live q c"
    using tx mem by (auto simp: mpsc_tx_live_def mc_tx_def nth_list_update)
  with op inv' abs' sh' wk show ?thesis
    using full dropped by (intro exI [of _ ?c]) (simp add: spec_try_send_def mpsc_abs_def)
qed

text \<open>What a consuming call does to the channel besides the queue.\<close>

definition mpsc_consumed :: "'a mpsc \<Rightarrow> 'a mpsc \<Rightarrow> bool \<Rightarrow> bool" where
  "mpsc_consumed c c' took \<longleftrightarrow>
     mc_txs c' = mc_txs c \<and> mc_rx c' \<noteq> None \<and>
     mp_strategy (mc_shared c') = mp_strategy (mc_shared c) \<and>
     mp_consumer_parker (mc_shared c') = mp_consumer_parker (mc_shared c) \<and>
     (mp_prod_waiters (mc_shared c'), mc_tokens c') =
       (if took \<and> mp_strategy (mc_shared c) = Park
        then wake_all (mp_prod_waiters (mc_shared c)) (mc_tokens c)
        else (mp_prod_waiters (mc_shared c), mc_tokens c))"

lemma mpsc_consume_inv:
  assumes inv: "mpsc_inv c" and sh': "mpsc_shared_inv sh'" "mpsc_rx_inv sh' rx'"
    "mp_head (mc_shared c) \<le> mp_head sh'" "producers_woken (mc_shared c) (mc_tokens c) sh' tok' took"
    and rx: "mc_rx c \<noteq> None"
  defines "c' \<equiv> c\<lparr>mc_shared := sh', mc_rx := Some rx', mc_tokens := tok'\<rparr>"
  shows "mpsc_inv c'" "mpsc_consumed c c' took" "\<forall>q. mpsc_tx_live q c' = mpsc_tx_live q c"
    "mpsc_abs c' = (mpsc_abs c)\<lparr>bc_queue := mpsc_queue sh' (mp_head sh')\<rparr>"
proof -
  show "mpsc_inv c'"
    using inv sh' rx mpsc_tx_inv_mono [of "mc_shared c" _ sh']
    by (auto simp: mpsc_inv_def producers_woken_def live_senders_def c'_def)
  show "mpsc_consumed c c' took"
    using sh'(4) by (simp add: producers_woken_def mpsc_consumed_def c'_def)
  show "\<forall>q. mpsc_tx_live q c' = mpsc_tx_live q c"
    by (simp add: mpsc_tx_live_def mc_tx_def c'_def)
  show "mpsc_abs c' = (mpsc_abs c)\<lparr>bc_queue := mpsc_queue sh' (mp_head sh')\<rparr>"
    using sh'(4) rx by (simp add: mpsc_abs_def producers_woken_def live_senders_def c'_def)
qed

lemma mpsc_recv_op_correct:
  assumes inv: "mpsc_inv c" and live: "bc_rx_live (mpsc_abs c)"
  shows "\<exists>c'. mpsc_recv_op c = Inr (fst (spec_try_recv (mpsc_abs c)), c') \<and> mpsc_inv c'
      \<and> mpsc_abs c' = snd (spec_try_recv (mpsc_abs c)) \<and> (\<forall>q. mpsc_tx_live q c' = mpsc_tx_live q c)
      \<and> mpsc_consumed c c' (bc_queue (mpsc_abs c) \<noteq> [])"
proof -
  from live obtain rx where rx: "mc_rx c = Some rx" by (auto simp: mpsc_abs_def)
  have sinv: "mpsc_shared_inv (mc_shared c)" "mpsc_rx_inv (mc_shared c) rx"
    using inv rx by (auto simp: mpsc_inv_def)
  have gone: "mp_senders (mc_shared c) = 0 \<longleftrightarrow> bc_senders (mpsc_abs c) = 0"
    using inv by (simp add: mpsc_inv_def mpsc_abs_def flip: unat_eq_0)
  from mpsc_try_recv_correct [OF sinv, of "mc_tokens c"] obtain sh' rx' tok' where
    run: "mpsc_try_recv (mc_shared c) rx (mc_tokens c) =
       Inr (case bc_queue (mpsc_abs c) of
              [] \<Rightarrow> Err (if mp_senders (mc_shared c) = 0 then RecvDisconnected else Empty)
            | v # _ \<Rightarrow> Ok v, sh', rx', tok')"
    and sh': "mpsc_shared_inv sh'" "mpsc_rx_inv sh' rx'" "mp_head (mc_shared c) \<le> mp_head sh'"
      "producers_woken (mc_shared c) (mc_tokens c) sh' tok' (bc_queue (mpsc_abs c) \<noteq> [])"
    and q: "mpsc_queue sh' (mp_head sh') = tl (bc_queue (mpsc_abs c))"
    by (auto simp: mpsc_abs_def)
  let ?c = "c\<lparr>mc_shared := sh', mc_rx := Some rx', mc_tokens := tok'\<rparr>"
  have op: "mpsc_recv_op c = Inr (fst (spec_try_recv (mpsc_abs c)), ?c)"
    using run rx gone by (simp add: mpsc_recv_op_def spec_try_recv_def split: list.splits)
  note res = mpsc_consume_inv [OF inv sh']
  have "mpsc_abs ?c = snd (spec_try_recv (mpsc_abs c))"
    using res(4) rx q by (simp add: spec_try_recv_def split: list.splits)
  with op res rx show ?thesis by blast
qed

lemma mpsc_drain_op_correct:
  assumes inv: "mpsc_inv c" and live: "bc_rx_live (mpsc_abs c)"
    and fed: "feed f (unat mx) (bc_queue (mpsc_abs c)) s = (p, k, s')"
  shows "\<exists>c'. mpsc_drain_op mx f s c = Inr (if p then Unwound else Returned (of_nat k), s', c')
      \<and> mpsc_inv c' \<and> mpsc_abs c' = (mpsc_abs c)\<lparr>bc_queue := drop k (bc_queue (mpsc_abs c))\<rparr>
      \<and> (\<forall>q. mpsc_tx_live q c' = mpsc_tx_live q c) \<and> mpsc_consumed c c' (\<not> p \<and> 0 < k)"
proof -
  from live obtain rx where rx: "mc_rx c = Some rx" by (auto simp: mpsc_abs_def)
  have sinv: "mpsc_shared_inv (mc_shared c)" "mpsc_rx_inv (mc_shared c) rx"
    using inv rx by (auto simp: mpsc_inv_def)
  from mpsc_drain_correct [OF sinv, of f mx s p k s' "mc_tokens c"] fed obtain sh' rx' tok' where
    run: "mpsc_drain mx f s (mc_shared c) rx (mc_tokens c)
        = Inr (if p then Unwound else Returned (of_nat k), s', sh', rx', tok')"
    and sh': "mpsc_shared_inv sh'" "mpsc_rx_inv sh' rx'" "mp_head (mc_shared c) \<le> mp_head sh'"
      "producers_woken (mc_shared c) (mc_tokens c) sh' tok' (\<not> p \<and> 0 < k)"
    and q: "mpsc_queue sh' (mp_head sh') = drop k (bc_queue (mpsc_abs c))"
    by (auto simp: mpsc_abs_def)
  note res = mpsc_consume_inv [OF inv sh']
  from run rx res q show ?thesis
    by (auto simp: mpsc_drain_op_def)
qed

lemma mpsc_drain_vec_correct:
  assumes inv: "mpsc_inv c" and live: "bc_rx_live (mpsc_abs c)"
  shows "\<exists>c'. mpsc_drain_vec n c = Inr (fst (spec_drain (unat n) (mpsc_abs c)), c') \<and> mpsc_inv c'
      \<and> mpsc_abs c' = snd (spec_drain (unat n) (mpsc_abs c)) \<and> (\<forall>q. mpsc_tx_live q c' = mpsc_tx_live q c)
      \<and> mpsc_consumed c c' (fst (spec_drain (unat n) (mpsc_abs c)) \<noteq> [])"
proof -
  from mpsc_drain_op_correct [OF inv live feed_push_back, of n "[]"]
  obtain c' where c': "mpsc_drain_op n push_back [] c
      = Inr (Returned (of_nat (min (unat n) (length (bc_queue (mpsc_abs c))))),
             take (unat n) (bc_queue (mpsc_abs c)), c')" "mpsc_inv c'"
    "mpsc_abs c' = (mpsc_abs c)\<lparr>bc_queue := drop (min (unat n) (length (bc_queue (mpsc_abs c))))
      (bc_queue (mpsc_abs c))\<rparr>" "\<forall>q. mpsc_tx_live q c' = mpsc_tx_live q c"
    "mpsc_consumed c c' (0 < min (unat n) (length (bc_queue (mpsc_abs c))))"
    by auto
  have "0 < min (unat n) (length (bc_queue (mpsc_abs c))) \<longleftrightarrow> take (unat n) (bc_queue (mpsc_abs c)) \<noteq> []"
    by auto
  with c' show ?thesis
    by (auto simp: mpsc_drain_vec_def spec_drain_def min_def)
qed

interpretation mpsc: bounded_channel mpsc_inv mpsc_abs mpsc_tx_live mpsc_send_op mpsc_recv_op
    mpsc_drain_vec
proof unfold_locales
  fix c :: "'a mpsc" and v n
  assume inv: "mpsc_inv c"
  then show "bchan_ok (mpsc_abs c)" by (rule mpsc_abs_ok)
  show "\<exists>c'. mpsc_send_op p v c = Inr (fst (spec_try_send v (mpsc_abs c)), c') \<and> mpsc_inv c'
      \<and> mpsc_abs c' = snd (spec_try_send v (mpsc_abs c)) \<and> (\<forall>q. mpsc_tx_live q c' = mpsc_tx_live q c)"
    if "mpsc_tx_live p c" for p
    using that mpsc_send_op_correct [OF inv, of p _ v] by (auto simp: mpsc_tx_live_def)
  show "\<exists>c'. mpsc_recv_op c = Inr (fst (spec_try_recv (mpsc_abs c)), c') \<and> mpsc_inv c'
      \<and> mpsc_abs c' = snd (spec_try_recv (mpsc_abs c)) \<and> (\<forall>q. mpsc_tx_live q c' = mpsc_tx_live q c)"
    if "bc_rx_live (mpsc_abs c)"
    using mpsc_recv_op_correct [OF inv that] by blast
  show "\<exists>c'. mpsc_drain_vec n c = Inr (fst (spec_drain (unat n) (mpsc_abs c)), c') \<and> mpsc_inv c'
      \<and> mpsc_abs c' = snd (spec_drain (unat n) (mpsc_abs c))
      \<and> (\<forall>q. mpsc_tx_live q c' = mpsc_tx_live q c)"
    if "bc_rx_live (mpsc_abs c)"
    using mpsc_drain_vec_correct [OF inv that, of n] by blast
qed

section \<open>Cloning and dropping handles\<close>

lemma live_senders_drop:
  assumes "mc_tx i c = Some tx"
  shows "Suc (length (filter (\<lambda>t. t \<noteq> None) ((mc_txs c)[i := None]))) = live_senders c"
  unfolding live_senders_def
  by (rule filter_update_drop) (use assms in \<open>auto simp: mc_tx_def split: if_splits\<close>)

lemma mpsc_senders_frame [simp]:
  "mpsc_queue (sh\<lparr>mp_senders := n\<rparr>) h = mpsc_queue sh h"
  "mpsc_shared_inv (sh\<lparr>mp_senders := n\<rparr>) = mpsc_shared_inv sh"
  "mpsc_tx_inv (sh\<lparr>mp_senders := n\<rparr>) tx = mpsc_tx_inv sh tx"
  "mpsc_rx_inv (sh\<lparr>mp_senders := n\<rparr>) rx = mpsc_rx_inv sh rx"
  "mpsc_queue (sh\<lparr>mp_rx_dropped := d\<rparr>) h = mpsc_queue sh h"
  "mpsc_shared_inv (sh\<lparr>mp_rx_dropped := d\<rparr>) = mpsc_shared_inv sh"
  "mpsc_tx_inv (sh\<lparr>mp_rx_dropped := d\<rparr>) tx = mpsc_tx_inv sh tx"
  "mpsc_rx_inv (sh\<lparr>mp_rx_dropped := d\<rparr>) rx = mpsc_rx_inv sh rx"
  by (simp_all add: mpsc_defs mpsc_shared_inv_def mpsc_tx_inv_def mpsc_rx_inv_def)

text \<open>A clone is one more live sender; it starts with a cached head of 0, which is never too high.\<close>

lemma mpsc_clone_op_correct:
  assumes inv: "mpsc_inv c" and tx: "mc_tx i c = Some tx" and few: "live_senders c < 2 ^ 64 - 1"
  shows "\<exists>c'. mpsc_clone_op i c = Inr (length (mc_txs c), c') \<and> mpsc_inv c'
     \<and> mpsc_abs c' = (mpsc_abs c)\<lparr>bc_senders := Suc (live_senders c)\<rparr>
     \<and> mc_tx (length (mc_txs c)) c' = Some \<lparr>mtx_cached_head = 0\<rparr>
     \<and> (\<forall>j < length (mc_txs c). mc_tx j c' = mc_tx j c)"
proof -
  let ?c = "c\<lparr>mc_shared := (mc_shared c)\<lparr>mp_senders := mp_senders (mc_shared c) + 1\<rparr>,
      mc_txs := mc_txs c @ [Some \<lparr>mtx_cached_head = 0\<rparr>]\<rparr>"
  have "unat (mp_senders (mc_shared c)) = live_senders c" using inv by (simp add: mpsc_inv_def)
  then have "unat (mp_senders (mc_shared c) + 1) = Suc (live_senders c)"
    using few unat_le_add_one [of "mp_senders (mc_shared c)"] by simp
  moreover have "mpsc_clone_op i c = Inr (length (mc_txs c), ?c)"
    using tx by (simp add: mpsc_clone_op_def mpsc_sender_clone_def)
  ultimately show ?thesis
    using inv
    by (auto simp: mpsc_inv_def mpsc_abs_def live_senders_def mc_tx_def nth_append mpsc_tx_inv_def
        intro!: exI [of _ ?c])
qed

lemma mpsc_sender_drop_alt:
  "mpsc_sender_drop sh tok =
     (if mp_senders sh = 1
      then (sh\<lparr>mp_senders := 0, mp_consumer_parker := fst (wake (mp_consumer_parker sh) tok)\<rparr>,
            snd (wake (mp_consumer_parker sh) tok))
      else (sh\<lparr>mp_senders := mp_senders sh - 1\<rparr>, tok))"
  by (simp add: mpsc_sender_drop_def Let_def mpsc_wake_consumer_alt)

lemma mpsc_last_drop_correct:
  assumes "mpsc_inv c"
  shows "\<exists>c'. mpsc_last_drop c =
       Inr (if mc_rx c = None \<and> live_senders c = 0 then bc_queue (mpsc_abs c) else [], c')
     \<and> (if mc_rx c = None \<and> live_senders c = 0 then \<not> list_ex is_live (mpsc_cells (mc_shared c'))
        else c' = c)"
proof -
  have "mpsc_shared_inv (mc_shared c)" using assms by (simp add: mpsc_inv_def)
  from mpsc_shared_drop_correct [OF this] show ?thesis
    by (auto simp: mpsc_last_drop_def mpsc_abs_def)
qed

text \<open>The state in which a sender handle is gone, before the ring itself is looked at.\<close>

lemma mpsc_sender_gone:
  assumes inv: "mpsc_inv c" and tx: "mc_tx i c = Some tx"
    and d: "mpsc_sender_drop (mc_shared c) (mc_tokens c) = (sh, tok)"
  defines "c1 \<equiv> c\<lparr>mc_shared := sh, mc_txs := (mc_txs c)[i := None], mc_tokens := tok\<rparr>"
  shows "mpsc_inv c1" and "mpsc_abs c1 = (mpsc_abs c)\<lparr>bc_senders := live_senders c - 1\<rparr>"
    and "mp_strategy (mc_shared c1) = mp_strategy (mc_shared c)"
    and "mp_prod_waiters (mc_shared c1) = mp_prod_waiters (mc_shared c)"
    and "(mp_consumer_parker (mc_shared c1), mc_tokens c1) =
       (if live_senders c = 1 then wake (mp_consumer_parker (mc_shared c)) (mc_tokens c)
        else (mp_consumer_parker (mc_shared c), mc_tokens c))"
proof -
  have n: "unat (mp_senders (mc_shared c)) = live_senders c" using inv by (simp add: mpsc_inv_def)
  have live: "Suc (live_senders c1) = live_senders c"
    using live_senders_drop [OF tx] by (simp add: c1_def live_senders_def)
  then have pos: "mp_senders (mc_shared c) \<noteq> 0" using n by auto
  then have dec: "unat (mp_senders (mc_shared c) - 1) = live_senders c1"
    using n live by (simp add: unat_minus_one)
  have one: "mp_senders (mc_shared c) = 1 \<longleftrightarrow> live_senders c = 1"
    using n by (auto simp flip: n simp: word_unat_eq_iff)
  have p: "parker_ok (fst (wake (mp_consumer_parker (mc_shared c)) (mc_tokens c)))"
    using inv by (intro parker_ok_ops(4)) (simp add: mpsc_inv_def mpsc_shared_inv_def)
  have sub: "Some t \<in> set ((mc_txs c)[i := None]) \<Longrightarrow> Some t \<in> set (mc_txs c)" for t
    using set_update_subset_insert [of "mc_txs c" i None] by auto
  note defs = c1_def mpsc_inv_def mpsc_abs_def
  show "mpsc_inv c1"
    using inv d dec one live p sub
    by (auto simp: mpsc_inv_def mpsc_sender_drop_alt c1_def live_senders_def split: if_splits)
  show "mpsc_abs c1 = (mpsc_abs c)\<lparr>bc_senders := live_senders c - 1\<rparr>"
    "mp_strategy (mc_shared c1) = mp_strategy (mc_shared c)"
    "mp_prod_waiters (mc_shared c1) = mp_prod_waiters (mc_shared c)"
    "(mp_consumer_parker (mc_shared c1), mc_tokens c1) =
       (if live_senders c = 1 then wake (mp_consumer_parker (mc_shared c)) (mc_tokens c)
        else (mp_consumer_parker (mc_shared c), mc_tokens c))"
    using d one live by (auto simp: mpsc_abs_def mpsc_sender_drop_alt c1_def split: if_splits)
qed

lemma mpsc_receiver_gone:
  assumes inv: "mpsc_inv c" and d: "mpsc_receiver_drop (mc_shared c) (mc_tokens c) = (sh, tok)"
  defines "c1 \<equiv> c\<lparr>mc_shared := sh, mc_rx := None, mc_tokens := tok\<rparr>"
  shows "mpsc_inv c1" and "mpsc_abs c1 = (mpsc_abs c)\<lparr>bc_rx_live := False\<rparr>"
    and "mp_strategy (mc_shared c1) = mp_strategy (mc_shared c)"
    and "mp_consumer_parker (mc_shared c1) = mp_consumer_parker (mc_shared c)"
    and "(mp_prod_waiters (mc_shared c1), mc_tokens c1)
       = wake_all (mp_prod_waiters (mc_shared c)) (mc_tokens c)"
  using inv d
  by (auto simp: mpsc_inv_def mpsc_abs_def mpsc_receiver_drop_def c1_def live_senders_def Let_def
      case_prod_unfold)

lemma mpsc_drop_tx_correct:
  assumes inv: "mpsc_inv c" and tx: "mc_tx i c = Some tx"
  shows "\<exists>c'. mpsc_drop_tx i c =
       Inr (if mc_rx c = None \<and> live_senders c = 1 then bc_queue (mpsc_abs c) else [], c')
     \<and> (if mc_rx c = None \<and> live_senders c = 1 then \<not> list_ex is_live (mpsc_cells (mc_shared c'))
        else mpsc_inv c' \<and> mpsc_abs c' = (mpsc_abs c)\<lparr>bc_senders := live_senders c - 1\<rparr>
          \<and> mc_txs c' = (mc_txs c)[i := None] \<and> mc_rx c' = mc_rx c)"
proof -
  obtain sh tok where d: "mpsc_sender_drop (mc_shared c) (mc_tokens c) = (sh, tok)" by fastforce
  let ?c = "c\<lparr>mc_shared := sh, mc_txs := (mc_txs c)[i := None], mc_tokens := tok\<rparr>"
  note g = mpsc_sender_gone [OF inv tx d]
  have "live_senders ?c = live_senders c - 1"
    using arg_cong [OF g(2), of bc_senders] by (simp add: mpsc_abs_def)
  moreover have "0 < live_senders c" using live_senders_drop [OF tx] by linarith
  ultimately have "live_senders ?c = 0 \<longleftrightarrow> live_senders c = 1" by linarith
  with mpsc_last_drop_correct [OF g(1)] g(1,2) tx d show ?thesis
    by (auto simp: mpsc_drop_tx_def)
qed

lemma mpsc_drop_rx_correct:
  assumes inv: "mpsc_inv c" and rx: "mc_rx c = Some rx"
  shows "\<exists>c'. mpsc_drop_rx c = Inr (if live_senders c = 0 then bc_queue (mpsc_abs c) else [], c')
     \<and> (if live_senders c = 0 then \<not> list_ex is_live (mpsc_cells (mc_shared c'))
        else mpsc_inv c' \<and> mpsc_abs c' = (mpsc_abs c)\<lparr>bc_rx_live := False\<rparr>
          \<and> mc_txs c' = mc_txs c \<and> mc_rx c' = None)"
proof -
  obtain sh tok where d: "mpsc_receiver_drop (mc_shared c) (mc_tokens c) = (sh, tok)" by fastforce
  let ?c = "c\<lparr>mc_shared := sh, mc_rx := None, mc_tokens := tok\<rparr>"
  note g = mpsc_receiver_gone [OF inv d]
  have "live_senders ?c = live_senders c" by (simp add: live_senders_def)
  with mpsc_last_drop_correct [OF g(1)] g(1,2) rx d show ?thesis
    by (auto simp: mpsc_drop_rx_def)
qed

end
