(* ===== verification/Mpsc_Blocking.thy ===== *)
theory Mpsc_Blocking
  imports Mpsc
begin

text \<open>
  The blocking methods of \<^verbatim>\<open>src/mpsc.rs\<close> as instances of \<open>block_loop\<close>, and the
  interpretations of \<open>live_blocking_operation\<close> for them. A blocked sender holds no sequence
  number; with \<^verbatim>\<open>Park\<close> it is on the waiter list, which every consuming call empties. The
  receiver re-checks \<open>PARK_SPINS\<close> times before it registers with its parker.
\<close>

section \<open>The methods\<close>

type_synonym 'a mpsc_sending = "'a \<times> idle_state \<times> 'a mpsc"
type_synonym 'a mpsc_receiving = "idle_state \<times> 'a mpsc"

text \<open>\<open>p\<close> is the handle's index with the number of spurious failures per attempt.\<close>

definition mpsc_send_attempt ::
    "nat \<times> nat \<Rightarrow> 'a mpsc_sending \<Rightarrow>
     ((unit, 'a send_error) rust_result option \<times> 'a mpsc_sending) outcome" where
  "mpsc_send_attempt p s =
     (case s of (v, i, c) \<Rightarrow>
        obind (mpsc_send_op p v c) (\<lambda>(r, c').
          case r of
            Ok _ \<Rightarrow> Inr (Some (Ok ()), (v, i, c'))
          | Err (SendDisconnected back) \<Rightarrow> Inr (Some (Err (SendError back)), (back, i, c'))
          | Err (Full back) \<Rightarrow> Inr (None, (back, i, c'))))"

definition mpsc_send_wait :: "tid \<Rightarrow> 'a mpsc_sending \<Rightarrow> (bool \<times> 'a mpsc_sending) outcome" where
  "mpsc_send_wait me s =
     (case s of (v, i, c) \<Rightarrow>
        let sh = mc_shared c
        in case mp_strategy sh of
             BusySpin \<Rightarrow> Inr (False, s)
           | Backoff \<Rightarrow> Inr (False, (v, snd (idle i), c))
           | BackoffYield \<Rightarrow> Inr (False, (v, snd (idle i), c))
           | Park \<Rightarrow>
               let sh1 = sh\<lparr>mp_prod_waiters := prepare_wait me (mp_prod_waiters sh)\<rparr>;
                   claim = mp_claim sh1;
                   head = mp_head sh1;
                   s1 = (v, i, c\<lparr>mc_shared := sh1\<rparr>)
               in if claim < saturating_add head (mp_cap sh1) \<or> mp_rx_dropped sh1
                  then Inr (False, s1) else Inr (True, s1))"

definition mpsc_send_resume :: "tid \<Rightarrow> 'a mpsc_sending \<Rightarrow> 'a mpsc_sending option" where
  "mpsc_send_resume me s =
     (case s of (v, i, c) \<Rightarrow>
        (case waiter_park me (mc_tokens c) of
           None \<Rightarrow> None
         | Some tok \<Rightarrow> Some (v, i, c\<lparr>mc_tokens := tok\<rparr>)))"

definition mpsc_sending_env ::
    "(nat \<Rightarrow> 'a mpsc \<Rightarrow> 'a mpsc) \<Rightarrow> nat \<Rightarrow> 'a mpsc_sending \<Rightarrow> 'a mpsc_sending" where
  "mpsc_sending_env env k s = (case s of (v, i, c) \<Rightarrow> (v, i, env k c))"

definition mpsc_send ::
    "tid \<Rightarrow> nat \<times> nat \<Rightarrow> (nat \<Rightarrow> 'a mpsc \<Rightarrow> 'a mpsc) \<Rightarrow> nat \<Rightarrow> 'a \<Rightarrow> 'a mpsc \<Rightarrow>
     ((unit, 'a send_error) rust_result \<times> 'a mpsc_sending) option outcome" where
  "mpsc_send me p env fuel v c =
     block_loop (mpsc_send_attempt p) (mpsc_send_wait me) (mpsc_send_resume me) (mpsc_sending_env env)
       fuel 0 (v, for_strategy (mp_strategy (mc_shared c)), c)"

definition mpsc_recv_attempt ::
    "'a mpsc_receiving \<Rightarrow> (('a, recv_error) rust_result option \<times> 'a mpsc_receiving) outcome" where
  "mpsc_recv_attempt s =
     (case s of (i, c) \<Rightarrow>
        obind (mpsc_recv_op c) (\<lambda>(r, c').
          case r of
            Ok v \<Rightarrow> Inr (Some (Ok v), (i, c'))
          | Err RecvDisconnected \<Rightarrow> Inr (Some (Err RecvError), (i, c'))
          | Err Empty \<Rightarrow> Inr (None, (i, c'))))"

text \<open>\<^verbatim>\<open>for _ in 0..PARK_SPINS\<close>: does a re-check see a published slot?\<close>

fun mpsc_prespin :: "nat \<Rightarrow> 'a mpsc_shared \<Rightarrow> usize \<Rightarrow> bool outcome" where
  "mpsc_prespin 0 sh head = Inr False"
| "mpsc_prespin (Suc n) sh head =
     obind (slot_published sh head) (\<lambda>published.
       if published then Inr True else mpsc_prespin n sh head)"

definition mpsc_recv_wait :: "tid \<Rightarrow> 'a mpsc_receiving \<Rightarrow> (bool \<times> 'a mpsc_receiving) outcome" where
  "mpsc_recv_wait me s =
     (case s of (i, c) \<Rightarrow>
        (case mc_rx c of
           None \<Rightarrow> Inl HandleDropped
         | Some rx \<Rightarrow>
             let sh = mc_shared c
             in case mp_strategy sh of
                  BusySpin \<Rightarrow> Inr (False, s)
                | Backoff \<Rightarrow> Inr (False, (snd (idle i), c))
                | BackoffYield \<Rightarrow> Inr (False, (snd (idle i), c))
                | Park \<Rightarrow>
                    obind (mpsc_prespin (unat PARK_SPINS) sh (mrx_head rx)) (\<lambda>spun.
                      if spun then Inr (False, s)
                      else
                        let sh1 = sh\<lparr>mp_consumer_parker := prepare_park me (mp_consumer_parker sh)\<rparr>
                        in obind (slot_published sh1 (mrx_head rx)) (\<lambda>published.
                             if published \<or> mp_senders sh1 = 0 then
                               Inr (False, (i, c\<lparr>mc_shared :=
                                 sh1\<lparr>mp_consumer_parker := cancel (mp_consumer_parker sh1)\<rparr>\<rparr>))
                             else Inr (True, (i, c\<lparr>mc_shared := sh1\<rparr>))))))"

definition mpsc_recv_resume :: "tid \<Rightarrow> 'a mpsc_receiving \<Rightarrow> 'a mpsc_receiving option" where
  "mpsc_recv_resume me s =
     (case s of (i, c) \<Rightarrow>
        (case park me (mp_consumer_parker (mc_shared c)) (mc_tokens c) of
           None \<Rightarrow> None
         | Some (p, tok) \<Rightarrow>
             Some (i, c\<lparr>mc_shared := (mc_shared c)\<lparr>mp_consumer_parker := p\<rparr>, mc_tokens := tok\<rparr>)))"

definition mpsc_receiving_env ::
    "(nat \<Rightarrow> 'a mpsc \<Rightarrow> 'a mpsc) \<Rightarrow> nat \<Rightarrow> 'a mpsc_receiving \<Rightarrow> 'a mpsc_receiving" where
  "mpsc_receiving_env env k s = (case s of (i, c) \<Rightarrow> (i, env k c))"

definition mpsc_recv ::
    "tid \<Rightarrow> (nat \<Rightarrow> 'a mpsc \<Rightarrow> 'a mpsc) \<Rightarrow> nat \<Rightarrow> 'a mpsc \<Rightarrow>
     (('a, recv_error) rust_result \<times> 'a mpsc_receiving) option outcome" where
  "mpsc_recv me env fuel c =
     block_loop mpsc_recv_attempt (mpsc_recv_wait me) (mpsc_recv_resume me) (mpsc_receiving_env env)
       fuel 0 (for_strategy (mp_strategy (mc_shared c)), c)"

section \<open>The peers\<close>

text \<open>
  The peer of a blocked sender is the receiver. The peers of the receiver are all the producers:
  they send, clone and drop handles; \<open>MDropAll\<close> is the exit of every producer.
\<close>

definition mpsc_rx_env :: "(nat \<Rightarrow> rx_action) \<Rightarrow> nat \<Rightarrow> 'a mpsc \<Rightarrow> 'a mpsc" where
  "mpsc_rx_env sched k = rx_act mpsc_recv_op mpsc_drain_vec mpsc_drop_rx (sched k)"

datatype 'a producer_action = MSend "nat \<times> nat" 'a | MClone nat | MDropTx nat | MDropAll

definition mpsc_drop_all :: "'a mpsc \<Rightarrow> 'a mpsc" where
  "mpsc_drop_all c = fold (\<lambda>i d. after_outcome d (mpsc_drop_tx i d)) [0..<length (mc_txs c)] c"

fun producer_act :: "'a producer_action \<Rightarrow> 'a mpsc \<Rightarrow> 'a mpsc" where
  "producer_act (MSend p v) c = after_outcome c (mpsc_send_op p v c)"
| "producer_act (MClone i) c = after_outcome c (mpsc_clone_op i c)"
| "producer_act (MDropTx i) c = after_outcome c (mpsc_drop_tx i c)"
| "producer_act MDropAll c = mpsc_drop_all c"

definition mpsc_tx_env :: "'a producer_action list \<Rightarrow> nat \<Rightarrow> 'a mpsc \<Rightarrow> 'a mpsc" where
  "mpsc_tx_env acts k c = (if k < length acts then producer_act (acts ! k) c else c)"

text \<open>Actions that end the receiver's wait: a send of the first handle, or the exit of all.\<close>

fun producer_progress :: "'a producer_action \<Rightarrow> bool" where
  "producer_progress (MSend p _) = (fst p = 0)"
| "producer_progress MDropAll = True"
| "producer_progress _ = False"

section \<open>Receiver steps as seen by a blocked sender\<close>

definition mpsc_sender_notified :: "'a mpsc \<Rightarrow> 'a mpsc \<Rightarrow> bool" where
  "mpsc_sender_notified c c' \<longleftrightarrow>
     mc_tokens c \<subseteq> mc_tokens c' \<and>
     (snd (wake_all (mp_prod_waiters (mc_shared c)) (mc_tokens c)) \<subseteq> mc_tokens c' \<or>
      mp_prod_waiters (mc_shared c') = mp_prod_waiters (mc_shared c) \<and>
      has_room (mpsc_abs c') = has_room (mpsc_abs c))"

definition mpsc_rx_step_ok :: "'a mpsc \<Rightarrow> 'a mpsc \<Rightarrow> bool" where
  "mpsc_rx_step_ok c c' \<longleftrightarrow>
     mpsc_inv c' \<and> mc_txs c' = mc_txs c \<and> bc_quota (mpsc_abs c') = bc_quota (mpsc_abs c) \<and>
     mp_strategy (mc_shared c') = mp_strategy (mc_shared c) \<and>
     (has_room (mpsc_abs c) \<longrightarrow> has_room (mpsc_abs c')) \<and>
     (mp_strategy (mc_shared c) = Park \<longrightarrow> mpsc_sender_notified c c')"

lemma mpsc_rx_step_ok_refl: "mpsc_inv c \<Longrightarrow> mpsc_rx_step_ok c c"
  by (simp add: mpsc_rx_step_ok_def mpsc_sender_notified_def)

lemma mpsc_consumed_notifies:
  assumes "mpsc_consumed c c' took" "mp_strategy (mc_shared c) = Park"
    and "\<not> took \<Longrightarrow> has_room (mpsc_abs c') = has_room (mpsc_abs c)"
  shows "mpsc_sender_notified c c'"
proof (cases took)
  case True
  then have "mc_tokens c' = snd (wake_all (mp_prod_waiters (mc_shared c)) (mc_tokens c))"
    using assms(1,2) by (metis (full_types) mpsc_consumed_def snd_conv)
  then show ?thesis
    using wake_all_tokens_mono by (simp add: mpsc_sender_notified_def)
next
  case False
  with assms show ?thesis by (simp add: mpsc_sender_notified_def mpsc_consumed_def)
qed

lemma mpsc_recv_op_step:
  assumes inv: "mpsc_inv c" and live: "bc_rx_live (mpsc_abs c)"
  shows "\<exists>r c'. mpsc_recv_op c = Inr (r, c') \<and> mpsc_rx_step_ok c c'
     \<and> (bc_quota (mpsc_abs c) \<noteq> Some 0 \<longrightarrow> has_room (mpsc_abs c'))"
proof -
  from mpsc_recv_op_correct [OF inv live] obtain c' where
    run: "mpsc_recv_op c = Inr (fst (spec_try_recv (mpsc_abs c)), c')" "mpsc_inv c'"
    and abs: "mpsc_abs c' = snd (spec_try_recv (mpsc_abs c))"
    and cons: "mpsc_consumed c c' (bc_queue (mpsc_abs c) \<noteq> [])"
    by blast
  have bound: "length (bc_queue (mpsc_abs c)) \<le> bc_cap (mpsc_abs c)" "0 < bc_cap (mpsc_abs c)"
    using mpsc_abs_ok [OF inv] by (auto simp: bchan_ok_def)
  have "mpsc_sender_notified c c'" if "mp_strategy (mc_shared c) = Park"
    using cons that by (rule mpsc_consumed_notifies) (simp add: abs spec_try_recv_def)
  then show ?thesis
    using run cons bound
    by (auto simp: mpsc_rx_step_ok_def mpsc_consumed_def abs spec_try_recv_def has_room_def
        split: list.splits)
qed

lemma mpsc_drain_vec_step:
  assumes inv: "mpsc_inv c" and live: "bc_rx_live (mpsc_abs c)"
  shows "\<exists>r c'. mpsc_drain_vec n c = Inr (r, c') \<and> mpsc_rx_step_ok c c'
     \<and> (n > 0 \<and> bc_quota (mpsc_abs c) \<noteq> Some 0 \<longrightarrow> has_room (mpsc_abs c'))"
proof -
  from mpsc_drain_vec_correct [OF inv live, of n] obtain c' where
    run: "mpsc_drain_vec n c = Inr (fst (spec_drain (unat n) (mpsc_abs c)), c')" "mpsc_inv c'"
    and abs: "mpsc_abs c' = snd (spec_drain (unat n) (mpsc_abs c))"
    and cons: "mpsc_consumed c c' (fst (spec_drain (unat n) (mpsc_abs c)) \<noteq> [])"
    by blast
  have bound: "length (bc_queue (mpsc_abs c)) \<le> bc_cap (mpsc_abs c)" "0 < bc_cap (mpsc_abs c)"
    using mpsc_abs_ok [OF inv] by (auto simp: bchan_ok_def)
  have "mpsc_sender_notified c c'" if "mp_strategy (mc_shared c) = Park"
    using cons that by (rule mpsc_consumed_notifies) (auto simp: abs spec_drain_def has_room_def)
  moreover have "n > 0 \<Longrightarrow> length (drop (unat n) (bc_queue (mpsc_abs c))) < bc_cap (mpsc_abs c)"
    using bound by (auto simp: word_less_nat_alt)
  ultimately show ?thesis
    using run cons bound
    by (auto simp: mpsc_rx_step_ok_def mpsc_consumed_def abs spec_drain_def has_room_def)
qed

lemma mpsc_drop_rx_step:
  assumes inv: "mpsc_inv c" and rx: "mc_rx c = Some rx" and tx: "mc_tx i c \<noteq> None"
  shows "\<exists>r c'. mpsc_drop_rx c = Inr (r, c') \<and> mpsc_rx_step_ok c c' \<and> has_room (mpsc_abs c')"
proof -
  obtain sh tok where d: "mpsc_receiver_drop (mc_shared c) (mc_tokens c) = (sh, tok)" by fastforce
  let ?c = "c\<lparr>mc_shared := sh, mc_rx := None, mc_tokens := tok\<rparr>"
  note g = mpsc_receiver_gone [OF inv d]
  have "0 < live_senders c" using tx live_senders_drop [of i c] by auto
  then have "mpsc_drop_rx c = Inr ([], ?c)"
    using rx d by (simp add: mpsc_drop_rx_def mpsc_last_drop_def live_senders_def)
  moreover have "mc_tokens ?c = snd (wake_all (mp_prod_waiters (mc_shared c)) (mc_tokens c))"
    using g(5) by (metis snd_conv)
  then have "mpsc_sender_notified c ?c"
    unfolding mpsc_sender_notified_def using wake_all_tokens_mono by simp
  moreover have "has_room (mpsc_abs ?c)"
    by (simp add: g(2) has_room_def)
  ultimately show ?thesis
    using g by (intro exI [of _ "[]"] exI [of _ ?c]) (simp add: mpsc_rx_step_ok_def)
qed

lemma mpsc_rx_env_step:
  assumes inv: "mpsc_inv c" and tx: "mc_tx i c \<noteq> None"
  shows "mpsc_rx_step_ok c (mpsc_rx_env sched k c)
     \<and> (rx_progress (sched k) \<and> bc_quota (mpsc_abs c) \<noteq> Some 0 \<longrightarrow>
        has_room (mpsc_abs (mpsc_rx_env sched k c)))"
proof (cases "mc_rx c")
  case None
  then have "mpsc_rx_env sched k c = c"
    by (cases "sched k") (simp_all add: mpsc_rx_env_def mpsc_recv_op_def mpsc_drain_vec_def
        mpsc_drain_op_def mpsc_drop_rx_def)
  with None inv show ?thesis
    by (simp add: mpsc_rx_step_ok_refl) (simp add: has_room_def mpsc_abs_def)
next
  case (Some rx)
  then have live: "bc_rx_live (mpsc_abs c)" by (simp add: mpsc_abs_def)
  show ?thesis
  proof (cases "sched k")
    case RxIdle
    with inv show ?thesis by (simp add: mpsc_rx_env_def mpsc_rx_step_ok_refl)
  next
    case RxTryRecv
    with mpsc_recv_op_step [OF inv live] show ?thesis by (auto simp: mpsc_rx_env_def)
  next
    case (RxDrain n)
    with mpsc_drain_vec_step [OF inv live, of n] show ?thesis by (auto simp: mpsc_rx_env_def)
  next
    case RxDrop
    with mpsc_drop_rx_step [OF inv Some tx] show ?thesis by (auto simp: mpsc_rx_env_def)
  qed
qed

section \<open>Producer steps as seen by the blocked receiver\<close>

definition mpsc_receiver_notified :: "'a mpsc \<Rightarrow> 'a mpsc \<Rightarrow> bool" where
  "mpsc_receiver_notified c c' \<longleftrightarrow>
     mc_tokens c \<subseteq> mc_tokens c' \<and>
     (snd (wake (mp_consumer_parker (mc_shared c)) (mc_tokens c)) \<subseteq> mc_tokens c' \<or>
      mp_consumer_parker (mc_shared c') = mp_consumer_parker (mc_shared c) \<and>
      has_item (mpsc_abs c') = has_item (mpsc_abs c))"

definition mpsc_tx_step_ok :: "'a mpsc \<Rightarrow> 'a mpsc \<Rightarrow> bool" where
  "mpsc_tx_step_ok c c' \<longleftrightarrow>
     mpsc_inv c' \<and> mc_rx c' = mc_rx c \<and> mp_strategy (mc_shared c') = mp_strategy (mc_shared c) \<and>
     (has_item (mpsc_abs c) \<longrightarrow> has_item (mpsc_abs c')) \<and>
     (mp_strategy (mc_shared c) = Park \<longrightarrow> mpsc_receiver_notified c c')"

lemma wake_mono: "tok \<subseteq> tok' \<Longrightarrow> snd (wake p tok) \<subseteq> snd (wake p tok')"
  by (auto simp: wake_def unpark_def split: option.splits)

lemma mpsc_tx_step_ok_refl: "mpsc_inv c \<Longrightarrow> mpsc_tx_step_ok c c"
  by (simp add: mpsc_tx_step_ok_def mpsc_receiver_notified_def)

lemma mpsc_receiver_notified_trans:
  assumes "mpsc_receiver_notified a b" "mpsc_receiver_notified b c"
  shows "mpsc_receiver_notified a c"
  using assms wake_mono [of "mc_tokens a" "mc_tokens b" "mp_consumer_parker (mc_shared a)"]
  unfolding mpsc_receiver_notified_def by (metis subset_trans)

lemma mpsc_tx_step_ok_trans:
  "mpsc_tx_step_ok a b \<Longrightarrow> mpsc_tx_step_ok b c \<Longrightarrow> mpsc_tx_step_ok a c"
  by (auto simp: mpsc_tx_step_ok_def intro: mpsc_receiver_notified_trans)

lemma mpsc_receiver_woken:
  assumes "(mp_consumer_parker (mc_shared c'), mc_tokens c')
      = (if woken then wake (mp_consumer_parker (mc_shared c)) (mc_tokens c)
         else (mp_consumer_parker (mc_shared c), mc_tokens c))"
    and "\<not> woken \<Longrightarrow> has_item (mpsc_abs c') = has_item (mpsc_abs c)"
  shows "mpsc_receiver_notified c c'"
proof (cases woken)
  case True
  then have "mc_tokens c' = snd (wake (mp_consumer_parker (mc_shared c)) (mc_tokens c))"
    using assms(1) by (metis snd_conv)
  then show ?thesis
    using wake_tokens_mono by (simp add: mpsc_receiver_notified_def)
next
  case False
  with assms show ?thesis by (simp add: mpsc_receiver_notified_def)
qed

lemma mpsc_send_op_step:
  assumes inv: "mpsc_inv c" and tx: "mc_tx (fst p) c = Some tx" and rx: "mc_rx c \<noteq> None"
  shows "\<exists>r c'. mpsc_send_op p v c = Inr (r, c') \<and> mpsc_tx_step_ok c c'
     \<and> (\<forall>j. (mc_tx j c' = None) = (mc_tx j c = None)) \<and> live_senders c' = live_senders c
     \<and> unat (mp_claim (mc_shared c')) \<le> Suc (unat (mp_claim (mc_shared c)))
     \<and> (bc_quota (mpsc_abs c) \<noteq> Some 0 \<longrightarrow> has_item (mpsc_abs c'))"
proof -
  from mpsc_send_op_correct [OF inv tx, of v] obtain c' where
    run: "mpsc_send_op p v c = Inr (fst (spec_try_send v (mpsc_abs c)), c')" "mpsc_inv c'"
    and abs: "mpsc_abs c' = snd (spec_try_send v (mpsc_abs c))"
    and live: "\<forall>q. mpsc_tx_live q c' = mpsc_tx_live q c"
    and fr: "mc_rx c' = mc_rx c" "mp_strategy (mc_shared c') = mp_strategy (mc_shared c)"
    and w: "(mp_consumer_parker (mc_shared c'), mc_tokens c') =
         (if is_ok (fst (spec_try_send v (mpsc_abs c))) \<and> mp_strategy (mc_shared c) = Park
          then wake (mp_consumer_parker (mc_shared c)) (mc_tokens c)
          else (mp_consumer_parker (mc_shared c), mc_tokens c))"
    by blast
  have rx_live: "bc_rx_live (mpsc_abs c)" using rx by (simp add: mpsc_abs_def)
  have cap: "0 < bc_cap (mpsc_abs c)" using mpsc_abs_ok [OF inv] by (simp add: bchan_ok_def)
  have note_: "mpsc_receiver_notified c c'" if "mp_strategy (mc_shared c) = Park"
    using w by (rule mpsc_receiver_woken) (use that rx_live in \<open>auto simp: abs spec_try_send_def split: if_splits\<close>)
  have item: "has_item (mpsc_abs c) \<Longrightarrow> has_item (mpsc_abs c')"
    "bc_quota (mpsc_abs c) \<noteq> Some 0 \<Longrightarrow> has_item (mpsc_abs c')"
    using cap rx_live by (auto simp: abs spec_try_send_def has_item_def)
  have "bc_senders (mpsc_abs c') = bc_senders (mpsc_abs c)"
    by (simp add: abs spec_try_send_def)
  then have "live_senders c' = live_senders c" by (simp add: mpsc_abs_def)
  moreover have "unat (mp_claim (mc_shared c')) \<le> Suc (unat (mp_claim (mc_shared c)))"
    using arg_cong [OF abs, of bc_quota] usize_bound [of "mp_claim (mc_shared c')"]
    by (auto simp: mpsc_abs_def spec_try_send_def split: if_splits)
  moreover have "(mc_tx j c' = None) = (mc_tx j c = None)" for j
    using live [rule_format, of "(j, 0)"] by (auto simp: mpsc_tx_live_def simp del: not_None_eq)
  ultimately show ?thesis
    using run fr note_ item by (auto simp: mpsc_tx_step_ok_def)
qed

lemma mpsc_clone_op_step:
  assumes inv: "mpsc_inv c" and tx: "mc_tx i c = Some tx" and few: "live_senders c < 2 ^ 64 - 1"
  shows "\<exists>r c'. mpsc_clone_op i c = Inr (r, c') \<and> mpsc_tx_step_ok c c'
     \<and> (\<forall>j < length (mc_txs c). mc_tx j c' = mc_tx j c) \<and> live_senders c' = Suc (live_senders c)
     \<and> mp_claim (mc_shared c') = mp_claim (mc_shared c)"
proof -
  let ?c = "c\<lparr>mc_shared := (mc_shared c)\<lparr>mp_senders := mp_senders (mc_shared c) + 1\<rparr>,
      mc_txs := mc_txs c @ [Some \<lparr>mtx_cached_head = 0\<rparr>]\<rparr>"
  have run: "mpsc_clone_op i c = Inr (length (mc_txs c), ?c)"
    using tx by (simp add: mpsc_clone_op_def mpsc_sender_clone_def)
  with mpsc_clone_op_correct [OF inv tx few] have inv': "mpsc_inv ?c"
    and abs: "mpsc_abs ?c = (mpsc_abs c)\<lparr>bc_senders := Suc (live_senders c)\<rparr>"
    and keep: "\<forall>j < length (mc_txs c). mc_tx j ?c = mc_tx j c"
    by auto
  have "0 < live_senders c" using live_senders_drop [OF tx] by linarith
  then have "has_item (mpsc_abs ?c) = has_item (mpsc_abs c)"
    by (simp add: abs has_item_def) (simp add: mpsc_abs_def)
  then have "mpsc_tx_step_ok c ?c"
    using inv' by (simp add: mpsc_tx_step_ok_def mpsc_receiver_notified_def)
  moreover have "live_senders ?c = Suc (live_senders c)"
    using arg_cong [OF abs, of bc_senders] by (simp add: mpsc_abs_def)
  ultimately show ?thesis
    using run keep by (intro exI [of _ "length (mc_txs c)"] exI [of _ ?c]) simp
qed

lemma mpsc_drop_tx_step:
  assumes inv: "mpsc_inv c" and tx: "mc_tx i c = Some tx" and rx: "mc_rx c \<noteq> None"
  shows "\<exists>c'. mpsc_drop_tx i c = Inr ([], c') \<and> mpsc_tx_step_ok c c'
     \<and> mc_txs c' = (mc_txs c)[i := None] \<and> Suc (live_senders c') = live_senders c
     \<and> mp_claim (mc_shared c') = mp_claim (mc_shared c)"
proof -
  obtain sh tok where d: "mpsc_sender_drop (mc_shared c) (mc_tokens c) = (sh, tok)" by fastforce
  let ?c = "c\<lparr>mc_shared := sh, mc_txs := (mc_txs c)[i := None], mc_tokens := tok\<rparr>"
  note g = mpsc_sender_gone [OF inv tx d]
  have run: "mpsc_drop_tx i c = Inr ([], ?c)"
    using tx rx d by (auto simp: mpsc_drop_tx_def mpsc_last_drop_def)
  have live: "Suc (live_senders ?c) = live_senders c"
    using live_senders_drop [OF tx] by (simp add: live_senders_def)
  then have "has_item (mpsc_abs ?c) = has_item (mpsc_abs c)" if "live_senders c \<noteq> 1"
    using that by (simp add: g(2) has_item_def) (simp add: mpsc_abs_def)
  then have "mpsc_receiver_notified c ?c"
    using g(5) by (intro mpsc_receiver_woken) auto
  moreover have "has_item (mpsc_abs c) \<Longrightarrow> has_item (mpsc_abs ?c)"
    using live by (auto simp: g(2) has_item_def) (simp add: mpsc_abs_def)
  moreover have "mp_claim sh = mp_claim (mc_shared c)"
    using d by (auto simp: mpsc_sender_drop_alt split: if_splits)
  ultimately show ?thesis
    using run live g by (intro exI [of _ ?c]) (simp add: mpsc_tx_step_ok_def)
qed

lemma mc_tx_update: "i < length (mc_txs c) \<Longrightarrow> mc_txs c' = (mc_txs c)[i := x] \<Longrightarrow>
   mc_tx j c' = (if j = i then x else mc_tx j c)"
  by (simp add: mc_tx_def)

lemma live_senders_none: "(\<forall>j < length (mc_txs c). mc_tx j c = None) \<Longrightarrow> live_senders c = 0"
  by (auto simp: live_senders_def mc_tx_def filter_empty_conv in_set_conv_nth)

lemma mpsc_drop_upto:
  assumes inv: "mpsc_inv c" and rx: "mc_rx c \<noteq> None"
  shows "n \<le> length (mc_txs c) \<Longrightarrow>
     (let c' = fold (\<lambda>i d. after_outcome d (mpsc_drop_tx i d)) [0..<n] c
      in mpsc_tx_step_ok c c' \<and> length (mc_txs c') = length (mc_txs c)
       \<and> (\<forall>j < n. mc_tx j c' = None) \<and> mp_claim (mc_shared c') = mp_claim (mc_shared c))"
proof (induction n)
  case 0
  with inv show ?case by (simp add: mpsc_tx_step_ok_refl)
next
  case (Suc n)
  define d where "d = fold (\<lambda>i d. after_outcome d (mpsc_drop_tx i d)) [0..<n] c"
  have IH: "mpsc_tx_step_ok c d" "length (mc_txs d) = length (mc_txs c)" "\<forall>j < n. mc_tx j d = None"
    "mp_claim (mc_shared d) = mp_claim (mc_shared c)"
    using Suc by (simp_all add: d_def Let_def)
  have step: "fold (\<lambda>i d. after_outcome d (mpsc_drop_tx i d)) [0..<Suc n] c
      = after_outcome d (mpsc_drop_tx n d)"
    by (simp add: d_def)
  show ?case
  proof (cases "mc_tx n d")
    case None
    then have "mpsc_drop_tx n d = Inl HandleDropped" by (simp add: mpsc_drop_tx_def)
    with IH None step show ?thesis by (simp add: Let_def less_Suc_eq)
  next
    case (Some tx)
    have "mpsc_inv d" "mc_rx d \<noteq> None" using IH(1) rx by (simp_all add: mpsc_tx_step_ok_def)
    from mpsc_drop_tx_step [OF this(1) Some this(2)] obtain c' where
      c': "mpsc_drop_tx n d = Inr ([], c')" "mpsc_tx_step_ok d c'" "mc_txs c' = (mc_txs d)[n := None]"
        "mp_claim (mc_shared c') = mp_claim (mc_shared d)"
      by blast
    have "n < length (mc_txs d)" using Suc.prems IH(2) by simp
    with c' IH step mpsc_tx_step_ok_trans [OF IH(1) c'(2)] show ?thesis
      by (auto simp: Let_def less_Suc_eq mc_tx_update [of n d c' None])
  qed
qed

lemma mpsc_drop_all_step:
  assumes inv: "mpsc_inv c" and rx: "mc_rx c \<noteq> None"
  shows "mpsc_tx_step_ok c (mpsc_drop_all c) \<and> live_senders (mpsc_drop_all c) = 0
     \<and> has_item (mpsc_abs (mpsc_drop_all c))
     \<and> mp_claim (mc_shared (mpsc_drop_all c)) = mp_claim (mc_shared c)"
proof -
  have "mpsc_tx_step_ok c (mpsc_drop_all c)" and l: "live_senders (mpsc_drop_all c) = 0"
    and "mp_claim (mc_shared (mpsc_drop_all c)) = mp_claim (mc_shared c)"
    using mpsc_drop_upto [OF inv rx, of "length (mc_txs c)"]
    by (simp_all add: mpsc_drop_all_def Let_def live_senders_none)
  moreover have "has_item (mpsc_abs (mpsc_drop_all c))"
    using l by (simp add: has_item_def mpsc_abs_def)
  ultimately show ?thesis by blast
qed

section \<open>The blocking loops meet their interface\<close>

definition mpsc_sending_good :: "nat \<times> nat \<Rightarrow> 'a \<Rightarrow> 'a mpsc_sending \<Rightarrow> bool" where
  "mpsc_sending_good p v0 s \<longleftrightarrow>
     (case s of (v, i, c) \<Rightarrow> v = v0 \<and> mpsc_inv c \<and> mc_tx (fst p) c \<noteq> None \<and>
        bc_quota (mpsc_abs c) \<noteq> Some 0)"

definition mpsc_sending_ready :: "'a mpsc_sending \<Rightarrow> bool" where
  "mpsc_sending_ready s \<longleftrightarrow> (case s of (v, i, c) \<Rightarrow> has_room (mpsc_abs c))"

definition mpsc_sending_armed :: "tid \<Rightarrow> 'a mpsc_sending \<Rightarrow> bool" where
  "mpsc_sending_armed me s \<longleftrightarrow>
     (case s of (v, i, c) \<Rightarrow>
        mp_strategy (mc_shared c) = Park \<and>
        (me \<in> mc_tokens c \<or>
         wl_waiting (mp_prod_waiters (mc_shared c)) \<and>
         me \<in> set (wl_list (mp_prod_waiters (mc_shared c))) \<and> \<not> has_room (mpsc_abs c)))"

text \<open>
  The receiver's invariant at iteration \<open>k\<close>: the first handle is alive unless all are gone, and the
  producers' remaining schedule neither drops it alone nor exhausts the counters.
\<close>

definition mpsc_receiving_good :: "'a producer_action list \<Rightarrow> nat \<Rightarrow> 'a mpsc_receiving \<Rightarrow> bool" where
  "mpsc_receiving_good acts k s \<longleftrightarrow>
     (case s of (i, c) \<Rightarrow>
        mpsc_inv c \<and> mc_rx c \<noteq> None \<and> (mc_tx 0 c \<noteq> None \<or> live_senders c = 0) \<and>
        MDropTx 0 \<notin> set acts \<and>
        unat (mp_claim (mc_shared c)) + length (drop k acts) < 2 ^ 64 - 1 \<and>
        live_senders c + length (drop k acts) < 2 ^ 64 - 1)"

definition mpsc_receiving_ready :: "'a mpsc_receiving \<Rightarrow> bool" where
  "mpsc_receiving_ready s \<longleftrightarrow> (case s of (i, c) \<Rightarrow> has_item (mpsc_abs c))"

definition mpsc_receiving_armed :: "tid \<Rightarrow> 'a mpsc_receiving \<Rightarrow> bool" where
  "mpsc_receiving_armed me s \<longleftrightarrow>
     (case s of (i, c) \<Rightarrow>
        mp_strategy (mc_shared c) = Park \<and>
        (me \<in> mc_tokens c \<or>
         pk_parked (mp_consumer_parker (mc_shared c)) \<and>
         pk_slot (mp_consumer_parker (mc_shared c)) = Some me \<and> \<not> has_item (mpsc_abs c)))"

lemmas mpsc_sending_defs = mpsc_sending_good_def mpsc_sending_ready_def mpsc_sending_armed_def
lemmas mpsc_receiving_defs =
  mpsc_receiving_good_def mpsc_receiving_ready_def mpsc_receiving_armed_def

lemma mpsc_send_attempt_result:
  assumes inv: "mpsc_inv c" and tx: "mc_tx (fst p) c \<noteq> None"
  shows "\<exists>c'. mpsc_send_attempt p (v, i, c) =
      Inr (if has_room (mpsc_abs c)
           then Some (if bc_rx_live (mpsc_abs c) then Ok () else Err (SendError v)) else None, (v, i, c'))
    \<and> mpsc_inv c' \<and> mc_tx (fst p) c' \<noteq> None \<and> mpsc_abs c' = snd (spec_try_send v (mpsc_abs c))"
proof -
  from tx obtain t where "mc_tx (fst p) c = Some t" by auto
  from mpsc_send_op_correct [OF inv this, of v] obtain c' where
    run: "mpsc_send_op p v c = Inr (fst (spec_try_send v (mpsc_abs c)), c')"
    and c': "mpsc_inv c'" "mpsc_abs c' = snd (spec_try_send v (mpsc_abs c))"
      "\<forall>q. mpsc_tx_live q c' = mpsc_tx_live q c"
    by blast
  have "mc_tx (fst p) c' \<noteq> None" using c'(3) tx by (simp add: mpsc_tx_live_def)
  moreover have "length (bc_queue (mpsc_abs c)) \<le> bc_cap (mpsc_abs c)"
    using mpsc_abs_ok [OF inv] by (simp add: bchan_ok_def)
  ultimately show ?thesis
    using run c' by (auto simp: mpsc_send_attempt_def spec_try_send_def has_room_def)
qed

lemma mpsc_recv_attempt_result:
  assumes inv: "mpsc_inv c" and rx: "mc_rx c \<noteq> None"
  shows "\<exists>c'. mpsc_recv_attempt (i, c) =
      Inr (case bc_queue (mpsc_abs c) of
             v # _ \<Rightarrow> Some (Ok v)
           | [] \<Rightarrow> (if bc_senders (mpsc_abs c) = 0 then Some (Err RecvError) else None), (i, c'))
    \<and> mpsc_inv c' \<and> mc_rx c' \<noteq> None \<and> mpsc_abs c' = snd (spec_try_recv (mpsc_abs c))
    \<and> mc_txs c' = mc_txs c"
proof -
  have live: "bc_rx_live (mpsc_abs c)" using rx by (simp add: mpsc_abs_def)
  from mpsc_recv_op_correct [OF inv live] obtain c' where
    run: "mpsc_recv_op c = Inr (fst (spec_try_recv (mpsc_abs c)), c')"
    and c': "mpsc_inv c'" "mpsc_abs c' = snd (spec_try_recv (mpsc_abs c))"
      "mpsc_consumed c c' (bc_queue (mpsc_abs c) \<noteq> [])"
    by blast
  then show ?thesis
    by (auto simp: mpsc_recv_attempt_def spec_try_recv_def mpsc_consumed_def split: list.splits)
qed

lemma mpsc_update_frame [simp]:
  "mpsc_abs (c\<lparr>mc_shared := (mc_shared c)\<lparr>mp_prod_waiters := w\<rparr>\<rparr>) = mpsc_abs c"
  "mpsc_abs (c\<lparr>mc_shared := (mc_shared c)\<lparr>mp_consumer_parker := p\<rparr>\<rparr>) = mpsc_abs c"
  "mpsc_abs (c\<lparr>mc_tokens := tok\<rparr>) = mpsc_abs c"
  "mpsc_abs (c\<lparr>mc_shared := (mc_shared c)\<lparr>mp_consumer_parker := p\<rparr>, mc_tokens := tok\<rparr>) = mpsc_abs c"
  "mpsc_inv (c\<lparr>mc_shared := (mc_shared c)\<lparr>mp_prod_waiters := w\<rparr>\<rparr>) = mpsc_inv c"
  "mpsc_inv (c\<lparr>mc_tokens := tok\<rparr>) = mpsc_inv c"
  "mc_tx i (c\<lparr>mc_shared := sh\<rparr>) = mc_tx i c"
  "mc_tx i (c\<lparr>mc_tokens := tok\<rparr>) = mc_tx i c"
  "mc_tx i (c\<lparr>mc_shared := sh, mc_tokens := tok\<rparr>) = mc_tx i c"
  "live_senders (c\<lparr>mc_shared := sh\<rparr>) = live_senders c"
  "live_senders (c\<lparr>mc_shared := sh, mc_tokens := tok\<rparr>) = live_senders c"
  by (simp_all add: mpsc_abs_def mpsc_inv_def live_senders_def mc_tx_def)

lemma mpsc_parker_inv:
  "mpsc_inv c \<Longrightarrow> parker_ok p \<Longrightarrow>
     mpsc_inv (c\<lparr>mc_shared := (mc_shared c)\<lparr>mp_consumer_parker := p\<rparr>\<rparr>)"
  "mpsc_inv c \<Longrightarrow> parker_ok p \<Longrightarrow>
     mpsc_inv (c\<lparr>mc_shared := (mc_shared c)\<lparr>mp_consumer_parker := p\<rparr>, mc_tokens := tok\<rparr>)"
  by (simp_all add: mpsc_inv_def live_senders_def)

text \<open>The re-checks before the parks decide exactly whether the thread must wait.\<close>

lemma mpsc_send_recheck:
  assumes inv: "mpsc_inv c"
  shows "mp_claim (mc_shared c) < saturating_add (mp_head (mc_shared c)) (mp_cap (mc_shared c))
      \<or> mp_rx_dropped (mc_shared c) \<longleftrightarrow> has_room (mpsc_abs c)"
proof -
  let ?sh = "mc_shared c"
  have b: "unat (mp_claim ?sh) - unat (mp_head ?sh) \<le> unat (mp_cap ?sh)"
    "unat (mp_head ?sh) \<le> unat (mp_claim ?sh)"
    using mpsc_queue_le_cap [of ?sh] inv by (auto simp: mpsc_inv_def)
  have "mp_claim ?sh < saturating_add (mp_head ?sh) (mp_cap ?sh)
      \<longleftrightarrow> \<not> mp_claim ?sh \<ge> saturating_add (mp_head ?sh) (mp_cap ?sh)"
    by auto
  also have "\<dots> \<longleftrightarrow> \<not> mpsc_full ?sh"
    unfolding saturating_ge mpsc_full_def mpsc_queue_length using b by auto
  finally show ?thesis
    using inv b mpsc_full_abs [of c]
    by (auto simp: has_room_def mpsc_inv_def) (auto simp: mpsc_abs_def)
qed

lemma mpsc_published_abs:
  assumes "mpsc_inv c" "mc_rx c = Some rx"
  shows "slot_published (mc_shared c) (mrx_head rx) = Inr (bc_queue (mpsc_abs c) \<noteq> [])"
  using assms slot_published_iff [of "mc_shared c" "mp_head (mc_shared c)"]
  by (simp add: mpsc_inv_def mpsc_shared_inv_def mpsc_rx_inv_def mpsc_abs_def)

lemma mpsc_prespin_result:
  "slot_published sh h = Inr b \<Longrightarrow> mpsc_prespin n sh h = Inr (b \<and> 0 < n)"
  by (induction n) auto

lemma mpsc_send_wait_result:
  assumes inv: "mpsc_inv c" and tx: "mc_tx j c \<noteq> None"
  shows "\<exists>b i' c'. mpsc_send_wait me (v, i, c) = Inr (b, (v, i', c')) \<and> mpsc_inv c' \<and> mc_tx j c' \<noteq> None
    \<and> mpsc_abs c' = mpsc_abs c \<and> (b \<longrightarrow> mpsc_sending_armed me (v, i', c'))"
proof (cases "mp_strategy (mc_shared c)")
  case Park
  note check = mpsc_send_recheck [OF inv]
  show ?thesis
    using inv tx Park check
    by (cases "has_room (mpsc_abs c)")
      (auto simp: mpsc_send_wait_def Let_def mpsc_sending_armed_def prepare_wait_def)
qed (use inv tx in \<open>auto simp: mpsc_send_wait_def Let_def\<close>)

lemma mpsc_recv_wait_result:
  assumes inv: "mpsc_inv c" and rx: "mc_rx c \<noteq> None"
  shows "\<exists>b i' c'. mpsc_recv_wait me (i, c) = Inr (b, (i', c')) \<and> mpsc_inv c' \<and> mc_rx c' \<noteq> None
    \<and> mc_txs c' = mc_txs c \<and> mpsc_abs c' = mpsc_abs c \<and> (b \<longrightarrow> mpsc_receiving_armed me (i', c'))"
proof -
  obtain rx' where rx': "mc_rx c = Some rx'" using rx by auto
  note pub = mpsc_published_abs [OF inv rx'] mpsc_prespin_result [OF mpsc_published_abs [OF inv rx']]
  have frame: "slot_published ((mc_shared c)\<lparr>mp_consumer_parker := p\<rparr>) h = slot_published (mc_shared c) h"
    for p h by (simp add: slot_published_def round_of_def)
  have gone: "mp_senders (mc_shared c) = 0 \<longleftrightarrow> bc_senders (mpsc_abs c) = 0"
    using inv by (simp add: mpsc_inv_def mpsc_abs_def flip: unat_eq_0)
  show ?thesis
  proof (cases "mp_strategy (mc_shared c)")
    case Park
    consider (item) "bc_queue (mpsc_abs c) \<noteq> []"
      | (gone) "bc_queue (mpsc_abs c) = []" "bc_senders (mpsc_abs c) = 0"
      | (wait) "bc_queue (mpsc_abs c) = []" "bc_senders (mpsc_abs c) \<noteq> 0"
      by blast
    then show ?thesis
    proof cases
      case item
      with Park rx' inv pub show ?thesis
        by (auto simp: mpsc_recv_wait_def Let_def PARK_SPINS_def)
    next
      case gone
      with Park rx' inv pub frame \<open>mp_senders (mc_shared c) = 0 \<longleftrightarrow> _\<close> show ?thesis
        by (auto simp: mpsc_recv_wait_def Let_def mpsc_parker_inv)
    next
      case wait
      with Park rx' inv pub frame gone show ?thesis
        by (auto simp: mpsc_recv_wait_def Let_def mpsc_parker_inv mpsc_receiving_armed_def
            prepare_park_def has_item_def parker_ok_def)
    qed
  qed (use inv rx' in \<open>auto simp: mpsc_recv_wait_def Let_def\<close>)
qed

lemma wake_all_registered: "wl_waiting w \<Longrightarrow> me \<in> set (wl_list w) \<Longrightarrow> me \<in> snd (wake_all w tok)"
  by (simp add: wake_all_def fold_unpark)

interpretation mpsc_send: live_blocking_operation "mpsc_send_attempt p" "mpsc_send_wait me"
    "mpsc_send_resume me" "mpsc_sending_env (mpsc_rx_env sched)" "\<lambda>_. mpsc_sending_good p v"
    mpsc_sending_ready "mpsc_sending_armed me" "\<lambda>k. rx_progress (sched k)"
  for p me sched v
proof unfold_locales
  fix s :: "'a mpsc_sending" and s' s'' k
  obtain w i c where s: "s = (w, i, c)" by (metis prod_cases3)
  assume "mpsc_sending_good p v s"
  then have w: "w = v" and inv: "mpsc_inv c" and tx: "mc_tx (fst p) c \<noteq> None"
    and quota: "bc_quota (mpsc_abs c) \<noteq> Some 0"
    by (auto simp: s mpsc_sending_defs)
  from mpsc_send_attempt_result [OF inv tx, of v i] obtain c1 where
    a: "mpsc_send_attempt p s = Inr (if has_room (mpsc_abs c)
           then Some (if bc_rx_live (mpsc_abs c) then Ok () else Err (SendError v)) else None, (v, i, c1))"
    and c1: "mpsc_inv c1" "mc_tx (fst p) c1 \<noteq> None" "mpsc_abs c1 = snd (spec_try_send v (mpsc_abs c))"
    by (auto simp: s w)
  have kept: "\<not> has_room (mpsc_abs c) \<Longrightarrow> mpsc_abs c1 = mpsc_abs c"
    using mpsc_abs_ok [OF inv] by (auto simp: c1 spec_try_send_def has_room_def bchan_ok_def)
  show "\<exists>r s'. mpsc_send_attempt p s = Inr (r, s') \<and> (r = None \<longrightarrow> mpsc_sending_good p v s')"
    using a c1 kept quota by (auto simp: mpsc_sending_defs)
  show "\<exists>r s'. mpsc_send_attempt p s = Inr (Some r, s')" if "mpsc_sending_ready s"
    using a that by (auto simp: s mpsc_sending_defs)
  show "\<exists>b s''. mpsc_send_wait me s' = Inr (b, s'') \<and> mpsc_sending_good p v s''"
    if "mpsc_send_attempt p s = Inr (None, s')"
    using that a kept quota mpsc_send_wait_result [OF c1(1,2), of me v i]
    by (auto simp: mpsc_sending_good_def split: if_splits)
  show "mpsc_sending_armed me s''"
    if "mpsc_send_attempt p s = Inr (None, s')" "mpsc_send_wait me s' = Inr (True, s'')"
    using that a mpsc_send_wait_result [OF c1(1,2), of me v i] by auto
  show "mpsc_sending_good p v s'" if "mpsc_send_resume me s = Some s'"
    using that w inv tx quota
    by (auto simp: s mpsc_send_resume_def mpsc_sending_good_def split: option.splits)
  note env = mpsc_rx_env_step [OF inv tx, of sched k]
  have "mc_tx (fst p) (mpsc_rx_env sched k c) = mc_tx (fst p) c"
    using env by (simp add: mc_tx_def mpsc_rx_step_ok_def)
  then show "mpsc_sending_good p v (mpsc_sending_env (mpsc_rx_env sched) k s)"
    using env w tx quota
    by (simp add: s mpsc_sending_env_def mpsc_sending_good_def mpsc_rx_step_ok_def)
  show "mpsc_sending_ready (mpsc_sending_env (mpsc_rx_env sched) k s)" if "mpsc_sending_ready s"
    using env that by (auto simp: s mpsc_sending_env_def mpsc_sending_ready_def mpsc_rx_step_ok_def)
  show "mpsc_sending_ready (mpsc_sending_env (mpsc_rx_env sched) k s)" if "rx_progress (sched k)"
    using env that quota by (auto simp: s mpsc_sending_env_def mpsc_sending_ready_def)
  show "mpsc_sending_armed me (mpsc_sending_env (mpsc_rx_env sched) k s)" if "mpsc_sending_armed me s"
    using env that wake_all_registered [of "mp_prod_waiters (mc_shared c)" me "mc_tokens c"]
    by (auto simp: s mpsc_sending_env_def mpsc_sending_armed_def mpsc_rx_step_ok_def
        mpsc_sender_notified_def)
  show "\<exists>s'. mpsc_send_resume me s = Some s' \<and> mpsc_sending_ready s'"
    if "mpsc_sending_armed me s" "mpsc_sending_ready s"
    using that by (auto simp: s mpsc_sending_defs mpsc_send_resume_def waiter_park_def thread_park_def)
qed

lemma drop_Suc_length: "k < length xs \<Longrightarrow> length (drop k xs) = Suc (length (drop (Suc k) xs))"
  by simp

lemma producer_act_step:
  assumes inv: "mpsc_inv c" and rx: "mc_rx c \<noteq> None" and first: "mc_tx 0 c \<noteq> None \<or> live_senders c = 0"
    and act: "a \<noteq> MDropTx 0" and claim: "unat (mp_claim (mc_shared c)) < 2 ^ 64 - 1"
    and few: "live_senders c < 2 ^ 64 - 1"
  shows "mpsc_tx_step_ok c (producer_act a c)
     \<and> (mc_tx 0 (producer_act a c) \<noteq> None \<or> live_senders (producer_act a c) = 0)
     \<and> unat (mp_claim (mc_shared (producer_act a c))) \<le> Suc (unat (mp_claim (mc_shared c)))
     \<and> live_senders (producer_act a c) \<le> Suc (live_senders c)
     \<and> (producer_progress a \<longrightarrow> has_item (mpsc_abs (producer_act a c)))"
proof -
  have none: "live_senders c = 0 \<Longrightarrow> has_item (mpsc_abs c)"
    by (simp add: has_item_def mpsc_abs_def)
  have quota: "bc_quota (mpsc_abs c) \<noteq> Some 0"
    using claim by (simp add: mpsc_abs_def)
  show ?thesis
  proof (cases a)
    case (MSend p v)
    show ?thesis
    proof (cases "mc_tx (fst p) c")
      case None
      with MSend inv first none show ?thesis
        by (auto simp: mpsc_send_op_def mpsc_tx_step_ok_refl)
    next
      case (Some tx)
      from mpsc_send_op_step [OF inv Some rx, of v] obtain r c' where
        "mpsc_send_op p v c = Inr (r, c')" "mpsc_tx_step_ok c c'"
        "\<forall>j. (mc_tx j c' = None) = (mc_tx j c = None)" "live_senders c' = live_senders c"
        "unat (mp_claim (mc_shared c')) \<le> Suc (unat (mp_claim (mc_shared c)))" "has_item (mpsc_abs c')"
        using quota by blast
      with MSend first show ?thesis by (auto simp del: not_None_eq)
    qed
  next
    case (MClone i)
    show ?thesis
    proof (cases "mc_tx i c")
      case None
      with MClone inv first show ?thesis by (auto simp: mpsc_clone_op_def mpsc_tx_step_ok_refl)
    next
      case (Some tx)
      from mpsc_clone_op_step [OF inv Some few] obtain r c' where
        c': "mpsc_clone_op i c = Inr (r, c')" "mpsc_tx_step_ok c c'"
        "\<forall>j < length (mc_txs c). mc_tx j c' = mc_tx j c" "live_senders c' = Suc (live_senders c)"
        "mp_claim (mc_shared c') = mp_claim (mc_shared c)"
        by blast
      have "0 < live_senders c" using live_senders_drop [OF Some] by linarith
      with first have "mc_tx 0 c \<noteq> None" "0 < length (mc_txs c)"
        by (auto dest: mc_tx_mem)
      with MClone c' show ?thesis by simp
    qed
  next
    case (MDropTx i)
    show ?thesis
    proof (cases "mc_tx i c")
      case None
      with MDropTx inv first show ?thesis by (auto simp: mpsc_drop_tx_def mpsc_tx_step_ok_refl)
    next
      case (Some tx)
      from mpsc_drop_tx_step [OF inv Some rx] obtain c' where
        c': "mpsc_drop_tx i c = Inr ([], c')" "mpsc_tx_step_ok c c'" "mc_txs c' = (mc_txs c)[i := None]"
        "Suc (live_senders c') = live_senders c" "mp_claim (mc_shared c') = mp_claim (mc_shared c)"
        by blast
      have "i < length (mc_txs c)" using mc_tx_mem [OF Some] by simp
      with c' MDropTx act first show ?thesis
        by (auto simp: mc_tx_update [of i c c' None])
    qed
  next
    case MDropAll
    with mpsc_drop_all_step [OF inv rx] show ?thesis by simp
  qed
qed

lemma mpsc_tx_env_step:
  assumes good: "mpsc_receiving_good acts k (i, c)"
  shows "mpsc_tx_step_ok c (mpsc_tx_env acts k c)
     \<and> mpsc_receiving_good acts (Suc k) (i, mpsc_tx_env acts k c)
     \<and> (k < length acts \<and> producer_progress (acts ! k) \<longrightarrow> has_item (mpsc_abs (mpsc_tx_env acts k c)))"
proof (cases "k < length acts")
  case False
  with good show ?thesis
    by (simp add: mpsc_tx_env_def mpsc_receiving_good_def mpsc_tx_step_ok_refl)
next
  case True
  have l: "length (drop k acts) = Suc (length (drop (Suc k) acts))"
    using True by (rule drop_Suc_length)
  have a: "acts ! k \<noteq> MDropTx 0"
    using good True nth_mem by (fastforce simp: mpsc_receiving_good_def)
  have g: "mpsc_inv c" "mc_rx c \<noteq> None" "mc_tx 0 c \<noteq> None \<or> live_senders c = 0"
    "unat (mp_claim (mc_shared c)) < 2 ^ 64 - 1" "live_senders c < 2 ^ 64 - 1"
    using good by (auto simp: mpsc_receiving_good_def)
  note step = producer_act_step [OF g(1,2,3) a g(4,5)]
  have "mpsc_receiving_good acts (Suc k) (i, producer_act (acts ! k) c)"
    using step good l by (auto simp: mpsc_receiving_good_def mpsc_tx_step_ok_def)
  with step True show ?thesis by (simp add: mpsc_tx_env_def)
qed

interpretation mpsc_recv: live_blocking_operation mpsc_recv_attempt "mpsc_recv_wait me"
    "mpsc_recv_resume me" "mpsc_receiving_env (mpsc_tx_env acts)" "mpsc_receiving_good acts"
    mpsc_receiving_ready "mpsc_receiving_armed me"
    "\<lambda>k. k < length acts \<and> producer_progress (acts ! k)"
  for me acts
proof unfold_locales
  fix k and s :: "'a mpsc_receiving" and s' s''
  obtain i c where s: "s = (i, c)" by fastforce
  assume good: "mpsc_receiving_good acts k s"
  then have inv: "mpsc_inv c" and rx: "mc_rx c \<noteq> None"
    by (auto simp: s mpsc_receiving_good_def)
  from mpsc_recv_attempt_result [OF inv rx, of i] obtain c1 where
    a: "mpsc_recv_attempt s = Inr (case bc_queue (mpsc_abs c) of
             v # _ \<Rightarrow> Some (Ok v)
           | [] \<Rightarrow> (if bc_senders (mpsc_abs c) = 0 then Some (Err RecvError) else None), (i, c1))"
    and c1: "mpsc_inv c1" "mc_rx c1 \<noteq> None" "mpsc_abs c1 = snd (spec_try_recv (mpsc_abs c))"
      "mc_txs c1 = mc_txs c"
    by (auto simp: s)
  have same: "mpsc_receiving_good acts k (j, d)"
    if "mpsc_inv d" "mc_rx d \<noteq> None" "mc_txs d = mc_txs c"
      "bc_quota (mpsc_abs d) = bc_quota (mpsc_abs c)" for j d
    using that good usize_bound [of "mp_claim (mc_shared d)"] usize_bound [of "mp_claim (mc_shared c)"]
    by (auto simp: s mpsc_receiving_good_def mc_tx_def live_senders_def mpsc_abs_def)
  have q1: "bc_quota (mpsc_abs c1) = bc_quota (mpsc_abs c)"
    by (simp add: c1 spec_try_recv_def split: list.splits)
  show "\<exists>r s'. mpsc_recv_attempt s = Inr (r, s') \<and> (r = None \<longrightarrow> mpsc_receiving_good acts k s')"
    using a c1 q1 same by auto
  show "\<exists>r s'. mpsc_recv_attempt s = Inr (Some r, s')" if "mpsc_receiving_ready s"
    using a that by (auto simp: s mpsc_receiving_ready_def has_item_def split: list.splits)
  show "\<exists>b s''. mpsc_recv_wait me s' = Inr (b, s'') \<and> mpsc_receiving_good acts k s''"
    if "mpsc_recv_attempt s = Inr (None, s')"
    using that a c1 q1 same mpsc_recv_wait_result [OF c1(1,2), of me i] by auto
  show "mpsc_receiving_armed me s''"
    if "mpsc_recv_attempt s = Inr (None, s')" "mpsc_recv_wait me s' = Inr (True, s'')"
    using that a mpsc_recv_wait_result [OF c1(1,2), of me i] by auto
  show "mpsc_receiving_good acts k s'" if "mpsc_recv_resume me s = Some s'"
    using that inv rx
    by (auto simp: s mpsc_recv_resume_def mpsc_parker_inv split: option.splits intro!: same)
  note env = mpsc_tx_env_step [OF good [unfolded s]]
  show "mpsc_receiving_good acts (Suc k) (mpsc_receiving_env (mpsc_tx_env acts) k s)"
    using env by (simp add: s mpsc_receiving_env_def)
  show "mpsc_receiving_ready (mpsc_receiving_env (mpsc_tx_env acts) k s)" if "mpsc_receiving_ready s"
    using env that by (auto simp: s mpsc_receiving_env_def mpsc_receiving_ready_def mpsc_tx_step_ok_def)
  show "mpsc_receiving_ready (mpsc_receiving_env (mpsc_tx_env acts) k s)"
    if "k < length acts \<and> producer_progress (acts ! k)"
    using env that by (auto simp: s mpsc_receiving_env_def mpsc_receiving_ready_def)
  show "mpsc_receiving_armed me (mpsc_receiving_env (mpsc_tx_env acts) k s)"
    if "mpsc_receiving_armed me s"
    using env that wake_registered [of "mp_consumer_parker (mc_shared c)" me "mc_tokens c"]
    by (auto simp: s mpsc_receiving_env_def mpsc_receiving_armed_def mpsc_tx_step_ok_def
        mpsc_receiver_notified_def)
  show "\<exists>s'. mpsc_recv_resume me s = Some s' \<and> mpsc_receiving_ready s'"
    if "mpsc_receiving_armed me s" "mpsc_receiving_ready s"
    using that by (auto simp: s mpsc_receiving_armed_def mpsc_receiving_ready_def
        mpsc_recv_resume_def park_def thread_park_def)
qed

end
