(* ===== verification/Mpsc_Properties.thy ===== *)
theory Mpsc_Properties
  imports Mpsc_Blocking
begin

text \<open>
  What the users of \<^verbatim>\<open>src/mpsc.rs\<close> can rely on, for every program of any number of producers
  on a channel fresh from \<open>mpsc_open\<close> whose sender was cloned \<open>n\<close> times.
\<close>

section \<open>Channels with several producers\<close>

fun mpsc_clones :: "nat \<Rightarrow> 'a mpsc \<Rightarrow> 'a mpsc outcome" where
  "mpsc_clones 0 c = Inr c"
| "mpsc_clones (Suc n) c = obind (mpsc_clones n c) (\<lambda>c1. obind (mpsc_clone_op 0 c1) (\<lambda>(_, c2). Inr c2))"

definition mpsc_open_n :: "nat \<Rightarrow> usize \<Rightarrow> wait_strategy \<Rightarrow> 'a mpsc outcome" where
  "mpsc_open_n n cap strategy = obind (mpsc_open cap strategy) (mpsc_clones n)"

abbreviation fresh_mpsc :: "nat \<Rightarrow> usize \<Rightarrow> 'a bchan" where
  "fresh_mpsc n cap \<equiv> (fresh_bchan cap)\<lparr>bc_senders := Suc n, bc_quota := Some (2 ^ 64 - 1)\<rparr>"

definition sends_within :: "nat \<Rightarrow> (nat \<times> nat, 'a) chan_op list \<Rightarrow> bool" where
  "sends_within n ps \<longleftrightarrow> list_all (\<lambda>q. case q of OpSend p _ \<Rightarrow> fst p \<le> n | _ \<Rightarrow> True) ps"

lemma mpsc_clones_inv:
  assumes "mpsc_inv c" "length (mc_txs c) = 1" "mc_tx 0 c \<noteq> None" "n < 2 ^ 64 - 2"
  shows "\<exists>c'. mpsc_clones n c = Inr c' \<and> mpsc_inv c' \<and> mpsc_abs c' = (mpsc_abs c)\<lparr>bc_senders := Suc n\<rparr>
     \<and> length (mc_txs c') = Suc n \<and> (\<forall>j \<le> n. mc_tx j c' \<noteq> None)"
  using assms(4)
proof (induction n)
  case 0
  have "live_senders c = 1"
    using assms(2,3) by (cases "mc_txs c") (auto simp: live_senders_def mc_tx_def)
  with assms show ?case by (simp add: mpsc_abs_def)
next
  case (Suc n)
  then obtain c1 where c1: "mpsc_clones n c = Inr c1" "mpsc_inv c1"
    "mpsc_abs c1 = (mpsc_abs c)\<lparr>bc_senders := Suc n\<rparr>" "length (mc_txs c1) = Suc n"
    "\<forall>j \<le> n. mc_tx j c1 \<noteq> None"
    by auto
  have live: "live_senders c1 = Suc n"
    using arg_cong [OF c1(3), of bc_senders] by (simp add: mpsc_abs_def)
  obtain tx where "mc_tx 0 c1 = Some tx" using c1(5) by auto
  from mpsc_clone_op_correct [OF c1(2) this] live Suc.prems obtain c2 where
    c2: "mpsc_clone_op 0 c1 = Inr (Suc n, c2)" "mpsc_inv c2"
      "mpsc_abs c2 = (mpsc_abs c1)\<lparr>bc_senders := Suc (Suc n)\<rparr>" "mc_tx (Suc n) c2 \<noteq> None"
      "\<forall>j < Suc n. mc_tx j c2 = mc_tx j c1"
    by (auto simp: c1(4))
  have "length (mc_txs c2) = Suc (Suc n)"
    using c2(1) c1(4) \<open>mc_tx 0 c1 = Some tx\<close> by (auto simp: mpsc_clone_op_def mpsc_sender_clone_def)
  moreover have "mc_tx j c2 \<noteq> None" if "j \<le> Suc n" for j
    using that c2(4,5) c1(5) by (cases "j = Suc n") auto
  ultimately show ?case
    using c1 c2 by auto
qed

lemma mpsc_open_n_inv:
  assumes "is_power_of_two cap" "n < 2 ^ 64 - 2"
  shows "\<exists>c :: 'a mpsc. mpsc_open_n n cap strategy = Inr c \<and> mpsc_inv c \<and> mpsc_abs c = fresh_mpsc n cap
     \<and> length (mc_txs c) = Suc n \<and> (\<forall>j \<le> n. mc_tx j c \<noteq> None)"
proof -
  obtain c0 :: "'a mpsc" where c0: "mpsc_open cap strategy = Inr c0" "mpsc_inv c0"
    "mpsc_abs c0 = (fresh_bchan cap)\<lparr>bc_quota := Some (2 ^ 64 - 1)\<rparr>" "mc_tx 0 c0 \<noteq> None"
    using mpsc_open_inv [OF assms(1), of strategy, where 'a = 'a] by blast
  have "length (mc_txs c0) = 1"
    using c0(1) by (auto simp: mpsc_open_def mpsc_channel_def Let_def split: if_splits)
  from mpsc_clones_inv [OF c0(2) this c0(4) assms(2)] c0 show ?thesis
    by (auto simp: mpsc_open_n_def)
qed

lemma sends_within_admissible:
  "sends_within n ps \<Longrightarrow> \<forall>j \<le> n. mc_tx j c \<noteq> None \<Longrightarrow> bc_rx_live (mpsc_abs c) \<Longrightarrow> mpsc.admissible ps c"
  by (fastforce simp: sends_within_def mpsc.admissible_def mpsc_tx_live_def list_all_iff)

text \<open>What a program leaves behind.\<close>

lemma mpsc_run_keeps_handles:
  "mpsc_run ps c = Inr (es, c') \<Longrightarrow>
     (\<forall>j. (mc_tx j c' = None) = (mc_tx j c = None)) \<and> length (mc_txs c') = length (mc_txs c)"
proof (induction ps arbitrary: c es)
  case Nil
  then show ?case by simp
next
  case (Cons p ps)
  then obtain e c1 es1 where s: "impl_step mpsc_send_op mpsc_recv_op mpsc_drain_vec p c = Inr (e, c1)"
    "mpsc_run ps c1 = Inr (es1, c')"
    by auto
  have "(\<forall>j. (mc_tx j c1 = None) = (mc_tx j c = None)) \<and> length (mc_txs c1) = length (mc_txs c)"
    using s(1)
    by (cases p) (auto simp: mpsc_send_op_def mpsc_recv_op_def mpsc_drain_vec_def mpsc_drain_op_def
        mc_tx_def nth_list_update split: option.splits if_splits)
  with Cons.IH [OF s(2)] show ?case by simp
qed

lemma mpsc_reach:
  assumes "is_power_of_two cap" "n < 2 ^ 64 - 2" "sends_within n ps"
  shows "\<exists>c0 c :: 'a mpsc. mpsc_open_n n cap strategy = Inr c0
     \<and> mpsc_run ps c0 = Inr (fst (spec_run ps (fresh_mpsc n cap)), c) \<and> mpsc_inv c
     \<and> mpsc_abs c = snd (spec_run ps (fresh_mpsc n cap))
     \<and> length (mc_txs c) = Suc n \<and> (\<forall>j \<le> n. mc_tx j c \<noteq> None)"
proof -
  obtain c0 :: "'a mpsc" where c0: "mpsc_open_n n cap strategy = Inr c0" "mpsc_inv c0"
    "mpsc_abs c0 = fresh_mpsc n cap" "length (mc_txs c0) = Suc n" "\<forall>j \<le> n. mc_tx j c0 \<noteq> None"
    using mpsc_open_n_inv [OF assms(1,2), where 'a = 'a] by blast
  have "mpsc.admissible ps c0"
    using sends_within_admissible [OF assms(3) c0(5)] by (simp add: c0(3))
  from mpsc.run_refines [OF c0(2) this] obtain c where
    c: "mpsc_run ps c0 = Inr (fst (spec_run ps (fresh_mpsc n cap)), c)" "mpsc_inv c"
      "mpsc_abs c = snd (spec_run ps (fresh_mpsc n cap))"
    unfolding c0(3) by blast
  with c0 mpsc_run_keeps_handles [OF c(1)] show ?thesis by (auto simp del: not_None_eq)
qed

lemma mpsc_reached:
  fixes c :: "'a mpsc"
  assumes "mpsc_open_n n cap strategy = Inr c0" "mpsc_run ps c0 = Inr (es, c)"
    and "n < 2 ^ 64 - 2" "sends_within n ps"
  shows "mpsc_inv c" and "\<forall>j \<le> n. mc_tx j c \<noteq> None" and "length (mc_txs c) = Suc n"
    and "\<exists>rx. mc_rx c = Some rx" and "accepted es = delivered es @ bc_queue (mpsc_abs c)"
    and "bc_senders (mpsc_abs c) = Suc n"
    and "es = fst (spec_run ps (fresh_mpsc n cap))"
    and "mpsc_abs c = snd (spec_run ps (fresh_mpsc n cap))"
proof -
  have "is_power_of_two cap"
    using assms(1) by (auto simp: mpsc_open_n_def mpsc_open_def mpsc_channel_def)
  from mpsc_reach [OF this assms(3,4), of strategy] assms(1,2)
  have r: "es = fst (spec_run ps (fresh_mpsc n cap))" "mpsc_inv c"
    "mpsc_abs c = snd (spec_run ps (fresh_mpsc n cap))" "length (mc_txs c) = Suc n"
    "\<forall>j \<le> n. mc_tx j c \<noteq> None"
    by auto
  then show "mpsc_inv c" "\<forall>j \<le> n. mc_tx j c \<noteq> None" "length (mc_txs c) = Suc n"
    "es = fst (spec_run ps (fresh_mpsc n cap))" "mpsc_abs c = snd (spec_run ps (fresh_mpsc n cap))"
    by auto
  have "bc_rx_live (mpsc_abs c)" using r(3) by (simp add: spec_run_frame)
  then show "\<exists>rx. mc_rx c = Some rx" by (auto simp: mpsc_abs_def)
  show "accepted es = delivered es @ bc_queue (mpsc_abs c)" "bc_senders (mpsc_abs c) = Suc n"
    using spec_run_conserves [of "fresh_mpsc n cap" ps] spec_run_frame [of ps "fresh_mpsc n cap"] r
    by simp_all
qed

section \<open>The queue\<close>

text \<open>
  C13: the MPSC ring is a bounded FIFO queue shared by its producers. For a power-of-two capacity,
  \<open>n + 1\<close> sender handles and every sequence of \<^verbatim>\<open>try_send\<close> calls by any of them, \<^verbatim>\<open>try_recv\<close>
  and \<^verbatim>\<open>drain\<close> calls, whatever spurious failures the weak exchanges have, no call faults and
  every call returns what the bounded queue returns: one global order, the order of the claims.
  The queue has a life-time quota of \<open>2\<^sup>6\<^sup>4 - 1\<close> values, because a sequence number is never
  reused.
\<close>

theorem mpsc_refines_queue:
  fixes ps :: "(nat \<times> nat, 'a) chan_op list"
  assumes "is_power_of_two cap" "n < 2 ^ 64 - 2" "sends_within n ps"
  shows "\<exists>c0 c. mpsc_open_n n cap strategy = Inr c0
     \<and> mpsc_run ps c0 = Inr (fst (spec_run ps (fresh_mpsc n cap)), c)
     \<and> mpsc_abs c = snd (spec_run ps (fresh_mpsc n cap)) \<and> mpsc_inv c"
  using mpsc_reach [OF assms, of strategy] by blast

theorem mpsc_refines_queue_witness:
  "\<exists>c0 c. mpsc_open_n 1 2 Backoff = Inr c0
     \<and> mpsc_run [OpSend (0, 0) (7 :: nat), OpSend (1, 3) 8, OpSend (0, 0) 9, OpRecv, OpDrain 5] c0
       = Inr ([EvSend (0, 0) 7 (Ok ()), EvSend (1, 3) 8 (Ok ()), EvSend (0, 0) 9 (Err (Full 9)),
               EvRecv (Ok 7), EvDrain [8]], c)
     \<and> bc_queue (mpsc_abs c) = []"
proof -
  let ?ps = "[OpSend (0 :: nat, 0 :: nat) (7 :: nat), OpSend (1, 3) 8, OpSend (0, 0) 9, OpRecv, OpDrain 5]"
  have cap: "is_power_of_two 2" by code_simp
  have n: "(1 :: nat) < 2 ^ 64 - 2" by simp
  have s: "sends_within 1 ?ps" by (simp add: sends_within_def)
  from mpsc_refines_queue [OF cap n s, of Backoff] obtain c0 c where r: "mpsc_open_n 1 2 Backoff = Inr c0"
    "mpsc_run ?ps c0 = Inr (fst (spec_run ?ps (fresh_mpsc 1 2)), c)"
    "mpsc_abs c = snd (spec_run ?ps (fresh_mpsc 1 2))"
    by (elim exE conjE)
  have "spec_run ?ps (fresh_mpsc 1 2) =
      ([EvSend (0, 0) 7 (Ok ()), EvSend (1, 3) 8 (Ok ()), EvSend (0, 0) 9 (Err (Full 9)),
        EvRecv (Ok 7), EvDrain [8]], (fresh_mpsc 1 2)\<lparr>bc_quota := Some (2 ^ 64 - 3)\<rparr>)"
    by (simp add: spec_try_send_def spec_try_recv_def spec_drain_def)
  with r show ?thesis
    by (intro exI [of _ c0] exI [of _ c]) (simp del: impl_run.simps)
qed



text \<open>
  Spurious failures of the weak exchange are invisible. However often the exchange fails, a
  send has the same result and the same effect as one whose exchange succeeds at once; the
  back-off between the failures doubles from 1 to 64 spins and stays there.
\<close>

theorem mpsc_spurious_failures_invisible:
  assumes "mpsc_open_n n cap strategy = Inr c0" "mpsc_run ps c0 = Inr (es, c)"
    and "n < 2 ^ 64 - 2" "sends_within n ps"
  shows "mpsc_send_op (i, k) v c = mpsc_send_op (i, 0) v c
     \<and> (\<forall>tx seq sh' tx' spins. mc_tx i c = Some tx
          \<and> mpsc_claim_loop (mc_shared c) k (mp_claim (mc_shared c)) 1 tx [] = (Some seq, sh', tx', spins)
          \<longrightarrow> spins = map (\<lambda>j. of_nat (min (2 ^ j) 64)) [0..<k])"
proof -
  have inv: "mpsc_inv c" using mpsc_reached [OF assms] by blast
  have t: "mpsc_shared_inv (mc_shared c)" "mpsc_tx_inv (mc_shared c) tx" if "mc_tx i c = Some tx" for tx
    using inv mc_tx_mem [OF that] by (auto simp: mpsc_inv_def)
  have "mpsc_send_op (i, k) v c = mpsc_send_op (i, 0) v c"
  proof (cases "mc_tx i c")
    case (Some tx)
    then show ?thesis
      by (simp add: mpsc_send_op_def mpsc_try_send_def mpsc_claim_loop_result [OF t] Let_def)
  qed (simp add: mpsc_send_op_def)
  moreover have "spins = backoff_spins k 1"
    if "mc_tx i c = Some tx"
      "mpsc_claim_loop (mc_shared c) k (mp_claim (mc_shared c)) 1 tx [] = (Some seq, sh', tx', spins)"
    for tx seq sh' tx' spins
    using that mpsc_claim_loop_result [OF t(1) t(2), OF that(1) that(1), of k 1 "[]"]
    by (auto simp: Let_def split: if_splits)
  ultimately show ?thesis
    using backoff_spins_closed by metis
qed

theorem mpsc_spurious_failures_invisible_witness:
  "\<exists>c0 es c. mpsc_open_n 0 1 BusySpin = Inr c0 \<and> mpsc_run [OpSend (0, 0) (7 :: nat), OpRecv] c0 = Inr (es, c)
     \<and> mpsc_send_op (0, 9) 8 c = mpsc_send_op (0, 0) 8 c"
proof -
  let ?ps = "[OpSend (0 :: nat, 0 :: nat) (7 :: nat), OpRecv]"
  have cap: "is_power_of_two 1" by code_simp
  have n: "(0 :: nat) < 2 ^ 64 - 2" by simp
  have s: "sends_within 0 ?ps" by (simp add: sends_within_def)
  from mpsc_reach [OF cap n s, of BusySpin] obtain c0 c where r: "mpsc_open_n 0 1 BusySpin = Inr c0"
    "mpsc_run ?ps c0 = Inr (fst (spec_run ?ps (fresh_mpsc 0 1)), c)"
    by (elim exE conjE)
  from mpsc_spurious_failures_invisible [OF r n s, of 0 9 8] r show ?thesis by blast
qed

section \<open>Values and handles\<close>

text \<open>Dropping several sender handles; the values that the ring destroys are collected.\<close>

fun mpsc_drop_txs :: "nat list \<Rightarrow> 'a mpsc \<Rightarrow> ('a list \<times> 'a mpsc) outcome" where
  "mpsc_drop_txs [] c = Inr ([], c)"
| "mpsc_drop_txs (i # js) c =
     obind (mpsc_drop_tx i c) (\<lambda>(d, c1). obind (mpsc_drop_txs js c1) (\<lambda>(e, c2). Inr (d @ e, c2)))"

lemma mpsc_drop_txs_rx_live:
  assumes "mpsc_inv c" "mc_rx c \<noteq> None" "distinct js" "\<forall>i \<in> set js. mc_tx i c \<noteq> None"
  shows "\<exists>c'. mpsc_drop_txs js c = Inr ([], c') \<and> mpsc_inv c' \<and> mc_rx c' = mc_rx c
     \<and> bc_queue (mpsc_abs c') = bc_queue (mpsc_abs c) \<and> bc_senders (mpsc_abs c') + length js = live_senders c"
  using assms
proof (induction js arbitrary: c)
  case Nil
  then show ?case by (simp add: mpsc_abs_def)
next
  case (Cons i js)
  obtain tx where tx: "mc_tx i c = Some tx" using Cons.prems(4) by auto
  from mpsc_drop_tx_correct [OF Cons.prems(1) tx] Cons.prems(2) obtain c1 where
    c1: "mpsc_drop_tx i c = Inr ([], c1)" "mpsc_inv c1"
      "mpsc_abs c1 = (mpsc_abs c)\<lparr>bc_senders := live_senders c - 1\<rparr>"
      "mc_txs c1 = (mc_txs c)[i := None]" "mc_rx c1 = mc_rx c"
    by auto
  have "\<forall>j \<in> set js. mc_tx j c1 \<noteq> None"
    using Cons.prems(3,4) mc_tx_update [OF _ c1(4)] mc_tx_mem [OF tx] by auto
  with Cons.IH [of c1] c1 Cons.prems obtain c' where
    "mpsc_drop_txs js c1 = Inr ([], c')" "mpsc_inv c'" "mc_rx c' = mc_rx c"
    "bc_queue (mpsc_abs c') = bc_queue (mpsc_abs c)"
    "bc_senders (mpsc_abs c') + length js = live_senders c1"
    by auto
  moreover have "live_senders c1 = live_senders c - 1"
    using arg_cong [OF c1(3), of bc_senders] by (simp add: mpsc_abs_def)
  moreover have "0 < live_senders c" using live_senders_drop [OF tx] by linarith
  ultimately show ?case
    using c1 by auto
qed

lemma mpsc_drop_txs_last:
  assumes "mpsc_inv c" "mc_rx c = None" "distinct js" "\<forall>i \<in> set js. mc_tx i c \<noteq> None"
    and "length js = live_senders c" "js \<noteq> []"
  shows "\<exists>c'. mpsc_drop_txs js c = Inr (bc_queue (mpsc_abs c), c')
     \<and> \<not> list_ex is_live (mpsc_cells (mc_shared c'))"
  using assms
proof (induction js arbitrary: c)
  case Nil
  then show ?case by simp
next
  case (Cons i js)
  obtain tx where tx: "mc_tx i c = Some tx" using Cons.prems(4) by auto
  note d = mpsc_drop_tx_correct [OF Cons.prems(1) tx]
  show ?case
  proof (cases "js = []")
    case True
    with d Cons.prems show ?thesis by auto
  next
    case False
    with Cons.prems(5) have "live_senders c \<noteq> 1" by (cases js) auto
    with d obtain c1 where
      c1: "mpsc_drop_tx i c = Inr ([], c1)" "mpsc_inv c1"
        "mpsc_abs c1 = (mpsc_abs c)\<lparr>bc_senders := live_senders c - 1\<rparr>"
        "mc_txs c1 = (mc_txs c)[i := None]" "mc_rx c1 = mc_rx c"
      by auto
    have "\<forall>j \<in> set js. mc_tx j c1 \<noteq> None"
      using Cons.prems(3,4) mc_tx_update [OF _ c1(4)] mc_tx_mem [OF tx] by auto
    moreover have "live_senders c1 = live_senders c - 1"
      using arg_cong [OF c1(3), of bc_senders] by (simp add: mpsc_abs_def)
    ultimately show ?thesis
      using Cons.IH [of c1] c1 Cons.prems False by auto
  qed
qed

text \<open>
  C16: nothing is lost, duplicated, reordered or forgotten. After every program of \<open>n + 1\<close>
  producers and after dropping all the handles, the senders first or the receiver first, the
  accepted values, in the order of their claims, are the delivered ones followed by those that
  the ring's \<^verbatim>\<open>Drop\<close> destroys, and no live value stays in a slot. (The loop of \<^verbatim>\<open>Drop\<close> ends.)
\<close>

theorem mpsc_every_value_once:
  assumes "mpsc_open_n n cap strategy = Inr c0" "mpsc_run ps c0 = Inr (es, c)"
    and "n < 2 ^ 64 - 2" "sends_within n ps"
  shows "(\<exists>c1 d c2. mpsc_drop_txs [0..<Suc n] c = Inr ([], c1) \<and> mpsc_drop_rx c1 = Inr (d, c2)
            \<and> accepted es = delivered es @ d \<and> \<not> list_ex is_live (mpsc_cells (mc_shared c2)))
       \<and> (\<exists>c1 d c2. mpsc_drop_rx c = Inr ([], c1) \<and> mpsc_drop_txs [0..<Suc n] c1 = Inr (d, c2)
            \<and> accepted es = delivered es @ d \<and> \<not> list_ex is_live (mpsc_cells (mc_shared c2)))"
proof (rule conjI)
  note reached = mpsc_reached [OF assms]
  obtain rx where rx: "mc_rx c = Some rx" using reached(4) by blast
  have live: "live_senders c = Suc n" using reached(6) by (simp add: mpsc_abs_def)
  have all: "\<forall>i \<in> set [0..<Suc n]. mc_tx i c \<noteq> None"
    using reached(2) by (simp add: less_Suc_eq_le)
  from mpsc_drop_txs_rx_live [OF reached(1) _ _ all] rx live obtain c1 where
    c1: "mpsc_drop_txs [0..<Suc n] c = Inr ([], c1)" "mpsc_inv c1" "mc_rx c1 = Some rx"
      "bc_queue (mpsc_abs c1) = bc_queue (mpsc_abs c)" "live_senders c1 = 0"
    by (auto simp: mpsc_abs_def simp del: upt_Suc)
  from mpsc_drop_rx_correct [OF c1(2,3)] c1 reached(5)
  show "\<exists>c1 d c2. mpsc_drop_txs [0..<Suc n] c = Inr ([], c1) \<and> mpsc_drop_rx c1 = Inr (d, c2)
            \<and> accepted es = delivered es @ d \<and> \<not> list_ex is_live (mpsc_cells (mc_shared c2))"
    by auto
  from mpsc_drop_rx_correct [OF reached(1) rx] live obtain d1 where
    d1: "mpsc_drop_rx c = Inr ([], d1)" "mpsc_inv d1" "mpsc_abs d1 = (mpsc_abs c)\<lparr>bc_rx_live := False\<rparr>"
      "mc_txs d1 = mc_txs c" "mc_rx d1 = None"
    by auto
  have "\<forall>i \<in> set [0..<Suc n]. mc_tx i d1 \<noteq> None" "live_senders d1 = Suc n"
    using all live mc_txs_cong [OF d1(4)] by simp_all
  with mpsc_drop_txs_last [OF d1(2,5), of "[0..<Suc n]"] d1 reached(5)
  show "\<exists>c1 d c2. mpsc_drop_rx c = Inr ([], c1) \<and> mpsc_drop_txs [0..<Suc n] c1 = Inr (d, c2)
            \<and> accepted es = delivered es @ d \<and> \<not> list_ex is_live (mpsc_cells (mc_shared c2))"
    by (auto simp del: upt_Suc)
qed

theorem mpsc_every_value_once_witness:
  "\<exists>c0 es c c1 d c2. mpsc_open_n 1 4 BusySpin = Inr c0
     \<and> mpsc_run [OpSend (0, 0) (1 :: nat), OpSend (1, 0) 2, OpRecv, OpSend (1, 1) 3] c0 = Inr (es, c)
     \<and> mpsc_drop_rx c = Inr ([], c1) \<and> mpsc_drop_txs [0..<Suc 1] c1 = Inr (d, c2)
     \<and> accepted es = delivered es @ d"
proof -
  let ?ps = "[OpSend (0 :: nat, 0 :: nat) (1 :: nat), OpSend (1, 0) 2, OpRecv, OpSend (1, 1) 3]"
  have cap: "is_power_of_two 4" by code_simp
  have n: "(1 :: nat) < 2 ^ 64 - 2" by simp
  have s: "sends_within 1 ?ps" by (simp add: sends_within_def)
  from mpsc_reach [OF cap n s, of BusySpin] obtain c0 c where r: "mpsc_open_n 1 4 BusySpin = Inr c0"
    "mpsc_run ?ps c0 = Inr (fst (spec_run ?ps (fresh_mpsc 1 4)), c)"
    by (elim exE conjE)
  from mpsc_every_value_once [OF r n s] r show ?thesis by blast
qed

text \<open>
  The channel disconnects only when every sender is gone, and then loses nothing. After every
  program of \<open>n + 1\<close> producers and the drop of all their handles the receiver gets the remaining
  values in order and then \<^verbatim>\<open>Disconnected\<close> for ever; while one handle is left, an empty
  channel reports \<^verbatim>\<open>Empty\<close>.
\<close>

theorem mpsc_disconnect_drains:
  assumes "mpsc_open_n n cap strategy = Inr c0" "mpsc_run ps c0 = Inr (es, c)"
    and "n < 2 ^ 64 - 2" "sends_within n ps"
  shows "\<exists>rest c1 c2. accepted es = delivered es @ rest \<and> mpsc_drop_txs [0..<Suc n] c = Inr ([], c1)
     \<and> mpsc_run (replicate (length rest + m) OpRecv) c1
         = Inr (map (\<lambda>v. EvRecv (Ok v)) rest @ replicate m (EvRecv (Err RecvDisconnected)), c2)
     \<and> (\<exists>d1 d2. mpsc_drop_txs [0..<n] c = Inr ([], d1)
          \<and> (rest = [] \<longrightarrow> mpsc_recv_op d1 = Inr (Err Empty, d2)))"
proof -
  note reached = mpsc_reached [OF assms]
  obtain rx where rx: "mc_rx c = Some rx" using reached(4) by blast
  have live: "live_senders c = Suc n" using reached(6) by (simp add: mpsc_abs_def)
  have all: "\<forall>i \<in> set [0..<Suc n]. mc_tx i c \<noteq> None" "\<forall>i \<in> set [0..<n]. mc_tx i c \<noteq> None"
    using reached(2) by (simp_all add: less_Suc_eq_le)
  from mpsc_drop_txs_rx_live [OF reached(1) _ _ all(1)] rx live obtain c1 where
    c1: "mpsc_drop_txs [0..<Suc n] c = Inr ([], c1)" "mpsc_inv c1" "mc_rx c1 = Some rx"
      "bc_queue (mpsc_abs c1) = bc_queue (mpsc_abs c)" "bc_senders (mpsc_abs c1) = 0"
    by (auto simp del: upt_Suc)
  have "bc_rx_live (mpsc_abs c1)" using c1(3) by (simp add: mpsc_abs_def)
  from mpsc.disconnect_drains [OF c1(2) this c1(5), of m] obtain c2 where
    c2: "mpsc_run (replicate (length (bc_queue (mpsc_abs c)) + m) OpRecv) c1
      = Inr (map (\<lambda>v. EvRecv (Ok v)) (bc_queue (mpsc_abs c))
             @ replicate m (EvRecv (Err RecvDisconnected)), c2)"
    by (auto simp: c1(4))
  from mpsc_drop_txs_rx_live [OF reached(1) _ _ all(2)] rx live obtain d1 where
    d1: "mpsc_drop_txs [0..<n] c = Inr ([], d1)" "mpsc_inv d1" "mc_rx d1 = Some rx"
      "bc_queue (mpsc_abs d1) = bc_queue (mpsc_abs c)" "bc_senders (mpsc_abs d1) = 1"
    by auto
  have "bc_rx_live (mpsc_abs d1)" using d1(3) by (simp add: mpsc_abs_def)
  from mpsc_recv_op_correct [OF d1(2) this] have
    "\<exists>d2. bc_queue (mpsc_abs c) = [] \<longrightarrow> mpsc_recv_op d1 = Inr (Err Empty, d2)"
    by (auto simp: spec_try_recv_def d1(4,5))
  with c1(1) c2 d1(1) reached(5) show ?thesis by blast
qed

theorem mpsc_disconnect_drains_witness:
  "\<exists>c0 es c rest c1 c2. mpsc_open_n 1 4 Park = Inr c0
     \<and> mpsc_run [OpSend (0, 0) (1 :: nat), OpSend (1, 0) 2, OpRecv] c0 = Inr (es, c)
     \<and> accepted es = delivered es @ rest \<and> mpsc_drop_txs [0..<Suc 1] c = Inr ([], c1)
     \<and> mpsc_run (replicate (length rest + 2) OpRecv) c1
         = Inr (map (\<lambda>v. EvRecv (Ok v)) rest @ replicate 2 (EvRecv (Err RecvDisconnected)), c2)"
proof -
  let ?ps = "[OpSend (0 :: nat, 0 :: nat) (1 :: nat), OpSend (1, 0) 2, OpRecv]"
  have cap: "is_power_of_two 4" by code_simp
  have n: "(1 :: nat) < 2 ^ 64 - 2" by simp
  have s: "sends_within 1 ?ps" by (simp add: sends_within_def)
  from mpsc_reach [OF cap n s, of Park] obtain c0 c where r: "mpsc_open_n 1 4 Park = Inr c0"
    "mpsc_run ?ps c0 = Inr (fst (spec_run ?ps (fresh_mpsc 1 4)), c)"
    by (elim exE conjE)
  from mpsc_disconnect_drains [OF r n s, of 2] r show ?thesis by blast
qed

section \<open>The end of the sequence numbers\<close>

lemma spec_run_ping_pong_quota:
  assumes "0 < unat cap" "n \<le> q"
  shows "\<exists>es. spec_run (concat (replicate n [OpSend p v, OpRecv])) ((fresh_bchan cap)\<lparr>bc_quota := Some q\<rparr>)
      = (es, (fresh_bchan cap)\<lparr>bc_quota := Some (q - n)\<rparr>)"
  using assms(2)
proof (induction n arbitrary: q)
  case 0
  show ?case by simp
next
  case (Suc n)
  then have "n \<le> q - 1" "0 < q" "q - 1 - n = q - Suc n" by auto
  with Suc.IH [of "q - 1"] assms(1) show ?case
    by (auto simp: spec_try_send_def spec_try_recv_def Let_def split: prod.splits)
qed

text \<open>
  C17: after \<open>2\<^sup>6\<^sup>4 - 1\<close> accepted values the channel is full for ever. The saturating bound of the
  claim test never lets the sequence number \<open>2\<^sup>6\<^sup>4 - 1\<close> be claimed: a program that sends and
  receives that many values ends with an empty, connected ring on which every further send, of
  any value, returns \<^verbatim>\<open>Full\<close> (on a 32-bit target after \<open>2\<^sup>3\<^sup>2 - 1\<close> values).
\<close>

theorem mpsc_full_for_ever:
  assumes "is_power_of_two cap"
  shows "\<exists>ps c0 es c. mpsc_open_n 0 cap strategy = Inr c0 \<and> mpsc_run ps c0 = Inr (es, c)
     \<and> length ps = 2 * (2 ^ 64 - 1) \<and> mpsc_recv_op c = Inr (Err Empty, c)
     \<and> (\<forall>w :: 'a. \<exists>c'. mpsc_send_op (0, k) w c = Inr (Err (Full w), c'))"
proof -
  define n :: nat where "n = 2 ^ 64 - 1"
  obtain v :: 'a where True by blast
  let ?ps = "concat (replicate n [OpSend (0 :: nat, 0 :: nat) v, OpRecv])"
  have s: "sends_within 0 ?ps" by (simp add: sends_within_def list_all_iff)
  have z: "(0 :: nat) < 2 ^ 64 - 2" by simp
  have f: "fresh_mpsc 0 cap = (fresh_bchan cap)\<lparr>bc_quota := Some n\<rparr>" by (simp add: n_def)
  obtain es where sp: "spec_run ?ps (fresh_mpsc 0 cap) = (es, (fresh_bchan cap)\<lparr>bc_quota := Some 0\<rparr>)"
    using spec_run_ping_pong_quota [OF is_power_of_two_pos [OF assms] order_refl, of n "(0, 0)" v]
    unfolding f by auto
  from mpsc_reach [OF assms z s, of strategy] obtain c0 c where
    r: "mpsc_open_n 0 cap strategy = Inr c0" "mpsc_run ?ps c0 = Inr (es, c)" "mpsc_inv c"
      "mpsc_abs c = (fresh_bchan cap)\<lparr>bc_quota := Some 0\<rparr>" "mc_tx 0 c \<noteq> None"
    unfolding sp fst_conv snd_conv by blast
  obtain tx where tx: "mc_tx (fst (0, k)) c = Some tx" using r(5) by auto
  have send: "\<exists>c'. mpsc_send_op (0, k) w c = Inr (Err (Full w), c')" for w
    using mpsc_send_op_correct [OF r(3) tx, of w] by (auto simp: r(4) spec_try_send_def)
  obtain rx where rx: "mc_rx c = Some rx" using r(4) by (auto simp: mpsc_abs_def)
  have q: "mpsc_queue (mc_shared c) (mp_head (mc_shared c)) = []" "mp_senders (mc_shared c) \<noteq> 0"
    using r(3,4) by (auto simp: mpsc_abs_def mpsc_inv_def)
  have "slot_published (mc_shared c) (mrx_head rx) = Inr False"
    using mpsc_published_abs [OF r(3) rx] by (simp add: r(4))
  then have "mpsc_recv_op c = Inr (Err Empty, c)"
    using q rx by (simp add: mpsc_recv_op_def mpsc_try_recv_def)
  moreover have "length ?ps = 2 * n"
    by (simp add: length_concat sum_list_replicate map_replicate)
  then have "length ?ps = 2 * (2 ^ 64 - 1)" by (simp only: n_def)
  ultimately show ?thesis
    using r(1,2) send by blast
qed

theorem mpsc_full_for_ever_witness:
  "\<exists>ps c0 es c. mpsc_open_n 0 1 Park = Inr c0 \<and> mpsc_run ps c0 = Inr (es, c)
     \<and> length ps = 2 * (2 ^ 64 - 1) \<and> mpsc_recv_op c = Inr (Err Empty, c)
     \<and> (\<forall>w :: nat. \<exists>c'. mpsc_send_op (0, 4) w c = Inr (Err (Full w), c'))"
proof -
  have "is_power_of_two 1" by code_simp
  then show ?thesis by (rule mpsc_full_for_ever)
qed

text \<open>
  The round numbers. On a channel of capacity \<open>cap\<close> the shift computes \<open>seq / cap\<close>, no
  sequence number that can be claimed has the round \<open>-1\<close> of a slot that was never published,
  and two different claimable numbers of the same slot have different rounds, so a stale slot is
  never taken for a published one.
\<close>

theorem mpsc_round_numbers:
  assumes "mpsc_open cap strategy = Inr c"
    and "unat seq < 2 ^ 64 - 1" "unat seq' < 2 ^ 64 - 1"
  shows "unat (round_of (mc_shared c) seq) = unat seq div unat cap
     \<and> round_of (mc_shared c) seq \<noteq> - 1
     \<and> (seq AND mp_mask (mc_shared c) = seq' AND mp_mask (mc_shared c)
          \<and> round_of (mc_shared c) seq = round_of (mc_shared c) seq' \<longrightarrow> seq = seq')"
proof -
  have cap: "is_power_of_two cap"
    using assms(1) by (auto simp: mpsc_open_def mpsc_channel_def)
  then have m: "mp_mask (mc_shared c) = cap - 1" "mp_shift (mc_shared c) = trailing_zeros cap"
    using assms(1)
    by (auto simp: mpsc_open_def mpsc_channel_def assert_cap_cases pow2_trailing_zeros Let_def)
  have r: "unat (round_of (mc_shared c) x) = unat x div unat cap" for x
    using unat_shift_round [OF cap, of "mp_shift (mc_shared c)" x] by (simp add: round_of_def m)
  have "unat seq div unat cap < 2 ^ 64 - 1"
    using assms(2) by (meson div_le_dividend le_less_trans)
  then have "unat (round_of (mc_shared c) seq) \<noteq> unat usize_max"
    unfolding r unat_usize_max by simp
  then have "round_of (mc_shared c) seq \<noteq> - 1" by metis
  moreover have "seq = seq'"
    if "seq AND mp_mask (mc_shared c) = seq' AND mp_mask (mc_shared c)"
      "round_of (mc_shared c) seq = round_of (mc_shared c) seq'"
  proof -
    have "unat seq mod unat cap = unat seq' mod unat cap"
      using that(1) unat_mask_index [OF cap] by (metis m(1))
    moreover have "unat seq div unat cap = unat seq' div unat cap"
      using that(2) r by metis
    ultimately show ?thesis
      using mod_div_inject by (metis word_unat_eq_iff)
  qed
  ultimately show ?thesis
    using r by blast
qed

theorem mpsc_round_numbers_witness:
  "\<exists>c :: nat mpsc. mpsc_open 4 Park = Inr c \<and> unat (round_of (mc_shared c) 9) = unat (9 :: usize) div unat (4 :: usize)
     \<and> round_of (mc_shared c) 9 \<noteq> - 1"
proof -
  have "is_power_of_two 4" by code_simp
  then obtain c :: "nat mpsc" where c: "mpsc_open 4 Park = Inr c"
    using mpsc_open_inv [of 4 Park] by blast
  have "unat (9 :: usize) < 2 ^ 64 - 1" by simp
  from mpsc_round_numbers [OF c this this] c show ?thesis by blast
qed

section \<open>Draining with a closure that may panic\<close>

text \<open>
  \<^verbatim>\<open>drain\<close> with any closure, also one that panics part-way: exactly the \<open>k\<close> values the closure
  was called on leave the ring, in order; on both exits the published head is the receiver's.
\<close>

theorem mpsc_drain_any_closure:
  assumes "mpsc_open_n n cap strategy = Inr c0" "mpsc_run ps c0 = Inr (es, c)"
    and "n < 2 ^ 64 - 2" "sends_within n ps"
    and "feed f (unat mx) (bc_queue (mpsc_abs c)) s = (panicked, k, s')"
  shows "\<exists>c'. mpsc_drain_op mx f s c = Inr (if panicked then Unwound else Returned (of_nat k), s', c')
     \<and> bc_queue (mpsc_abs c') = drop k (bc_queue (mpsc_abs c))
     \<and> map_option mrx_head (mc_rx c') = Some (mp_head (mc_shared c')) \<and> mpsc_inv c'"
proof -
  note reached = mpsc_reached [OF assms(1-4)]
  have "bc_rx_live (mpsc_abs c)" using reached(4) by (auto simp: mpsc_abs_def)
  from mpsc_drain_op_correct [OF reached(1) this assms(5)] obtain c' where
    d: "mpsc_drain_op mx f s c = Inr (if panicked then Unwound else Returned (of_nat k), s', c')"
      "mpsc_inv c'" "mpsc_abs c' = (mpsc_abs c)\<lparr>bc_queue := drop k (bc_queue (mpsc_abs c))\<rparr>"
    by blast
  obtain rx where "mc_rx c' = Some rx"
    using d(3) \<open>bc_rx_live (mpsc_abs c)\<close> by (auto simp: mpsc_abs_def)
  with d(2) have "map_option mrx_head (mc_rx c') = Some (mp_head (mc_shared c'))"
    by (auto simp: mpsc_inv_def mpsc_rx_inv_def)
  with d show ?thesis by simp
qed

theorem mpsc_drain_any_closure_witness:
  "\<exists>c0 es c c'. mpsc_open_n 0 4 BusySpin = Inr c0
     \<and> mpsc_run [OpSend (0, 0) (1 :: nat), OpSend (0, 0) 2, OpSend (0, 0) 3] c0 = Inr (es, c)
     \<and> mpsc_drain_op 8 (\<lambda>v s. (v = 2, s @ [v])) [] c = Inr (Unwound, [1, 2], c')
     \<and> bc_queue (mpsc_abs c') = [3]"
proof -
  let ?ps = "[OpSend (0 :: nat, 0 :: nat) (1 :: nat), OpSend (0, 0) 2, OpSend (0, 0) 3]"
  have cap: "is_power_of_two 4" by code_simp
  have n: "(0 :: nat) < 2 ^ 64 - 2" by simp
  have s: "sends_within 0 ?ps" by (simp add: sends_within_def)
  from mpsc_reach [OF cap n s, of BusySpin] obtain c0 c where r: "mpsc_open_n 0 4 BusySpin = Inr c0"
    "mpsc_run ?ps c0 = Inr (fst (spec_run ?ps (fresh_mpsc 0 4)), c)"
    "mpsc_abs c = snd (spec_run ?ps (fresh_mpsc 0 4))"
    by (elim exE conjE)
  then have q: "bc_queue (mpsc_abs c) = [1, 2, 3]"
    by (simp add: spec_try_send_def)
  have u: "unat (8 :: usize) = Suc (Suc 6)" by simp
  have "feed (\<lambda>v s. (v = 2, s @ [v])) (unat (8 :: usize)) (bc_queue (mpsc_abs c)) []
      = (True, 2, [1, 2])"
    unfolding q u feed.simps Let_def prod.case by simp
  from mpsc_drain_any_closure [OF r(1,2) n s this] obtain c'
    where "mpsc_drain_op 8 (\<lambda>v s. (v = 2, s @ [v])) [] c = Inr (Unwound, [1, 2], c')"
      "bc_queue (mpsc_abs c') = [3]"
    by (auto simp: q)
  with r(1,2) show ?thesis by blast
qed

text \<open>
  C18: a panicking closure can strand parked senders here too. Ring full, \<^verbatim>\<open>Park\<close>: the sender
  (thread 7) is on the waiter list and sleeps; the receiver drains everything, its closure panics
  on the last value, the unwinding publishes the head but skips \<^verbatim>\<open>wake_producers\<close>; a receiver
  (thread 8) that goes on with \<^verbatim>\<open>recv\<close> sleeps as well, and neither park can return.
\<close>

definition mpsc_panic_run :: "(nat list \<times> bool \<times> bool \<times> bool \<times> bool) outcome" where
  "mpsc_panic_run =
     (case mpsc_open 2 Park of Inl e \<Rightarrow> Inl e | Inr c0 \<Rightarrow>
     (case mpsc_run [OpSend (0, 0) 1, OpSend (0, 0) 2] c0 of Inl e \<Rightarrow> Inl e | Inr (_, c1) \<Rightarrow>
     (case mpsc_send_wait 7 (3, for_strategy Park, c1) of
        Inl e \<Rightarrow> Inl e | Inr (sleeps, (v, i, c2)) \<Rightarrow>
     (case mpsc_drain_op 8 (\<lambda>v s. (v = 2, s)) () c2 of Inl e \<Rightarrow> Inl e | Inr (_, _, c3) \<Rightarrow>
     (case mpsc_recv_attempt (for_strategy Park, c3) of Inl e \<Rightarrow> Inl e | Inr (_, s4) \<Rightarrow>
     (case mpsc_recv_wait 8 s4 of Inl e \<Rightarrow> Inl e | Inr (sleeps', (j, c5)) \<Rightarrow>
       Inr (mpsc_queue (mc_shared c5) (mp_head (mc_shared c5)), sleeps, sleeps',
            Option.is_none (mpsc_send_resume 7 (v, i, c5)),
            Option.is_none (mpsc_recv_resume 8 (j, c5)))))))))"


section \<open>The blocking methods\<close>

lemma spec_step_quota:
  "bc_quota c = Some q \<Longrightarrow> \<exists>q'. bc_quota (snd (spec_step p c)) = Some q' \<and> q \<le> q' + 1"
  by (cases p) (auto simp: spec_try_send_def spec_try_recv_def spec_drain_def Let_def split: list.splits)

lemma spec_run_quota:
  "bc_quota c = Some q \<Longrightarrow> \<exists>q'. bc_quota (snd (spec_run ps c)) = Some q' \<and> q \<le> q' + length ps"
proof (induction ps arbitrary: c q)
  case Nil
  then show ?case by simp
next
  case (Cons p ps)
  from spec_step_quota [OF Cons.prems, of p] obtain q1 where
    "bc_quota (snd (spec_step p c)) = Some q1" "q \<le> q1 + 1" by blast
  with Cons.IH [OF this(1)] show ?case by (fastforce split: prod.splits)
qed

lemma mpsc_reached_claim:
  assumes "mpsc_open_n n cap strategy = Inr c0" "mpsc_run ps c0 = Inr (es, c)"
    and "n < 2 ^ 64 - 2" "sends_within n ps"
  shows "unat (mp_claim (mc_shared c)) \<le> length ps"
proof -
  have "bc_quota (fresh_mpsc n cap) = Some (2 ^ 64 - 1)" by simp
  from spec_run_quota [OF this, of ps] obtain q where q: "bc_quota (mpsc_abs c) = Some q"
    "2 ^ 64 - 1 \<le> q + length ps"
    unfolding mpsc_reached(8) [OF assms] by blast
  then have "q = 2 ^ 64 - 1 - unat (mp_claim (mc_shared c))" by (simp add: mpsc_abs_def)
  with q(2) usize_bound [of "mp_claim (mc_shared c)"] show ?thesis by simp
qed






section \<open>Every operation keeps the channel well formed\<close>



end
