(* ===== verification/Sharded.thy ===== *)
theory Sharded
  imports Spsc_Blocking
begin

text \<open>
  The sharded channel (\<^verbatim>\<open>src/sharded.rs\<close>): one spsc ring per producer and a receiver that sweeps
  them with a sticky cursor. The state holds the rings (each with its two handles: the sender's
  belongs to one producer, the receiver's to the sharded receiver) and the receiver's own
  fields. Everything about a ring is taken from the interpretation \<open>spsc\<close> of \<open>bounded_channel\<close>;
  the sweep is proved against closed forms over the list of abstract queues.
\<close>

section \<open>State and constructor\<close>

definition VISIT_BUDGET :: usize where
  "VISIT_BUDGET = 32"

record 'a sharded =
  sd_shards :: "'a spsc list"
  sd_cursor :: usize
  sd_budget :: usize
  sd_strategy :: wait_strategy

definition uneven_message :: "usize \<Rightarrow> usize \<Rightarrow> string" where
  "uneven_message n_shards total_cap =
     ''total_cap '' @ fmt_usize total_cap @ '' must divide evenly into '' @ fmt_usize n_shards @ '' shards''"

definition per_shard_message :: "usize \<Rightarrow> usize \<Rightarrow> usize \<Rightarrow> string" where
  "per_shard_message per_shard n_shards total_cap =
     ''per-shard capacity '' @ fmt_usize per_shard @ '' (= '' @ fmt_usize total_cap @ '' / '' @
     fmt_usize n_shards @ '') must be a positive power of two''"

definition park_message :: string where
  "park_message =
     ''sharded::channel does not support WaitStrategy::Park: there is no '' @
     ''cross-shard parker, so a consumer parked on one shard would sleep '' @
     ''through the others' publishes. Use BusySpin, Backoff, or '' @
     ''BackoffYield (all self-waking).''"

fun sharded_rings :: "nat \<Rightarrow> usize \<Rightarrow> wait_strategy \<Rightarrow> 'a spsc list outcome" where
  "sharded_rings 0 per_shard strategy = Inr []"
| "sharded_rings (Suc k) per_shard strategy =
     (case spsc_open per_shard strategy of
        Inl e \<Rightarrow> Inl e
      | Inr c \<Rightarrow> (case sharded_rings k per_shard strategy of Inl e \<Rightarrow> Inl e | Inr cs \<Rightarrow> Inr (c # cs)))"

definition sharded_channel :: "usize \<Rightarrow> usize \<Rightarrow> wait_strategy \<Rightarrow> 'a sharded outcome" where
  "sharded_channel n_shards total_cap strategy =
     (if \<not> n_shards > 0 then Inl (Panic ''n_shards must be positive'')
      else if total_cap mod n_shards \<noteq> 0 then Inl (Panic (uneven_message n_shards total_cap))
      else
        let per_shard = total_cap div n_shards
        in if \<not> (per_shard > 0 \<and> is_power_of_two per_shard)
           then Inl (Panic (per_shard_message per_shard n_shards total_cap))
           else if strategy = Park then Inl (Panic park_message)
           else
             (case sharded_rings (unat n_shards) per_shard strategy of
                Inl e \<Rightarrow> Inl e
              | Inr shards \<Rightarrow>
                  Inr \<lparr>sd_shards = shards, sd_cursor = 0, sd_budget = 0, sd_strategy = strategy\<rparr>))"

section \<open>The senders\<close>

text \<open>A call through the \<open>i\<close>-th sender, the owner of shard \<open>i\<close>.\<close>

definition on_shard :: "nat \<Rightarrow> ('a spsc \<Rightarrow> ('r \<times> 'a spsc) outcome) \<Rightarrow> 'a sharded \<Rightarrow>
     ('r \<times> 'a sharded) outcome" where
  "on_shard i f s =
     (if i < length (sd_shards s) then
        (case f (sd_shards s ! i) of
           Inl e \<Rightarrow> Inl e
         | Inr (r, c) \<Rightarrow> Inr (r, s\<lparr>sd_shards := (sd_shards s)[i := c]\<rparr>))
      else Inl HandleDropped)"

definition sharded_try_send ::
    "nat \<Rightarrow> 'a \<Rightarrow> 'a sharded \<Rightarrow> ((unit, 'a try_send_error) rust_result \<times> 'a sharded) outcome" where
  "sharded_try_send i v = on_shard i (spsc_send_op v)"

definition sharded_send ::
    "nat \<Rightarrow> tid \<Rightarrow> (nat \<Rightarrow> 'a spsc \<Rightarrow> 'a spsc) \<Rightarrow> nat \<Rightarrow> 'a \<Rightarrow> 'a sharded \<Rightarrow>
     ((unit, 'a send_error) rust_result option \<times> 'a sharded) outcome" where
  "sharded_send i me env fuel v =
     on_shard i (\<lambda>c.
       case spsc_send me env fuel v c of
         Inl e \<Rightarrow> Inl e
       | Inr None \<Rightarrow> Inr (None, c)
       | Inr (Some (r, (_, _, c'))) \<Rightarrow> Inr (Some r, c'))"

definition sharded_drop_tx :: "nat \<Rightarrow> 'a sharded \<Rightarrow> ('a list \<times> 'a sharded) outcome" where
  "sharded_drop_tx i = on_shard i spsc_drop_tx"

section \<open>The receiver\<close>

definition sharded_advance :: "'a sharded \<Rightarrow> 'a sharded" where
  "sharded_advance s =
     s\<lparr>sd_cursor := (if sd_cursor s + 1 = of_nat (length (sd_shards s)) then 0 else sd_cursor s + 1),
       sd_budget := 0\<rparr>"

text \<open>\<^verbatim>\<open>self.shards[self.cursor]\<close>, with the bounds check of the index.\<close>

definition at_cursor :: "('a spsc \<Rightarrow> ('r \<times> 'a spsc) outcome) \<Rightarrow> 'a sharded \<Rightarrow>
     ('r \<times> 'a sharded) outcome" where
  "at_cursor f s =
     (if unat (sd_cursor s) < length (sd_shards s) then on_shard (unat (sd_cursor s)) f s
      else Inl (Panic ''index out of bounds''))"

fun sharded_sweep :: "nat \<Rightarrow> usize \<Rightarrow> 'a sharded \<Rightarrow>
     (('a, try_recv_error) rust_result \<times> 'a sharded) outcome" where
  "sharded_sweep 0 disconnected s =
     Inr (Err (if disconnected = of_nat (length (sd_shards s)) then RecvDisconnected else Empty), s)"
| "sharded_sweep (Suc k) disconnected s =
     (case at_cursor spsc_recv_op s of
        Inl e \<Rightarrow> Inl e
      | Inr (Ok v, s1) \<Rightarrow> Inr (Ok v, s1\<lparr>sd_budget := sd_budget s1 + 1\<rparr>)
      | Inr (Err RecvDisconnected, s1) \<Rightarrow> sharded_sweep k (disconnected + 1) (sharded_advance s1)
      | Inr (Err Empty, s1) \<Rightarrow> sharded_sweep k disconnected (sharded_advance s1))"

definition sharded_try_recv :: "'a sharded \<Rightarrow> (('a, try_recv_error) rust_result \<times> 'a sharded) outcome" where
  "sharded_try_recv s =
     (let s1 = (if sd_budget s \<ge> VISIT_BUDGET then sharded_advance s else s)
      in sharded_sweep (length (sd_shards s1)) 0 s1)"

fun sharded_drain_loop ::
    "('a \<Rightarrow> 'st \<Rightarrow> bool \<times> 'st) \<Rightarrow> usize \<Rightarrow> nat \<Rightarrow> usize \<Rightarrow> 'st \<Rightarrow> 'a sharded \<Rightarrow>
     (drain_exit \<times> 'st \<times> 'a sharded) outcome" where
  "sharded_drain_loop f mx 0 count st s = Inr (Returned count, st, s)"
| "sharded_drain_loop f mx (Suc k) count st s =
     (if count \<ge> mx then Inr (Returned count, st, s)
      else
        let want = mx - count
        in case at_cursor (\<lambda>c. case spsc_drain_op want f st c of
                                 Inl e \<Rightarrow> Inl e | Inr (e, st1, c1) \<Rightarrow> Inr ((e, st1), c1)) s of
             Inl e \<Rightarrow> Inl e
           | Inr ((Unwound, st1), s1) \<Rightarrow> Inr (Unwound, st1, s1)
           | Inr ((Returned took, st1), s1) \<Rightarrow>
               (if took = want then Inr (Returned (count + took), st1, s1)
                else sharded_drain_loop f mx k (count + took) st1 (sharded_advance s1)))"

definition sharded_drain ::
    "usize \<Rightarrow> ('a \<Rightarrow> 'st \<Rightarrow> bool \<times> 'st) \<Rightarrow> 'st \<Rightarrow> 'a sharded \<Rightarrow>
     (drain_exit \<times> 'st \<times> 'a sharded) outcome" where
  "sharded_drain mx f st s = sharded_drain_loop f mx (length (sd_shards s)) 0 st s"

definition sharded_drain_vec :: "usize \<Rightarrow> 'a sharded \<Rightarrow> ('a list \<times> 'a sharded) outcome" where
  "sharded_drain_vec mx s =
     (case sharded_drain mx push_back [] s of Inl e \<Rightarrow> Inl e | Inr (_, got, s') \<Rightarrow> Inr (got, s'))"

text \<open>Dropping the receiver drops the vector of ring receivers, in order.\<close>

fun sharded_drop_rings :: "'a spsc list \<Rightarrow> ('a list \<times> 'a spsc list) outcome" where
  "sharded_drop_rings [] = Inr ([], [])"
| "sharded_drop_rings (c # cs) =
     (case spsc_drop_rx c of
        Inl e \<Rightarrow> Inl e
      | Inr (vs, c') \<Rightarrow>
          (case sharded_drop_rings cs of Inl e \<Rightarrow> Inl e | Inr (ws, cs') \<Rightarrow> Inr (vs @ ws, c' # cs')))"

definition sharded_drop_rx :: "'a sharded \<Rightarrow> ('a list \<times> 'a sharded) outcome" where
  "sharded_drop_rx s =
     (case sharded_drop_rings (sd_shards s) of
        Inl e \<Rightarrow> Inl e | Inr (vs, cs) \<Rightarrow> Inr (vs, s\<lparr>sd_shards := cs\<rparr>))"

text \<open>\<^verbatim>\<open>recv\<close>: one iteration, and the wait. It never sleeps, so \<open>sharded_recv_resume\<close> is not used.\<close>

type_synonym 'a sharded_receiving = "idle_state \<times> 'a sharded"

definition sharded_recv_attempt ::
    "'a sharded_receiving \<Rightarrow> (('a, recv_error) rust_result option \<times> 'a sharded_receiving) outcome" where
  "sharded_recv_attempt st =
     (case st of (i, s) \<Rightarrow>
        (case sharded_try_recv s of
           Inl e \<Rightarrow> Inl e
         | Inr (Ok v, s') \<Rightarrow> Inr (Some (Ok v), (i, s'))
         | Inr (Err RecvDisconnected, s') \<Rightarrow> Inr (Some (Err RecvError), (i, s'))
         | Inr (Err Empty, s') \<Rightarrow> Inr (None, (i, s'))))"

definition sharded_recv_wait :: "'a sharded_receiving \<Rightarrow> (bool \<times> 'a sharded_receiving) outcome" where
  "sharded_recv_wait st =
     (case st of (i, s) \<Rightarrow>
        (case sd_strategy s of
           BusySpin \<Rightarrow> Inr (False, st)
         | Backoff \<Rightarrow> Inr (False, (snd (idle i), s))
         | BackoffYield \<Rightarrow> Inr (False, (snd (idle i), s))
         | Park \<Rightarrow> Inl (Panic ''internal error: entered unreachable code'')))"

definition sharded_recv_resume :: "'a sharded_receiving \<Rightarrow> 'a sharded_receiving option" where
  "sharded_recv_resume st = Some st"

definition sharded_receiving_env ::
    "(nat \<Rightarrow> 'a sharded \<Rightarrow> 'a sharded) \<Rightarrow> nat \<Rightarrow> 'a sharded_receiving \<Rightarrow> 'a sharded_receiving" where
  "sharded_receiving_env env k st = (case st of (i, s) \<Rightarrow> (i, env k s))"

definition sharded_recv ::
    "(nat \<Rightarrow> 'a sharded \<Rightarrow> 'a sharded) \<Rightarrow> nat \<Rightarrow> 'a sharded \<Rightarrow>
     (('a, recv_error) rust_result \<times> 'a sharded_receiving) option outcome" where
  "sharded_recv env fuel s =
     block_loop sharded_recv_attempt sharded_recv_wait sharded_recv_resume (sharded_receiving_env env)
       fuel 0 (for_strategy (sd_strategy s), s)"

section \<open>The invariant\<close>

definition sharded_abs :: "'a sharded \<Rightarrow> 'a bchan list" where
  "sharded_abs s = map spsc_abs (sd_shards s)"

definition sharded_inv :: "'a sharded \<Rightarrow> bool" where
  "sharded_inv s \<longleftrightarrow>
     list_all spsc_inv (sd_shards s) \<and> length (sd_shards s) < 2 ^ 64 \<and>
     unat (sd_cursor s) < length (sd_shards s) \<and> unat (sd_budget s) \<le> unat VISIT_BUDGET \<and>
     sd_strategy s \<noteq> Park"

definition sharded_rx_live :: "'a sharded \<Rightarrow> bool" where
  "sharded_rx_live s \<longleftrightarrow> list_all bc_rx_live (sharded_abs s)"

lemma length_sharded_abs [simp]: "length (sharded_abs s) = length (sd_shards s)"
  by (simp add: sharded_abs_def)

lemma sharded_abs_update:
  "sharded_abs (s\<lparr>sd_shards := (sd_shards s)[i := c]\<rparr>) = (sharded_abs s)[i := spsc_abs c]"
  by (simp add: sharded_abs_def map_update)

lemma sharded_abs_fields [simp]:
  "sharded_abs (s\<lparr>sd_cursor := x\<rparr>) = sharded_abs s"
  "sharded_abs (s\<lparr>sd_budget := x\<rparr>) = sharded_abs s"
  by (simp_all add: sharded_abs_def)

text \<open>One operation on one shard changes that shard only.\<close>

lemma on_shard_correct:
  assumes "sharded_inv s" "i < length (sd_shards s)"
    and "f (sd_shards s ! i) = Inr (r, c)" "spsc_inv c"
  shows "\<exists>s'. on_shard i f s = Inr (r, s') \<and> sharded_inv s'
    \<and> sharded_abs s' = (sharded_abs s)[i := spsc_abs c]
    \<and> sd_cursor s' = sd_cursor s \<and> sd_budget s' = sd_budget s \<and> sd_strategy s' = sd_strategy s
    \<and> length (sd_shards s') = length (sd_shards s)"
proof -
  have "list_all spsc_inv ((sd_shards s)[i := c])"
    using assms(1,2,4) by (auto simp: sharded_inv_def list_all_length nth_list_update)
  then show ?thesis
    using assms by (simp add: on_shard_def sharded_abs_update) (simp add: sharded_inv_def)
qed

lemma at_cursor_correct:
  assumes "sharded_inv s" "f (sd_shards s ! unat (sd_cursor s)) = Inr (r, c)" "spsc_inv c"
  shows "\<exists>s'. at_cursor f s = Inr (r, s') \<and> sharded_inv s'
    \<and> sharded_abs s' = (sharded_abs s)[unat (sd_cursor s) := spsc_abs c]
    \<and> sd_cursor s' = sd_cursor s \<and> sd_budget s' = sd_budget s \<and> sd_strategy s' = sd_strategy s
    \<and> length (sd_shards s') = length (sd_shards s)"
proof -
  have "unat (sd_cursor s) < length (sd_shards s)"
    using assms(1) by (simp add: sharded_inv_def)
  with on_shard_correct [of s _ f r c, OF assms(1) this assms(2,3)] show ?thesis
    by (simp add: at_cursor_def)
qed

lemma shard_inv: "sharded_inv s \<Longrightarrow> i < length (sd_shards s) \<Longrightarrow> spsc_inv (sd_shards s ! i)"
  by (simp add: sharded_inv_def list_all_length)

lemma cursor_bound: "sharded_inv s \<Longrightarrow> unat (sd_cursor s) < length (sd_shards s)"
  by (simp add: sharded_inv_def)

section \<open>The path of a sweep\<close>

definition next_shard :: "nat \<Rightarrow> nat \<Rightarrow> nat" where
  "next_shard n c = (if Suc c = n then 0 else Suc c)"

fun sweep_path :: "nat \<Rightarrow> nat \<Rightarrow> nat \<Rightarrow> nat list" where
  "sweep_path n c 0 = []"
| "sweep_path n c (Suc k) = c # sweep_path n (next_shard n c) k"

lemma next_shard_mod: "c < n \<Longrightarrow> next_shard n c = Suc c mod n"
  by (auto simp: next_shard_def)

lemma next_shard_less: "c < n \<Longrightarrow> next_shard n c < n"
  by (auto simp: next_shard_def)

lemma sweep_path_mod: "c < n \<Longrightarrow> sweep_path n c k = map (\<lambda>i. (c + i) mod n) [0..<k]"
proof (induction k arbitrary: c)
  case 0
  show ?case by simp
next
  case (Suc k)
  have "sweep_path n (next_shard n c) k = map (\<lambda>i. (Suc c mod n + i) mod n) [0..<k]"
    using Suc by (simp add: next_shard_less next_shard_mod [symmetric])
  also have "\<dots> = map (\<lambda>i. (c + i) mod n) (map Suc [0..<k])"
    by (simp add: mod_add_left_eq)
  finally show ?case
    using Suc.prems by (simp add: upt_conv_Cons map_Suc_upt del: upt_Suc)
qed

lemma sweep_path_bound: "c < n \<Longrightarrow> j \<in> set (sweep_path n c k) \<Longrightarrow> j < n"
  by (auto simp: sweep_path_mod)

lemma mod_shift_le:
  fixes c i j n :: nat
  assumes "(c + i) mod n = (c + j) mod n" "i \<le> j" "j < n"
  shows "i = j"
proof -
  have "n dvd (c + j) - (c + i)"
    using assms(1,2) mod_eq_dvd_iff_nat [of "c + i" "c + j" n] by simp
  with assms(2,3) show ?thesis using nat_dvd_not_less [of "j - i" n] by (cases "i = j") auto
qed

lemma mod_shift_inj: "(c + i) mod n = (c + j) mod n \<Longrightarrow> i < n \<Longrightarrow> j < n \<Longrightarrow> i = (j :: nat)"
  using mod_shift_le [of c i n j] mod_shift_le [of c j n i] by (cases "i \<le> j") auto

lemma sweep_path_distinct: "c < n \<Longrightarrow> k \<le> n \<Longrightarrow> distinct (sweep_path n c k)"
  by (auto simp: sweep_path_mod distinct_map inj_on_def dest: mod_shift_inj)

lemma sweep_path_all: "c < n \<Longrightarrow> set (sweep_path n c n) = {..<n}"
proof -
  assume c: "c < n"
  have "length (sweep_path n c n) = n" by (simp add: sweep_path_mod c)
  then have "card (set (sweep_path n c n)) = n"
    using distinct_card [OF sweep_path_distinct [OF c order_refl]] by simp
  moreover have "set (sweep_path n c n) \<subseteq> {..<n}"
    using sweep_path_bound [OF c] by auto
  ultimately show ?thesis by (simp add: card_subset_eq)
qed

lemma unat_next_cursor:
  fixes c :: usize
  assumes "unat c < n" "n < 2 ^ 64"
  shows "unat (if c + 1 = of_nat n then 0 else c + 1) = next_shard n (unat c)"
proof -
  have u: "unat (c + 1) = Suc (unat c)" using assms unat_le_add_one [of c] by simp
  have "c + 1 = of_nat n \<longleftrightarrow> unat (c + 1) = unat (of_nat n :: usize)"
    by (simp only: word_unat_eq_iff)
  also have "unat (of_nat n :: usize) = n" using assms(2) by (simp add: unat_of_nat)
  finally have "c + 1 = of_nat n \<longleftrightarrow> Suc (unat c) = n" by (simp only: u)
  then show ?thesis by (simp add: next_shard_def u)
qed

lemma sharded_advance_inv:
  assumes "sharded_inv s"
  shows "sharded_inv (sharded_advance s)" "sharded_abs (sharded_advance s) = sharded_abs s"
    "unat (sd_cursor (sharded_advance s)) = next_shard (length (sd_shards s)) (unat (sd_cursor s))"
    "sd_budget (sharded_advance s) = 0" "sd_strategy (sharded_advance s) = sd_strategy s"
    "length (sd_shards (sharded_advance s)) = length (sd_shards s)"
proof -
  let ?n = "length (sd_shards s)" and ?c = "sd_cursor s"
  have b: "unat ?c < ?n" "?n < 2 ^ 64" using assms by (simp_all add: sharded_inv_def)
  from unat_next_cursor [OF b] show cur: "unat (sd_cursor (sharded_advance s)) = next_shard ?n (unat ?c)"
    by (simp add: sharded_advance_def)
  show "sharded_inv (sharded_advance s)"
    using assms cur next_shard_less [OF b(1)] by (simp add: sharded_inv_def sharded_advance_def)
  show "sharded_abs (sharded_advance s) = sharded_abs s" "sd_budget (sharded_advance s) = 0"
    "sd_strategy (sharded_advance s) = sd_strategy s"
    "length (sd_shards (sharded_advance s)) = ?n"
    by (simp_all add: sharded_advance_def sharded_abs_def)
qed

section \<open>The sweep of try\_recv\<close>

text \<open>
  In abstract terms: the first shard on the path that holds a value gives its front; if there is
  none, the receiver is disconnected exactly when every sender on the path is gone.
\<close>

definition pop_shard :: "nat \<Rightarrow> 'a bchan list \<Rightarrow> 'a bchan list" where
  "pop_shard j qs = qs[j := (qs ! j)\<lparr>bc_queue := tl (bc_queue (qs ! j))\<rparr>]"

definition ready_shard :: "'a bchan list \<Rightarrow> nat list \<Rightarrow> nat option" where
  "ready_shard qs path = find (\<lambda>j. bc_queue (qs ! j) \<noteq> []) path"

definition gone_shards :: "'a bchan list \<Rightarrow> nat list \<Rightarrow> nat" where
  "gone_shards qs path = length (filter (\<lambda>j. bc_senders (qs ! j) = 0) path)"

lemma at_cursor_recv:
  assumes "sharded_inv s" "sharded_rx_live s"
  shows "\<exists>s'. at_cursor spsc_recv_op s
      = Inr (fst (spec_try_recv (sharded_abs s ! unat (sd_cursor s))), s') \<and> sharded_inv s'
    \<and> sharded_abs s' = (sharded_abs s)[unat (sd_cursor s) := snd (spec_try_recv (sharded_abs s ! unat (sd_cursor s)))]
    \<and> sd_cursor s' = sd_cursor s \<and> sd_budget s' = sd_budget s \<and> sd_strategy s' = sd_strategy s
    \<and> length (sd_shards s') = length (sd_shards s)"
proof -
  let ?i = "unat (sd_cursor s)" and ?c = "sd_shards s ! unat (sd_cursor s)"
  have i: "?i < length (sd_shards s)" using cursor_bound [OF assms(1)] .
  then have a: "sharded_abs s ! ?i = spsc_abs ?c" by (simp add: sharded_abs_def)
  have live: "bc_rx_live (spsc_abs ?c)"
    using assms(2) i by (simp add: sharded_rx_live_def list_all_length flip: a)
  from spsc.recv_refines [OF shard_inv [OF assms(1) i] live] obtain c' where
    c': "spsc_recv_op ?c = Inr (fst (spec_try_recv (spsc_abs ?c)), c')" "spsc_inv c'"
      "spsc_abs c' = snd (spec_try_recv (spsc_abs ?c))"
    by blast
  from at_cursor_correct [of s spsc_recv_op, OF assms(1) c'(1,2)] show ?thesis
    by (simp add: a c'(3))
qed

text \<open>The two outcomes of a visit, as used by the sweep.\<close>

lemma visit_ready:
  assumes "sharded_inv s" "sharded_rx_live s" "bc_queue (sharded_abs s ! unat (sd_cursor s)) = v # q"
  shows "\<exists>s'. at_cursor spsc_recv_op s = Inr (Ok v, s') \<and> sharded_inv s'
    \<and> sharded_abs s' = pop_shard (unat (sd_cursor s)) (sharded_abs s)
    \<and> sd_cursor s' = sd_cursor s \<and> sd_budget s' = sd_budget s \<and> sd_strategy s' = sd_strategy s
    \<and> length (sd_shards s') = length (sd_shards s)"
  using at_cursor_recv [OF assms(1,2)] assms(3) by (simp add: spec_try_recv_def pop_shard_def)

lemma visit_idle:
  assumes "sharded_inv s" "sharded_rx_live s" "bc_queue (sharded_abs s ! unat (sd_cursor s)) = []"
  shows "\<exists>s'. at_cursor spsc_recv_op s = Inr (Err (if bc_senders (sharded_abs s ! unat (sd_cursor s)) = 0
        then RecvDisconnected else Empty), s') \<and> sharded_inv s' \<and> sharded_abs s' = sharded_abs s
    \<and> sd_cursor s' = sd_cursor s \<and> sd_budget s' = sd_budget s \<and> sd_strategy s' = sd_strategy s
    \<and> length (sd_shards s') = length (sd_shards s)"
  using at_cursor_recv [OF assms(1,2)] assms(3) by (simp add: spec_try_recv_def)

lemma sharded_sweep_correct:
  assumes "sharded_inv s" "sharded_rx_live s" "unat (sd_budget s) < unat VISIT_BUDGET"
    and "k \<le> length (sd_shards s)"
  shows "case ready_shard (sharded_abs s) (sweep_path (length (sd_shards s)) (unat (sd_cursor s)) k) of
     Some j \<Rightarrow> \<exists>s'. sharded_sweep k d s = Inr (Ok (hd (bc_queue (sharded_abs s ! j))), s') \<and> sharded_inv s'
       \<and> sharded_abs s' = pop_shard j (sharded_abs s) \<and> unat (sd_cursor s') = j
       \<and> sd_budget s' = (if j = unat (sd_cursor s) then sd_budget s else 0) + 1
       \<and> sd_strategy s' = sd_strategy s
   | None \<Rightarrow> \<exists>s'. sharded_sweep k d s = Inr (Err (
         if d + of_nat (gone_shards (sharded_abs s) (sweep_path (length (sd_shards s)) (unat (sd_cursor s)) k))
           = of_nat (length (sd_shards s)) then RecvDisconnected else Empty), s') \<and> sharded_inv s'
       \<and> sharded_abs s' = sharded_abs s
       \<and> unat (sd_cursor s') = (unat (sd_cursor s) + k) mod length (sd_shards s)
       \<and> sd_budget s' = (if k = 0 then sd_budget s else 0) \<and> sd_strategy s' = sd_strategy s"
  using assms
proof (induction k arbitrary: s d)
  case 0
  then show ?case
    using cursor_bound [OF 0(1)] by (simp add: ready_shard_def gone_shards_def)
next
  case (Suc k)
  let ?n = "length (sd_shards s)" and ?c = "unat (sd_cursor s)"
  have c: "?c < ?n" using cursor_bound [OF Suc.prems(1)] .
  show ?case
  proof (cases "bc_queue (sharded_abs s ! ?c)")
    case (Cons v q)
    from visit_ready [OF Suc.prems(1,2) this] obtain s' where
      s': "at_cursor spsc_recv_op s = Inr (Ok v, s')" "sharded_inv s'"
        "sharded_abs s' = pop_shard ?c (sharded_abs s)" "sd_cursor s' = sd_cursor s"
        "sd_budget s' = sd_budget s" "sd_strategy s' = sd_strategy s"
      by blast
    have "unat (sd_budget s + 1) \<le> unat VISIT_BUDGET"
      using Suc.prems(3) unat_le_add_one [of "sd_budget s"] by (simp add: VISIT_BUDGET_def)
    with s' have "sharded_inv (s'\<lparr>sd_budget := sd_budget s' + 1\<rparr>)" by (simp add: sharded_inv_def)
    with s' Cons show ?thesis by (simp add: ready_shard_def)
  next
    case Nil
    from visit_idle [OF Suc.prems(1,2) this] obtain s1 where
      s1: "at_cursor spsc_recv_op s = Inr (Err (if bc_senders (sharded_abs s ! ?c) = 0
        then RecvDisconnected else Empty), s1)" "sharded_inv s1" "sharded_abs s1 = sharded_abs s"
        "sd_cursor s1 = sd_cursor s" "sd_strategy s1 = sd_strategy s" "length (sd_shards s1) = ?n"
      by blast
    let ?s2 = "sharded_advance s1"
    note adv = sharded_advance_inv [OF s1(2)]
    let ?path = "sweep_path ?n (next_shard ?n ?c) k"
    define d1 where "d1 = (if bc_senders (sharded_abs s ! ?c) = 0 then d + 1 else d)"
    have step: "sharded_sweep (Suc k) d s = sharded_sweep k d1 ?s2"
      using s1(1) by (simp add: d1_def)
    have pre: "unat (sd_budget ?s2) < unat VISIT_BUDGET" "sharded_rx_live ?s2" "k \<le> length (sd_shards ?s2)"
      using Suc.prems(2,4) by (simp_all add: sharded_rx_live_def adv s1 VISIT_BUDGET_def)
    have IH: "case ready_shard (sharded_abs s) ?path of
       Some j \<Rightarrow> \<exists>s'. sharded_sweep k d1 ?s2 = Inr (Ok (hd (bc_queue (sharded_abs s ! j))), s')
         \<and> sharded_inv s' \<and> sharded_abs s' = pop_shard j (sharded_abs s) \<and> unat (sd_cursor s') = j
         \<and> sd_budget s' = 1 \<and> sd_strategy s' = sd_strategy s
     | None \<Rightarrow> \<exists>s'. sharded_sweep k d1 ?s2 = Inr (Err (
           if d1 + of_nat (gone_shards (sharded_abs s) ?path) = of_nat ?n then RecvDisconnected else Empty), s')
         \<and> sharded_inv s' \<and> sharded_abs s' = sharded_abs s
         \<and> unat (sd_cursor s') = (next_shard ?n ?c + k) mod ?n
         \<and> sd_budget s' = 0 \<and> sd_strategy s' = sd_strategy s"
      using Suc.IH [OF adv(1) pre(2,1,3), of d1] by (simp only: adv s1 if_cancel add_0)
    have "?c \<notin> set ?path"
      using sweep_path_distinct [OF c Suc.prems(4)] by simp
    then have ne: "ready_shard (sharded_abs s) ?path = Some j \<Longrightarrow> j \<noteq> ?c" for j
      by (auto simp: ready_shard_def find_Some_iff dest: nth_mem)
    have path: "sweep_path ?n ?c (Suc k) = ?c # ?path" by simp
    have find: "ready_shard (sharded_abs s) (?c # ?path) = ready_shard (sharded_abs s) ?path"
      using Nil by (simp add: ready_shard_def)
    have gone: "d1 + of_nat (gone_shards (sharded_abs s) ?path) = d + of_nat (gone_shards (sharded_abs s) (?c # ?path))"
      by (simp add: gone_shards_def d1_def)
    have cur: "(next_shard ?n ?c + k) mod ?n = (?c + Suc k) mod ?n"
      by (simp add: next_shard_mod [OF c] mod_add_left_eq)
    show ?thesis
    proof (cases "ready_shard (sharded_abs s) ?path")
      case None
      with IH show ?thesis
        unfolding path find step gone cur by simp
    next
      case (Some j)
      with IH ne show ?thesis
        unfolding path find step by simp
    qed
  qed
qed

text \<open>Where \<^verbatim>\<open>try_recv\<close> starts its sweep: one shard further when the visit budget is used up.\<close>

definition start_shard :: "'a sharded \<Rightarrow> nat" where
  "start_shard s =
     (if VISIT_BUDGET \<le> sd_budget s then next_shard (length (sd_shards s)) (unat (sd_cursor s))
      else unat (sd_cursor s))"

definition start_budget :: "'a sharded \<Rightarrow> nat" where
  "start_budget s = (if VISIT_BUDGET \<le> sd_budget s then 0 else unat (sd_budget s))"

definition all_gone :: "'a bchan list \<Rightarrow> bool" where
  "all_gone qs \<longleftrightarrow> (\<forall>j < length qs. bc_senders (qs ! j) = 0)"

lemma start_shard_bound: "sharded_inv s \<Longrightarrow> start_shard s < length (sd_shards s)"
  using cursor_bound [of s] by (simp add: start_shard_def next_shard_less)

lemma gone_shards_all:
  assumes "c < length qs" "length qs < 2 ^ 64"
  shows "(of_nat (gone_shards qs (sweep_path (length qs) c (length qs))) :: usize) = of_nat (length qs)
     \<longleftrightarrow> all_gone qs"
proof -
  let ?p = "sweep_path (length qs) c (length qs)"
  have len: "length ?p = length qs" by (simp add: sweep_path_mod [OF assms(1)])
  have le: "gone_shards qs ?p \<le> length qs"
    using len by (metis gone_shards_def length_filter_le)
  then have "(of_nat (gone_shards qs ?p) :: usize) = of_nat (length qs) \<longleftrightarrow> gone_shards qs ?p = length qs"
    using assms(2) by (auto simp: word_unat_eq_iff unat_of_nat)
  also have "\<dots> \<longleftrightarrow> (\<forall>j \<in> set ?p. bc_senders (qs ! j) = 0)"
    unfolding gone_shards_def using len by (metis (mono_tags, lifting) filter_True length_filter_less less_irrefl)
  finally show ?thesis
    unfolding sweep_path_all [OF assms(1)] all_gone_def by blast
qed

lemma ready_shard_None:
  "c < length qs \<Longrightarrow> ready_shard qs (sweep_path (length qs) c (length qs)) = None \<longleftrightarrow>
     (\<forall>j < length qs. bc_queue (qs ! j) = [])"
  by (simp add: ready_shard_def find_None_iff sweep_path_all lessThan_iff)

lemma ready_shard_Some:
  assumes "c < length qs" "ready_shard qs (sweep_path (length qs) c (length qs)) = Some j"
  shows "j < length qs" "bc_queue (qs ! j) \<noteq> []"
proof -
  obtain i where "i < length (sweep_path (length qs) c (length qs))"
    "bc_queue (qs ! j) \<noteq> []" "j = sweep_path (length qs) c (length qs) ! i"
    using assms(2) by (auto simp: ready_shard_def find_Some_iff)
  with sweep_path_all [OF assms(1)] nth_mem show "j < length qs" "bc_queue (qs ! j) \<noteq> []"
    by auto
qed

lemma sharded_try_recv_correct:
  assumes "sharded_inv s" "sharded_rx_live s"
  shows "case ready_shard (sharded_abs s) (sweep_path (length (sd_shards s)) (start_shard s) (length (sd_shards s))) of
     Some j \<Rightarrow> \<exists>s'. sharded_try_recv s = Inr (Ok (hd (bc_queue (sharded_abs s ! j))), s') \<and> sharded_inv s'
       \<and> sharded_abs s' = pop_shard j (sharded_abs s) \<and> unat (sd_cursor s') = j
       \<and> unat (sd_budget s') = Suc (if j = start_shard s then start_budget s else 0)
       \<and> sd_strategy s' = sd_strategy s
   | None \<Rightarrow> \<exists>s'. sharded_try_recv s
         = Inr (Err (if all_gone (sharded_abs s) then RecvDisconnected else Empty), s') \<and> sharded_inv s'
       \<and> sharded_abs s' = sharded_abs s \<and> unat (sd_cursor s') = start_shard s \<and> sd_budget s' = 0
       \<and> sd_strategy s' = sd_strategy s"
proof -
  define s1 where "s1 = (if sd_budget s \<ge> VISIT_BUDGET then sharded_advance s else s)"
  note adv = sharded_advance_inv [OF assms(1)]
  have s1: "sharded_inv s1" "sharded_abs s1 = sharded_abs s" "unat (sd_cursor s1) = start_shard s"
    "unat (sd_budget s1) = start_budget s" "sd_strategy s1 = sd_strategy s"
    "length (sd_shards s1) = length (sd_shards s)"
    using assms(1) by (simp_all add: s1_def adv start_shard_def start_budget_def)
  have b: "unat (sd_budget s1) < unat VISIT_BUDGET"
    using s1(4) by (simp add: start_budget_def not_le word_less_nat_alt VISIT_BUDGET_def)
  have live: "sharded_rx_live s1" using assms(2) by (simp add: sharded_rx_live_def s1)
  have n: "length (sd_shards s) < 2 ^ 64" using assms(1) by (simp add: sharded_inv_def)
  have run: "sharded_try_recv s = sharded_sweep (length (sd_shards s)) 0 s1"
    by (simp add: sharded_try_recv_def s1 flip: s1_def)
  have gone: "(of_nat (gone_shards (sharded_abs s) (sweep_path (length (sd_shards s)) (start_shard s) (length (sd_shards s)))) :: usize)
      = of_nat (length (sd_shards s)) \<longleftrightarrow> all_gone (sharded_abs s)"
    using gone_shards_all [of "start_shard s" "sharded_abs s"] start_shard_bound [OF assms(1)] n by simp
  have succ: "unat (x + 1) = Suc (unat x)" if "x = sd_budget s1 \<or> x = 0" for x
    using that b unat_le_add_one [of x] by (auto simp: VISIT_BUDGET_def)
  have c: "(start_shard s + length (sd_shards s)) mod length (sd_shards s) = start_shard s"
    "length (sd_shards s) \<noteq> 0"
    using start_shard_bound [OF assms(1)] by auto
  have sweep: "case ready_shard (sharded_abs s) (sweep_path (length (sd_shards s)) (start_shard s) (length (sd_shards s))) of
     Some j \<Rightarrow> \<exists>s'. sharded_try_recv s = Inr (Ok (hd (bc_queue (sharded_abs s ! j))), s') \<and> sharded_inv s'
       \<and> sharded_abs s' = pop_shard j (sharded_abs s) \<and> unat (sd_cursor s') = j
       \<and> sd_budget s' = (if j = start_shard s then sd_budget s1 else 0) + 1
       \<and> sd_strategy s' = sd_strategy s
   | None \<Rightarrow> \<exists>s'. sharded_try_recv s
         = Inr (Err (if all_gone (sharded_abs s) then RecvDisconnected else Empty), s') \<and> sharded_inv s'
       \<and> sharded_abs s' = sharded_abs s \<and> unat (sd_cursor s') = start_shard s \<and> sd_budget s' = 0
       \<and> sd_strategy s' = sd_strategy s"
    using sharded_sweep_correct [OF s1(1) live b order_refl, of 0] c(2)
    by (simp only: s1 run gone c add_0 if_False)
  then show ?thesis
  proof (cases "ready_shard (sharded_abs s) (sweep_path (length (sd_shards s)) (start_shard s) (length (sd_shards s)))")
    case None
    with sweep show ?thesis by simp
  next
    case (Some j)
    have "unat ((if j = start_shard s then sd_budget s1 else 0) + 1) = Suc (if j = start_shard s then start_budget s else 0)"
      using succ by (simp add: s1)
    with sweep Some show ?thesis by auto
  qed
qed

section \<open>The sweep of drain\<close>

text \<open>
  The queues after the first \<open>m\<close> values along a path were taken, and the values themselves.
\<close>

definition path_values :: "'a bchan list \<Rightarrow> nat list \<Rightarrow> 'a list" where
  "path_values qs path = concat (map (\<lambda>j. bc_queue (qs ! j)) path)"

fun strip_path :: "nat \<Rightarrow> nat list \<Rightarrow> 'a bchan list \<Rightarrow> 'a bchan list" where
  "strip_path m [] qs = qs"
| "strip_path m (j # js) qs =
     strip_path (m - length (bc_queue (qs ! j))) js
       (qs[j := (qs ! j)\<lparr>bc_queue := drop m (bc_queue (qs ! j))\<rparr>])"

lemma feed_append:
  "feed f n (xs @ ys) st =
     (let (p, k, st1) = feed f n xs st
      in if p \<or> k = n then (p, k, st1)
         else let (p', k', st2) = feed f (n - k) ys st1 in (p', k + k', st2))"
  by (induction f n xs st rule: feed.induct) (auto simp: Let_def split: prod.splits if_splits)

lemma feed_total: "feed f n xs st = (False, k, st') \<Longrightarrow> k = min n (length xs)"
  by (induction f n xs st arbitrary: k st' rule: feed.induct)
    (auto simp: Let_def split: prod.splits if_splits)

lemma strip_path_zero [simp]: "strip_path 0 js qs = qs"
  by (induction js arbitrary: qs) simp_all

lemma strip_path_length [simp]: "length (strip_path m js qs) = length qs"
  by (induction m js qs rule: strip_path.induct) simp_all

lemma path_values_update [simp]:
  "j \<notin> set js \<Longrightarrow> path_values (qs[j := x]) js = path_values qs js"
  by (induction js) (auto simp: path_values_def)

lemma at_cursor_drain:
  assumes inv: "sharded_inv s" and live: "sharded_rx_live s"
    and fed: "feed f (unat want) (bc_queue (sharded_abs s ! unat (sd_cursor s))) st = (p, k, st')"
  shows "\<exists>s'. at_cursor (\<lambda>c. case spsc_drain_op want f st c of
                 Inl e \<Rightarrow> Inl e | Inr (e, st1, c1) \<Rightarrow> Inr ((e, st1), c1)) s
      = Inr ((if p then Unwound else Returned (of_nat k), st'), s') \<and> sharded_inv s'
    \<and> sharded_abs s' = strip_path k [unat (sd_cursor s)] (sharded_abs s)
    \<and> sd_cursor s' = sd_cursor s \<and> sd_budget s' = sd_budget s \<and> sd_strategy s' = sd_strategy s
    \<and> length (sd_shards s') = length (sd_shards s)"
proof -
  let ?i = "unat (sd_cursor s)" and ?c = "sd_shards s ! unat (sd_cursor s)"
  let ?f = "\<lambda>c. case spsc_drain_op want f st c of
                 Inl e \<Rightarrow> Inl e | Inr (e, st1, c1) \<Rightarrow> Inr ((e, st1), c1)"
  have i: "?i < length (sd_shards s)" using cursor_bound [OF inv] .
  then have a: "sharded_abs s ! ?i = spsc_abs ?c" by (simp add: sharded_abs_def)
  have rx: "bc_rx_live (spsc_abs ?c)"
    using live i by (simp add: sharded_rx_live_def list_all_length flip: a)
  from spsc_drain_op_correct [OF shard_inv [OF inv i] rx fed [unfolded a]] obtain c' where
    c': "spsc_drain_op want f st ?c = Inr (if p then Unwound else Returned (of_nat k), st', c')"
      "spsc_inv c'" "spsc_abs c' = (spsc_abs ?c)\<lparr>bc_queue := drop k (bc_queue (spsc_abs ?c))\<rparr>"
    by blast
  then have "?f ?c = Inr ((if p then Unwound else Returned (of_nat k), st'), c')" by simp
  from at_cursor_correct [of s ?f, OF inv this c'(2)] show ?thesis
    by (simp add: a c'(3))
qed

lemma sharded_drain_loop_correct:
  assumes "sharded_inv s" "sharded_rx_live s" "k \<le> length (sd_shards s)" "unat count \<le> unat mx"
    and "feed f (unat mx - unat count) (path_values (sharded_abs s)
           (sweep_path (length (sd_shards s)) (unat (sd_cursor s)) k)) st = (p, m, st')"
  shows "\<exists>s'. sharded_drain_loop f mx k count st s
        = Inr (if p then Unwound else Returned (count + of_nat m), st', s') \<and> sharded_inv s'
    \<and> sharded_abs s' = strip_path m (sweep_path (length (sd_shards s)) (unat (sd_cursor s)) k) (sharded_abs s)
    \<and> sd_strategy s' = sd_strategy s"
  using assms
proof (induction k arbitrary: s count st m p)
  case 0
  then show ?case by (simp add: path_values_def)
next
  case (Suc k)
  let ?n = "length (sd_shards s)" and ?c = "unat (sd_cursor s)"
  let ?q = "bc_queue (sharded_abs s ! ?c)"
  let ?path = "sweep_path ?n (next_shard ?n ?c) k"
  show ?case
  proof (cases "count \<ge> mx")
    case True
    then have "count = mx" using Suc.prems(4) by (simp add: word_le_nat_alt word_unat_eq_iff)
    with Suc.prems show ?thesis by simp
  next
    case False
    have c: "?c < ?n" using cursor_bound [OF Suc.prems(1)] .
    have fresh: "?c \<notin> set ?path" using sweep_path_distinct [OF c Suc.prems(3)] by simp
    define want where "want = mx - count"
    have want: "unat want = unat mx - unat count"
      using Suc.prems(4) unfolding want_def by (simp add: unat_sub_if_size)
    obtain p1 k1 st1 where f1: "feed f (unat want) ?q st = (p1, k1, st1)" by (metis prod_cases3)
    have k1: "k1 \<le> unat want" "k1 \<le> length ?q" using feed_count [OF f1] by simp_all
    have uk: "unat (of_nat k1 :: usize) = k1"
      using k1(1) usize_bound [of want] by (simp add: unat_of_nat)
    from at_cursor_drain [OF Suc.prems(1,2) f1] obtain s1 where
      s1: "at_cursor (\<lambda>c. case spsc_drain_op want f st c of
                 Inl e \<Rightarrow> Inl e | Inr (e, st1, c1) \<Rightarrow> Inr ((e, st1), c1)) s
          = Inr ((if p1 then Unwound else Returned (of_nat k1), st1), s1)" "sharded_inv s1"
        "sharded_abs s1 = strip_path k1 [?c] (sharded_abs s)"
        "sd_cursor s1 = sd_cursor s" "sd_strategy s1 = sd_strategy s" "length (sd_shards s1) = ?n"
      by blast
    have fed: "feed f (unat want) (?q @ path_values (sharded_abs s) ?path) st = (p, m, st')"
      using Suc.prems(5) by (simp add: path_values_def want)
    show ?thesis
    proof (cases "p1 \<or> k1 = unat want")
      case True
      then have r: "p = p1" "m = k1" "st' = st1" using fed by (simp_all add: feed_append f1)
      have "k1 - length ?q = 0" using k1 by simp
      then have abs: "sharded_abs s1 = strip_path m (sweep_path ?n ?c (Suc k)) (sharded_abs s)"
        unfolding s1(3) r(2) sweep_path.simps strip_path.simps by simp
      have "\<not> p1 \<Longrightarrow> of_nat k1 = want" using True uk by (simp add: word_unat_eq_iff)
      with False True s1(1) have "sharded_drain_loop f mx (Suc k) count st s
          = Inr (if p then Unwound else Returned (count + of_nat m), st', s1)"
        by (simp add: r Let_def flip: want_def)
      with abs s1 show ?thesis by blast
    next
      case more: False
      then have "k1 = length ?q" using feed_total [of f "unat want" ?q st] f1 by (auto simp: min_def split: if_splits)
      obtain p2 k2 where r: "feed f (unat want - k1) (path_values (sharded_abs s) ?path) st1 = (p2, k2, st')"
          "p = p2" "m = k1 + k2"
        using fed more by (auto simp: feed_append f1 Let_def split: prod.splits)
      let ?s2 = "sharded_advance s1"
      note adv = sharded_advance_inv [OF s1(2)]
      have u: "unat (count + of_nat k1) = unat count + k1"
        using k1(1) want Suc.prems(4) usize_bound [of mx] by (subst unat_add_lem [THEN iffD1]) (simp_all add: uk)
      then have le: "unat (count + of_nat k1) \<le> unat mx" using k1(1) want Suc.prems(4) by simp
      have kn: "k \<le> length (sd_shards ?s2)" using Suc.prems(3) by (simp add: adv s1)
      have path: "sweep_path (length (sd_shards ?s2)) (unat (sd_cursor ?s2)) k = ?path"
        by (simp add: adv s1)
      have "path_values (sharded_abs ?s2) ?path = path_values (sharded_abs s) ?path"
        using fresh by (simp add: adv s1)
      then have fd: "feed f (unat mx - unat (count + of_nat k1)) (path_values (sharded_abs ?s2)
          (sweep_path (length (sd_shards ?s2)) (unat (sd_cursor ?s2)) k)) st1 = (p2, k2, st')"
        using r(1) by (simp add: path u want)
      have live: "sharded_rx_live ?s2"
        using Suc.prems(2) c by (simp add: sharded_rx_live_def adv s1 list_all_length nth_list_update)
      from Suc.IH [OF adv(1) live kn le fd] obtain s' where
        s': "sharded_drain_loop f mx k (count + of_nat k1) st1 ?s2
            = Inr (if p2 then Unwound else Returned (count + of_nat k1 + of_nat k2), st', s')"
          "sharded_inv s'" "sharded_abs s' = strip_path k2 ?path (sharded_abs s1)" "sd_strategy s' = sd_strategy s"
        unfolding path adv(2,5) s1(5) by (elim exE conjE)
      have "of_nat k1 \<noteq> want" using more uk by (auto simp: word_unat_eq_iff)
      then have "sharded_drain_loop f mx (Suc k) count st s
          = sharded_drain_loop f mx k (count + of_nat k1) st1 ?s2"
        using False more s1(1) by (simp add: Let_def flip: want_def)
      with s'(1) have "sharded_drain_loop f mx (Suc k) count st s
          = Inr (if p then Unwound else Returned (count + of_nat m), st', s')"
        by (simp add: r add.assoc)
      moreover have "strip_path k2 ?path (sharded_abs s1) = strip_path m (sweep_path ?n ?c (Suc k)) (sharded_abs s)"
        using \<open>k1 = length ?q\<close> by (simp add: s1(3) r(3))
      ultimately show ?thesis using s'(2-4) by auto
    qed
  qed
qed

lemma sharded_drain_correct:
  assumes "sharded_inv s" "sharded_rx_live s"
    and "feed f (unat mx) (path_values (sharded_abs s)
           (sweep_path (length (sd_shards s)) (unat (sd_cursor s)) (length (sd_shards s)))) st = (p, m, st')"
  shows "\<exists>s'. sharded_drain mx f st s = Inr (if p then Unwound else Returned (of_nat m), st', s') \<and> sharded_inv s'
    \<and> sharded_abs s' = strip_path m (sweep_path (length (sd_shards s)) (unat (sd_cursor s)) (length (sd_shards s)))
          (sharded_abs s)
    \<and> sd_strategy s' = sd_strategy s"
  using sharded_drain_loop_correct [OF assms(1,2) order_refl, of 0 mx f st p m st'] assms(3)
  unfolding sharded_drain_def add_0 by (cases p) simp_all

text \<open>What is left on the path is what was not taken.\<close>

lemma strip_path_values:
  "distinct js \<Longrightarrow> \<forall>j \<in> set js. j < length qs \<Longrightarrow>
     path_values (strip_path m js qs) js = drop m (path_values qs js)"
proof (induction m js qs rule: strip_path.induct)
  case (1 m qs)
  show ?case by (simp add: path_values_def)
next
  case (2 m j js qs)
  let ?qs = "qs[j := (qs ! j)\<lparr>bc_queue := drop m (bc_queue (qs ! j))\<rparr>]"
  have keep: "strip_path k is rs ! j = rs ! j" if "j \<notin> set is" for k "is" rs
    using that by (induction k "is" rs rule: strip_path.induct) auto
  have "path_values (strip_path m (j # js) qs) (j # js)
      = drop m (bc_queue (qs ! j)) @ path_values (strip_path (m - length (bc_queue (qs ! j))) js ?qs) js"
    using 2(2,3) by (simp add: path_values_def keep)
  also have "\<dots> = drop m (bc_queue (qs ! j)) @ drop (m - length (bc_queue (qs ! j))) (path_values qs js)"
    using 2 by simp
  finally show ?case by (simp add: path_values_def)
qed

lemma strip_path_frame:
  "j < length qs \<Longrightarrow> \<exists>k. strip_path m js qs ! j = (qs ! j)\<lparr>bc_queue := drop k (bc_queue (qs ! j))\<rparr>"
proof (induction m js qs rule: strip_path.induct)
  case (1 m qs)
  show ?case by (rule exI [of _ 0]) simp
next
  case (2 m i js qs)
  let ?qs = "qs[i := (qs ! i)\<lparr>bc_queue := drop m (bc_queue (qs ! i))\<rparr>]"
  from 2 obtain k where k: "strip_path m (i # js) qs ! j = (?qs ! j)\<lparr>bc_queue := drop k (bc_queue (?qs ! j))\<rparr>"
    by auto
  show ?case
  proof (cases "i = j")
    case True
    with 2(2) k show ?thesis by (intro exI [of _ "k + m"]) simp
  next
    case False
    with k show ?thesis by (intro exI [of _ k]) simp
  qed
qed

section \<open>Sending, opening and dropping\<close>

lemma sharded_try_send_correct:
  assumes inv: "sharded_inv s" and i: "i < length (sd_shards s)"
    and live: "0 < bc_senders (sharded_abs s ! i)"
  shows "\<exists>s'. sharded_try_send i v s = Inr (fst (spec_try_send v (sharded_abs s ! i)), s') \<and> sharded_inv s'
    \<and> sharded_abs s' = (sharded_abs s)[i := snd (spec_try_send v (sharded_abs s ! i))]
    \<and> sd_cursor s' = sd_cursor s \<and> sd_budget s' = sd_budget s \<and> sd_strategy s' = sd_strategy s"
proof -
  let ?c = "sd_shards s ! i"
  have a: "sharded_abs s ! i = spsc_abs ?c" using i by (simp add: sharded_abs_def)
  from live have tx: "spsc_tx_live () ?c" by (simp add: a spsc_tx_live_abs)
  from spsc.send_refines [OF shard_inv [OF inv i] tx, of v] obtain c' where
    c': "spsc_send_op v ?c = Inr (fst (spec_try_send v (spsc_abs ?c)), c')" "spsc_inv c'"
      "spsc_abs c' = snd (spec_try_send v (spsc_abs ?c))"
    by blast
  from on_shard_correct [of s i "spsc_send_op v", OF inv i c'(1,2)] show ?thesis
    unfolding sharded_try_send_def a c'(3) by blast
qed

lemma sharded_rings_ok:
  assumes "is_power_of_two cap"
  shows "\<exists>cs :: 'a spsc list. sharded_rings k cap strategy = Inr cs \<and> length cs = k
     \<and> list_all spsc_inv cs \<and> map spsc_abs cs = replicate k (fresh_bchan cap)"
proof (induction k)
  case 0
  show ?case by simp
next
  case (Suc k)
  obtain c :: "'a spsc" where "spsc_open cap strategy = Inr c" "spsc_inv c" "spsc_abs c = fresh_bchan cap"
    using assms by (rule spsc_open_inv)
  with Suc show ?case by auto
qed

lemma sharded_channel_ok:
  assumes "n > 0" "total_cap mod n = 0" "is_power_of_two (total_cap div n)" "strategy \<noteq> Park"
  shows "\<exists>s :: 'a sharded. sharded_channel n total_cap strategy = Inr s \<and> sharded_inv s \<and> sharded_rx_live s
     \<and> sharded_abs s = replicate (unat n) (fresh_bchan (total_cap div n)) \<and> sd_strategy s = strategy
     \<and> length (sd_shards s) = unat n \<and> sd_cursor s = 0 \<and> sd_budget s = 0"
proof -
  obtain cs :: "'a spsc list" where cs: "sharded_rings (unat n) (total_cap div n) strategy = Inr cs"
    "length cs = unat n" "list_all spsc_inv cs" "map spsc_abs cs = replicate (unat n) (fresh_bchan (total_cap div n))"
    using sharded_rings_ok [OF assms(3)] by blast
  let ?s = "\<lparr>sd_shards = cs, sd_cursor = 0, sd_budget = 0, sd_strategy = strategy\<rparr>"
  have pos: "0 < unat n" using assms(1) by (simp add: unat_gt_0 word_gt_0)
  have "0 < total_cap div n" using is_power_of_two_pos [OF assms(3)] by (simp add: word_less_nat_alt)
  with assms cs have "sharded_channel n total_cap strategy = Inr ?s"
    by (simp add: sharded_channel_def)
  moreover have "sharded_inv ?s"
    using cs pos assms(4) usize_bound [of n] by (simp add: sharded_inv_def)
  moreover have "sharded_abs ?s = replicate (unat n) (fresh_bchan (total_cap div n))"
    using cs(4) by (simp add: sharded_abs_def)
  ultimately show ?thesis
    using cs(2) by (simp add: sharded_rx_live_def list_all_length)
qed

lemma sharded_channel_Inr:
  assumes "sharded_channel n total_cap strategy = Inr s"
  shows "n > 0" "total_cap mod n = 0" "is_power_of_two (total_cap div n)" "strategy \<noteq> Park"
  using assms by (auto simp: sharded_channel_def Let_def split: if_splits)

end
