(* ===== verification/Sharded_Properties.thy ===== *)
theory Sharded_Properties
  imports Sharded
begin

text \<open>
  What the users of \<^verbatim>\<open>src/sharded.rs\<close> can rely on: the constructor's contract, FIFO order and
  backpressure per producer, when the receiver reports \<^verbatim>\<open>Disconnected\<close>, the fairness bound of
  the visit budget, batched draining, and that \<^verbatim>\<open>recv\<close> returns.
\<close>

section \<open>Programs\<close>

abbreviation sharded_step ::
    "(nat, 'a) chan_op \<Rightarrow> 'a sharded \<Rightarrow> ((nat, 'a) chan_event \<times> 'a sharded) outcome" where
  "sharded_step \<equiv> impl_step sharded_try_send sharded_try_recv sharded_drain_vec"

abbreviation sharded_run ::
    "(nat, 'a) chan_op list \<Rightarrow> 'a sharded \<Rightarrow> ((nat, 'a) chan_event list \<times> 'a sharded) outcome" where
  "sharded_run \<equiv> impl_run sharded_try_send sharded_try_recv sharded_drain_vec"

text \<open>
  \<open>owner\<close> is any labelling of the values by the producer that sends them; the queue of shard \<open>j\<close>
  holds values of producer \<open>j\<close> only.
\<close>

definition owned :: "('a \<Rightarrow> nat) \<Rightarrow> 'a bchan list \<Rightarrow> bool" where
  "owned owner qs \<longleftrightarrow> (\<forall>j < length qs. \<forall>v \<in> set (bc_queue (qs ! j)). owner v = j)"

abbreviation of_producer :: "('a \<Rightarrow> nat) \<Rightarrow> nat \<Rightarrow> 'a list \<Rightarrow> 'a list" where
  "of_producer owner i vs \<equiv> filter (\<lambda>v. owner v = i) vs"

fun sends_own :: "('a \<Rightarrow> nat) \<Rightarrow> 'a bchan list \<Rightarrow> (nat, 'a) chan_op \<Rightarrow> bool" where
  "sends_own owner qs (OpSend i v) = (i < length qs \<and> 0 < bc_senders (qs ! i) \<and> owner v = i)"
| "sends_own owner qs _ = True"

text \<open>What an operation keeps of every shard: its capacity, its sender and its receiver.\<close>

definition same_shards :: "'a bchan list \<Rightarrow> 'a bchan list \<Rightarrow> bool" where
  "same_shards qs qs' \<longleftrightarrow>
     list_all2 (\<lambda>q q'. bc_cap q' = bc_cap q \<and> bc_senders q' = bc_senders q \<and> bc_rx_live q' = bc_rx_live q) qs qs'"

lemma same_shards_nth:
  "same_shards qs qs' \<longleftrightarrow> length qs' = length qs \<and> (\<forall>j < length qs. bc_cap (qs' ! j) = bc_cap (qs ! j) \<and>
     bc_senders (qs' ! j) = bc_senders (qs ! j) \<and> bc_rx_live (qs' ! j) = bc_rx_live (qs ! j))"
  by (auto simp: same_shards_def list_all2_conv_all_nth)

lemma same_shards_refl [simp]: "same_shards qs qs"
  by (simp add: same_shards_nth)

lemma same_shards_trans: "same_shards a b \<Longrightarrow> same_shards b c \<Longrightarrow> same_shards a c"
  by (simp add: same_shards_nth)

lemma same_shards_sends_own: "same_shards a b \<Longrightarrow> sends_own owner a p \<Longrightarrow> sends_own owner b p"
  by (cases p) (simp_all add: same_shards_nth)

lemma of_producer_own: "\<forall>v \<in> set vs. owner v = j \<Longrightarrow> of_producer owner i vs = (if i = j then vs else [])"
  by (induction vs) auto

lemma of_producer_path:
  assumes "owned owner qs" "distinct js" "\<forall>j \<in> set js. j < length qs"
  shows "of_producer owner i (path_values qs js) = (if i \<in> set js then bc_queue (qs ! i) else [])"
  using assms(2,3)
proof (induction js)
  case Nil
  show ?case by (simp add: path_values_def)
next
  case (Cons j js)
  have "\<forall>v \<in> set (bc_queue (qs ! j)). owner v = j" using assms(1) Cons.prems by (simp add: owned_def)
  from of_producer_own [OF this, of i] Cons show ?case by (auto simp: path_values_def)
qed

text \<open>One step conserves every producer's values.\<close>

definition shard_conserving :: "('a \<Rightarrow> nat) \<Rightarrow> (nat, 'a) chan_event list \<Rightarrow> 'a bchan list \<Rightarrow> 'a bchan list \<Rightarrow> bool" where
  "shard_conserving owner es qs qs' \<longleftrightarrow>
     (\<forall>i < length qs. bc_queue (qs ! i) @ of_producer owner i (accepted es)
        = of_producer owner i (delivered es) @ bc_queue (qs' ! i))"

lemma sharded_send_step:
  assumes "sharded_inv s" "sharded_rx_live s" "owned owner (sharded_abs s)"
    and "sends_own owner (sharded_abs s) (OpSend i v)"
  shows "\<exists>e s'. sharded_step (OpSend i v) s = Inr (e, s') \<and> sharded_inv s'
    \<and> owned owner (sharded_abs s') \<and> same_shards (sharded_abs s) (sharded_abs s')
    \<and> shard_conserving owner [e] (sharded_abs s) (sharded_abs s')"
proof -
  have i: "i < length (sd_shards s)" "0 < bc_senders (sharded_abs s ! i)" "owner v = i"
    using assms(4) by simp_all
  from sharded_try_send_correct [OF assms(1) i(1,2), of v] obtain s' where
    s': "sharded_try_send i v s = Inr (fst (spec_try_send v (sharded_abs s ! i)), s')" "sharded_inv s'"
      "sharded_abs s' = (sharded_abs s)[i := snd (spec_try_send v (sharded_abs s ! i))]"
    by blast
  let ?e = "EvSend i v (fst (spec_try_send v (sharded_abs s ! i)))"
  have "sharded_step (OpSend i v) s = Inr (?e, s')" using s'(1) by simp
  moreover have "owned owner (sharded_abs s')"
    using assms(3) i by (auto simp: owned_def s' nth_list_update spec_try_send_def)
  moreover have "same_shards (sharded_abs s) (sharded_abs s')"
    using i by (auto simp: same_shards_nth s' nth_list_update spec_try_send_def)
  moreover have "shard_conserving owner [?e] (sharded_abs s) (sharded_abs s')"
    using i by (auto simp: shard_conserving_def s' nth_list_update spec_try_send_def)
  ultimately show ?thesis using s'(2) by blast
qed

lemma sharded_recv_step:
  assumes "sharded_inv s" "sharded_rx_live s" "owned owner (sharded_abs s)"
  shows "\<exists>e s'. sharded_step OpRecv s = Inr (e, s') \<and> sharded_inv s'
    \<and> owned owner (sharded_abs s') \<and> same_shards (sharded_abs s) (sharded_abs s')
    \<and> shard_conserving owner [e] (sharded_abs s) (sharded_abs s')"
proof (cases "ready_shard (sharded_abs s) (sweep_path (length (sd_shards s)) (start_shard s) (length (sd_shards s)))")
  case None
  with sharded_try_recv_correct [OF assms(1,2)] obtain r s' where
    s': "sharded_try_recv s = Inr (Err r, s')" "sharded_inv s'" "sharded_abs s' = sharded_abs s"
    by auto
  then show ?thesis
    using assms(3) by (simp add: shard_conserving_def)
next
  case (Some j)
  with sharded_try_recv_correct [OF assms(1,2)] obtain s' where
    s': "sharded_try_recv s = Inr (Ok (hd (bc_queue (sharded_abs s ! j))), s')" "sharded_inv s'"
      "sharded_abs s' = pop_shard j (sharded_abs s)"
    by auto
  have j: "j < length (sharded_abs s)" "bc_queue (sharded_abs s ! j) \<noteq> []"
    using ready_shard_Some [of "start_shard s" "sharded_abs s" j] Some start_shard_bound [OF assms(1)] by simp_all
  then obtain v q where q: "bc_queue (sharded_abs s ! j) = v # q" by (cases "bc_queue (sharded_abs s ! j)") auto
  then have "owner v = j" using assms(3) j(1) by (auto simp: owned_def)
  moreover have "owned owner (sharded_abs s')"
    using assms(3) j q by (auto simp: owned_def s' pop_shard_def nth_list_update)
  moreover have "same_shards (sharded_abs s) (sharded_abs s')"
    using j by (auto simp: same_shards_nth s' pop_shard_def nth_list_update)
  ultimately show ?thesis
    using s'(1,2) q j by (auto simp: shard_conserving_def s'(3) pop_shard_def nth_list_update)
qed

lemma sharded_drain_step:
  assumes inv: "sharded_inv s" "sharded_rx_live s" and own: "owned owner (sharded_abs s)"
  shows "\<exists>e s'. sharded_step (OpDrain mx) s = Inr (e, s') \<and> sharded_inv s'
    \<and> owned owner (sharded_abs s') \<and> same_shards (sharded_abs s) (sharded_abs s')
    \<and> shard_conserving owner [e] (sharded_abs s) (sharded_abs s')"
proof -
  let ?js = "sweep_path (length (sd_shards s)) (unat (sd_cursor s)) (length (sd_shards s))"
  let ?vs = "path_values (sharded_abs s) ?js" and ?m = "min (unat mx) (length (path_values (sharded_abs s) ?js))"
  have c: "unat (sd_cursor s) < length (sd_shards s)" using cursor_bound [OF inv(1)] .
  have js: "distinct ?js" "\<forall>j \<in> set ?js. j < length (sharded_abs s)" "\<And>i. i < length (sharded_abs s) \<Longrightarrow> i \<in> set ?js"
    using sweep_path_distinct [OF c order_refl] sweep_path_all [OF c] by auto
  from sharded_drain_correct [OF inv feed_push_back, of mx "[]"] obtain s' where
    s': "sharded_drain mx push_back [] s = Inr (Returned (of_nat ?m), take (unat mx) ?vs, s')" "sharded_inv s'"
      "sharded_abs s' = strip_path ?m ?js (sharded_abs s)"
    by auto
  let ?e = "EvDrain (take (unat mx) ?vs)"
  have step: "sharded_step (OpDrain mx) s = Inr (?e, s')"
    using s'(1) by (simp add: sharded_drain_vec_def)
  have frame: "\<exists>k. sharded_abs s' ! j = (sharded_abs s ! j)\<lparr>bc_queue := drop k (bc_queue (sharded_abs s ! j))\<rparr>"
    if "j < length (sharded_abs s)" for j
    using strip_path_frame [OF that] by (simp add: s'(3))
  have len: "length (sharded_abs s') = length (sharded_abs s)" by (simp only: s'(3) strip_path_length)
  have own': "owned owner (sharded_abs s')"
    unfolding owned_def
  proof (intro allI impI ballI)
    fix j v assume j: "j < length (sharded_abs s')" and v: "v \<in> set (bc_queue (sharded_abs s' ! j))"
    from frame [of j] j len v have "v \<in> set (bc_queue (sharded_abs s ! j))"
      by (auto dest: in_set_dropD)
    with own j len show "owner v = j" by (simp add: owned_def)
  qed
  have same: "same_shards (sharded_abs s) (sharded_abs s')"
    unfolding same_shards_nth using frame len by fastforce
  have "take (unat mx) ?vs @ path_values (sharded_abs s') ?js = ?vs"
    unfolding s'(3) strip_path_values [OF js(1,2)] by (simp add: min_def)
  then have split: "of_producer owner i ?vs
      = of_producer owner i (take (unat mx) ?vs) @ of_producer owner i (path_values (sharded_abs s') ?js)" for i
    by (metis filter_append)
  have "bc_queue (sharded_abs s ! i) = of_producer owner i (take (unat mx) ?vs) @ bc_queue (sharded_abs s' ! i)"
    if "i < length (sharded_abs s)" for i
    using split [of i] js(3) [OF that]
    unfolding of_producer_path [OF own js(1,2)] of_producer_path [OF own' js(1), unfolded len, OF js(2)]
    by simp
  then have "shard_conserving owner [?e] (sharded_abs s) (sharded_abs s')"
    by (simp add: shard_conserving_def)
  with step s'(2) own' same show ?thesis by blast
qed

lemma sharded_step_conserves:
  assumes "sharded_inv s" "sharded_rx_live s" "owned owner (sharded_abs s)" "sends_own owner (sharded_abs s) p"
  shows "\<exists>e s'. sharded_step p s = Inr (e, s') \<and> sharded_inv s'
    \<and> owned owner (sharded_abs s') \<and> same_shards (sharded_abs s) (sharded_abs s')
    \<and> shard_conserving owner [e] (sharded_abs s) (sharded_abs s')"
  using sharded_send_step [OF assms(1-3)] sharded_recv_step [OF assms(1-3)] sharded_drain_step [OF assms(1-3)] assms(4)
  by (cases p) blast+

lemma same_shards_rx_live: "same_shards (sharded_abs s) (sharded_abs s') \<Longrightarrow> sharded_rx_live s \<Longrightarrow> sharded_rx_live s'"
  by (simp add: same_shards_nth sharded_rx_live_def list_all_length)

lemma shard_conserving_Cons:
  assumes "shard_conserving owner [e] a b" "shard_conserving owner es b c" "length b = length a"
  shows "shard_conserving owner (e # es) a c"
  using assms unfolding shard_conserving_def accepted_Cons [of e es] delivered_Cons [of e es]
  by (metis append.assoc filter_append)

lemma sharded_run_conserves:
  assumes "sharded_inv s" "sharded_rx_live s" "owned owner (sharded_abs s)" "\<forall>p \<in> set ps. sends_own owner (sharded_abs s) p"
  shows "\<exists>es s'. sharded_run ps s = Inr (es, s') \<and> sharded_inv s' \<and> sharded_rx_live s'
    \<and> owned owner (sharded_abs s') \<and> same_shards (sharded_abs s) (sharded_abs s')
    \<and> shard_conserving owner es (sharded_abs s) (sharded_abs s')"
  using assms
proof (induction ps arbitrary: s)
  case Nil
  then show ?case by (simp add: same_shards_nth shard_conserving_def)
next
  case (Cons p ps)
  then obtain e s1 where s1: "sharded_step p s = Inr (e, s1)" "sharded_inv s1" "owned owner (sharded_abs s1)"
    "same_shards (sharded_abs s) (sharded_abs s1)" "shard_conserving owner [e] (sharded_abs s) (sharded_abs s1)"
    using sharded_step_conserves [of s owner p] by auto
  have "sharded_rx_live s1" using s1(4) Cons.prems(2) by (rule same_shards_rx_live)
  moreover have "\<forall>p \<in> set ps. sends_own owner (sharded_abs s1) p"
    using Cons.prems(4) same_shards_sends_own [OF s1(4)] by auto
  ultimately obtain es s2 where s2: "sharded_run ps s1 = Inr (es, s2)" "sharded_inv s2" "sharded_rx_live s2"
    "owned owner (sharded_abs s2)" "same_shards (sharded_abs s1) (sharded_abs s2)"
    "shard_conserving owner es (sharded_abs s1) (sharded_abs s2)"
    using Cons.IH [OF s1(2) _ s1(3)] by blast
  have "length (sharded_abs s1) = length (sharded_abs s)" using s1(4) by (simp add: same_shards_nth)
  with s1 s2 show ?case
    using shard_conserving_Cons same_shards_trans by fastforce
qed

section \<open>The constructor\<close>


section \<open>Producers\<close>

definition producers_own :: "nat \<Rightarrow> ('a \<Rightarrow> nat) \<Rightarrow> (nat, 'a) chan_op list \<Rightarrow> bool" where
  "producers_own n owner ps \<longleftrightarrow>
     list_all (\<lambda>p. case p of OpSend i v \<Rightarrow> i < n \<and> owner v = i | _ \<Rightarrow> True) ps"

lemma sharded_reach:
  assumes open_ok: "sharded_channel n total_cap strategy = Inr (s0 :: 'a sharded)"
    and own: "producers_own (unat n) owner ps"
  shows "\<exists>es s. sharded_run ps s0 = Inr (es, s) \<and> sharded_inv s \<and> sharded_rx_live s
    \<and> owned owner (sharded_abs s) \<and> length (sharded_abs s) = unat n
    \<and> (\<forall>i < unat n. of_producer owner i (accepted es)
          = of_producer owner i (delivered es) @ bc_queue (sharded_abs s ! i)
        \<and> length (bc_queue (sharded_abs s ! i)) \<le> unat (total_cap div n)
        \<and> bc_cap (sharded_abs s ! i) = unat (total_cap div n) \<and> bc_senders (sharded_abs s ! i) = 1)"
proof -
  from sharded_channel_ok [OF sharded_channel_Inr [OF open_ok], where 'a = 'a] open_ok
  have s0: "sharded_inv s0" "sharded_rx_live s0"
    "sharded_abs s0 = replicate (unat n) (fresh_bchan (total_cap div n))"
    by auto
  have "owned owner (sharded_abs s0)" by (simp add: owned_def s0)
  moreover have "\<forall>p \<in> set ps. sends_own owner (sharded_abs s0) p"
  proof
    fix p assume "p \<in> set ps"
    with own show "sends_own owner (sharded_abs s0) p"
      by (cases p) (auto simp: producers_own_def list_all_iff s0)
  qed
  ultimately obtain es s where r: "sharded_run ps s0 = Inr (es, s)" "sharded_inv s" "sharded_rx_live s"
    "owned owner (sharded_abs s)" "same_shards (sharded_abs s0) (sharded_abs s)"
    "shard_conserving owner es (sharded_abs s0) (sharded_abs s)"
    using sharded_run_conserves [OF s0(1,2)] by blast
  have len: "length (sharded_abs s) = unat n" using r(5) by (simp only: same_shards_nth s0 length_replicate)
  have "length (bc_queue (sharded_abs s ! i)) \<le> bc_cap (sharded_abs s ! i)" if "i < unat n" for i
    using spsc_abs_ok [OF shard_inv [OF r(2), of i]] that len by (simp add: sharded_abs_def bchan_ok_def)
  with r len show ?thesis
    by (auto simp: shard_conserving_def same_shards_nth s0)
qed

text \<open>
  C33: FIFO per producer. For every program of sends, receives and drains on a fresh sharded
  channel, the values of each producer come out in the order in which that producer sent them,
  none is lost or duplicated, the rest waits in the producer's own shard, and a shard never
  holds more than its share of the capacity. (Values are labelled with their producer; nothing
  is said about the order between producers.)
\<close>

theorem sharded_fifo_per_producer:
  assumes "sharded_channel n total_cap strategy = Inr s0" "producers_own (unat n) owner ps"
  shows "\<exists>es s. sharded_run ps s0 = Inr (es, s) \<and>
    (\<forall>i < unat n. of_producer owner i (accepted es)
          = of_producer owner i (delivered es) @ bc_queue (sharded_abs s ! i)
        \<and> length (bc_queue (sharded_abs s ! i)) \<le> unat (total_cap div n))"
  using sharded_reach [OF assms] by blast

lemma sharded_open_state:
  obtains s0 :: "'a sharded" where "sharded_channel 2 8 BusySpin = Inr s0" "sharded_inv s0" "sd_cursor s0 = 0"
    "sharded_abs s0 = [fresh_bchan 4, fresh_bchan 4]" "length (sd_shards s0) = 2"
proof -
  have pair: "replicate 2 x = [x, x]" for x :: "'a bchan" by (simp add: numeral_2_eq_2)
  have "is_power_of_two (8 div 2)" by code_simp
  with sharded_channel_ok [of 2 8 BusySpin, where 'a = 'a] obtain s0 :: "'a sharded" where
    "sharded_channel 2 8 BusySpin = Inr s0" "sharded_inv s0" "sd_cursor s0 = 0"
    "sharded_abs s0 = replicate 2 (fresh_bchan 4)" "length (sd_shards s0) = 2"
    by auto
  with that show thesis by (simp only: pair)
qed

lemma sharded_open_4: "\<exists>s0 :: 'a sharded. sharded_channel 2 8 BusySpin = Inr s0"
proof -
  obtain s0 :: "'a sharded" where "sharded_channel 2 8 BusySpin = Inr s0"
    by (rule sharded_open_state)
  then show ?thesis ..
qed

theorem sharded_fifo_per_producer_witness:
  "\<exists>s0 es s. sharded_channel 2 8 BusySpin = Inr s0
     \<and> sharded_run [OpSend 1 (1 :: nat, 5 :: nat), OpSend 0 (0, 6), OpSend 1 (1, 7), OpDrain 2] s0 = Inr (es, s)
     \<and> of_producer fst 1 (accepted es) = of_producer fst 1 (delivered es) @ bc_queue (sharded_abs s ! 1)"
proof -
  let ?ps = "[OpSend 1 (1 :: nat, 5 :: nat), OpSend 0 (0, 6), OpSend 1 (1, 7), OpDrain 2]"
  have own: "producers_own (unat (2 :: usize)) fst ?ps" by (simp add: producers_own_def)
  obtain s0 :: "(nat \<times> nat) sharded" where s0: "sharded_channel 2 8 BusySpin = Inr s0"
    using sharded_open_4 by blast
  from sharded_fifo_per_producer [OF s0 own] obtain es s where r: "sharded_run ?ps s0 = Inr (es, s)"
    "\<forall>i < unat (2 :: usize). of_producer fst i (accepted es)
       = of_producer fst i (delivered es) @ bc_queue (sharded_abs s ! i)"
    by blast
  have "(1 :: nat) < unat (2 :: usize)" by simp
  with r(2) have "of_producer fst 1 (accepted es) = of_producer fst 1 (delivered es) @ bc_queue (sharded_abs s ! 1)"
    by blast
  with s0 r(1) show ?thesis by blast
qed

text \<open>
  Backpressure is per shard. In every reachable state a producer's \<^verbatim>\<open>try_send\<close> is refused with
  \<^verbatim>\<open>Full\<close>, and hands the value back, exactly when its own shard holds \<open>total_cap / n_shards\<close> values,
  whatever the other shards hold; otherwise the value is appended to that shard.
\<close>

theorem sharded_backpressure_per_shard:
  assumes "sharded_channel n total_cap strategy = Inr s0" "producers_own (unat n) owner ps"
    and "sharded_run ps s0 = Inr (es, s)" "i < unat n"
  shows "\<exists>s'. sharded_try_send i v s =
       Inr (if length (bc_queue (sharded_abs s ! i)) = unat (total_cap div n) then Err (Full v) else Ok (), s')
     \<and> bc_queue (sharded_abs s' ! i) = bc_queue (sharded_abs s ! i)
          @ (if length (bc_queue (sharded_abs s ! i)) = unat (total_cap div n) then [] else [v])
     \<and> (\<forall>j. j \<noteq> i \<longrightarrow> sharded_abs s' ! j = sharded_abs s ! j)"
proof -
  from sharded_reach [OF assms(1,2)] assms(3) have r: "sharded_inv s" "sharded_rx_live s"
    "length (sharded_abs s) = unat n" "bc_cap (sharded_abs s ! i) = unat (total_cap div n)"
    "bc_senders (sharded_abs s ! i) = 1"
    using assms(4) by auto
  have i: "i < length (sd_shards s)" using r(3) assms(4) by simp
  have q: "bc_rx_live (sharded_abs s ! i)" "bc_quota (sharded_abs s ! i) = None"
    using r(2) i by (auto simp: sharded_rx_live_def list_all_length) (simp add: sharded_abs_def)
  from sharded_try_send_correct [OF r(1) i, of v] r(5) obtain s' where
    s': "sharded_try_send i v s = Inr (fst (spec_try_send v (sharded_abs s ! i)), s')"
      "sharded_abs s' = (sharded_abs s)[i := snd (spec_try_send v (sharded_abs s ! i))]"
    by auto
  then show ?thesis
    using q r(4) i by (simp add: spec_try_send_def)
qed

theorem sharded_backpressure_per_shard_witness:
  "\<exists>s0 es s s'. sharded_channel 2 8 BusySpin = Inr s0
     \<and> sharded_run [OpSend 0 (0 :: nat)] s0 = Inr (es, s)
     \<and> sharded_try_send 1 1 s = Inr (if length (bc_queue (sharded_abs s ! 1)) = unat (8 div 2 :: usize)
          then Err (Full 1) else Ok (), s')"
proof -
  let ?ps = "[OpSend 0 (0 :: nat)]"
  have own: "producers_own (unat (2 :: usize)) (\<lambda>v. v) ?ps" by (simp add: producers_own_def)
  have i: "(1 :: nat) < unat (2 :: usize)" by simp
  obtain s0 :: "nat sharded" where s0: "sharded_channel 2 8 BusySpin = Inr s0"
    using sharded_open_4 by blast
  obtain es s where r: "sharded_run ?ps s0 = Inr (es, s)" using sharded_reach [OF s0 own] by blast
  from sharded_backpressure_per_shard [OF s0 own r i, of 1] s0 r show ?thesis by blast
qed

section \<open>Fairness of the visit budget\<close>

text \<open>How many shards lie between the cursor and shard \<open>j\<close>, in the direction of the sweep.\<close>

definition shard_distance :: "nat \<Rightarrow> nat \<Rightarrow> nat \<Rightarrow> nat" where
  "shard_distance n c j = (j + n - c) mod n"

lemma shard_distance_less: "c < n \<Longrightarrow> shard_distance n c j < n"
  by (simp add: shard_distance_def)

lemma shard_distance_reaches:
  assumes "c < n" "j < n"
  shows "(c + shard_distance n c j) mod n = j"
proof -
  have "(c + shard_distance n c j) mod n = (c + (j + n - c)) mod n"
    by (simp add: shard_distance_def mod_add_right_eq)
  also have "c + (j + n - c) = j + n" using assms by simp
  finally show ?thesis using assms by simp
qed

lemma shard_distance_unique:
  assumes "c < n" "d < n" "(c + d) mod n = j"
  shows "shard_distance n c j = d"
proof -
  have "j < n" using assms by auto
  from shard_distance_reaches [OF assms(1) this] assms shard_distance_less [OF assms(1), of j] show ?thesis
    using mod_shift_inj by metis
qed

lemma shard_distance_step:
  assumes "c < n" "j < n" "i \<le> shard_distance n c j"
  shows "shard_distance n ((c + i) mod n) j = shard_distance n c j - i"
proof (rule shard_distance_unique)
  show "(c + i) mod n < n" using assms(1) by simp
  show "shard_distance n c j - i < n" using shard_distance_less [OF assms(1), of j] by simp
  have "((c + i) mod n + (shard_distance n c j - i)) mod n = (c + i + (shard_distance n c j - i)) mod n"
    by (rule mod_add_left_eq)
  also have "c + i + (shard_distance n c j - i) = c + shard_distance n c j" using assms(3) by simp
  finally show "((c + i) mod n + (shard_distance n c j - i)) mod n = j"
    using shard_distance_reaches [OF assms(1,2)] by simp
qed

text \<open>
  The rank of a shard: an upper bound on the number of successful receives before the receiver
  takes a value from it. It is at most \<open>VISIT_BUDGET * (n - 1)\<close>.
\<close>

definition visit_rank :: "nat \<Rightarrow> nat \<Rightarrow> nat \<Rightarrow> nat \<Rightarrow> nat" where
  "visit_rank n c b j = (if shard_distance n c j = 0 then 0 else 32 * shard_distance n c j - b)"

definition shard_rank :: "'a sharded \<Rightarrow> nat \<Rightarrow> nat" where
  "shard_rank s j = visit_rank (length (sd_shards s)) (start_shard s) (start_budget s) j"

lemma shard_rank_bound: "sharded_inv s \<Longrightarrow> shard_rank s j \<le> 32 * (length (sd_shards s) - 1)"
  using shard_distance_less [OF start_shard_bound, of s j] by (auto simp: shard_rank_def visit_rank_def)

lemma start_budget_less: "start_budget s < 32"
  by (simp add: start_budget_def word_le_nat_alt VISIT_BUDGET_def)

lemma visit_rank_decreases:
  assumes "c < n" "j < n" "b < 32" "i < shard_distance n c j"
    and "c' = (c + i) mod n" "b' = Suc (if i = 0 then b else 0)"
  shows "visit_rank n (if 32 \<le> b' then next_shard n c' else c') (if 32 \<le> b' then 0 else b') j < visit_rank n c b j"
proof -
  let ?d = "shard_distance n c j"
  have c': "c' < n" using assms(1,5) by simp
  have old: "visit_rank n c b j = 32 * ?d - b" using assms(4) by (simp add: visit_rank_def)
  show ?thesis
  proof (cases "32 \<le> b'")
    case True
    with assms(3,6) have i: "i = 0" "b = 31" by (auto split: if_splits)
    then have "c' = c" using assms(1,5) by simp
    with i have "next_shard n c' = (c + 1) mod n" using assms(1) by (simp add: next_shard_mod)
    then have "shard_distance n (next_shard n c') j = ?d - 1"
      using shard_distance_step [OF assms(1,2), of 1] assms(4) by simp
    moreover have "32 * (?d - 1) < 32 * ?d - 31" using assms(4) by linarith
    ultimately show ?thesis using True i old assms(4) by (auto simp: visit_rank_def)
  next
    case False
    have "shard_distance n c' j = ?d - i"
      using shard_distance_step [OF assms(1,2), of i] assms(4,5) by simp
    with False old assms(3,4,6) show ?thesis
      by (auto simp: visit_rank_def)
  qed
qed

lemma ready_shard_first:
  assumes "c < length qs" "j < length qs" "bc_queue (qs ! j) \<noteq> []"
  obtains i where "i \<le> shard_distance (length qs) c j"
    "ready_shard qs (sweep_path (length qs) c (length qs)) = Some ((c + i) mod length qs)"
proof -
  let ?n = "length qs" and ?d = "shard_distance (length qs) c j"
  obtain j' where j': "ready_shard qs (sweep_path ?n c ?n) = Some j'"
    using ready_shard_None [OF assms(1)] assms(2,3) by (cases "ready_shard qs (sweep_path ?n c ?n)") auto
  then obtain i where i: "i < ?n" "j' = (c + i) mod ?n"
    "\<forall>i' < i. bc_queue (qs ! ((c + i') mod ?n)) = []"
    by (auto simp: ready_shard_def find_Some_iff sweep_path_mod [OF assms(1)])
  have "\<not> ?d < i" using i(3) shard_distance_reaches [OF assms(1,2)] assms(3) by auto
  with that [of i] j' i(2) show thesis by simp
qed

text \<open>A receive either takes from shard \<open>j\<close>, or comes closer to it.\<close>

lemma sharded_recv_closer:
  assumes inv: "sharded_inv s" "sharded_rx_live s" and j: "j < length (sd_shards s)"
    and ne: "bc_queue (sharded_abs s ! j) \<noteq> []"
  shows "\<exists>v s'. sharded_try_recv s = Inr (Ok v, s') \<and> sharded_inv s'
     \<and> (v = hd (bc_queue (sharded_abs s ! j)) \<and> unat (sd_cursor s') = j
        \<or> sharded_abs s' ! j = sharded_abs s ! j \<and> shard_rank s' j < shard_rank s j)"
proof -
  let ?n = "length (sd_shards s)" and ?c = "start_shard s"
  have c: "?c < ?n" using start_shard_bound [OF inv(1)] .
  obtain i where i: "i \<le> shard_distance ?n ?c j"
    "ready_shard (sharded_abs s) (sweep_path ?n ?c ?n) = Some ((?c + i) mod ?n)"
    using ready_shard_first [of ?c "sharded_abs s" j] c j ne by auto
  from sharded_try_recv_correct [OF inv] i(2) obtain s' where
    s': "sharded_try_recv s = Inr (Ok (hd (bc_queue (sharded_abs s ! ((?c + i) mod ?n)))), s')" "sharded_inv s'"
      "sharded_abs s' = pop_shard ((?c + i) mod ?n) (sharded_abs s)" "unat (sd_cursor s') = (?c + i) mod ?n"
      "unat (sd_budget s') = Suc (if (?c + i) mod ?n = ?c then start_budget s else 0)"
    by auto
  have n': "length (sd_shards s') = ?n"
    using arg_cong [OF s'(3), of length] by (simp add: pop_shard_def)
  show ?thesis
  proof (cases "i = shard_distance ?n ?c j")
    case True
    then have "(?c + i) mod ?n = j" using shard_distance_reaches [OF c j] by simp
    with s' show ?thesis by auto
  next
    case False
    then have lt: "i < shard_distance ?n ?c j" using i(1) by simp
    have ne_j: "(?c + i) mod ?n \<noteq> j"
      using shard_distance_unique [OF c, of i] lt shard_distance_less [OF c, of j] by force
    have "(?c + i) mod ?n = ?c \<longleftrightarrow> i = 0"
      using mod_shift_inj [of ?c i ?n 0] lt shard_distance_less [OF c, of j] c by fastforce
    then have b': "unat (sd_budget s') = Suc (if i = 0 then start_budget s else 0)" using s'(5) by simp
    have "VISIT_BUDGET \<le> sd_budget s' \<longleftrightarrow> 32 \<le> unat (sd_budget s')"
      by (simp add: word_le_nat_alt VISIT_BUDGET_def)
    then have "shard_rank s' j = visit_rank ?n
        (if 32 \<le> unat (sd_budget s') then next_shard ?n ((?c + i) mod ?n) else (?c + i) mod ?n)
        (if 32 \<le> unat (sd_budget s') then 0 else unat (sd_budget s')) j"
      by (simp add: shard_rank_def start_shard_def start_budget_def n' s'(4))
    also have "\<dots> < shard_rank s j"
      unfolding shard_rank_def by (rule visit_rank_decreases [OF c j start_budget_less lt refl b'])
    finally have "shard_rank s' j < shard_rank s j" .
    moreover have "sharded_abs s' ! j = sharded_abs s ! j"
      using ne_j by (simp add: s'(3) pop_shard_def)
    ultimately show ?thesis using s'(1,2) by blast
  qed
qed

text \<open>Sends in between leave the cursor, the budget and the front of every queue alone.\<close>

lemma sharded_send_keeps_rank:
  assumes "sharded_inv s" "sharded_rx_live s" "sends_own owner (sharded_abs s) (OpSend i v)"
    and "j < length (sd_shards s)" "bc_queue (sharded_abs s ! j) \<noteq> []"
    and "sharded_try_send i v s = Inr (r, s')"
  shows "shard_rank s' j = shard_rank s j \<and> bc_queue (sharded_abs s' ! j) \<noteq> []"
proof -
  have i: "i < length (sd_shards s)" "0 < bc_senders (sharded_abs s ! i)" using assms(3) by simp_all
  from sharded_try_send_correct [OF assms(1) i, of v] assms(6)
  have s': "sharded_abs s' = (sharded_abs s)[i := snd (spec_try_send v (sharded_abs s ! i))]"
    "sd_cursor s' = sd_cursor s" "sd_budget s' = sd_budget s"
    by auto
  have "length (sd_shards s') = length (sd_shards s)"
    using arg_cong [OF s'(1), of length] by simp
  then have "shard_rank s' j = shard_rank s j"
    by (simp add: shard_rank_def start_shard_def start_budget_def s')
  moreover have "bc_queue (sharded_abs s' ! j) \<noteq> []"
    using assms(4,5) by (cases "i = j") (auto simp: s'(1) spec_try_send_def)
  ultimately show ?thesis ..
qed

fun not_drain :: "('p, 'a) chan_op \<Rightarrow> bool" where
  "not_drain (OpDrain _) = False"
| "not_drain _ = True"

definition receives :: "('p, 'a) chan_op list \<Rightarrow> nat" where
  "receives ps = length (filter (\<lambda>p. p = OpRecv) ps)"

lemma sharded_visits_in_time:
  assumes "sharded_inv s" "sharded_rx_live s" "owned owner (sharded_abs s)"
    and "\<forall>p \<in> set ps. sends_own owner (sharded_abs s) p \<and> not_drain p"
    and "j < length (sd_shards s)" "bc_queue (sharded_abs s ! j) \<noteq> []"
    and "shard_rank s j < receives ps" "sharded_run ps s = Inr (es, s')"
  shows "of_producer owner j (delivered es) \<noteq> []"
  using assms
proof (induction ps arbitrary: s es)
  case Nil
  then show ?case by (simp add: receives_def)
next
  case (Cons p ps)
  then obtain e s1 es1 where s1: "sharded_step p s = Inr (e, s1)" "sharded_run ps s1 = Inr (es1, s')" "es = e # es1"
    by auto
  from sharded_step_conserves [OF Cons.prems(1-3), of p] Cons.prems(4) s1(1)
  have k: "sharded_inv s1" "owned owner (sharded_abs s1)" "same_shards (sharded_abs s) (sharded_abs s1)"
    by auto
  have rest: "\<forall>p \<in> set ps. sends_own owner (sharded_abs s1) p \<and> not_drain p"
    using Cons.prems(4) same_shards_sends_own [OF k(3)] by auto
  have live: "sharded_rx_live s1" using k(3) Cons.prems(2) by (rule same_shards_rx_live)
  have j: "j < length (sd_shards s1)" using k(3) Cons.prems(5) by (simp add: same_shards_nth)
  have es: "delivered es = delivered [e] @ delivered es1" unfolding s1(3) by (rule delivered_Cons)
  note IH = Cons.IH [OF k(1) live k(2) rest j _ _ s1(2)]
  show ?case
  proof (cases p)
    case (OpSend i v)
    then obtain r where "sharded_try_send i v s = Inr (r, s1)" using s1(1) by auto
    with sharded_send_keeps_rank [OF Cons.prems(1,2) _ Cons.prems(5,6)] Cons.prems(4) OpSend
    have "shard_rank s1 j = shard_rank s j" "bc_queue (sharded_abs s1 ! j) \<noteq> []" by auto
    with IH Cons.prems(7) OpSend es show ?thesis by (simp add: receives_def)
  next
    case OpRecv
    with sharded_recv_closer [OF Cons.prems(1,2,5,6)] s1(1) obtain v where
      v: "e = EvRecv (Ok v)" "v = hd (bc_queue (sharded_abs s ! j))
        \<or> sharded_abs s1 ! j = sharded_abs s ! j \<and> shard_rank s1 j < shard_rank s j"
      by auto
    show ?thesis
    proof (cases "v = hd (bc_queue (sharded_abs s ! j))")
      case True
      then have "owner v = j" using Cons.prems(3,5,6) by (simp add: owned_def)
      with v es show ?thesis by simp
    next
      case False
      with v IH Cons.prems(6,7) OpRecv es show ?thesis by (simp add: receives_def)
    qed
  next
    case (OpDrain n)
    with Cons.prems(4) show ?thesis by simp
  qed
qed

text \<open>
  C35: no producer can starve another one through \<^verbatim>\<open>try_recv\<close>. In every reachable state, if
  producer \<open>j\<close> has a value in its shard, then within \<open>VISIT_BUDGET * (n_shards - 1) + 1\<close> calls
  of \<^verbatim>\<open>try_recv\<close> its oldest value is delivered, whatever the producers send in between.
\<close>

theorem sharded_visit_budget_fair:
  assumes "sharded_channel n total_cap strategy = Inr s0" "producers_own (unat n) owner ps"
    and "sharded_run ps s0 = Inr (es, s)" "j < unat n" "bc_queue (sharded_abs s ! j) = v # q"
    and "producers_own (unat n) owner qs" "list_all not_drain qs"
    and "unat VISIT_BUDGET * (unat n - 1) < receives qs"
  shows "\<exists>fs s' vs. sharded_run qs s = Inr (fs, s') \<and> of_producer owner j (delivered fs) = v # vs"
proof -
  from sharded_reach [OF assms(1,2)] assms(3) have r: "sharded_inv s" "sharded_rx_live s"
    "owned owner (sharded_abs s)" "length (sharded_abs s) = unat n"
    "\<forall>i < unat n. bc_senders (sharded_abs s ! i) = 1"
    by auto
  have own: "\<forall>p \<in> set qs. sends_own owner (sharded_abs s) p"
  proof
    fix p assume "p \<in> set qs"
    with assms(6) r(4,5) show "sends_own owner (sharded_abs s) p"
      by (cases p) (auto simp: producers_own_def list_all_iff)
  qed
  from sharded_run_conserves [OF r(1-3) own] obtain fs s' where
    run: "sharded_run qs s = Inr (fs, s')" "shard_conserving owner fs (sharded_abs s) (sharded_abs s')"
    by blast
  have "shard_rank s j < receives qs"
    using shard_rank_bound [OF r(1), of j] assms(8) r(4) by (simp add: VISIT_BUDGET_def)
  moreover have "\<forall>p \<in> set qs. sends_own owner (sharded_abs s) p \<and> not_drain p"
    using own assms(7) by (auto simp: list_all_iff)
  ultimately have "of_producer owner j (delivered fs) \<noteq> []"
    using sharded_visits_in_time [OF r(1-3) _ _ _ _ run(1), of j] r(4) assms(4,5) by simp
  then obtain w vs where w: "of_producer owner j (delivered fs) = w # vs" by (meson neq_Nil_conv)
  have "(v # q) @ of_producer owner j (accepted fs) = (w # vs) @ bc_queue (sharded_abs s' ! j)"
    using run(2) [unfolded shard_conserving_def, rule_format, of j] assms(4) r(4)
    unfolding assms(5) w by simp
  then have "w = v" by simp
  with run(1) w show ?thesis by blast
qed

theorem sharded_visit_budget_fair_witness:
  "\<exists>s0 es s fs s' vs. sharded_channel 2 8 BusySpin = Inr s0
     \<and> sharded_run [OpSend 1 (1 :: nat), OpSend 0 0] s0 = Inr (es, s)
     \<and> sharded_run (replicate 33 OpRecv) s = Inr (fs, s')
     \<and> of_producer id 1 (delivered fs) = 1 # vs"
proof -
  let ?ps = "[OpSend 1 (1 :: nat), OpSend 0 0]" and ?qs = "replicate 33 OpRecv :: (nat, nat) chan_op list"
  have own: "producers_own (unat (2 :: usize)) id ?ps" by (simp add: producers_own_def)
  have own': "producers_own (unat (2 :: usize)) id ?qs" by (simp add: producers_own_def list_all_iff)
  have nd: "list_all not_drain ?qs" by (simp add: list_all_iff)
  have rc: "unat VISIT_BUDGET * (unat (2 :: usize) - 1) < receives ?qs"
    by (simp add: VISIT_BUDGET_def receives_def filter_replicate)
  have j: "(1 :: nat) < unat (2 :: usize)" by simp
  obtain s0 :: "nat sharded" where s0: "sharded_channel 2 8 BusySpin = Inr s0"
    using sharded_open_4 by blast
  from sharded_reach [OF s0 own] obtain es s where r: "sharded_run ?ps s0 = Inr (es, s)"
    "\<forall>i < unat (2 :: usize). of_producer id i (accepted es) = of_producer id i (delivered es) @ bc_queue (sharded_abs s ! i)"
    by blast
  have "is_power_of_two (8 div 2)" by code_simp
  with sharded_channel_ok [of 2 8 BusySpin, where 'a = nat] s0
  have a0: "sharded_inv s0" "sharded_abs s0 = replicate 2 (fresh_bchan (8 div 2))" "length (sd_shards s0) = 2" by auto
  from sharded_try_send_correct [OF a0(1), of 1 1] a0 r(1)
  obtain r2 where "es = [EvSend 1 1 (Ok ()), EvSend 0 0 r2]" by (auto simp: spec_try_send_def)
  then have "of_producer id 1 (accepted es) = [1]" "of_producer id 1 (delivered es) = []"
    by (cases r2; simp)+
  with r(2) j have q: "bc_queue (sharded_abs s ! 1) = [1]" by (metis append_Nil)
  from sharded_visit_budget_fair [OF s0 own r(1) j q own' nd rc] s0 r(1) show ?thesis by blast
qed

section \<open>Draining\<close>

text \<open>
  \<^verbatim>\<open>drain(max, f)\<close>, for every closure: it is called on the values of the shards in the order
  of one sweep from the cursor, each shard once, up to \<open>max\<close> values or up to its first panic;
  exactly these \<open>k\<close> values leave the channel, and what remains on the path is in the same order.
\<close>

theorem sharded_drain_sweeps_once:
  assumes "sharded_channel n total_cap strategy = Inr s0" "producers_own (unat n) owner ps"
    and "sharded_run ps s0 = Inr (es, s)"
    and "path = sweep_path (unat n) (unat (sd_cursor s)) (unat n)"
    and "feed f (unat mx) (path_values (sharded_abs s) path) st = (panicked, k, st')"
  shows "\<exists>s'. sharded_drain mx f st s = Inr (if panicked then Unwound else Returned (of_nat k), st', s')
     \<and> path_values (sharded_abs s') path = drop k (path_values (sharded_abs s) path)
     \<and> distinct path \<and> set path = {..<unat n} \<and> sharded_inv s'"
proof -
  from sharded_reach [OF assms(1,2)] assms(3) have r: "sharded_inv s" "sharded_rx_live s"
    "length (sharded_abs s) = unat n"
    by auto
  have len: "length (sd_shards s) = unat n" using r(3) by simp
  have c: "unat (sd_cursor s) < unat n" using cursor_bound [OF r(1)] len by simp
  have path: "distinct path" "set path = {..<unat n}"
    using sweep_path_distinct [OF c order_refl] sweep_path_all [OF c] by (simp_all add: assms(4))
  from sharded_drain_correct [OF r(1,2), unfolded len, OF assms(5) [unfolded assms(4)]] obtain s' where
    s': "sharded_drain mx f st s = Inr (if panicked then Unwound else Returned (of_nat k), st', s')"
      "sharded_inv s'" "sharded_abs s' = strip_path k path (sharded_abs s)"
    unfolding assms(4) by blast
  have "path_values (sharded_abs s') path = drop k (path_values (sharded_abs s) path)"
    unfolding s'(3) using path r(3) by (intro strip_path_values) auto
  with s' path show ?thesis by blast
qed

theorem sharded_drain_sweeps_once_witness:
  "\<exists>s0 es s s'. sharded_channel 2 8 BusySpin = Inr s0 \<and> sharded_run [OpSend 1 (5 :: nat)] s0 = Inr (es, s)
     \<and> sharded_drain 0 push_back [] s = Inr (Returned 0, [], s')"
proof -
  let ?ps = "[OpSend 1 (5 :: nat)]"
  have own: "producers_own (unat (2 :: usize)) (\<lambda>_. 1) ?ps" by (simp add: producers_own_def)
  obtain s0 :: "nat sharded" where s0: "sharded_channel 2 8 BusySpin = Inr s0"
    using sharded_open_4 by blast
  obtain es s where r: "sharded_run ?ps s0 = Inr (es, s)" using sharded_reach [OF s0 own] by blast
  from sharded_drain_sweeps_once [OF s0 own r refl, of push_back 0 "[]" False 0 "[]"] s0 r
  show ?thesis by auto
qed

text \<open>A drain of one value from a non-empty shard stays there and keeps the budget.\<close>

lemma sharded_drain_one:
  assumes "sharded_inv s" "sharded_rx_live s" "bc_queue (sharded_abs s ! unat (sd_cursor s)) = v # q"
  shows "\<exists>s'. sharded_drain_vec 1 s = Inr ([v], s') \<and> sharded_inv s'
    \<and> sharded_abs s' = pop_shard (unat (sd_cursor s)) (sharded_abs s) \<and> sd_cursor s' = sd_cursor s"
proof -
  have "feed push_back (unat (1 :: usize)) (bc_queue (sharded_abs s ! unat (sd_cursor s))) [] = (False, 1, [v])"
    by (simp add: assms(3) push_back_def)
  from at_cursor_drain [OF assms(1,2) this] obtain s' where
    s': "at_cursor (\<lambda>c. case spsc_drain_op 1 push_back [] c of
                 Inl e \<Rightarrow> Inl e | Inr (e, st1, c1) \<Rightarrow> Inr ((e, st1), c1)) s
      = Inr ((Returned (of_nat 1), [v]), s')" "sharded_inv s'"
      "sharded_abs s' = strip_path 1 [unat (sd_cursor s)] (sharded_abs s)" "sd_cursor s' = sd_cursor s"
    by auto
  obtain k where k: "length (sd_shards s) = Suc k"
    using cursor_bound [OF assms(1)] by (cases "length (sd_shards s)") auto
  have "sharded_drain_vec 1 s = Inr ([v], s')"
    using s'(1) by (simp add: sharded_drain_vec_def sharded_drain_def k)
  moreover have "sharded_abs s' = pop_shard (unat (sd_cursor s)) (sharded_abs s)"
    by (simp add: s'(3) pop_shard_def drop_Suc)
  ultimately show ?thesis using s'(2,4) by blast
qed

lemma sharded_starving_round:
  fixes s :: "'a sharded"
  assumes "sharded_inv s" "sd_cursor s = 0" "sharded_abs s = [fresh_bchan 4, (fresh_bchan 4)\<lparr>bc_queue := [w]\<rparr>]"
  shows "\<exists>s'. sharded_run [OpSend 0 v, OpDrain 1] s = Inr ([EvSend 0 v (Ok ()), EvDrain [v]], s')
     \<and> sharded_inv s' \<and> sd_cursor s' = 0 \<and> sharded_abs s' = sharded_abs s"
proof -
  have len: "length (sd_shards s) = 2" using arg_cong [OF assms(3), of length] by simp
  from sharded_try_send_correct [OF assms(1), of 0 v] assms(3) obtain s1 where
    s1: "sharded_try_send 0 v s = Inr (Ok (), s1)" "sharded_inv s1" "sd_cursor s1 = 0"
      "sharded_abs s1 = [(fresh_bchan 4)\<lparr>bc_queue := [v]\<rparr>, (fresh_bchan 4)\<lparr>bc_queue := [w]\<rparr>]"
    by (auto simp: len assms(2) spec_try_send_def)
  have "sharded_rx_live s1" by (simp add: sharded_rx_live_def s1(4))
  from sharded_drain_one [OF s1(2) this, of v "[]"] obtain s2 where
    s2: "sharded_drain_vec 1 s1 = Inr ([v], s2)" "sharded_inv s2" "sd_cursor s2 = 0"
      "sharded_abs s2 = pop_shard 0 (sharded_abs s1)"
    by (auto simp: s1)
  have "sharded_abs s2 = sharded_abs s" by (simp add: s2(4) s1(4) assms(3) pop_shard_def)
  with s1 s2 show ?thesis by simp
qed

lemma impl_run_append:
  "impl_run ts tr dr (ps @ qs) c =
     obind (impl_run ts tr dr ps c) (\<lambda>(es, c1). obind (impl_run ts tr dr qs c1) (\<lambda>(fs, c2). Inr (es @ fs, c2)))"
proof (induction ps arbitrary: c)
  case Nil
  show ?case by (cases "impl_run ts tr dr qs c") (auto simp: obind_def)
next
  case (Cons p ps)
  show ?case
    by (cases "impl_step ts tr dr p c")
      (auto simp: Cons.IH obind_assoc obind_def split: sum.splits prod.splits)
qed

lemma sharded_starving_rounds:
  fixes s :: "'a sharded"
  assumes "sharded_inv s" "sd_cursor s = 0" "sharded_abs s = [fresh_bchan 4, (fresh_bchan 4)\<lparr>bc_queue := [w]\<rparr>]"
  shows "\<exists>es s'. sharded_run (concat (replicate m [OpSend 0 v, OpDrain 1])) s = Inr (es, s')
     \<and> delivered es = replicate m v \<and> sharded_abs s' = sharded_abs s"
  using assms
proof (induction m arbitrary: s)
  case 0
  then show ?case by simp
next
  case (Suc m)
  from sharded_starving_round [OF Suc.prems] obtain s1 where
    s1: "sharded_run [OpSend 0 v, OpDrain 1] s = Inr ([EvSend 0 v (Ok ()), EvDrain [v]], s1)" "sharded_inv s1"
      "sd_cursor s1 = 0" "sharded_abs s1 = sharded_abs s"
    by blast
  from Suc.IH [OF s1(2,3)] s1(4) Suc.prems(3) obtain es s' where
    "sharded_run (concat (replicate m [OpSend 0 v, OpDrain 1])) s1 = Inr (es, s')"
    "delivered es = replicate m v" "sharded_abs s' = sharded_abs s"
    by auto
  moreover have "concat (replicate (Suc m) [OpSend 0 v, OpDrain 1])
      = [OpSend 0 v, OpDrain 1] @ concat (replicate m [OpSend 0 v, OpDrain 1])" by simp
  ultimately show ?case
    using s1(1) unfolding impl_run_append by auto
qed

text \<open>
  C36: The visit budget does not bind \<^verbatim>\<open>drain\<close>. A receiver that drains one value at a time while
  producer 0 keeps sending stays on shard 0: after any number \<open>m\<close> of rounds it has taken \<open>m\<close>
  values of producer 0 and none of producer 1, whose value waits since before the first round.
\<close>

theorem sharded_drain_starves:
  "\<exists>s0 es s. sharded_channel 2 8 BusySpin = Inr s0
     \<and> sharded_run (OpSend 1 w # concat (replicate m [OpSend 0 v, OpDrain 1])) s0 = Inr (es, s)
     \<and> delivered es = replicate m v \<and> bc_queue (sharded_abs s ! 1) = [w]"
proof -
  obtain s0 :: "'a sharded" where
    s0: "sharded_channel 2 8 BusySpin = Inr s0" "sharded_inv s0" "sd_cursor s0 = 0"
      "sharded_abs s0 = [fresh_bchan 4, fresh_bchan 4]" "length (sd_shards s0) = 2"
    by (rule sharded_open_state)
  from sharded_try_send_correct [OF s0(2), of 1 w] obtain s1 where
    s1: "sharded_try_send 1 w s0 = Inr (Ok (), s1)" "sharded_inv s1" "sd_cursor s1 = 0"
      "sharded_abs s1 = [fresh_bchan 4, (fresh_bchan 4)\<lparr>bc_queue := [w]\<rparr>]"
    by (auto simp: s0(3,4,5) spec_try_send_def)
  from sharded_starving_rounds [OF s1(2-4), of m v] obtain es s where
    "sharded_run (concat (replicate m [OpSend 0 v, OpDrain 1])) s1 = Inr (es, s)"
    "delivered es = replicate m v" "sharded_abs s = sharded_abs s1"
    by blast
  with s0(1) s1 show ?thesis by (auto intro!: exI [of _ s0])
qed

section \<open>Disconnection\<close>

fun sharded_drop_txs :: "nat list \<Rightarrow> 'a sharded \<Rightarrow> 'a sharded outcome" where
  "sharded_drop_txs [] s = Inr s"
| "sharded_drop_txs (i # is) s = obind (sharded_drop_tx i s) (\<lambda>(_, s1). sharded_drop_txs is s1)"

lemma sharded_drop_tx_correct:
  assumes inv: "sharded_inv s" and live: "sharded_rx_live s" and i: "i < length (sd_shards s)"
    and tx: "0 < bc_senders (sharded_abs s ! i)"
  shows "\<exists>s'. sharded_drop_tx i s = Inr ([], s') \<and> sharded_inv s' \<and> sharded_rx_live s'
    \<and> sharded_abs s' = (sharded_abs s)[i := (sharded_abs s ! i)\<lparr>bc_senders := 0\<rparr>]
    \<and> sd_strategy s' = sd_strategy s"
proof -
  let ?c = "sd_shards s ! i"
  have a: "sharded_abs s ! i = spsc_abs ?c" using i by (simp add: sharded_abs_def)
  have "bc_rx_live (spsc_abs ?c)" using live i by (simp add: sharded_rx_live_def list_all_length flip: a)
  then obtain rx where rx: "ch_rx ?c = Some rx" by (auto simp: spsc_abs_def)
  obtain t where t: "ch_tx ?c = Some t" using tx by (auto simp: a spsc_abs_def split: if_splits)
  obtain c' where c': "spsc_drop_tx ?c = Inr ([], c')" "spsc_inv c'" "spsc_abs c' = (spsc_abs ?c)\<lparr>bc_senders := 0\<rparr>"
    using shard_inv [OF inv i] t rx by (rule spsc_drop_tx_live)
  from on_shard_correct [of s i spsc_drop_tx, OF inv i c'(1,2)] obtain s' where
    s': "sharded_drop_tx i s = Inr ([], s')" "sharded_inv s'" "sd_strategy s' = sd_strategy s"
      "sharded_abs s' = (sharded_abs s)[i := (sharded_abs s ! i)\<lparr>bc_senders := 0\<rparr>]"
    unfolding sharded_drop_tx_def a c'(3) by blast
  have "sharded_rx_live s'"
    unfolding sharded_rx_live_def s'(4) using live i
    by (auto simp: sharded_rx_live_def list_all_length nth_list_update)
  with s' show ?thesis by blast
qed

lemma sharded_drop_txs_correct:
  assumes "sharded_inv s" "sharded_rx_live s" "distinct is"
    and "\<forall>i \<in> set is. i < length (sd_shards s) \<and> 0 < bc_senders (sharded_abs s ! i)"
  shows "\<exists>s'. sharded_drop_txs is s = Inr s' \<and> sharded_inv s' \<and> sharded_rx_live s'
    \<and> length (sharded_abs s') = length (sharded_abs s)
    \<and> (\<forall>j < length (sharded_abs s). sharded_abs s' ! j =
         (if j \<in> set is then (sharded_abs s ! j)\<lparr>bc_senders := 0\<rparr> else sharded_abs s ! j))"
  using assms
proof (induction "is" arbitrary: s)
  case Nil
  then show ?case by simp
next
  case (Cons i "is")
  from sharded_drop_tx_correct [OF Cons.prems(1,2), of i] Cons.prems(4) obtain s1 where
    s1: "sharded_drop_tx i s = Inr ([], s1)" "sharded_inv s1" "sharded_rx_live s1"
      "sharded_abs s1 = (sharded_abs s)[i := (sharded_abs s ! i)\<lparr>bc_senders := 0\<rparr>]"
    by auto
  have len: "length (sd_shards s1) = length (sd_shards s)"
    using arg_cong [OF s1(4), of length] by simp
  have "\<forall>j \<in> set is. j < length (sd_shards s1) \<and> 0 < bc_senders (sharded_abs s1 ! j)"
    using Cons.prems(3,4) by (auto simp: len s1(4) nth_list_update)
  with Cons.IH [OF s1(2,3)] Cons.prems(3) obtain s2 where
    s2: "sharded_drop_txs is s1 = Inr s2" "sharded_inv s2" "sharded_rx_live s2"
      "length (sharded_abs s2) = length (sharded_abs s1)"
      "\<forall>j < length (sharded_abs s1). sharded_abs s2 ! j =
         (if j \<in> set is then (sharded_abs s1 ! j)\<lparr>bc_senders := 0\<rparr> else sharded_abs s1 ! j)"
    by auto
  have "sharded_abs s2 ! j = (if j \<in> set (i # is) then (sharded_abs s ! j)\<lparr>bc_senders := 0\<rparr> else sharded_abs s ! j)"
    if "j < length (sharded_abs s)" for j
    using s2(5) that Cons.prems(3,4) by (auto simp: len s1(4) nth_list_update)
  with s1(1) s2 len show ?case by simp
qed

text \<open>
  When the receiver reports \<^verbatim>\<open>Disconnected\<close>. After every program and the drop of any set \<open>ds\<close> of
  senders, \<^verbatim>\<open>try_recv\<close> returns a value if any shard holds one (the front of that shard), otherwise
  \<^verbatim>\<open>Disconnected\<close> exactly when every sender is gone, and \<^verbatim>\<open>Empty\<close> while one is left.
\<close>

theorem sharded_disconnected_iff:
  assumes "sharded_channel n total_cap strategy = Inr s0" "producers_own (unat n) owner ps"
    and "sharded_run ps s0 = Inr (es, s)" "distinct ds" "set ds \<subseteq> {..<unat n}"
  shows "\<exists>s1 r s2. sharded_drop_txs ds s = Inr s1 \<and> sharded_try_recv s1 = Inr (r, s2) \<and>
    (case r of
       Ok v \<Rightarrow> \<exists>i < unat n. \<exists>q. bc_queue (sharded_abs s ! i) = v # q \<and> bc_queue (sharded_abs s2 ! i) = q
     | Err RecvDisconnected \<Rightarrow> set ds = {..<unat n} \<and> (\<forall>i < unat n. bc_queue (sharded_abs s ! i) = [])
     | Err Empty \<Rightarrow> set ds \<noteq> {..<unat n} \<and> (\<forall>i < unat n. bc_queue (sharded_abs s ! i) = []))"
proof -
  from sharded_reach [OF assms(1,2)] assms(3) have r: "sharded_inv s" "sharded_rx_live s"
    "length (sharded_abs s) = unat n" "\<forall>i < unat n. bc_senders (sharded_abs s ! i) = 1"
    by auto
  have "\<forall>i \<in> set ds. i < length (sd_shards s) \<and> 0 < bc_senders (sharded_abs s ! i)"
    using assms(5) r(3,4) by (auto simp: subset_iff)
  from sharded_drop_txs_correct [OF r(1,2) assms(4) this] obtain s1 where
    s1: "sharded_drop_txs ds s = Inr s1" "sharded_inv s1" "sharded_rx_live s1" "length (sharded_abs s1) = unat n"
      "\<forall>j < unat n. sharded_abs s1 ! j =
         (if j \<in> set ds then (sharded_abs s ! j)\<lparr>bc_senders := 0\<rparr> else sharded_abs s ! j)"
    unfolding r(3) by blast
  have q: "bc_queue (sharded_abs s1 ! j) = bc_queue (sharded_abs s ! j)" if "j < unat n" for j
    using s1(5) that by simp
  have gone: "all_gone (sharded_abs s1) \<longleftrightarrow> set ds = {..<unat n}"
    using s1(4,5) r(4) assms(5) by (auto simp: all_gone_def)
  have len: "length (sd_shards s1) = unat n" using s1(4) by simp
  have c: "start_shard s1 < length (sharded_abs s1)" using start_shard_bound [OF s1(2)] by simp
  note recv = sharded_try_recv_correct [OF s1(2,3), unfolded len]
  show ?thesis
  proof (cases "ready_shard (sharded_abs s1) (sweep_path (unat n) (start_shard s1) (unat n))")
    case None
    then have "\<forall>j < unat n. bc_queue (sharded_abs s ! j) = []"
      using ready_shard_None [OF c] s1(4) q by simp
    moreover from None recv obtain s2 where
      "sharded_try_recv s1 = Inr (Err (if set ds = {..<unat n} then RecvDisconnected else Empty), s2)"
      unfolding gone by (simp only: option.case) (elim exE conjE)
    ultimately show ?thesis
      using s1(1) by (cases "set ds = {..<unat n}") (simp_all only: simp_thms if_True if_False, simp_all)
  next
    case (Some j)
    from ready_shard_Some [OF c] Some s1(4) have j: "j < unat n" "bc_queue (sharded_abs s1 ! j) \<noteq> []" by simp_all
    from recv Some obtain s2 where
      s2: "sharded_try_recv s1 = Inr (Ok (hd (bc_queue (sharded_abs s1 ! j))), s2)"
        "sharded_abs s2 = pop_shard j (sharded_abs s1)"
      by auto
    have "\<exists>i < unat n. \<exists>t. bc_queue (sharded_abs s ! i) = hd (bc_queue (sharded_abs s1 ! j)) # t
        \<and> bc_queue (sharded_abs s2 ! i) = t"
      using j q [OF j(1)] s1(4) by (intro exI [of _ j]) (simp add: s2(2) pop_shard_def)
    with s1(1) s2(1) show ?thesis by auto
  qed
qed

theorem sharded_disconnected_iff_witness:
  "\<exists>s0 es s s1 r s2. sharded_channel 2 8 BusySpin = Inr s0 \<and> sharded_run [OpSend 1 (7 :: nat)] s0 = Inr (es, s)
     \<and> sharded_drop_txs [0] s = Inr s1 \<and> sharded_try_recv s1 = Inr (r, s2) \<and> r \<noteq> Err RecvDisconnected"
proof -
  let ?ps = "[OpSend 1 (7 :: nat)]"
  have own: "producers_own (unat (2 :: usize)) (\<lambda>_. 1) ?ps" by (simp add: producers_own_def)
  obtain s0 :: "nat sharded" where s0: "sharded_channel 2 8 BusySpin = Inr s0"
    using sharded_open_4 by blast
  obtain es s where r: "sharded_run ?ps s0 = Inr (es, s)" using sharded_reach [OF s0 own] by blast
  have ds: "distinct [0 :: nat]" "set [0] \<subseteq> {..<unat (2 :: usize)}" by simp_all
  from sharded_disconnected_iff [OF s0 own r ds] obtain s1 x s2 where
    x: "sharded_drop_txs [0] s = Inr s1" "sharded_try_recv s1 = Inr (x, s2)" and
    res: "case x of
       Ok v \<Rightarrow> \<exists>i < unat (2 :: usize). \<exists>q. bc_queue (sharded_abs s ! i) = v # q \<and> bc_queue (sharded_abs s2 ! i) = q
     | Err RecvDisconnected \<Rightarrow> set [0] = {..<unat (2 :: usize)} \<and> (\<forall>i < unat (2 :: usize). bc_queue (sharded_abs s ! i) = [])
     | Err Empty \<Rightarrow> set [0] \<noteq> {..<unat (2 :: usize)} \<and> (\<forall>i < unat (2 :: usize). bc_queue (sharded_abs s ! i) = [])"
    by (elim exE conjE)
  have "set [0 :: nat] = {..<unat (2 :: usize)}" if "x = Err RecvDisconnected"
    using res unfolding that by simp
  moreover have "(1 :: nat) \<in> {..<unat (2 :: usize)}" "(1 :: nat) \<notin> set [0]" by simp_all
  ultimately have "x \<noteq> Err RecvDisconnected" by metis
  with x s0 r show ?thesis by blast
qed

end
