(* ===== verification/Sharded_Blocking.thy ===== *)
theory Sharded_Blocking
  imports Sharded_Properties
begin

text \<open>
  The blocking methods of \<^verbatim>\<open>src/sharded.rs\<close>. \<^verbatim>\<open>recv\<close> never sleeps (the constructor rejects \<^verbatim>\<open>Park\<close>),
  so its liveness needs no wake-up; \<^verbatim>\<open>send\<close> is the one of the producer's own shard.
\<close>

section \<open>The producers around a blocked receiver\<close>

datatype 'a shard_action = ShIdle | ShSend nat 'a | ShDrop nat | ShDropAll

definition sharded_drop_all :: "'a sharded \<Rightarrow> 'a sharded" where
  "sharded_drop_all s = fold (\<lambda>i t. after_outcome t (sharded_drop_tx i t)) [0..<length (sd_shards s)] s"

fun shard_act :: "'a shard_action \<Rightarrow> 'a sharded \<Rightarrow> 'a sharded" where
  "shard_act ShIdle s = s"
| "shard_act (ShSend i v) s = after_outcome s (sharded_try_send i v s)"
| "shard_act (ShDrop i) s = after_outcome s (sharded_drop_tx i s)"
| "shard_act ShDropAll s = sharded_drop_all s"

definition sharded_tx_env :: "(nat \<Rightarrow> 'a shard_action) \<Rightarrow> nat \<Rightarrow> 'a sharded \<Rightarrow> 'a sharded" where
  "sharded_tx_env sched k s = shard_act (sched k) s"

definition sharded_has_item :: "'a sharded \<Rightarrow> bool" where
  "sharded_has_item s \<longleftrightarrow> all_gone (sharded_abs s) \<or> (\<exists>j < length (sd_shards s). bc_queue (sharded_abs s ! j) \<noteq> [])"

definition sharded_ok :: "'a sharded \<Rightarrow> bool" where
  "sharded_ok s \<longleftrightarrow> sharded_inv s \<and> sharded_rx_live s"

text \<open>What every producer action keeps, and what it never takes away.\<close>

definition producer_step_ok :: "'a sharded \<Rightarrow> 'a sharded \<Rightarrow> bool" where
  "producer_step_ok s s' \<longleftrightarrow> sharded_ok s' \<and> length (sd_shards s') = length (sd_shards s)
     \<and> (\<forall>j < length (sd_shards s). bc_senders (sharded_abs s ! j) = 0 \<longrightarrow> bc_senders (sharded_abs s' ! j) = 0)
     \<and> (\<forall>j < length (sd_shards s). bc_queue (sharded_abs s ! j) \<noteq> [] \<longrightarrow> bc_queue (sharded_abs s' ! j) \<noteq> [])"

lemma producer_step_refl: "sharded_ok s \<Longrightarrow> producer_step_ok s s"
  by (simp add: producer_step_ok_def)

lemma producer_step_trans: "producer_step_ok a b \<Longrightarrow> producer_step_ok b c \<Longrightarrow> producer_step_ok a c"
  by (simp add: producer_step_ok_def)

lemma producer_step_has_item: "producer_step_ok s s' \<Longrightarrow> sharded_has_item s \<Longrightarrow> sharded_has_item s'"
  by (auto simp: producer_step_ok_def sharded_has_item_def all_gone_def)

lemma producer_step_update:
  assumes "sharded_ok s" "sharded_inv s'" "sharded_abs s' = (sharded_abs s)[i := q']" "i < length (sd_shards s)"
    and "bc_rx_live q' = bc_rx_live (sharded_abs s ! i)"
    and "bc_senders (sharded_abs s ! i) = 0 \<Longrightarrow> bc_senders q' = 0"
    and "bc_queue (sharded_abs s ! i) \<noteq> [] \<Longrightarrow> bc_queue q' \<noteq> []"
  shows "producer_step_ok s s'"
proof -
  have len: "length (sd_shards s') = length (sd_shards s)"
    using arg_cong [OF assms(3), of length] by simp
  have "sharded_rx_live s'"
    using assms(1,4,5) by (auto simp: sharded_ok_def sharded_rx_live_def list_all_length len assms(3) nth_list_update)
  then show ?thesis
    using assms len by (simp add: producer_step_ok_def sharded_ok_def nth_list_update)
qed

lemma shard_unavailable:
  assumes "sharded_inv s" "\<not> (i < length (sd_shards s) \<and> 0 < bc_senders (sharded_abs s ! i))"
  shows "sharded_try_send i v s = Inl HandleDropped" "sharded_drop_tx i s = Inl HandleDropped"
proof -
  have "ch_tx (sd_shards s ! i) = None" if "i < length (sd_shards s)"
    using that assms(2) by (auto simp: sharded_abs_def spsc_abs_def split: if_splits)
  then show "sharded_try_send i v s = Inl HandleDropped" "sharded_drop_tx i s = Inl HandleDropped"
    by (auto simp: sharded_try_send_def sharded_drop_tx_def on_shard_def spsc_send_op_def spsc_drop_tx_def)
qed

lemma sharded_send_act:
  assumes ok: "sharded_ok s"
  shows "producer_step_ok s (shard_act (ShSend i v) s)"
    and "i < length (sd_shards s) \<Longrightarrow> 0 < bc_senders (sharded_abs s ! i) \<Longrightarrow>
      sharded_has_item (shard_act (ShSend i v) s) \<and>
      (\<forall>j < length (sd_shards s). bc_senders (sharded_abs (shard_act (ShSend i v) s) ! j) = bc_senders (sharded_abs s ! j))"
proof -
  have inv: "sharded_inv s" and live: "sharded_rx_live s" using ok by (simp_all add: sharded_ok_def)
  have main: "producer_step_ok s (shard_act (ShSend i v) s) \<and> sharded_has_item (shard_act (ShSend i v) s) \<and>
      (\<forall>j < length (sd_shards s). bc_senders (sharded_abs (shard_act (ShSend i v) s) ! j) = bc_senders (sharded_abs s ! j))"
    if i: "i < length (sd_shards s)" "0 < bc_senders (sharded_abs s ! i)"
  proof -
    from sharded_try_send_correct [OF inv i, of v] obtain r s' where
      s': "sharded_try_send i v s = Inr (r, s')" "sharded_inv s'"
        "sharded_abs s' = (sharded_abs s)[i := snd (spec_try_send v (sharded_abs s ! i))]"
      by blast
    let ?q = "snd (spec_try_send v (sharded_abs s ! i))"
    have act: "shard_act (ShSend i v) s = s'" by (simp add: s'(1))
    have rx: "bc_rx_live (sharded_abs s ! i)" using live i(1) by (simp add: sharded_rx_live_def list_all_length)
    have "0 < bc_cap (sharded_abs s ! i)"
      using spsc_abs_ok [OF shard_inv [OF inv i(1)]] i(1) by (simp add: sharded_abs_def bchan_ok_def)
    then have q: "bc_queue ?q \<noteq> []" "bc_senders ?q = bc_senders (sharded_abs s ! i)"
        "bc_rx_live ?q = bc_rx_live (sharded_abs s ! i)"
      using rx i(1) by (auto simp: spec_try_send_def sharded_abs_def)
    have step: "producer_step_ok s s'"
      using producer_step_update [OF ok s'(2,3) i(1)] q by simp
    then have len: "length (sd_shards s') = length (sd_shards s)" by (simp add: producer_step_ok_def)
    moreover have "bc_queue (sharded_abs s' ! i) \<noteq> []" using q(1) i(1) by (simp add: s'(3))
    ultimately have "sharded_has_item s'" using i(1) by (auto simp: sharded_has_item_def)
    moreover have "bc_senders (sharded_abs s' ! j) = bc_senders (sharded_abs s ! j)"
      if "j < length (sd_shards s)" for j
      using q(2) that i(1) by (cases "i = j") (simp_all add: s'(3))
    ultimately show ?thesis using step unfolding act by blast
  qed
  then show "i < length (sd_shards s) \<Longrightarrow> 0 < bc_senders (sharded_abs s ! i) \<Longrightarrow>
      sharded_has_item (shard_act (ShSend i v) s) \<and>
      (\<forall>j < length (sd_shards s). bc_senders (sharded_abs (shard_act (ShSend i v) s) ! j) = bc_senders (sharded_abs s ! j))"
    by blast
  show "producer_step_ok s (shard_act (ShSend i v) s)"
    using main shard_unavailable(1) [OF inv] producer_step_refl [OF ok]
    by (cases "i < length (sd_shards s) \<and> 0 < bc_senders (sharded_abs s ! i)") auto
qed

lemma sharded_drop_act:
  assumes ok: "sharded_ok s"
  shows "producer_step_ok s (after_outcome s (sharded_drop_tx i s))"
    and "j < length (sd_shards s) \<Longrightarrow> bc_senders (sharded_abs (after_outcome s (sharded_drop_tx i s)) ! j)
      = (if i = j then 0 else bc_senders (sharded_abs s ! j))"
proof -
  have inv: "sharded_inv s" and live: "sharded_rx_live s" using ok by (simp_all add: sharded_ok_def)
  have "producer_step_ok s (after_outcome s (sharded_drop_tx i s)) \<and>
    (j < length (sd_shards s) \<longrightarrow> bc_senders (sharded_abs (after_outcome s (sharded_drop_tx i s)) ! j)
      = (if i = j then 0 else bc_senders (sharded_abs s ! j)))"
  proof (cases "i < length (sd_shards s) \<and> 0 < bc_senders (sharded_abs s ! i)")
    case True
    from sharded_drop_tx_correct [OF inv live] True obtain s' where
      s': "sharded_drop_tx i s = Inr ([], s')" "sharded_inv s'"
        "sharded_abs s' = (sharded_abs s)[i := (sharded_abs s ! i)\<lparr>bc_senders := 0\<rparr>]"
      by blast
    then have "producer_step_ok s s'"
      using producer_step_update [OF ok s'(2,3)] True by simp
    with s' True show ?thesis by (simp add: nth_list_update)
  next
    case False
    then show ?thesis
      using shard_unavailable(2) [OF inv False] producer_step_refl [OF ok] by auto
  qed
  then show "producer_step_ok s (after_outcome s (sharded_drop_tx i s))"
    and "j < length (sd_shards s) \<Longrightarrow> bc_senders (sharded_abs (after_outcome s (sharded_drop_tx i s)) ! j)
      = (if i = j then 0 else bc_senders (sharded_abs s ! j))"
    by simp_all
qed

lemma sharded_drop_upto:
  assumes "sharded_ok s" "m \<le> length (sd_shards s)"
  shows "producer_step_ok s (fold (\<lambda>i t. after_outcome t (sharded_drop_tx i t)) [0..<m] s)
    \<and> (\<forall>j < m. bc_senders (sharded_abs (fold (\<lambda>i t. after_outcome t (sharded_drop_tx i t)) [0..<m] s) ! j) = 0)"
  using assms(2)
proof (induction m)
  case 0
  then show ?case using producer_step_refl [OF assms(1)] by simp
next
  case (Suc m)
  let ?t = "fold (\<lambda>i t. after_outcome t (sharded_drop_tx i t)) [0..<m] s"
  from Suc have t: "producer_step_ok s ?t" "\<forall>j < m. bc_senders (sharded_abs ?t ! j) = 0" by simp_all
  then have ok: "sharded_ok ?t" "length (sd_shards ?t) = length (sd_shards s)"
    by (simp_all add: producer_step_ok_def)
  let ?u = "after_outcome ?t (sharded_drop_tx m ?t)"
  have "producer_step_ok s ?u"
    using t(1) sharded_drop_act(1) [OF ok(1)] by (rule producer_step_trans)
  moreover have "\<forall>j < Suc m. bc_senders (sharded_abs ?u ! j) = 0"
    using t(2) sharded_drop_act(2) [OF ok(1), of _ m] ok(2) Suc.prems by (auto simp: less_Suc_eq)
  ultimately show ?case by simp
qed

lemma sharded_drop_all_act:
  assumes "sharded_ok s"
  shows "producer_step_ok s (sharded_drop_all s)" "all_gone (sharded_abs (sharded_drop_all s))"
proof -
  note d = sharded_drop_upto [OF assms order_refl, folded sharded_drop_all_def]
  then show "producer_step_ok s (sharded_drop_all s)" ..
  then have "length (sd_shards (sharded_drop_all s)) = length (sd_shards s)" by (simp add: producer_step_ok_def)
  with d show "all_gone (sharded_abs (sharded_drop_all s))" by (simp add: all_gone_def)
qed

lemma shard_act_ok: "sharded_ok s \<Longrightarrow> producer_step_ok s (shard_act a s)"
  using sharded_send_act(1) sharded_drop_act(1) sharded_drop_all_act(1) producer_step_refl by (cases a) auto

section \<open>recv meets the interface of a blocking operation\<close>

text \<open>Producer \<open>p\<close> keeps its sender until all are dropped.\<close>

definition sharded_receiving_good :: "nat \<Rightarrow> (nat \<Rightarrow> 'a shard_action) \<Rightarrow> 'a sharded_receiving \<Rightarrow> bool" where
  "sharded_receiving_good p sched st \<longleftrightarrow>
     (case st of (i, s) \<Rightarrow> sharded_ok s \<and> p < length (sd_shards s) \<and> (\<forall>k. sched k \<noteq> ShDrop p) \<and>
        (0 < bc_senders (sharded_abs s ! p) \<or> all_gone (sharded_abs s)))"

definition sharded_receiving_ready :: "'a sharded_receiving \<Rightarrow> bool" where
  "sharded_receiving_ready st \<longleftrightarrow> sharded_has_item (snd st)"

fun shard_progress :: "nat \<Rightarrow> 'a shard_action \<Rightarrow> bool" where
  "shard_progress p (ShSend i _) = (i = p)"
| "shard_progress p ShDropAll = True"
| "shard_progress p _ = False"

lemma sharded_recv_attempt_result:
  assumes "sharded_ok s"
  shows "\<exists>r s'. sharded_recv_attempt (i, s) = Inr (r, (i, s')) \<and> sharded_ok s' \<and>
    (case r of
       None \<Rightarrow> \<not> sharded_has_item s \<and> sharded_abs s' = sharded_abs s \<and> sd_strategy s' = sd_strategy s
     | Some (Ok v) \<Rightarrow> \<exists>j < length (sd_shards s). \<exists>q. bc_queue (sharded_abs s ! j) = v # q
          \<and> sharded_abs s' = (sharded_abs s)[j := (sharded_abs s ! j)\<lparr>bc_queue := q\<rparr>]
     | Some (Err _) \<Rightarrow> all_gone (sharded_abs s) \<and> (\<forall>j < length (sd_shards s). bc_queue (sharded_abs s ! j) = []))"
proof -
  have inv: "sharded_inv s" "sharded_rx_live s" using assms by (simp_all add: sharded_ok_def)
  let ?n = "length (sd_shards s)"
  have c: "start_shard s < length (sharded_abs s)" using start_shard_bound [OF inv(1)] by simp
  note recv = sharded_try_recv_correct [OF inv]
  show ?thesis
  proof (cases "ready_shard (sharded_abs s) (sweep_path ?n (start_shard s) ?n)")
    case None
    then have q: "\<forall>j < ?n. bc_queue (sharded_abs s ! j) = []" using ready_shard_None [OF c] by simp
    from None recv obtain s' where s': "sharded_try_recv s
        = Inr (Err (if all_gone (sharded_abs s) then RecvDisconnected else Empty), s')" "sharded_inv s'"
      "sharded_abs s' = sharded_abs s" "sd_strategy s' = sd_strategy s"
      by (simp only: option.case) (elim exE conjE)
    have "sharded_rx_live s'" using inv(2) by (simp add: sharded_rx_live_def s'(3))
    then have "sharded_ok s'" using s'(2) by (simp add: sharded_ok_def)
    with s' q show ?thesis
      by (cases "all_gone (sharded_abs s)") (simp_all add: sharded_recv_attempt_def sharded_has_item_def)
  next
    case (Some j)
    from ready_shard_Some [OF c] Some have j: "j < ?n" "bc_queue (sharded_abs s ! j) \<noteq> []" by simp_all
    from Some recv obtain s' where s': "sharded_try_recv s = Inr (Ok (hd (bc_queue (sharded_abs s ! j))), s')"
      "sharded_inv s'" "sharded_abs s' = pop_shard j (sharded_abs s)"
      by (simp only: option.case) (elim exE conjE)
    have "sharded_rx_live s'"
      using inv(2) j(1) by (auto simp: sharded_rx_live_def s'(3) pop_shard_def list_all_length nth_list_update)
    then have "sharded_ok s'" using s'(2) by (simp add: sharded_ok_def)
    moreover obtain v q where "bc_queue (sharded_abs s ! j) = v # q"
      using j(2) by (cases "bc_queue (sharded_abs s ! j)") auto
    ultimately show ?thesis
      using s'(1,3) j(1) by (auto simp: sharded_recv_attempt_def pop_shard_def intro!: exI [of _ j])
  qed
qed

lemma sharded_act_good:
  assumes "sharded_receiving_good p sched (i, s)"
  shows "sharded_receiving_good p sched (i, shard_act (sched k) s)"
    and "shard_progress p (sched k) \<Longrightarrow> sharded_has_item (shard_act (sched k) s)"
proof -
  let ?s = "shard_act (sched k) s"
  have g: "sharded_ok s" "p < length (sd_shards s)" "sched k \<noteq> ShDrop p"
    "0 < bc_senders (sharded_abs s ! p) \<or> all_gone (sharded_abs s)"
    using assms by (auto simp: sharded_receiving_good_def)
  have step: "producer_step_ok s ?s" using g(1) by (rule shard_act_ok)
  then have len: "length (sd_shards ?s) = length (sd_shards s)" and ok: "sharded_ok ?s"
    by (simp_all add: producer_step_ok_def)
  have gone: "all_gone (sharded_abs s) \<Longrightarrow> all_gone (sharded_abs ?s)"
    using step by (simp add: producer_step_ok_def all_gone_def)
  have "0 < bc_senders (sharded_abs ?s ! p) \<or> all_gone (sharded_abs ?s)"
  proof (cases "all_gone (sharded_abs s)")
    case True
    then show ?thesis using gone by blast
  next
    case False
    with g(4) have p: "0 < bc_senders (sharded_abs s ! p)" by blast
    show ?thesis
    proof (cases "sched k")
      case ShIdle
      with p show ?thesis by simp
    next
      case (ShSend j v)
      show ?thesis
      proof (cases "j < length (sd_shards s) \<and> 0 < bc_senders (sharded_abs s ! j)")
        case True
        with sharded_send_act(2) [OF g(1), of j v] g(2) p ShSend show ?thesis by simp
      next
        case False
        have "sharded_inv s" using g(1) by (simp add: sharded_ok_def)
        from shard_unavailable(1) [OF this False] ShSend p show ?thesis by simp
      qed
    next
      case (ShDrop j)
      with sharded_drop_act(2) [OF g(1,2), of j] g(3) p show ?thesis by simp
    next
      case ShDropAll
      with sharded_drop_all_act(2) [OF g(1)] show ?thesis by simp
    qed
  qed
  with assms ok len show "sharded_receiving_good p sched (i, ?s)"
    by (simp add: sharded_receiving_good_def)
  show "sharded_has_item ?s" if "shard_progress p (sched k)"
  proof (cases "all_gone (sharded_abs s)")
    case True
    then show ?thesis using gone by (simp add: sharded_has_item_def)
  next
    case False
    with g(4) sharded_send_act(2) [OF g(1,2)] sharded_drop_all_act(2) [OF g(1)] that show ?thesis
      by (cases "sched k") (auto simp: sharded_has_item_def)
  qed
qed

interpretation sharded_recv: live_blocking_operation sharded_recv_attempt sharded_recv_wait
    sharded_recv_resume "sharded_receiving_env (sharded_tx_env sched)" "\<lambda>_. sharded_receiving_good p sched"
    sharded_receiving_ready "\<lambda>_. False" "\<lambda>k. shard_progress p (sched k)"
  for p sched
proof unfold_locales
  fix st st' st'' :: "'a sharded_receiving" and k
  obtain i s where st: "st = (i, s)" by fastforce
  assume good: "sharded_receiving_good p sched st"
  then have ok: "sharded_ok s" by (simp add: st sharded_receiving_good_def)
  from sharded_recv_attempt_result [OF ok, of i] obtain r s' where
    a: "sharded_recv_attempt st = Inr (r, (i, s'))" and ok': "sharded_ok s'"
    and none: "r = None \<Longrightarrow> \<not> sharded_has_item s \<and> sharded_abs s' = sharded_abs s \<and> sd_strategy s' = sd_strategy s"
    by (auto simp: st split: option.splits)
  have keep: "sharded_receiving_good p sched (j, s')" if "r = None" for j
  proof -
    have "length (sd_shards s') = length (sd_shards s)"
      using none [OF that] length_sharded_abs by metis
    with good none [OF that] ok' show ?thesis by (simp add: st sharded_receiving_good_def)
  qed
  show "\<exists>r s'. sharded_recv_attempt st = Inr (r, s') \<and> (r = None \<longrightarrow> sharded_receiving_good p sched s')"
    using a keep by blast
  show "\<exists>r s'. sharded_recv_attempt st = Inr (Some r, s')" if "sharded_receiving_ready st"
    using a none that by (cases r) (auto simp: st sharded_receiving_ready_def)
  show "\<exists>b s''. sharded_recv_wait st' = Inr (b, s'') \<and> sharded_receiving_good p sched s''"
    if "sharded_recv_attempt st = Inr (None, st')"
  proof -
    from that a have st': "st' = (i, s')" and r: "r = None" by simp_all
    have "sd_strategy s' \<noteq> Park" using ok' by (simp add: sharded_ok_def sharded_inv_def)
    then show ?thesis
      using keep [OF r] by (cases "sd_strategy s'") (auto simp: st' sharded_recv_wait_def)
  qed
  show "sharded_receiving_good p sched st'" if "sharded_recv_resume st = Some st'"
    using that good by (simp add: sharded_recv_resume_def)
  show "sharded_receiving_good p sched (sharded_receiving_env (sharded_tx_env sched) k st)"
    using sharded_act_good(1) [OF good [unfolded st], of k]
    by (simp add: st sharded_receiving_env_def sharded_tx_env_def)
  show "sharded_receiving_ready (sharded_receiving_env (sharded_tx_env sched) k st)"
    if "sharded_receiving_ready st"
    using that producer_step_has_item [OF shard_act_ok [OF ok]]
    by (simp add: st sharded_receiving_env_def sharded_tx_env_def sharded_receiving_ready_def)
  show "sharded_receiving_ready (sharded_receiving_env (sharded_tx_env sched) k st)"
    if "shard_progress p (sched k)"
    using sharded_act_good(2) [OF good [unfolded st] that]
    by (simp add: st sharded_receiving_env_def sharded_tx_env_def sharded_receiving_ready_def)
  show False if "sharded_recv_attempt st = Inr (None, st')" "sharded_recv_wait st' = Inr (True, st'')"
    using that(2) by (cases st') (auto simp: sharded_recv_wait_def split: wait_strategy.splits)
qed auto



text \<open>
  A producer's \<^verbatim>\<open>send\<close> returns once the receiver, at some iteration \<open>K\<close>, takes a value from
  that producer's shard or is dropped: \<^verbatim>\<open>Ok\<close> with the value last in the shard, or \<^verbatim>\<open>Err\<close> with the
  value handed back when the receiver is gone. The other shards are not touched.
\<close>

theorem sharded_send_returns:
  assumes "sharded_channel n total_cap strategy = Inr s0" "producers_own (unat n) owner ps"
    and "sharded_run ps s0 = Inr (es, s)" "i < unat n"
    and "rx_progress (sched K)" "K + 3 \<le> fuel"
  shows "\<exists>r s' q. sharded_send i me (spsc_rx_env sched) fuel v s = Inr (Some r, s') \<and> sharded_inv s'
     \<and> (r = Ok () \<and> bc_queue (sharded_abs s' ! i) = q @ [v]
        \<or> r = Err (SendError v) \<and> \<not> bc_rx_live (sharded_abs s' ! i))
     \<and> (\<forall>j. j \<noteq> i \<longrightarrow> sharded_abs s' ! j = sharded_abs s ! j)"
proof -
  from sharded_reach [OF assms(1,2)] assms(3) have r: "sharded_inv s" "length (sharded_abs s) = unat n"
    "\<forall>i < unat n. bc_senders (sharded_abs s ! i) = 1"
    by auto
  let ?c = "sd_shards s ! i"
  have i: "i < length (sd_shards s)" using r(2) assms(4) by simp
  have "sharded_abs s ! i = spsc_abs ?c" using i by (simp add: sharded_abs_def)
  then have "bc_senders (spsc_abs ?c) = 1" using r(3) assms(4) by metis
  then have "ch_tx ?c \<noteq> None" by (auto simp: spsc_abs_def split: if_splits)
  from spsc_send_completes [where sched = sched and K = K, OF shard_inv [OF r(1) i] this assms(5,6), of me v] obtain x j c' q where
    c': "spsc_send me (spsc_rx_env sched) fuel v ?c = Inr (Some (x, (v, j, c')))" "spsc_inv c'"
      "x = Ok () \<and> bc_queue (spsc_abs c') = q @ [v] \<or> x = Err (SendError v) \<and> \<not> bc_rx_live (spsc_abs c')"
    by blast
  let ?f = "\<lambda>c. case spsc_send me (spsc_rx_env sched) fuel v c of
         Inl e \<Rightarrow> Inl e
       | Inr None \<Rightarrow> Inr (None, c)
       | Inr (Some (r, (_, _, c'))) \<Rightarrow> Inr (Some r, c')"
  have "?f ?c = Inr (Some x, c')" using c'(1) by simp
  from on_shard_correct [of s i ?f, OF r(1) i this c'(2)] obtain s' where
    s': "sharded_send i me (spsc_rx_env sched) fuel v s = Inr (Some x, s')" "sharded_inv s'"
      "sharded_abs s' = (sharded_abs s)[i := spsc_abs c']"
    unfolding sharded_send_def by blast
  have "sharded_abs s' ! i = spsc_abs c'" "\<forall>j. j \<noteq> i \<longrightarrow> sharded_abs s' ! j = sharded_abs s ! j"
    using i by (simp_all add: s'(3))
  with s'(1,2) c'(3) show ?thesis by metis
qed

theorem sharded_send_returns_witness:
  "\<exists>s0 es s r s'. sharded_channel 2 8 BusySpin = Inr s0
     \<and> sharded_run [OpSend 0 (7 :: nat)] s0 = Inr (es, s)
     \<and> sharded_send 1 3 (spsc_rx_env (\<lambda>k. if k = 2 then RxTryRecv else RxIdle)) 5 8 s = Inr (Some r, s')"
proof -
  let ?ps = "[OpSend 0 (7 :: nat)]" and ?sched = "\<lambda>k :: nat. if k = 2 then RxTryRecv else RxIdle"
  have own: "producers_own (unat (2 :: usize)) (\<lambda>_. 0) ?ps" by (simp add: producers_own_def)
  obtain s0 :: "nat sharded" where s0: "sharded_channel 2 8 BusySpin = Inr s0"
    using sharded_open_4 by blast
  obtain es s where r: "sharded_run ?ps s0 = Inr (es, s)" using sharded_reach [OF s0 own] by blast
  have "(1 :: nat) < unat (2 :: usize)" "rx_progress (?sched 2)" "2 + 3 \<le> (5 :: nat)" by simp_all
  from sharded_send_returns [where sched = ?sched and K = 2, OF s0 own r this, of 3 8] obtain x s' where
    "sharded_send 1 3 (spsc_rx_env ?sched) 5 8 s = Inr (Some x, s')"
    by (elim exE conjE)
  with s0 r show ?thesis by (intro exI conjI)
qed

end
