(* ===== verification/Step_Machine.thy ===== *)
theory Step_Machine
  imports Prelude
begin

text \<open>
  What the concurrent machines of the development share: an action of some thread takes a state to the next one, does
  not apply (\<open>None\<close>), or faults (\<open>Inl\<close>). Reachable states, runs of a given
  schedule, and the interface \<open>safe_machine\<close>: an invariant of the initial states that every
  action keeps without a fault.
\<close>

inductive reachable_by :: "('c \<Rightarrow> bool) \<Rightarrow> ('act \<Rightarrow> 'c \<Rightarrow> 'c outcome option) \<Rightarrow> 'c \<Rightarrow> bool" for start micro where
  init: "start c \<Longrightarrow> reachable_by start micro c"
| step: "reachable_by start micro c \<Longrightarrow> micro a c = Some (Inr c') \<Longrightarrow> reachable_by start micro c'"

inductive_cases reachable_byE: "reachable_by start micro c"

fun run_steps :: "('act \<Rightarrow> 'c \<Rightarrow> 'c outcome option) \<Rightarrow> 'act list \<Rightarrow> 'c \<Rightarrow> 'c outcome option" where
  "run_steps micro [] c = Some (Inr c)"
| "run_steps micro (a # as) c =
     (case micro a c of
        None \<Rightarrow> None
      | Some (Inl e) \<Rightarrow> Some (Inl e)
      | Some (Inr c') \<Rightarrow> run_steps micro as c')"

lemma run_steps_append:
  "run_steps micro (as @ bs) c =
     (case run_steps micro as c of
        None \<Rightarrow> None | Some (Inl e) \<Rightarrow> Some (Inl e) | Some (Inr c') \<Rightarrow> run_steps micro bs c')"
  by (induction as arbitrary: c) (auto split: option.splits sum.splits)

lemma run_steps_reachable:
  "run_steps micro as c = Some (Inr c') \<Longrightarrow> reachable_by start micro c \<Longrightarrow> reachable_by start micro c'"
  by (induction as arbitrary: c) (auto split: option.splits sum.splits intro: reachable_by.step)

text \<open>The run of a schedule from a given opening ends in a state with a given property: executable.\<close>

definition run_reaches ::
    "'c outcome \<Rightarrow> ('act \<Rightarrow> 'c \<Rightarrow> 'c outcome option) \<Rightarrow> 'act list \<Rightarrow> ('c \<Rightarrow> bool) \<Rightarrow> bool" where
  "run_reaches opened micro as Q \<longleftrightarrow>
     (case opened of
        Inl _ \<Rightarrow> False
      | Inr c \<Rightarrow> (case run_steps micro as c of Some (Inr c') \<Rightarrow> Q c' | _ \<Rightarrow> False))"

lemma run_reachesD:
  assumes r: "run_reaches opened micro as Q"
  shows "\<exists>c. reachable_by (\<lambda>c. opened = Inr c) micro c \<and> Q c"
proof (cases opened)
  case (Inr c0)
  with r obtain y where y: "run_steps micro as c0 = Some y"
    by (cases "run_steps micro as c0") (auto simp: run_reaches_def)
  with Inr r obtain c where c: "run_steps micro as c0 = Some (Inr c)" "Q c"
    by (cases y) (auto simp: run_reaches_def)
  have "reachable_by (\<lambda>c. opened = Inr c) micro c0" using Inr by (intro reachable_by.init)
  from run_steps_reachable [OF c(1) this] c(2) show ?thesis by blast
qed (use r in \<open>simp add: run_reaches_def\<close>)

locale safe_machine =
  fixes start :: "'c \<Rightarrow> bool"
    and micro :: "'act \<Rightarrow> 'c \<Rightarrow> 'c outcome option"
    and inv :: "'c \<Rightarrow> bool"
  assumes start_inv: "start c \<Longrightarrow> inv c"
    and step_inv: "inv c \<Longrightarrow> micro a c = Some r \<Longrightarrow> \<exists>c'. r = Inr c' \<and> inv c'"
begin

lemma reachable_inv: "reachable_by start micro c \<Longrightarrow> inv c"
proof (induction rule: reachable_by.induct)
  case (init c)
  then show ?case by (rule start_inv)
next
  case (step c a c')
  then show ?case using step_inv by blast
qed

lemma no_fault:
  assumes "reachable_by start micro c" "micro a c = Some r"
  shows "\<exists>c'. r = Inr c' \<and> reachable_by start micro c'"
  using step_inv [OF reachable_inv [OF assms(1)] assms(2)] assms by (auto intro: reachable_by.step)

lemma run_no_fault:
  "reachable_by start micro c \<Longrightarrow> run_steps micro as c = Some r \<Longrightarrow> \<exists>c'. r = Inr c' \<and> reachable_by start micro c'"
proof (induction as arbitrary: c)
  case (Cons a as)
  from Cons.prems(2) obtain r1 where r1: "micro a c = Some r1" by (cases "micro a c") simp_all
  with no_fault [OF Cons.prems(1)] obtain c1 where "r1 = Inr c1" "reachable_by start micro c1" by blast
  with Cons.IH [of c1] Cons.prems(2) r1 show ?case by simp
qed auto

end

text \<open>
  A call of one thread in such a machine: \<open>in_call l\<close> says that the call that began with record \<open>l\<close>
  is running or has returned, and \<open>left\<close> bounds the steps it has to go. The steps of the other threads
  do not push it back.
\<close>

locale bounded_call = safe_machine start micro inv
  for start :: "'c \<Rightarrow> bool" and micro :: "'act \<Rightarrow> 'c \<Rightarrow> 'c outcome option" and inv :: "'c \<Rightarrow> bool" +
  fixes in_call :: "'l \<Rightarrow> 'c \<Rightarrow> bool"
    and within own :: "'act \<Rightarrow> bool"
    and left :: "'c \<Rightarrow> nat"
  assumes progress: "inv c \<Longrightarrow> in_call l c \<Longrightarrow> within a \<Longrightarrow> micro a c = Some (Inr c') \<Longrightarrow>
      in_call l c' \<and> left c' + (if own a then 1 else 0) \<le> left c"
begin

lemma progress_run:
  "reachable_by start micro c \<Longrightarrow> in_call l c \<Longrightarrow> list_all within as \<Longrightarrow> run_steps micro as c = Some (Inr c') \<Longrightarrow>
     in_call l c' \<and> left c' + length (filter own as) \<le> left c"
proof (induction as arbitrary: c)
  case (Cons a as)
  from Cons.prems(4) obtain c1 where c1: "micro a c = Some (Inr c1)" "run_steps micro as c1 = Some (Inr c')"
    by (auto split: option.splits sum.splits)
  have "in_call l c1 \<and> left c1 + (if own a then 1 else 0) \<le> left c"
    using progress [OF reachable_inv [OF Cons.prems(1)] Cons.prems(2) _ c1(1)] Cons.prems(3) by simp
  with Cons.IH [OF reachable_by.step [OF Cons.prems(1) c1(1)]] Cons.prems(3) c1(2) show ?case by fastforce
qed simp

end

end
