(* ===== verification/Spsc_Concurrent.thy ===== *)
theory Spsc_Concurrent
  imports Spsc Step_Machine
begin

text \<open>
  The SPSC ring under interference: the two threads run \<^verbatim>\<open>try_send\<close>, \<^verbatim>\<open>try_recv\<close>, \<^verbatim>\<open>drain\<close> and their
  drops concurrently, one shared access per step, in every interleaving. The machine also
  has the weak behaviour of \<^verbatim>\<open>Acquire\<close> loads: a load of the other side's counter may return any
  value between the one this thread saw last and the current one, and a load of the
  \<^verbatim>\<open>disconnected\<close> flag may miss a store. (What a load may not do, by the release/acquire
  rule: the tail that is read after the flag was seen set is the final one.) Slot accesses fault when
  they overwrite a live value or read a dead one.
\<close>

section \<open>The machine\<close>

datatype 'a tx_pc = TIdle | TCheck 'a | TTest 'a | TWrite 'a | TPublish 'a | TWake | TDead

datatype 'a rx_pc =
    RIdle
  | RTest
  | RDisc
  | RReload
  | RRead
  | RPublish 'a
  | RWake 'a
  | RLoop usize usize usize
  | RTake usize usize usize
  | RGuard bool usize usize
  | RDrainWake usize
  | RDead

datatype 'a rx_result = RetRecv "('a, try_recv_error) rust_result" | RetDrain drain_exit

text \<open>
  \<open>cc_published\<close> and \<open>cc_taken\<close> are the histories of the values published by the tail's store and
  of the values moved out of the ring; the logs hold what the calls returned.
\<close>

record 'a spsc_conc =
  cc_shared :: "'a spsc_shared"
  cc_tx :: spsc_sender
  cc_rx :: spsc_receiver
  cc_tx_pc :: "'a tx_pc"
  cc_rx_pc :: "'a rx_pc"
  cc_tokens :: tokens
  cc_published :: "'a list"
  cc_taken :: "'a list"
  cc_tx_log :: "(unit, 'a try_send_error) rust_result list"
  cc_rx_log :: "'a rx_result list"

definition spsc_conc_init :: "usize \<Rightarrow> wait_strategy \<Rightarrow> 'a spsc_conc outcome" where
  "spsc_conc_init cap strategy =
     obind (spsc_channel cap strategy) (\<lambda>(sh, tx, rx).
       Inr \<lparr>cc_shared = sh, cc_tx = tx, cc_rx = rx, cc_tx_pc = TIdle, cc_rx_pc = RIdle, cc_tokens = {},
            cc_published = [], cc_taken = [], cc_tx_log = [], cc_rx_log = []\<rparr>)"

text \<open>\<open>x\<close> is a value of a counter from \<open>old\<close> on, up to the current value \<open>new\<close>.\<close>

definition seen :: "usize \<Rightarrow> usize \<Rightarrow> usize \<Rightarrow> bool" where
  "seen old new x \<longleftrightarrow> new - x \<le> new - old"

text \<open>
  The steps of \<^verbatim>\<open>try_send\<close>. \<open>x\<close> is what a load of the head returns and \<open>b\<close> what a load of the flag
  returns; \<open>None\<close> is "no such step".
\<close>

definition tx_return :: "(unit, 'a try_send_error) rust_result \<Rightarrow> 'a spsc_conc \<Rightarrow> 'a spsc_conc" where
  "tx_return r c = c\<lparr>cc_tx_pc := TIdle, cc_tx_log := cc_tx_log c @ [r]\<rparr>"

definition tx_micro :: "usize \<Rightarrow> bool \<Rightarrow> 'a spsc_conc \<Rightarrow> 'a spsc_conc outcome option" where
  "tx_micro x b c =
     (let sh = cc_shared c; tx = cc_tx c
      in case cc_tx_pc c of
           TIdle \<Rightarrow> None
         | TCheck v \<Rightarrow>
             (if b \<and> \<not> sp_disconnected sh then None
              else if b then Some (Inr (tx_return (Err (SendDisconnected v)) c))
              else Some (Inr (c\<lparr>cc_tx_pc := TTest v\<rparr>)))
         | TTest v \<Rightarrow>
             (if tx_tail tx - tx_cached_head tx = sp_cap sh then
                (if \<not> seen (tx_cached_head tx) (sp_head sh) x then None
                 else
                   let c1 = c\<lparr>cc_tx := tx\<lparr>tx_cached_head := x\<rparr>\<rparr>
                   in Some (Inr (if tx_tail tx - x = sp_cap sh then tx_return (Err (Full v)) c1
                                 else c1\<lparr>cc_tx_pc := TWrite v\<rparr>)))
              else Some (Inr (c\<lparr>cc_tx_pc := TWrite v\<rparr>)))
         | TWrite v \<Rightarrow>
             Some (case slot_write v (tx_tail tx AND sp_mask sh) (sp_buf sh) of
                     Inl e \<Rightarrow> Inl e
                   | Inr buf \<Rightarrow> Inr (c\<lparr>cc_shared := sh\<lparr>sp_buf := buf\<rparr>,
                                        cc_tx := tx\<lparr>tx_tail := tx_tail tx + 1\<rparr>, cc_tx_pc := TPublish v\<rparr>))
         | TPublish v \<Rightarrow>
             (let c1 = c\<lparr>cc_shared := sh\<lparr>sp_tail := tx_tail tx\<rparr>, cc_published := cc_published c @ [v]\<rparr>
              in Some (Inr (if sp_strategy sh = Park then c1\<lparr>cc_tx_pc := TWake\<rparr> else tx_return (Ok ()) c1)))
         | TWake \<Rightarrow>
             (let (sh', tok) = spsc_wake_consumer sh (cc_tokens c)
              in Some (Inr (tx_return (Ok ()) (c\<lparr>cc_shared := sh', cc_tokens := tok\<rparr>))))
         | TDead \<Rightarrow> None)"

text \<open>The steps of \<^verbatim>\<open>try_recv\<close> and \<^verbatim>\<open>drain\<close>; \<open>p\<close> says whether the closure panics on the value.\<close>

definition rx_return :: "'a rx_result \<Rightarrow> 'a spsc_conc \<Rightarrow> 'a spsc_conc" where
  "rx_return r c = c\<lparr>cc_rx_pc := RIdle, cc_rx_log := cc_rx_log c @ [r]\<rparr>"

definition rx_load_tail :: "usize \<Rightarrow> 'a rx_pc \<Rightarrow> 'a rx_pc \<Rightarrow> 'a spsc_conc \<Rightarrow> 'a spsc_conc outcome option" where
  "rx_load_tail x none_pc some_pc c =
     (let sh = cc_shared c; rx = cc_rx c
      in if rx_head rx = rx_cached_tail rx then
           (if \<not> seen (rx_cached_tail rx) (sp_tail sh) x then None
            else Some (Inr (c\<lparr>cc_rx := rx\<lparr>rx_cached_tail := x\<rparr>,
                              cc_rx_pc := (if rx_head rx = x then none_pc else some_pc)\<rparr>)))
         else Some (Inr (c\<lparr>cc_rx_pc := some_pc\<rparr>)))"

definition rx_read_slot :: "('a \<Rightarrow> 'a rx_pc) \<Rightarrow> 'a spsc_conc \<Rightarrow> 'a spsc_conc outcome option" where
  "rx_read_slot next c =
     (let sh = cc_shared c; rx = cc_rx c
      in Some (case slot_read (rx_head rx AND sp_mask sh) (sp_buf sh) of
                 Inl e \<Rightarrow> Inl e
               | Inr (v, buf) \<Rightarrow> Inr (c\<lparr>cc_shared := sh\<lparr>sp_buf := buf\<rparr>,
                                        cc_rx := rx\<lparr>rx_head := rx_head rx + 1\<rparr>,
                                        cc_rx_pc := next v, cc_taken := cc_taken c @ [v]\<rparr>)))"

definition rx_wake :: "'a rx_result \<Rightarrow> 'a spsc_conc \<Rightarrow> 'a spsc_conc" where
  "rx_wake r c =
     (let (sh', tok) = spsc_wake_producer (cc_shared c) (cc_tokens c)
      in rx_return r (c\<lparr>cc_shared := sh', cc_tokens := tok\<rparr>))"

definition rx_micro :: "usize \<Rightarrow> bool \<Rightarrow> bool \<Rightarrow> 'a spsc_conc \<Rightarrow> 'a spsc_conc outcome option" where
  "rx_micro x b p c =
     (let sh = cc_shared c; rx = cc_rx c
      in case cc_rx_pc c of
           RIdle \<Rightarrow> None
         | RTest \<Rightarrow> rx_load_tail x RDisc RRead c
         | RDisc \<Rightarrow>
             (if b \<and> \<not> sp_disconnected sh then None
              else if b then Some (Inr (c\<lparr>cc_rx_pc := RReload\<rparr>))
              else Some (Inr (rx_return (RetRecv (Err Empty)) c)))
         | RReload \<Rightarrow>
             (if sp_tail sh = rx_head rx then Some (Inr (rx_return (RetRecv (Err RecvDisconnected)) c))
              else Some (Inr (c\<lparr>cc_rx := rx\<lparr>rx_cached_tail := sp_tail sh\<rparr>, cc_rx_pc := RRead\<rparr>)))
         | RRead \<Rightarrow> rx_read_slot RPublish c
         | RPublish v \<Rightarrow>
             (let c1 = c\<lparr>cc_shared := sh\<lparr>sp_head := rx_head rx\<rparr>\<rparr>
              in Some (Inr (if sp_strategy sh = Park then c1\<lparr>cc_rx_pc := RWake v\<rparr>
                            else rx_return (RetRecv (Ok v)) c1)))
         | RWake v \<Rightarrow> Some (Inr (rx_wake (RetRecv (Ok v)) c))
         | RLoop mx count start \<Rightarrow>
             (if count < mx then rx_load_tail x (RGuard False count start) (RTake mx count start) c
              else Some (Inr (c\<lparr>cc_rx_pc := RGuard False count start\<rparr>)))
         | RTake mx count start \<Rightarrow>
             rx_read_slot (\<lambda>_. if p then RGuard True (count + 1) start else RLoop mx (count + 1) start) c
         | RGuard panicked count start \<Rightarrow>
             (let c1 = c\<lparr>cc_shared := publish_guard_drop start (rx_head rx) sh\<rparr>
              in Some (Inr (if panicked then rx_return (RetDrain Unwound) c1
                            else if count > 0 \<and> sp_strategy sh = Park then c1\<lparr>cc_rx_pc := RDrainWake count\<rparr>
                            else rx_return (RetDrain (Returned count)) c1)))
         | RDrainWake count \<Rightarrow> Some (Inr (rx_wake (RetDrain (Returned count)) c))
         | RDead \<Rightarrow> None)"

text \<open>
  Calls start and handles are dropped only between calls. The stores of the drops are one step;
  the wakes behind them touch the parkers only.
\<close>

datatype 'a conc_action = TCall 'a | TDrop | TStep usize bool | RCall | RDrainCall usize | RDrop | RStep usize bool bool

definition drop_handle :: "('a spsc_conc \<Rightarrow> 'a spsc_conc) \<Rightarrow> 'a spsc_conc \<Rightarrow> 'a spsc_conc" where
  "drop_handle die c =
     (let (sh, tok) = spsc_sender_drop (cc_shared c) (cc_tokens c)
      in die (c\<lparr>cc_shared := sh, cc_tokens := tok\<rparr>))"

fun spsc_micro :: "'a conc_action \<Rightarrow> 'a spsc_conc \<Rightarrow> 'a spsc_conc outcome option" where
  "spsc_micro (TCall v) c = (if cc_tx_pc c = TIdle then Some (Inr (c\<lparr>cc_tx_pc := TCheck v\<rparr>)) else None)"
| "spsc_micro TDrop c =
     (if cc_tx_pc c = TIdle then Some (Inr (drop_handle (\<lambda>c. c\<lparr>cc_tx_pc := TDead\<rparr>) c)) else None)"
| "spsc_micro (TStep x b) c = tx_micro x b c"
| "spsc_micro RCall c = (if cc_rx_pc c = RIdle then Some (Inr (c\<lparr>cc_rx_pc := RTest\<rparr>)) else None)"
| "spsc_micro (RDrainCall mx) c =
     (if cc_rx_pc c = RIdle then Some (Inr (c\<lparr>cc_rx_pc := RLoop mx 0 (rx_head (cc_rx c))\<rparr>)) else None)"
| "spsc_micro RDrop c =
     (if cc_rx_pc c = RIdle then Some (Inr (drop_handle (\<lambda>c. c\<lparr>cc_rx_pc := RDead\<rparr>) c)) else None)"
| "spsc_micro (RStep x b p) c = rx_micro x b p c"

abbreviation spsc_reachable :: "usize \<Rightarrow> wait_strategy \<Rightarrow> 'a spsc_conc \<Rightarrow> bool" where
  "spsc_reachable cap strategy \<equiv> reachable_by (\<lambda>c. spsc_conc_init cap strategy = Inr c) spsc_micro"

abbreviation spsc_schedule :: "'a conc_action list \<Rightarrow> 'a spsc_conc \<Rightarrow> 'a spsc_conc outcome option" where
  "spsc_schedule \<equiv> run_steps spsc_micro"

section \<open>Counters as natural numbers\<close>

lemma unat_of_nat_mod:
  assumes "is_power_of_two cap"
  shows "unat (of_nat n :: usize) mod unat cap = n mod unat cap"
proof -
  obtain k where k: "k < 64" "unat cap = 2 ^ k" using assms by (auto simp: is_power_of_two_unat)
  have "(2 :: nat) ^ k dvd 2 ^ 64" using k(1) by (intro le_imp_power_dvd) simp
  then have "n mod 2 ^ 64 mod 2 ^ k = n mod 2 ^ k" by (rule mod_mod_cancel)
  then show ?thesis by (simp add: unat_of_nat k(2))
qed

lemma of_nat_distance:
  assumes "a \<le> b" "b - a < 2 ^ 64"
  shows "unat (of_nat b - of_nat a :: usize) = b - a"
proof -
  have "(of_nat b - of_nat a :: usize) = of_nat (b - a)" using assms(1) by simp
  then show ?thesis using assms(2) by (simp add: unat_of_nat)
qed

lemma of_nat_distance_eq:
  assumes "a \<le> b" "b - a < 2 ^ 64"
  shows "(of_nat b - of_nat a :: usize) = c \<longleftrightarrow> b - a = unat c"
  using of_nat_distance [OF assms] by (metis word_unat_eq_iff)

lemma of_nat_eq_near:
  assumes "a \<le> b" "b - a < 2 ^ 64"
  shows "(of_nat a :: usize) = of_nat b \<longleftrightarrow> a = b"
proof -
  have "(of_nat a :: usize) = of_nat b \<longleftrightarrow> (of_nat b - of_nat a :: usize) = 0" by auto
  also have "\<dots> \<longleftrightarrow> b - a = 0" using of_nat_distance_eq [OF assms, of 0] by simp
  finally show ?thesis using assms(1) by auto
qed

lemma seen_between:
  assumes "a \<le> b" "b - a < 2 ^ 64" "seen (of_nat a) (of_nat b) x"
  obtains n where "a \<le> n" "n \<le> b" "x = of_nat n"
proof -
  let ?d = "unat (of_nat b - x)"
  have "?d \<le> b - a"
    using assms(3) of_nat_distance [OF assms(1,2)] by (simp add: seen_def word_le_nat_alt)
  moreover have "x = of_nat (b - ?d)"
  proof -
    have "(of_nat (b - ?d) :: usize) = of_nat b - of_nat ?d" using calculation by (simp add: of_nat_diff)
    then show ?thesis by simp
  qed
  ultimately show thesis using that [of "b - ?d"] assms(1) by simp
qed

section \<open>The invariant\<close>

fun tx_inflight :: "'a tx_pc \<Rightarrow> 'a list" where
  "tx_inflight (TPublish v) = [v]"
| "tx_inflight _ = []"

definition written :: "'a spsc_conc \<Rightarrow> 'a list" where
  "written c = cc_published c @ tx_inflight (cc_tx_pc c)"

text \<open>
  \<open>S\<close>, \<open>CH\<close> and \<open>CT\<close> are the shared head, the sender's cached head and the receiver's cached tail as
  numbers of values since the start; the private counters are the lengths of the histories.
\<close>

definition conc_counters :: "nat \<Rightarrow> nat \<Rightarrow> nat \<Rightarrow> 'a spsc_conc \<Rightarrow> bool" where
  "conc_counters S CH CT c \<longleftrightarrow>
     sp_tail (cc_shared c) = of_nat (length (cc_published c)) \<and>
     tx_tail (cc_tx c) = of_nat (length (written c)) \<and>
     rx_head (cc_rx c) = of_nat (length (cc_taken c)) \<and>
     sp_head (cc_shared c) = of_nat S \<and>
     tx_cached_head (cc_tx c) = of_nat CH \<and>
     rx_cached_tail (cc_rx c) = of_nat CT"

definition conc_order :: "nat \<Rightarrow> nat \<Rightarrow> nat \<Rightarrow> 'a spsc_conc \<Rightarrow> bool" where
  "conc_order S CH CT c \<longleftrightarrow>
     CH \<le> S \<and> S \<le> length (cc_taken c) \<and> length (cc_taken c) \<le> CT \<and> CT \<le> length (cc_published c) \<and>
     length (written c) \<le> CH + unat (sp_cap (cc_shared c))"

definition conc_ring :: "'a cell list \<Rightarrow> 'a list \<Rightarrow> 'a list \<Rightarrow> bool" where
  "conc_ring buf taken w \<longleftrightarrow>
     ring_ok buf (length taken) (length w - length taken) \<and>
     w = taken @ ring_queue buf (length taken) (length w - length taken)"

fun tx_pc_ok :: "nat \<Rightarrow> nat \<Rightarrow> 'a tx_pc \<Rightarrow> bool" where
  "tx_pc_ok w limit (TWrite v) = (w < limit)"
| "tx_pc_ok w limit _ = True"

fun rx_pc_ok :: "nat \<Rightarrow> nat \<Rightarrow> nat \<Rightarrow> 'a rx_pc \<Rightarrow> bool" where
  "rx_pc_ok S CT h RRead = (S = h \<and> h < CT)"
| "rx_pc_ok S CT h (RPublish v) = True"
| "rx_pc_ok S CT h (RLoop mx count start) = (start = of_nat S)"
| "rx_pc_ok S CT h (RTake mx count start) = (start = of_nat S \<and> h < CT)"
| "rx_pc_ok S CT h (RGuard panicked count start) = (start = of_nat S)"
| "rx_pc_ok S CT h _ = (S = h)"

definition conc_disc :: "'a spsc_conc \<Rightarrow> bool" where
  "conc_disc c \<longleftrightarrow>
     (sp_disconnected (cc_shared c) \<longleftrightarrow> cc_tx_pc c = TDead \<or> cc_rx_pc c = RDead) \<and>
     (cc_rx_pc c = RReload \<longrightarrow> cc_tx_pc c = TDead) \<and>
     (RetRecv (Err RecvDisconnected) \<in> set (cc_rx_log c) \<longrightarrow>
        cc_tx_pc c = TDead \<and> cc_taken c = cc_published c)"

definition conc_inv :: "nat \<Rightarrow> nat \<Rightarrow> nat \<Rightarrow> 'a spsc_conc \<Rightarrow> bool" where
  "conc_inv S CH CT c \<longleftrightarrow>
     spsc_geometry (cc_shared c) \<and> conc_counters S CH CT c \<and> conc_order S CH CT c \<and>
     conc_ring (sp_buf (cc_shared c)) (cc_taken c) (written c) \<and>
     tx_pc_ok (length (written c)) (CH + unat (sp_cap (cc_shared c))) (cc_tx_pc c) \<and>
     rx_pc_ok S CT (length (cc_taken c)) (cc_rx_pc c) \<and> conc_disc c"

lemmas conc_inv_defs = conc_inv_def conc_counters_def conc_order_def conc_disc_def

lemma written_update [simp]:
  "written (c\<lparr>cc_shared := a\<rparr>) = written c"
  "written (c\<lparr>cc_tx := b\<rparr>) = written c"
  "written (c\<lparr>cc_rx := d\<rparr>) = written c"
  "written (c\<lparr>cc_rx_pc := e\<rparr>) = written c"
  "written (c\<lparr>cc_tokens := f\<rparr>) = written c"
  "written (c\<lparr>cc_taken := g\<rparr>) = written c"
  "written (c\<lparr>cc_tx_log := h\<rparr>) = written c"
  "written (c\<lparr>cc_rx_log := i\<rparr>) = written c"
  "written (c\<lparr>cc_tx_pc := pc\<rparr>) = cc_published c @ tx_inflight pc"
  "written (c\<lparr>cc_published := ps\<rparr>) = ps @ tx_inflight (cc_tx_pc c)"
  by (simp_all add: written_def)

lemma geometry_update [simp]:
  "spsc_geometry (sh\<lparr>sp_tail := a\<rparr>) = spsc_geometry sh"
  "spsc_geometry (sh\<lparr>sp_head := b\<rparr>) = spsc_geometry sh"
  "spsc_geometry (sh\<lparr>sp_disconnected := d\<rparr>) = spsc_geometry sh"
  by (simp_all add: spsc_geometry_def)

lemma geometry_buf: "spsc_geometry sh \<Longrightarrow> length buf = length (sp_buf sh) \<Longrightarrow> spsc_geometry (sh\<lparr>sp_buf := buf\<rparr>)"
  by (simp add: spsc_geometry_def)

lemma conc_cap:
  assumes "conc_inv S CH CT c"
  shows "is_power_of_two (sp_cap (cc_shared c))" "0 < unat (sp_cap (cc_shared c))"
    "length (sp_buf (cc_shared c)) = unat (sp_cap (cc_shared c))"
  using assms by (auto simp: conc_inv_def spsc_geometry_def dest: is_power_of_two_pos)

lemma conc_index:
  assumes "conc_inv S CH CT c"
  shows "unat (of_nat n AND sp_mask (cc_shared c)) = n mod length (sp_buf (cc_shared c))"
  using ring_index [of "cc_shared c" "of_nat n"] conc_cap [OF assms] unat_of_nat_mod [of "sp_cap (cc_shared c)" n] assms
  by (simp add: conc_inv_def)

section \<open>The two slot accesses\<close>

lemma conc_ring_write:
  assumes "conc_ring buf taken w" "length taken \<le> length w" "length w - length taken < length buf"
    and "unat i = length w mod length buf"
  shows "\<exists>buf'. slot_write v i buf = Inr buf' \<and> length buf' = length buf \<and> conc_ring buf' taken (w @ [v])"
proof -
  let ?h = "length taken" and ?n = "length w - length taken"
  have ok: "ring_ok buf ?h ?n" and q: "w = taken @ ring_queue buf ?h ?n"
    using assms(1) by (simp_all add: conc_ring_def)
  have i: "unat i = (?h + ?n) mod length buf" using assms(2,4) by simp
  let ?buf = "buf[(?h + ?n) mod length buf := Live v]"
  have bound: "(?h + ?n) mod length buf < length buf" by (rule ring_index_less [OF assms(3)])
  have "slot_write v i buf = Inr ?buf"
    using slot_write_ok [of i buf v, unfolded i, OF bound ring_back_free [OF ok assms(3)]] .
  moreover have "ring_ok ?buf ?h (Suc ?n)" using ok assms(3) by (rule ring_ok_write)
  moreover have "w @ [v] = taken @ ring_queue ?buf ?h (Suc ?n)"
    using ring_queue_write [OF assms(3), of ?h v] q by simp
  moreover have "length (w @ [v]) - ?h = Suc ?n" using assms(2) by simp
  ultimately show ?thesis by (intro exI [of _ ?buf]) (simp add: conc_ring_def)
qed

lemma conc_ring_read:
  assumes "conc_ring buf taken w" "length taken < length w" "unat i = length taken mod length buf"
  shows "\<exists>v buf'. slot_read i buf = Inr (v, buf') \<and> length buf' = length buf \<and> conc_ring buf' (taken @ [v]) w"
proof -
  let ?h = "length taken" and ?n = "length w - Suc (length taken)"
  have n: "length w - ?h = Suc ?n" using assms(2) by simp
  have ok: "ring_ok buf ?h (Suc ?n)" and q: "w = taken @ ring_queue buf ?h (Suc ?n)"
    using assms(1) by (simp_all add: conc_ring_def n)
  obtain v where v: "buf ! (?h mod length buf) = Live v"
    and front: "ring_queue buf ?h (Suc ?n) = v # ring_queue buf (Suc ?h) ?n"
    using ok by (rule ring_front_live)
  let ?buf = "buf[?h mod length buf := Moved v]"
  have pos: "?h mod length buf < length buf" using ok by (simp add: ring_ok_def)
  have "slot_read i buf = Inr (v, ?buf)"
    using slot_read_ok [of i buf v, unfolded assms(3), OF pos v] .
  moreover have "ring_ok ?buf (Suc ?h) ?n" using ok by (rule ring_ok_read)
  moreover have "w = (taken @ [v]) @ ring_queue ?buf (Suc ?h) ?n"
    using q front ring_queue_read [OF ok, of v] by simp
  ultimately show ?thesis by (intro exI [of _ v] exI [of _ ?buf]) (simp add: conc_ring_def)
qed

section \<open>Every step keeps the invariant and none faults\<close>

lemma tx_test_keeps:
  assumes inv: "conc_inv S CH CT c" and pc: "cc_tx_pc c = TTest v" and step: "tx_micro x b c = Some r"
  shows "\<exists>c' CH'. r = Inr c' \<and> conc_inv S CH' CT c'"
proof -
  let ?cap = "unat (sp_cap (cc_shared c))" and ?t = "length (cc_published c)"
  have w: "written c = cc_published c" using pc by (simp add: written_def)
  have o: "CH \<le> S" "S \<le> length (cc_taken c)" "length (cc_taken c) \<le> CT" "CT \<le> ?t" "?t \<le> CH + ?cap"
    and t: "tx_tail (cc_tx c) = of_nat ?t" "tx_cached_head (cc_tx c) = of_nat CH" "sp_head (cc_shared c) = of_nat S"
    using inv by (simp_all add: conc_inv_defs w)
  have cap: "?cap < 2 ^ 64" using usize_bound [of "sp_cap (cc_shared c)"] by simp
  have full: "of_nat ?t - of_nat n = sp_cap (cc_shared c) \<longleftrightarrow> ?t - n = ?cap" if "CH \<le> n" "n \<le> S" for n
    using that o cap by (intro of_nat_distance_eq) linarith+
  show ?thesis
  proof (cases "tx_tail (cc_tx c) - tx_cached_head (cc_tx c) = sp_cap (cc_shared c)")
    case False
    then have "?t < CH + ?cap" using full [of CH] o by (auto simp: t)
    with pc inv w have "conc_inv S CH CT (c\<lparr>cc_tx_pc := TWrite v\<rparr>)" by (simp add: conc_inv_defs)
    moreover have "r = Inr (c\<lparr>cc_tx_pc := TWrite v\<rparr>)" using False step pc by (simp add: tx_micro_def)
    ultimately show ?thesis by blast
  next
    case True
    with step pc have seen: "seen (of_nat CH) (of_nat S) x" by (auto simp: tx_micro_def Let_def t split: if_splits)
    have "S - CH < 2 ^ 64" using o cap by linarith
    with o(1) obtain n where n: "CH \<le> n" "n \<le> S" "x = of_nat n" using seen by (rule seen_between)
    have upd: "conc_inv S n CT (c\<lparr>cc_tx := (cc_tx c)\<lparr>tx_cached_head := x\<rparr>, cc_tx_pc := pc', cc_tx_log := l\<rparr>)"
      if "tx_inflight pc' = []" "pc' \<noteq> TDead" "tx_pc_ok ?t (n + ?cap) pc'" for pc' l
      using inv pc w o n that by (simp add: conc_inv_defs)
    have sp: "tx_tail (cc_tx c) - x \<noteq> sp_cap (cc_shared c) \<Longrightarrow> ?t < n + ?cap"
      using full [OF n(1,2)] o n by (auto simp: t)
    have "r = Inr (if tx_tail (cc_tx c) - x = sp_cap (cc_shared c)
        then c\<lparr>cc_tx := (cc_tx c)\<lparr>tx_cached_head := x\<rparr>, cc_tx_pc := TIdle, cc_tx_log := cc_tx_log c @ [Err (Full v)]\<rparr>
        else c\<lparr>cc_tx := (cc_tx c)\<lparr>tx_cached_head := x\<rparr>, cc_tx_pc := TWrite v\<rparr>)"
      using step pc True seen by (auto simp: tx_micro_def Let_def t tx_return_def)
    then show ?thesis
      using upd [of TIdle "cc_tx_log c @ [Err (Full v)]"] upd [of "TWrite v" "cc_tx_log c"] sp
      by (cases "tx_tail (cc_tx c) - x = sp_cap (cc_shared c)") auto
  qed
qed

lemma tx_write_keeps:
  assumes inv: "conc_inv S CH CT c" and pc: "cc_tx_pc c = TWrite v" and step: "tx_micro x b c = Some r"
  shows "\<exists>c' CH'. r = Inr c' \<and> conc_inv S CH' CT c'"
proof -
  let ?sh = "cc_shared c" and ?t = "length (cc_published c)"
  have w: "written c = cc_published c" using pc by (simp add: written_def)
  have t: "tx_tail (cc_tx c) = of_nat ?t" and o: "length (cc_taken c) \<le> ?t" "?t - length (cc_taken c) < length (sp_buf ?sh)"
    and ring: "conc_ring (sp_buf ?sh) (cc_taken c) (cc_published c)"
    using inv pc conc_cap(3) [OF inv] by (auto simp: conc_inv_defs w)
  from conc_ring_write [OF ring o, of "of_nat ?t AND sp_mask ?sh" v] conc_index [OF inv, of ?t] obtain buf where
    b: "slot_write v (of_nat ?t AND sp_mask ?sh) (sp_buf ?sh) = Inr buf" "length buf = length (sp_buf ?sh)"
      "conc_ring buf (cc_taken c) (cc_published c @ [v])"
    by auto
  let ?c = "c\<lparr>cc_shared := ?sh\<lparr>sp_buf := buf\<rparr>, cc_tx := (cc_tx c)\<lparr>tx_tail := tx_tail (cc_tx c) + 1\<rparr>, cc_tx_pc := TPublish v\<rparr>"
  have "conc_inv S CH CT ?c"
    using inv pc w b(3) geometry_buf [OF _ b(2)] by (simp add: conc_inv_defs t)
  moreover have "r = Inr ?c" using step pc b(1) by (simp add: tx_micro_def t)
  ultimately show ?thesis by blast
qed

lemma tx_publish_keeps:
  assumes inv: "conc_inv S CH CT c" and pc: "cc_tx_pc c = TPublish v" and step: "tx_micro x b c = Some r"
  shows "\<exists>c' CH'. r = Inr c' \<and> conc_inv S CH' CT c'"
proof -
  let ?c = "\<lambda>pc' l. c\<lparr>cc_shared := (cc_shared c)\<lparr>sp_tail := tx_tail (cc_tx c)\<rparr>,
     cc_published := cc_published c @ [v], cc_tx_pc := pc', cc_tx_log := l\<rparr>"
  have w: "written c = cc_published c @ [v]" using pc by (simp add: written_def)
  have upd: "conc_inv S CH CT (?c pc' l)" if "tx_inflight pc' = []" "pc' \<noteq> TDead" "\<And>n m. tx_pc_ok n m pc'" for pc' l
    using inv pc w that by (auto simp: conc_inv_defs)
  have "r = Inr (if sp_strategy (cc_shared c) = Park then ?c TWake (cc_tx_log c) else ?c TIdle (cc_tx_log c @ [Ok ()]))"
    using step pc by (auto simp: tx_micro_def Let_def tx_return_def)
  then show ?thesis
    using upd [of TWake "cc_tx_log c"] upd [of TIdle "cc_tx_log c @ [Ok ()]"] by (cases "sp_strategy (cc_shared c)") auto
qed

text \<open>Waking a parker touches nothing that the invariant mentions.\<close>

lemma conc_inv_same_ring:
  assumes "conc_inv S CH CT c"
    and "sp_buf sh = sp_buf (cc_shared c)" "sp_mask sh = sp_mask (cc_shared c)" "sp_cap sh = sp_cap (cc_shared c)"
      "sp_tail sh = sp_tail (cc_shared c)" "sp_head sh = sp_head (cc_shared c)"
      "sp_disconnected sh = sp_disconnected (cc_shared c)"
  shows "conc_inv S CH CT (c\<lparr>cc_shared := sh, cc_tokens := tok\<rparr>)"
  using assms by (simp add: conc_inv_defs spsc_geometry_def)

lemma tx_wake_keeps:
  assumes inv: "conc_inv S CH CT c" and pc: "cc_tx_pc c = TWake" and step: "tx_micro x b c = Some r"
  shows "\<exists>c' CH'. r = Inr c' \<and> conc_inv S CH' CT c'"
proof -
  obtain sh tok where wk: "spsc_wake_consumer (cc_shared c) (cc_tokens c) = (sh, tok)" by fastforce
  let ?c = "c\<lparr>cc_shared := sh, cc_tokens := tok\<rparr>"
  have inv': "conc_inv S CH CT ?c"
    using conc_inv_same_ring [OF inv] spsc_wake_consumer_frame [OF wk] by simp
  have "conc_inv S CH CT (tx_return (Ok ()) ?c)"
    using inv' pc by (simp add: tx_return_def conc_inv_defs written_def)
  moreover have "r = Inr (tx_return (Ok ()) ?c)" using step pc wk by (simp add: tx_micro_def)
  ultimately show ?thesis by blast
qed

lemma tx_check_keeps:
  assumes inv: "conc_inv S CH CT c" and pc: "cc_tx_pc c = TCheck v" and step: "tx_micro x b c = Some r"
  shows "\<exists>c' CH'. r = Inr c' \<and> conc_inv S CH' CT c'"
proof -
  have w: "written c = cc_published c" using pc by (simp add: written_def)
  have upd: "conc_inv S CH CT (c\<lparr>cc_tx_pc := pc', cc_tx_log := l\<rparr>)"
    if "tx_inflight pc' = []" "pc' \<noteq> TDead" "\<And>n m. tx_pc_ok n m pc'" for pc' l
    using inv pc w that by (simp add: conc_inv_defs)
  have "r = Inr (if b then c\<lparr>cc_tx_pc := TIdle, cc_tx_log := cc_tx_log c @ [Err (SendDisconnected v)]\<rparr>
      else c\<lparr>cc_tx_pc := TTest v\<rparr>)"
    using step pc by (auto simp: tx_micro_def tx_return_def split: if_splits)
  then show ?thesis
    using upd [of TIdle "cc_tx_log c @ [Err (SendDisconnected v)]"] upd [of "TTest v" "cc_tx_log c"]
    by (cases b) auto
qed

lemma tx_micro_keeps:
  assumes inv: "conc_inv S CH CT c" and step: "tx_micro x b c = Some r"
  shows "\<exists>c' CH'. r = Inr c' \<and> conc_inv S CH' CT c'"
  using tx_check_keeps [OF inv _ step] tx_test_keeps [OF inv _ step] tx_write_keeps [OF inv _ step]
    tx_publish_keeps [OF inv _ step] tx_wake_keeps [OF inv _ step] step
  by (cases "cc_tx_pc c") (simp_all add: tx_micro_def)

text \<open>The receiver's steps, by the pieces they share.\<close>

lemma rx_load_tail_keeps:
  assumes inv: "conc_inv S CH CT c" and step: "rx_load_tail x none_pc some_pc c = Some r"
    and pcs: "rx_pc_ok S (length (cc_taken c)) (length (cc_taken c)) none_pc"
      "\<And>n. length (cc_taken c) < n \<Longrightarrow> rx_pc_ok S n (length (cc_taken c)) some_pc"
      "none_pc \<noteq> RReload" "some_pc \<noteq> RReload" "none_pc \<noteq> RDead" "some_pc \<noteq> RDead" "cc_rx_pc c \<noteq> RDead"
  shows "\<exists>c' CT'. r = Inr c' \<and> conc_inv S CH CT' c'"
proof -
  let ?h = "length (cc_taken c)" and ?t = "length (cc_published c)"
  have o: "?h \<le> CT" "CT \<le> ?t" "?t \<le> ?h + unat (sp_cap (cc_shared c))"
    and t: "rx_head (cc_rx c) = of_nat ?h" "rx_cached_tail (cc_rx c) = of_nat CT" "sp_tail (cc_shared c) = of_nat ?t"
    using inv by (auto simp: conc_inv_defs written_def)
  have cap: "unat (sp_cap (cc_shared c)) < 2 ^ 64" using usize_bound [of "sp_cap (cc_shared c)"] by simp
  have eq: "of_nat ?h = (of_nat n :: usize) \<longleftrightarrow> ?h = n" if "?h \<le> n" "n \<le> ?t" for n
    using that o cap by (intro of_nat_eq_near) linarith+
  have upd: "conc_inv S CH n (c\<lparr>cc_rx := (cc_rx c)\<lparr>rx_cached_tail := of_nat n\<rparr>,
      cc_rx_pc := (if ?h = n then none_pc else some_pc)\<rparr>)" if "?h \<le> n" "n \<le> ?t" for n
    using inv pcs that by (auto simp: conc_inv_defs)
  show ?thesis
  proof (cases "rx_head (cc_rx c) = rx_cached_tail (cc_rx c)")
    case False
    then have "?h \<noteq> CT" by (auto simp: t)
    moreover have "(cc_rx c)\<lparr>rx_cached_tail := of_nat CT\<rparr> = cc_rx c" using t(2) by simp
    ultimately have "conc_inv S CH CT (c\<lparr>cc_rx_pc := some_pc\<rparr>)"
      using inv o pcs by (simp add: conc_inv_defs)
    moreover have "r = Inr (c\<lparr>cc_rx_pc := some_pc\<rparr>)" using step False by (simp add: rx_load_tail_def)
    ultimately show ?thesis by blast
  next
    case True
    then have CT: "?h = CT" using eq [of CT] o by (simp add: t)
    from step True have seen: "seen (of_nat CT) (of_nat ?t) x"
      by (auto simp: rx_load_tail_def Let_def t split: if_splits)
    have "?t - CT < 2 ^ 64" using o cap by linarith
    with o(2) obtain n where n: "CT \<le> n" "n \<le> ?t" "x = of_nat n" using seen by (rule seen_between)
    have "r = Inr (c\<lparr>cc_rx := (cc_rx c)\<lparr>rx_cached_tail := of_nat n\<rparr>,
        cc_rx_pc := (if ?h = n then none_pc else some_pc)\<rparr>)"
      using step True seen eq [of n] n CT by (auto simp: rx_load_tail_def Let_def t)
    with upd [of n] n CT show ?thesis by blast
  qed
qed

lemma rx_read_slot_keeps:
  assumes inv: "conc_inv S CH CT c" and step: "rx_read_slot nxt c = Some r" and less: "length (cc_taken c) < CT"
    and pcs: "\<And>v. rx_pc_ok S CT (Suc (length (cc_taken c))) (nxt v)"
      "\<And>v. nxt v \<noteq> RReload" "\<And>v. nxt v \<noteq> RDead" "cc_rx_pc c \<noteq> RDead"
  shows "\<exists>c'. r = Inr c' \<and> conc_inv S CH CT c'"
proof -
  let ?sh = "cc_shared c" and ?h = "length (cc_taken c)"
  have h: "rx_head (cc_rx c) = of_nat ?h" and o: "?h < length (cc_published c)" "?h < length (written c)"
    and ring: "conc_ring (sp_buf ?sh) (cc_taken c) (written c)"
    using inv less by (auto simp: conc_inv_defs written_def)
  from conc_ring_read [OF ring o(2), of "of_nat ?h AND sp_mask ?sh"] conc_index [OF inv, of ?h] obtain v buf where
    b: "slot_read (of_nat ?h AND sp_mask ?sh) (sp_buf ?sh) = Inr (v, buf)" "length buf = length (sp_buf ?sh)"
      "conc_ring buf (cc_taken c @ [v]) (written c)"
    by auto
  let ?c = "c\<lparr>cc_shared := ?sh\<lparr>sp_buf := buf\<rparr>, cc_rx := (cc_rx c)\<lparr>rx_head := rx_head (cc_rx c) + 1\<rparr>,
      cc_rx_pc := nxt v, cc_taken := cc_taken c @ [v]\<rparr>"
  have log: "RetRecv (Err RecvDisconnected) \<notin> set (cc_rx_log c)"
    using inv o(1) by (auto simp: conc_inv_defs)
  have "conc_inv S CH CT ?c"
    using inv b(3) geometry_buf [OF _ b(2)] pcs less log by (simp add: conc_inv_defs h)
  moreover have "r = Inr ?c" using step b(1) by (simp add: rx_read_slot_def h)
  ultimately show ?thesis by blast
qed

lemma rx_return_keeps:
  assumes "conc_inv S CH CT c" "S = length (cc_taken c)" "cc_rx_pc c \<noteq> RDead"
    and "r = RetRecv (Err RecvDisconnected) \<Longrightarrow> cc_tx_pc c = TDead \<and> cc_taken c = cc_published c"
  shows "conc_inv S CH CT (rx_return r c)"
  using assms by (auto simp: rx_return_def conc_inv_defs)

text \<open>Storing the private head publishes every slot read so far.\<close>

lemma rx_store_keeps:
  assumes "conc_inv S CH CT c" "cc_rx_pc c \<noteq> RDead" "pc \<noteq> RDead" "pc \<noteq> RReload"
    and "rx_pc_ok (length (cc_taken c)) CT (length (cc_taken c)) pc"
  shows "conc_inv (length (cc_taken c)) CH CT
     (c\<lparr>cc_shared := (cc_shared c)\<lparr>sp_head := rx_head (cc_rx c)\<rparr>, cc_rx_pc := pc\<rparr>)"
  using assms by (auto simp: conc_inv_defs)

lemma rx_return_idle: "rx_return r (c\<lparr>cc_rx_pc := RIdle\<rparr>) = rx_return r c"
  by (simp add: rx_return_def)

lemma rx_pc_keeps:
  assumes "conc_inv S CH CT c" "cc_rx_pc c \<noteq> RDead" "pc \<noteq> RDead" "pc = RReload \<Longrightarrow> cc_tx_pc c = TDead"
    and "rx_pc_ok S CT (length (cc_taken c)) pc"
  shows "conc_inv S CH CT (c\<lparr>cc_rx_pc := pc\<rparr>)"
  using assms by (auto simp: conc_inv_defs)

lemma rx_wake_keeps:
  assumes inv: "conc_inv S CH CT c" "S = length (cc_taken c)" "cc_rx_pc c \<noteq> RDead"
    and r: "r \<noteq> RetRecv (Err RecvDisconnected)"
  shows "conc_inv S CH CT (rx_wake r c)"
proof -
  obtain sh tok where wk: "spsc_wake_producer (cc_shared c) (cc_tokens c) = (sh, tok)" by fastforce
  have "conc_inv S CH CT (c\<lparr>cc_shared := sh, cc_tokens := tok\<rparr>)"
    using conc_inv_same_ring [OF inv(1)] spsc_wake_producer_frame [OF wk] by simp
  from rx_return_keeps [OF this, of r] inv r show ?thesis by (simp add: rx_wake_def wk)
qed

lemma rx_recv_end_keeps:
  assumes inv: "conc_inv S CH CT c" and pc: "cc_rx_pc c = RPublish v" and step: "rx_micro x b p c = Some r"
  shows "\<exists>c' S'. r = Inr c' \<and> conc_inv S' CH CT c'"
proof -
  let ?c = "c\<lparr>cc_shared := (cc_shared c)\<lparr>sp_head := rx_head (cc_rx c)\<rparr>\<rparr>" and ?h = "length (cc_taken c)"
  have i: "conc_inv ?h CH CT (?c\<lparr>cc_rx_pc := RIdle\<rparr>)" using rx_store_keeps [OF inv, of RIdle] pc by simp
  have "conc_inv ?h CH CT (?c\<lparr>cc_rx_pc := RWake v\<rparr>)" using rx_store_keeps [OF inv, of "RWake v"] pc by simp
  moreover have "conc_inv ?h CH CT (rx_return (RetRecv (Ok v)) ?c)"
    using rx_return_keeps [OF i, of "RetRecv (Ok v)"] by (simp add: rx_return_idle)
  moreover have "r = Inr (if sp_strategy (cc_shared c) = Park then ?c\<lparr>cc_rx_pc := RWake v\<rparr>
      else rx_return (RetRecv (Ok v)) ?c)"
    using step pc by (simp add: rx_micro_def Let_def)
  ultimately show ?thesis by (cases "sp_strategy (cc_shared c) = Park") auto
qed

lemma rx_guard_keeps:
  assumes inv: "conc_inv S CH CT c" and pc: "cc_rx_pc c = RGuard panicked count start"
    and step: "rx_micro x b p c = Some r"
  shows "\<exists>c' S'. r = Inr c' \<and> conc_inv S' CH CT c'"
proof -
  let ?h = "length (cc_taken c)"
  let ?c = "c\<lparr>cc_shared := publish_guard_drop start (rx_head (cc_rx c)) (cc_shared c)\<rparr>"
  have t: "start = of_nat S" "rx_head (cc_rx c) = of_nat ?h" and o: "S \<le> ?h" "?h - S \<le> unat (sp_cap (cc_shared c))"
    using inv pc by (auto simp: conc_inv_defs written_def)
  have "(of_nat S :: usize) = of_nat ?h \<longleftrightarrow> S = ?h"
    using o usize_bound [of "sp_cap (cc_shared c)"] by (intro of_nat_eq_near) simp_all
  then have eq: "rx_head (cc_rx c) \<noteq> start \<longleftrightarrow> S \<noteq> ?h" unfolding t by metis
  have i: "conc_inv ?h CH CT (?c\<lparr>cc_rx_pc := nxt\<rparr>)"
    if n: "nxt \<noteq> RDead" "nxt \<noteq> RReload" "rx_pc_ok ?h CT ?h nxt" for nxt
  proof (cases "S = ?h")
    case True
    then have "conc_inv ?h CH CT (c\<lparr>cc_rx_pc := nxt\<rparr>)" using rx_pc_keeps [OF inv, of nxt] n pc by simp
    moreover have "?c\<lparr>cc_rx_pc := nxt\<rparr> = c\<lparr>cc_rx_pc := nxt\<rparr>"
      using True eq by (simp add: publish_guard_drop_def)
    ultimately show ?thesis by simp
  next
    case False
    then have "publish_guard_drop start (rx_head (cc_rx c)) (cc_shared c) = (cc_shared c)\<lparr>sp_head := rx_head (cc_rx c)\<rparr>"
      using eq by (simp add: publish_guard_drop_def)
    with rx_store_keeps [OF inv _ n] pc show ?thesis by simp
  qed
  have j: "conc_inv ?h CH CT (?c\<lparr>cc_rx_pc := RIdle\<rparr>)" by (rule i) simp_all
  have "conc_inv ?h CH CT (rx_return (RetDrain e) (?c\<lparr>cc_rx_pc := RIdle\<rparr>))" for e
    by (rule rx_return_keeps [OF j]) simp_all
  then have "conc_inv ?h CH CT (rx_return (RetDrain e) ?c)" for e
    unfolding rx_return_idle .
  moreover have "conc_inv ?h CH CT (?c\<lparr>cc_rx_pc := RDrainWake count\<rparr>)" by (rule i) simp_all
  moreover have "r = Inr (if panicked then rx_return (RetDrain Unwound) ?c
      else if count > 0 \<and> sp_strategy (cc_shared c) = Park then ?c\<lparr>cc_rx_pc := RDrainWake count\<rparr>
      else rx_return (RetDrain (Returned count)) ?c)"
    using step pc by (simp add: rx_micro_def Let_def)
  ultimately show ?thesis
    by (cases panicked; cases "count > 0 \<and> sp_strategy (cc_shared c) = Park") auto
qed

lemma rx_disc_keeps:
  assumes inv: "conc_inv S CH CT c" and pc: "cc_rx_pc c = RDisc" and step: "rx_micro x b p c = Some r"
  shows "\<exists>c'. r = Inr c' \<and> conc_inv S CH CT c'"
proof (cases b)
  have S: "S = length (cc_taken c)" using inv pc by (simp add: conc_inv_def)
  case True
  with step pc have d: "sp_disconnected (cc_shared c)" and r: "r = Inr (c\<lparr>cc_rx_pc := RReload\<rparr>)"
    by (auto simp: rx_micro_def Let_def split: if_splits)
  from d inv pc have "cc_tx_pc c = TDead" by (simp add: conc_inv_def conc_disc_def)
  then have "conc_inv S CH CT (c\<lparr>cc_rx_pc := RReload\<rparr>)"
    using rx_pc_keeps [OF inv, of RReload] S pc by simp
  with r show ?thesis by blast
next
  have S: "S = length (cc_taken c)" using inv pc by (simp add: conc_inv_def)
  case False
  with step pc have "r = Inr (rx_return (RetRecv (Err Empty)) c)" by (simp add: rx_micro_def Let_def)
  moreover have "conc_inv S CH CT (rx_return (RetRecv (Err Empty)) c)"
    using rx_return_keeps [OF inv S, of "RetRecv (Err Empty)"] pc by simp
  ultimately show ?thesis by blast
qed

lemma rx_reload_keeps:
  assumes inv: "conc_inv S CH CT c" and pc: "cc_rx_pc c = RReload" and step: "rx_micro x b p c = Some r"
  shows "\<exists>c' CT'. r = Inr c' \<and> conc_inv S CH CT' c'"
proof -
  let ?h = "length (cc_taken c)" and ?t = "length (cc_published c)"
  have t: "sp_tail (cc_shared c) = of_nat ?t" "rx_head (cc_rx c) = of_nat ?h" and dead: "cc_tx_pc c = TDead"
    and S: "S = ?h" and o: "?h \<le> ?t" "?t - ?h \<le> unat (sp_cap (cc_shared c))"
    using inv pc by (auto simp: conc_inv_defs written_def)
  have q: "cc_published c = cc_taken c @ ring_queue (sp_buf (cc_shared c)) ?h (?t - ?h)"
    using inv dead by (simp add: conc_inv_def conc_ring_def written_def)
  have eq: "(of_nat ?h :: usize) = of_nat ?t \<longleftrightarrow> ?h = ?t"
    using o usize_bound [of "sp_cap (cc_shared c)"] by (intro of_nat_eq_near) simp_all
  show ?thesis
  proof (cases "?h = ?t")
    case True
    with q have "cc_taken c = cc_published c" by simp
    then have "conc_inv S CH CT (rx_return (RetRecv (Err RecvDisconnected)) c)"
      using rx_return_keeps [OF inv S] pc dead by simp
    moreover have "r = Inr (rx_return (RetRecv (Err RecvDisconnected)) c)"
      using step pc True by (simp add: rx_micro_def Let_def t)
    ultimately show ?thesis by blast
  next
    case False
    with o have less: "?h < ?t" by simp
    let ?c = "c\<lparr>cc_rx := (cc_rx c)\<lparr>rx_cached_tail := of_nat ?t\<rparr>, cc_rx_pc := RRead\<rparr>"
    have "conc_inv S CH ?t ?c" using inv pc less S by (auto simp: conc_inv_defs)
    moreover have "r = Inr ?c" using step pc False eq by (auto simp: rx_micro_def Let_def t)
    ultimately show ?thesis by blast
  qed
qed

lemma rx_micro_keeps:
  assumes inv: "conc_inv S CH CT c" and step: "rx_micro x b p c = Some r"
  shows "\<exists>c' S' CT'. r = Inr c' \<and> conc_inv S' CH CT' c'"
proof (cases "cc_rx_pc c")
  case RIdle
  with step show ?thesis by (simp add: rx_micro_def)
next
  case RTest
  have "S = length (cc_taken c)" using inv RTest by (simp add: conc_inv_def)
  with rx_load_tail_keeps [OF inv, of x RDisc RRead r] step RTest show ?thesis by (auto simp: rx_micro_def)
next
  case RDisc
  from rx_disc_keeps [OF inv this step] show ?thesis by blast
next
  case RReload
  from rx_reload_keeps [OF inv this step] show ?thesis by blast
next
  case RRead
  have "length (cc_taken c) < CT" using inv RRead by (simp add: conc_inv_def)
  with rx_read_slot_keeps [OF inv, of RPublish r] step RRead show ?thesis by (auto simp: rx_micro_def)
next
  case (RPublish v)
  from rx_recv_end_keeps [OF inv this step] show ?thesis by blast
next
  case (RWake v)
  have "S = length (cc_taken c)" using inv RWake by (simp add: conc_inv_def)
  with rx_wake_keeps [OF inv, of "RetRecv (Ok v)"] step RWake show ?thesis by (auto simp: rx_micro_def)
next
  case (RLoop mx count start)
  then have s: "start = of_nat S" using inv by (simp add: conc_inv_def)
  have "conc_inv S CH CT (c\<lparr>cc_rx_pc := RGuard False count start\<rparr>)"
    using rx_pc_keeps [OF inv, of "RGuard False count start"] RLoop s by simp
  with rx_load_tail_keeps [OF inv, of x "RGuard False count start" "RTake mx count start" r] step RLoop s
  show ?thesis by (auto simp: rx_micro_def split: if_splits)
next
  case (RTake mx count start)
  let ?nxt = "\<lambda>_. if p then RGuard True (count + 1) start else RLoop mx (count + 1) start"
  from RTake have s: "start = of_nat S" "length (cc_taken c) < CT" using inv by (simp_all add: conc_inv_def)
  have run: "rx_read_slot ?nxt c = Some r" using step RTake by (simp add: rx_micro_def)
  have "\<exists>c'. r = Inr c' \<and> conc_inv S CH CT c'"
    by (rule rx_read_slot_keeps [OF inv run s(2)]) (use RTake s in auto)
  then show ?thesis by blast
next
  case (RGuard panicked count start)
  from rx_guard_keeps [OF inv this step] show ?thesis by blast
next
  case (RDrainWake count)
  have "S = length (cc_taken c)" using inv RDrainWake by (simp add: conc_inv_def)
  with rx_wake_keeps [OF inv, of "RetDrain (Returned count)"] step RDrainWake show ?thesis by (auto simp: rx_micro_def)
next
  case RDead
  with step show ?thesis by (simp add: rx_micro_def)
qed

lemma drop_shared_frame:
  assumes "spsc_sender_drop sh tok = (sh', tok')"
  shows "sp_buf sh' = sp_buf sh" "sp_mask sh' = sp_mask sh" "sp_cap sh' = sp_cap sh" "sp_tail sh' = sp_tail sh"
    "sp_head sh' = sp_head sh" "sp_disconnected sh'"
proof -
  obtain sh2 tok2 where w: "spsc_wake_consumer (sh\<lparr>sp_disconnected := True\<rparr>) tok = (sh2, tok2)" by fastforce
  with assms have w2: "spsc_wake_producer sh2 tok2 = (sh', tok')" by (simp add: spsc_sender_drop_def)
  show "sp_buf sh' = sp_buf sh" "sp_mask sh' = sp_mask sh" "sp_cap sh' = sp_cap sh" "sp_tail sh' = sp_tail sh"
    "sp_head sh' = sp_head sh" "sp_disconnected sh'"
    using spsc_wake_consumer_frame [OF w] spsc_wake_producer_frame [OF w2] by simp_all
qed

lemma drop_tx_keeps:
  assumes inv: "conc_inv S CH CT c" and pc: "cc_tx_pc c = TIdle"
  shows "conc_inv S CH CT (drop_handle (\<lambda>c. c\<lparr>cc_tx_pc := TDead\<rparr>) c)"
proof -
  obtain sh tok where d: "spsc_sender_drop (cc_shared c) (cc_tokens c) = (sh, tok)" by fastforce
  have "written c = cc_published c" using pc by (simp add: written_def)
  with inv pc drop_shared_frame [OF d] show ?thesis
    by (simp add: drop_handle_def d conc_inv_defs spsc_geometry_def)
qed

lemma drop_rx_keeps:
  assumes inv: "conc_inv S CH CT c" and pc: "cc_rx_pc c = RIdle"
  shows "conc_inv S CH CT (drop_handle (\<lambda>c. c\<lparr>cc_rx_pc := RDead\<rparr>) c)"
proof -
  obtain sh tok where d: "spsc_sender_drop (cc_shared c) (cc_tokens c) = (sh, tok)" by fastforce
  with inv pc drop_shared_frame [OF d] show ?thesis
    by (simp add: drop_handle_def d conc_inv_defs spsc_geometry_def)
qed

lemma spsc_micro_keeps:
  assumes inv: "conc_inv S CH CT c" and step: "spsc_micro a c = Some r"
  shows "\<exists>c' S' CH' CT'. r = Inr c' \<and> conc_inv S' CH' CT' c'"
proof (cases a)
  case (TCall v)
  then have "r = Inr (c\<lparr>cc_tx_pc := TCheck v\<rparr>)" "cc_tx_pc c = TIdle" using step by (auto split: if_splits)
  moreover from this(2) inv have "conc_inv S CH CT (c\<lparr>cc_tx_pc := TCheck v\<rparr>)"
    by (simp add: conc_inv_defs written_def)
  ultimately show ?thesis by blast
next
  case TDrop
  with step drop_tx_keeps [OF inv] show ?thesis by (auto split: if_splits)
next
  case (TStep x b)
  with step tx_micro_keeps [OF inv, of x b r] show ?thesis by auto
next
  case RCall
  then have "r = Inr (c\<lparr>cc_rx_pc := RTest\<rparr>)" "cc_rx_pc c = RIdle" using step by (auto split: if_splits)
  moreover from this(2) inv have "conc_inv S CH CT (c\<lparr>cc_rx_pc := RTest\<rparr>)" by (simp add: conc_inv_defs)
  ultimately show ?thesis by blast
next
  case (RDrainCall mx)
  let ?c = "c\<lparr>cc_rx_pc := RLoop mx 0 (rx_head (cc_rx c))\<rparr>"
  have "r = Inr ?c" "cc_rx_pc c = RIdle" using RDrainCall step by (auto split: if_splits)
  moreover from this(2) inv have "conc_inv S CH CT ?c" by (simp add: conc_inv_defs)
  ultimately show ?thesis by blast
next
  case RDrop
  with step drop_rx_keeps [OF inv] show ?thesis by (auto split: if_splits)
next
  case (RStep x b p)
  with step rx_micro_keeps [OF inv, of x b p r] show ?thesis by auto
qed

lemma conc_init_inv:
  assumes "spsc_conc_init cap strategy = Inr c"
  shows "conc_inv 0 0 0 c" "sp_cap (cc_shared c) = cap" "is_power_of_two cap"
proof -
  show cap: "is_power_of_two cap" using assms by (auto simp: spsc_conc_init_def spsc_channel_def)
  with assms show "sp_cap (cc_shared c) = cap"
    by (auto simp: spsc_conc_init_def spsc_channel_def assert_cap_cases)
  have "conc_ring (replicate (unat cap) Uninit) [] []"
    using ring_ok_new [of "unat cap"] is_power_of_two_pos [OF cap] by (simp add: conc_ring_def)
  with assms cap show "conc_inv 0 0 0 c"
    by (auto simp: spsc_conc_init_def spsc_channel_def assert_cap_cases conc_inv_defs written_def spsc_geometry_def)
qed

lemma micro_keeps_cap:
  assumes "spsc_micro a c = Some (Inr c')"
  shows "sp_cap (cc_shared c') = sp_cap (cc_shared c)"
proof -
  have wake: "sp_cap (fst (spsc_wake_consumer sh tok)) = sp_cap sh" "sp_cap (fst (spsc_wake_producer sh tok)) = sp_cap sh"
    for sh :: "'a spsc_shared" and tok
    by (simp_all add: spsc_wake_consumer_def spsc_wake_producer_def case_prod_unfold Let_def)
  have drop: "sp_cap (fst (spsc_sender_drop sh tok)) = sp_cap sh" for sh :: "'a spsc_shared" and tok
    using wake by (simp add: spsc_sender_drop_def case_prod_unfold Let_def)
  show ?thesis
    using assms
    by (cases a) (auto simp: tx_micro_def rx_micro_def Let_def case_prod_unfold tx_return_def rx_return_def
        rx_load_tail_def rx_read_slot_def rx_wake_def drop_handle_def publish_guard_drop_def wake drop
        split: if_splits tx_pc.splits rx_pc.splits sum.splits)
qed

interpretation spsc_machine: safe_machine "\<lambda>c. spsc_conc_init cap strategy = Inr c" spsc_micro
    "\<lambda>c. (\<exists>S CH CT. conc_inv S CH CT c) \<and> sp_cap (cc_shared c) = cap" for cap strategy
proof unfold_locales
  fix c :: "'a spsc_conc"
  assume "spsc_conc_init cap strategy = Inr c"
  then show "(\<exists>S CH CT. conc_inv S CH CT c) \<and> sp_cap (cc_shared c) = cap" using conc_init_inv by blast
next
  fix c :: "'a spsc_conc" and a r
  assume inv: "(\<exists>S CH CT. conc_inv S CH CT c) \<and> sp_cap (cc_shared c) = cap" and step: "spsc_micro a c = Some r"
  then obtain c' where "r = Inr c'" "\<exists>S CH CT. conc_inv S CH CT c'" using spsc_micro_keeps by blast
  with inv step micro_keeps_cap [of a c c']
  show "\<exists>c'. r = Inr c' \<and> (\<exists>S CH CT. conc_inv S CH CT c') \<and> sp_cap (cc_shared c') = cap" by auto
qed

lemmas spsc_reachable_inv = spsc_machine.reachable_inv

lemma spsc_reachable_fifo:
  assumes "spsc_reachable cap strategy c"
  shows "\<exists>rest. cc_published c = cc_taken c @ rest \<and> length rest \<le> unat cap"
proof -
  obtain S CH CT where inv: "conc_inv S CH CT c" and cap: "sp_cap (cc_shared c) = cap"
    using spsc_reachable_inv [OF assms] by blast
  let ?h = "length (cc_taken c)" and ?t = "length (cc_published c)"
  have o: "?h \<le> ?t" "?t \<le> ?h + unat cap" using inv cap by (auto simp: conc_inv_defs written_def)
  have w: "cc_published c @ tx_inflight (cc_tx_pc c) = cc_taken c @
      ring_queue (sp_buf (cc_shared c)) ?h (length (written c) - ?h)"
    using inv by (simp add: conc_inv_def conc_ring_def written_def)
  have "take ?h (cc_published c) = cc_taken c"
    using arg_cong [OF w, of "take ?h"] o(1) by simp
  then have "cc_published c = cc_taken c @ drop ?h (cc_published c)" by (metis append_take_drop_id)
  moreover have "length (drop ?h (cc_published c)) \<le> unat cap" using o by simp
  ultimately show ?thesis by blast
qed

lemma spsc_reachable_gone:
  assumes "spsc_reachable cap strategy c" "RetRecv (Err RecvDisconnected) \<in> set (cc_rx_log c)"
  shows "cc_tx_pc c = TDead \<and> cc_taken c = cc_published c"
  using spsc_reachable_inv [OF assms(1)] assms(2) by (auto simp: conc_inv_def conc_disc_def)

section \<open>What every interleaving guarantees\<close>

abbreviation schedule_reaches ::
    "usize \<Rightarrow> wait_strategy \<Rightarrow> 'a conc_action list \<Rightarrow> ('a spsc_conc \<Rightarrow> bool) \<Rightarrow> bool" where
  "schedule_reaches cap strategy \<equiv> run_reaches (spsc_conc_init cap strategy) spsc_micro"

text \<open>
  C6: no interleaving of the two threads faults. In every reachable state, whatever an \<^verbatim>\<open>Acquire\<close>
  load returns (within coherence) and whatever a drain's closure does, the next step of either
  thread neither overwrites a live slot nor reads an uninitialised or already consumed one.
\<close>

theorem spsc_concurrent_no_fault:
  assumes "spsc_reachable cap strategy c" "spsc_micro a c = Some r"
  shows "\<exists>c'. r = Inr c' \<and> spsc_reachable cap strategy c'"
  using assms by (rule spsc_machine.no_fault)

theorem spsc_concurrent_no_fault_witness:
  "\<exists>c c'. spsc_reachable 2 BusySpin c \<and> cc_tx_pc c = TWrite (7 :: nat)
     \<and> spsc_micro (TStep 0 False) c = Some (Inr c') \<and> spsc_reachable 2 BusySpin c'"
proof -
  have "schedule_reaches 2 BusySpin [TCall 7, TStep 0 False, TStep 0 False]
      (\<lambda>c. cc_tx_pc c = TWrite (7 :: nat))"
    by code_simp
  then obtain c where c: "spsc_reachable 2 BusySpin c" "cc_tx_pc c = TWrite (7 :: nat)"
    using run_reachesD by blast
  then obtain r where "spsc_micro (TStep 0 False) c = Some r"
    by (simp add: tx_micro_def Let_def)
  with spsc_concurrent_no_fault [OF c(1) this] c show ?thesis by blast
qed

text \<open>
  C7: FIFO under interference. In every reachable state of every interleaving the values that the
  receiver took are a prefix of the values that the sender published, in the same order, each
  once, and at most \<open>cap\<close> values are published and not taken.
\<close>

theorem spsc_concurrent_fifo:
  assumes "spsc_reachable cap strategy c"
  shows "\<exists>rest. cc_published c = cc_taken c @ rest \<and> length rest \<le> unat cap"
  using assms by (rule spsc_reachable_fifo)

theorem spsc_concurrent_fifo_witness:
  "\<exists>c rest. spsc_reachable 2 BusySpin c \<and> cc_taken c = [7 :: nat] \<and> cc_published c = cc_taken c @ rest"
proof -
  have "schedule_reaches 2 BusySpin
      [TCall 7, TStep 0 False, TStep 0 False, TStep 0 False, TStep 0 False,
       TCall 8, RCall, TStep 0 False, RStep 1 False False, TStep 0 False, RStep 0 False False]
      (\<lambda>c. cc_taken c = [7 :: nat])"
    by code_simp
  then obtain c where c: "spsc_reachable 2 BusySpin c" "cc_taken c = [7 :: nat]"
    using run_reachesD by blast
  from spsc_concurrent_fifo [OF c(1)] c show ?thesis by blast
qed

text \<open>
  No data race. Whenever the sender is about to write a slot and the receiver is about to read
  one, in the middle of \<^verbatim>\<open>try_recv\<close> or of \<^verbatim>\<open>drain\<close>, the two slots are different.
\<close>

theorem spsc_no_data_race:
  assumes "spsc_reachable cap strategy c" "cc_tx_pc c = TWrite v"
    and "cc_rx_pc c = RRead \<or> (\<exists>mx count start. cc_rx_pc c = RTake mx count start)"
  shows "tx_tail (cc_tx c) AND sp_mask (cc_shared c) \<noteq> rx_head (cc_rx c) AND sp_mask (cc_shared c)"
proof -
  obtain S CH CT where inv: "conc_inv S CH CT c" using spsc_reachable_inv [OF assms(1)] by blast
  let ?h = "length (cc_taken c)" and ?t = "length (cc_published c)" and ?n = "length (sp_buf (cc_shared c))"
  have o: "?h < ?t" "?t - ?h < ?n"
    and t: "tx_tail (cc_tx c) = of_nat ?t" "rx_head (cc_rx c) = of_nat ?h"
    using inv assms(2,3) conc_cap(3) [OF inv] by (auto simp: conc_inv_defs written_def)
  have "(?h + (?t - ?h)) mod ?n \<noteq> (?h + 0) mod ?n"
    using o by (intro ring_slot_neq) auto
  then have "?t mod ?n \<noteq> ?h mod ?n" using o by simp
  then have "unat (of_nat ?t AND sp_mask (cc_shared c)) \<noteq> unat (of_nat ?h AND sp_mask (cc_shared c))"
    by (simp only: conc_index [OF inv] not_False_eq_True)
  then show ?thesis unfolding t by metis
qed

theorem spsc_no_data_race_witness:
  "\<exists>c. spsc_reachable 2 Park c \<and> cc_tx_pc c = TWrite (8 :: nat) \<and> cc_rx_pc c = RRead
     \<and> tx_tail (cc_tx c) AND sp_mask (cc_shared c) \<noteq> rx_head (cc_rx c) AND sp_mask (cc_shared c)"
proof -
  have "schedule_reaches 2 Park
      [TCall 7, TStep 0 False, TStep 0 False, TStep 0 False, TStep 0 False, TStep 0 False,
       RCall, TCall 8, RStep 1 False False, TStep 0 False, TStep 0 False]
      (\<lambda>c. cc_tx_pc c = TWrite (8 :: nat) \<and> cc_rx_pc c = RRead)"
    by code_simp
  then obtain c where c: "spsc_reachable 2 Park c" "cc_tx_pc c = TWrite (8 :: nat)" "cc_rx_pc c = RRead"
    using run_reachesD by blast
  from spsc_no_data_race [OF c(1,2)] c show ?thesis by blast
qed

text \<open>
  C8: \<^verbatim>\<open>Disconnected\<close> is never early. If some \<^verbatim>\<open>try_recv\<close> has returned \<^verbatim>\<open>Disconnected\<close>, then the sender
  is gone and the receiver has taken every value that was ever published, although the sender
  may have published its last values and dropped its handle between the receiver's loads.
\<close>

theorem spsc_disconnected_is_final:
  assumes "spsc_reachable cap strategy c" "RetRecv (Err RecvDisconnected) \<in> set (cc_rx_log c)"
  shows "cc_tx_pc c = TDead \<and> cc_taken c = cc_published c"
  using assms by (rule spsc_reachable_gone)

theorem spsc_disconnected_is_final_witness:
  "\<exists>c. spsc_reachable 2 BusySpin c \<and> cc_published c = [7 :: nat] \<and> cc_tx_pc c = TDead \<and> cc_taken c = cc_published c"
proof -
  have "schedule_reaches 2 BusySpin
      [RCall, RStep 0 False False, TCall 7, TStep 0 False, TStep 0 False, TStep 0 False, TStep 0 False, TDrop,
       RStep 0 True False, RStep 0 False False, RStep 0 False False, RStep 0 False False,
       RCall, RStep 1 False False, RStep 0 True False, RStep 0 False False]
      (\<lambda>c. cc_published c = [7 :: nat] \<and> RetRecv (Err RecvDisconnected) \<in> set (cc_rx_log c))"
    by code_simp
  then obtain c where c: "spsc_reachable 2 BusySpin c" "cc_published c = [7 :: nat]"
    "RetRecv (Err RecvDisconnected) \<in> set (cc_rx_log c)"
    using run_reachesD by blast
  from spsc_disconnected_is_final [OF c(1,3)] c show ?thesis by blast
qed

section \<open>Uninterrupted runs are the sequential methods\<close>

text \<open>
  The machine is the code. If the sender's thread runs alone from the start of a call, with
  loads that return the current values, the steps end with exactly the result and the state of
  the sequential \<open>spsc_try_send\<close>, and at most five steps are needed.
\<close>

theorem spsc_micro_try_send:
  assumes "spsc_reachable cap strategy c" "cc_tx_pc c = TIdle"
  shows "\<exists>k c' r. k \<le> 5 \<and>
     spsc_schedule (TCall v # replicate k (TStep (sp_head (cc_shared c)) (sp_disconnected (cc_shared c)))) c
       = Some (Inr c')
     \<and> spsc_try_send v (cc_shared c) (cc_tx c) (cc_tokens c) = Inr (r, cc_shared c', cc_tx c', cc_tokens c')
     \<and> cc_tx_pc c' = TIdle \<and> cc_tx_log c' = cc_tx_log c @ [r]"
proof -
  obtain S CH CT where inv: "conc_inv S CH CT c" using spsc_reachable_inv [OF assms(1)] by blast
  let ?sh = "cc_shared c" and ?tx = "cc_tx c" and ?d = "sp_disconnected (cc_shared c)"
  let ?run = "\<lambda>k. spsc_schedule (TCall v # replicate k (TStep (sp_head ?sh) ?d)) c"
  define tx1 where "tx1 = (if tx_tail ?tx - tx_cached_head ?tx = sp_cap ?sh
                   then ?tx\<lparr>tx_cached_head := sp_head ?sh\<rparr> else ?tx)"
  have fresh: "seen x y y" for x y by (simp add: seen_def)
  have steps: "replicate 2 a = [a, a]" "replicate 4 a = [a, a, a, a]" "replicate 5 a = [a, a, a, a, a]"
    for a :: "'a conc_action" by (simp_all add: eval_nat_numeral)
  consider (disc) ?d | (full) "\<not> ?d" "tx_tail tx1 - tx_cached_head tx1 = sp_cap ?sh"
    | (space) "\<not> ?d" "tx_tail tx1 - tx_cached_head tx1 \<noteq> sp_cap ?sh" by blast
  then show ?thesis
  proof cases
    case disc
    then have "?run 1 = Some (Inr (tx_return (Err (SendDisconnected v)) (c\<lparr>cc_tx_pc := TCheck v\<rparr>)))"
      using assms(2) by (simp add: tx_micro_def)
    with disc show ?thesis
      by (intro exI [of _ 1]) (simp add: spsc_try_send_def tx_return_def)
  next
    case full
    then have f: "tx_tail ?tx - tx_cached_head ?tx = sp_cap ?sh"
      by (simp add: tx1_def split: if_splits)
    with full have "?run 2 = Some (Inr (tx_return (Err (Full v)) (c\<lparr>cc_tx := tx1, cc_tx_pc := TTest v\<rparr>)))"
      using assms(2) by (simp add: steps tx_micro_def Let_def fresh tx1_def tx_return_def)
    with full show ?thesis
      by (intro exI [of _ 2]) (simp add: spsc_try_send_def tx_return_def Let_def flip: tx1_def)
  next
    case space
    have w: "?run 2 = Some (Inr (c\<lparr>cc_tx := tx1, cc_tx_pc := TWrite v\<rparr>))"
      using space assms(2) by (auto simp: steps tx_micro_def Let_def fresh tx1_def)
    let ?c1 = "c\<lparr>cc_tx := tx1, cc_tx_pc := TWrite v\<rparr>"
    let ?step = "TStep (sp_head ?sh) ?d"
    have "spsc_reachable cap strategy ?c1" using run_steps_reachable [OF w assms(1)] .
    then obtain S' CH' CT' where inv1: "conc_inv S' CH' CT' ?c1" using spsc_reachable_inv by blast
    obtain r1 where r1: "tx_micro (sp_head ?sh) ?d ?c1 = Some r1" by (simp add: tx_micro_def Let_def)
    from tx_micro_keeps [OF inv1 r1] r1 obtain buf where
      buf: "slot_write v (tx_tail tx1 AND sp_mask ?sh) (sp_buf ?sh) = Inr buf"
      by (auto simp: tx_micro_def Let_def split: sum.splits)
    let ?sh1 = "?sh\<lparr>sp_buf := buf, sp_tail := tx_tail tx1 + 1\<rparr>" and ?tx2 = "tx1\<lparr>tx_tail := tx_tail tx1 + 1\<rparr>"
    let ?c2 = "c\<lparr>cc_shared := ?sh1, cc_tx := ?tx2, cc_published := cc_published c @ [v]\<rparr>"
    have publish: "spsc_schedule [?step, ?step] ?c1
        = Some (Inr (if sp_strategy ?sh = Park then ?c2\<lparr>cc_tx_pc := TWake\<rparr> else tx_return (Ok ()) ?c2))"
      using buf by (simp add: tx_micro_def Let_def tx_return_def)
    have four: "?run 4 = Some (Inr (if sp_strategy ?sh = Park then ?c2\<lparr>cc_tx_pc := TWake\<rparr> else tx_return (Ok ()) ?c2))"
      using run_steps_append [of spsc_micro "TCall v # replicate 2 ?step" "[?step, ?step]" c] w publish
      by (simp add: steps del: run_steps.simps)
    show ?thesis
    proof (cases "sp_strategy ?sh = Park")
      case False
      with four buf space show ?thesis
        by (intro exI [of _ 4]) (simp add: spsc_try_send_def tx_return_def Let_def flip: tx1_def)
    next
      case True
      obtain sh' tok where wk: "spsc_wake_consumer ?sh1 (cc_tokens c) = (sh', tok)" by fastforce
      have "?run 5 = Some (Inr (tx_return (Ok ()) (?c2\<lparr>cc_tx_pc := TWake, cc_shared := sh', cc_tokens := tok\<rparr>)))"
        using run_steps_append [of spsc_micro "TCall v # replicate 4 ?step" "[?step]" c] four True wk
        by (simp add: steps tx_micro_def del: run_steps.simps(2)) (simp add: tx_micro_def)
      with True wk buf space show ?thesis
        by (intro exI [of _ 5]) (simp add: spsc_try_send_def tx_return_def Let_def flip: tx1_def)
    qed
  qed
qed

theorem spsc_micro_try_send_witness:
  "\<exists>c k c' r. spsc_reachable 2 Park c \<and>
     spsc_schedule (TCall (7 :: nat) # replicate k (TStep (sp_head (cc_shared c)) (sp_disconnected (cc_shared c)))) c
       = Some (Inr c') \<and> cc_tx_log c' = cc_tx_log c @ [r]"
proof -
  have "schedule_reaches 2 Park [RCall] (\<lambda>c :: nat spsc_conc. cc_tx_pc c = TIdle)" by code_simp
  then obtain c :: "nat spsc_conc" where c: "spsc_reachable 2 Park c" "cc_tx_pc c = TIdle"
    using run_reachesD by blast
  from spsc_micro_try_send [OF c, of 7] c(1) show ?thesis by blast
qed

text \<open>
  The same for \<^verbatim>\<open>try_recv\<close>: run alone with current loads, the receiver's steps are the
  sequential \<open>spsc_try_recv\<close>.
\<close>

theorem spsc_micro_try_recv:
  assumes "spsc_reachable cap strategy c" "cc_rx_pc c = RIdle"
  shows "\<exists>k c' r. k \<le> 4 \<and>
     spsc_schedule (RCall # replicate k (RStep (sp_tail (cc_shared c)) (sp_disconnected (cc_shared c)) False)) c
       = Some (Inr c')
     \<and> spsc_try_recv (cc_shared c) (cc_rx c) (cc_tokens c) = Inr (r, cc_shared c', cc_rx c', cc_tokens c')
     \<and> cc_rx_pc c' = RIdle \<and> cc_rx_log c' = cc_rx_log c @ [RetRecv r]"
proof -
  let ?sh = "cc_shared c" and ?rx = "cc_rx c" and ?d = "sp_disconnected (cc_shared c)"
  let ?step = "RStep (sp_tail ?sh) ?d False"
  let ?run = "\<lambda>k. spsc_schedule (RCall # replicate k ?step) c"
  define rx1 where "rx1 = spsc_refresh_tail ?sh ?rx"
  have fresh: "seen x y y" for x y by (simp add: seen_def)
  have steps: "replicate 2 a = [a, a]" "replicate 3 a = [a, a, a]" "replicate 4 a = [a, a, a, a]"
    for a :: "'a conc_action" by (simp_all add: eval_nat_numeral)
  show ?thesis
  proof (cases "rx_head rx1 = rx_cached_tail rx1")
    case True
    then have e: "rx_head ?rx = rx_cached_tail ?rx" "sp_tail ?sh = rx_head ?rx"
      by (auto simp: rx1_def spsc_refresh_tail_def split: if_splits)
    have disc: "?run 1 = Some (Inr (c\<lparr>cc_rx := rx1, cc_rx_pc := RDisc\<rparr>))"
      using assms(2) e by (simp add: rx_micro_def rx_load_tail_def Let_def fresh rx1_def spsc_refresh_tail_def)
    show ?thesis
    proof (cases ?d)
      case False
      then have "?run 2 = Some (Inr (rx_return (RetRecv (Err Empty)) (c\<lparr>cc_rx := rx1\<rparr>)))"
        using disc run_steps_append [of spsc_micro "RCall # replicate 1 ?step" "[?step]" c]
        by (simp add: steps rx_micro_def rx_return_def del: run_steps.simps(2)) (simp add: rx_micro_def rx_return_def)
      with False e show ?thesis
        by (intro exI [of _ 2]) (simp add: spsc_try_recv_def rx_return_def rx1_def spsc_refresh_tail_def)
    next
      case True
      then have "?run 3 = Some (Inr (rx_return (RetRecv (Err RecvDisconnected)) (c\<lparr>cc_rx := rx1\<rparr>)))"
        using disc e run_steps_append [of spsc_micro "RCall # replicate 1 ?step" "[?step, ?step]" c]
        by (simp add: steps del: run_steps.simps(2))
          (simp add: rx_micro_def rx_return_def rx1_def spsc_refresh_tail_def)
      with True e show ?thesis
        by (intro exI [of _ 3]) (simp add: spsc_try_recv_def rx_return_def rx1_def spsc_refresh_tail_def)
    qed
  next
    case False
    then have seq: "spsc_try_recv ?sh ?rx (cc_tokens c) = spsc_pop_with ?sh (cc_tokens c) rx1"
      by (auto simp: spsc_try_recv_def rx1_def spsc_refresh_tail_def split: if_splits)
    let ?c1 = "c\<lparr>cc_rx := rx1, cc_rx_pc := RRead\<rparr>"
    have read: "?run 1 = Some (Inr ?c1)"
      using assms(2) False
      by (auto simp: rx_micro_def rx_load_tail_def Let_def fresh rx1_def spsc_refresh_tail_def split: if_splits)
    have "spsc_reachable cap strategy ?c1" using run_steps_reachable [OF read assms(1)] .
    then obtain S CH CT where inv1: "conc_inv S CH CT ?c1" using spsc_reachable_inv by blast
    obtain r1 where r1: "rx_micro (sp_tail ?sh) ?d False ?c1 = Some r1"
      by (simp add: rx_micro_def rx_read_slot_def Let_def)
    from rx_micro_keeps [OF inv1 r1] r1 obtain v buf where
      buf: "slot_read (rx_head rx1 AND sp_mask ?sh) (sp_buf ?sh) = Inr (v, buf)"
      by (auto simp: rx_micro_def rx_read_slot_def Let_def split: sum.splits)
    let ?sh1 = "?sh\<lparr>sp_buf := buf, sp_head := rx_head rx1 + 1\<rparr>" and ?rx2 = "rx1\<lparr>rx_head := rx_head rx1 + 1\<rparr>"
    let ?c2 = "c\<lparr>cc_shared := ?sh1, cc_rx := ?rx2, cc_taken := cc_taken c @ [v]\<rparr>"
    have "spsc_schedule [?step, ?step] ?c1
        = Some (Inr (if sp_strategy ?sh = Park then ?c2\<lparr>cc_rx_pc := RWake v\<rparr> else rx_return (RetRecv (Ok v)) ?c2))"
      using buf by (simp add: rx_micro_def rx_read_slot_def Let_def rx_return_def)
    then have three: "?run 3
        = Some (Inr (if sp_strategy ?sh = Park then ?c2\<lparr>cc_rx_pc := RWake v\<rparr> else rx_return (RetRecv (Ok v)) ?c2))"
      using run_steps_append [of spsc_micro "RCall # replicate 1 ?step" "[?step, ?step]" c] read
      by (simp add: steps del: run_steps.simps)
    show ?thesis
    proof (cases "sp_strategy ?sh = Park")
      case False
      with three buf show ?thesis
        by (intro exI [of _ 3]) (simp add: seq spsc_pop_with_def rx_return_def Let_def)
    next
      case True
      obtain sh' tok where wk: "spsc_wake_producer ?sh1 (cc_tokens c) = (sh', tok)" by fastforce
      have "?run 4 = Some (Inr (rx_return (RetRecv (Ok v)) (?c2\<lparr>cc_rx_pc := RWake v, cc_shared := sh', cc_tokens := tok\<rparr>)))"
        using run_steps_append [of spsc_micro "RCall # replicate 3 ?step" "[?step]" c] three True wk
        by (simp add: steps del: run_steps.simps(2)) (simp add: rx_micro_def rx_wake_def)
      with True wk buf show ?thesis
        by (intro exI [of _ 4]) (simp add: seq spsc_pop_with_def rx_return_def Let_def)
    qed
  qed
qed

theorem spsc_micro_try_recv_witness:
  "\<exists>c k c' r. spsc_reachable 2 Park c \<and>
     spsc_schedule (RCall # replicate k (RStep (sp_tail (cc_shared c)) (sp_disconnected (cc_shared c)) False)) c
       = Some (Inr c') \<and> cc_rx_log c' = cc_rx_log c @ [RetRecv (r :: (nat, try_recv_error) rust_result)]"
proof -
  have "schedule_reaches 2 Park [TCall 3] (\<lambda>c :: nat spsc_conc. cc_rx_pc c = RIdle)" by code_simp
  then obtain c :: "nat spsc_conc" where c: "spsc_reachable 2 Park c" "cc_rx_pc c = RIdle"
    using run_reachesD by blast
  from spsc_micro_try_recv [OF c] c(1) show ?thesis by blast
qed

end
