(* ===== verification/Mpsc_Concurrent.thy ===== *)
theory Mpsc_Concurrent
  imports Mpsc Step_Machine
begin

text \<open>
  The MPSC ring under interference: any number of producers run \<^verbatim>\<open>try_send\<close>, \<^verbatim>\<open>clone\<close> and their drops
  while the consumer runs \<^verbatim>\<open>try_recv\<close>, \<^verbatim>\<open>drain\<close> and its drop, one shared access per step, in every
  interleaving. Loads are weak: a load of the claim counter or of the head may return an old
  value, a load of a round, of the sender count or of \<^verbatim>\<open>rx_dropped\<close> may miss the last stores, and an exchange
  may fail spuriously. (By the release/acquire rule, the round that is read after the
  sender count was seen to be zero is current.) Between its exchange and its publish a producer owns
  a claimed sequence number; the consumer must stop at such a hole. The back-off between
  two exchanges only spends time and is left out.
\<close>

section \<open>The machine\<close>

datatype 'a ptx_pc =
    PIdle
  | PCheck 'a
  | PLoad 'a
  | PTest 'a usize
  | PCas 'a usize
  | PWrite 'a usize
  | PPublish 'a usize
  | PWake
  | PDead

datatype 'a mrx_pc =
    MIdle
  | MTest
  | MSenders
  | MReload
  | MRead
  | MPublish 'a
  | MWake 'a
  | MLoop usize usize usize
  | MTake usize usize usize
  | MGuard bool usize usize
  | MDrainWake usize
  | MDead

datatype 'a mrx_result = MRetRecv "('a, try_recv_error) rust_result" | MRetDrain drain_exit

record 'a producer =
  pr_tx :: mpsc_sender
  pr_pc :: "'a ptx_pc"
  pr_log :: "(unit, 'a try_send_error) rust_result list"

text \<open>
  \<open>mk_claimed\<close> is the history of the claims (the value of sequence number \<open>q\<close> is its \<open>q\<close>-th entry),
  \<open>mk_taken\<close> that of the values moved out of the ring.
\<close>

record 'a mpsc_conc =
  mk_shared :: "'a mpsc_shared"
  mk_txs :: "'a producer list"
  mk_rx :: mpsc_receiver
  mk_rx_pc :: "'a mrx_pc"
  mk_tokens :: tokens
  mk_claimed :: "'a list"
  mk_taken :: "'a list"
  mk_rx_log :: "'a mrx_result list"

definition mpsc_conc_init :: "usize \<Rightarrow> wait_strategy \<Rightarrow> 'a mpsc_conc outcome" where
  "mpsc_conc_init cap strategy =
     obind (mpsc_channel cap strategy) (\<lambda>(sh, tx, rx).
       Inr \<lparr>mk_shared = sh, mk_txs = [\<lparr>pr_tx = tx, pr_pc = PIdle, pr_log = []\<rparr>], mk_rx = rx,
            mk_rx_pc = MIdle, mk_tokens = {}, mk_claimed = [], mk_taken = [], mk_rx_log = []\<rparr>)"

section \<open>A producer's steps\<close>

definition set_producer :: "nat \<Rightarrow> 'a producer \<Rightarrow> 'a mpsc_conc \<Rightarrow> 'a mpsc_conc" where
  "set_producer i pr c = c\<lparr>mk_txs := (mk_txs c)[i := pr]\<rparr>"

definition ptx_return :: "nat \<Rightarrow> (unit, 'a try_send_error) rust_result \<Rightarrow> 'a producer \<Rightarrow> 'a mpsc_conc \<Rightarrow> 'a mpsc_conc" where
  "ptx_return i r pr c = set_producer i (pr\<lparr>pr_pc := PIdle, pr_log := pr_log pr @ [r]\<rparr>) c"

text \<open>\<open>x\<close> is what a load of a counter returns; \<open>b\<close> is a loaded flag, or a spurious failure.\<close>

definition ptx_micro :: "nat \<Rightarrow> usize \<Rightarrow> bool \<Rightarrow> 'a mpsc_conc \<Rightarrow> 'a mpsc_conc outcome option" where
  "ptx_micro i x b c =
     (let sh = mk_shared c; pr = mk_txs c ! i; tx = pr_tx pr
      in case pr_pc pr of
           PIdle \<Rightarrow> None
         | PCheck v \<Rightarrow>
             (if b \<and> \<not> mp_rx_dropped sh then None
              else if b then Some (Inr (ptx_return i (Err (SendDisconnected v)) pr c))
              else Some (Inr (set_producer i (pr\<lparr>pr_pc := PLoad v\<rparr>) c)))
         | PLoad v \<Rightarrow>
             (if x \<le> mp_claim sh then Some (Inr (set_producer i (pr\<lparr>pr_pc := PTest v x\<rparr>) c)) else None)
         | PTest v seq \<Rightarrow>
             (if seq \<ge> saturating_add (mtx_cached_head tx) (mp_cap sh) then
                (if mtx_cached_head tx \<le> x \<and> x \<le> mp_head sh then
                   let pr1 = pr\<lparr>pr_tx := tx\<lparr>mtx_cached_head := x\<rparr>\<rparr>
                   in Some (Inr (if seq \<ge> saturating_add x (mp_cap sh) then ptx_return i (Err (Full v)) pr1 c
                                 else set_producer i (pr1\<lparr>pr_pc := PCas v seq\<rparr>) c))
                 else None)
              else Some (Inr (set_producer i (pr\<lparr>pr_pc := PCas v seq\<rparr>) c)))
         | PCas v seq \<Rightarrow>
             (if mp_claim sh = seq \<and> \<not> b then
                Some (Inr (set_producer i (pr\<lparr>pr_pc := PWrite v seq\<rparr>)
                  (c\<lparr>mk_shared := sh\<lparr>mp_claim := seq + 1\<rparr>, mk_claimed := mk_claimed c @ [v]\<rparr>)))
              else if x \<le> mp_claim sh then Some (Inr (set_producer i (pr\<lparr>pr_pc := PTest v x\<rparr>) c))
              else None)
         | PWrite v seq \<Rightarrow>
             Some (case slot_value_with (\<lambda>cl. obind (cell_write v cl) (\<lambda>cl'. Inr ((), cl')))
                          (seq AND mp_mask sh) (mp_slots sh) of
                     Inl e \<Rightarrow> Inl e
                   | Inr (_, slots) \<Rightarrow> Inr (set_producer i (pr\<lparr>pr_pc := PPublish v seq\<rparr>)
                       (c\<lparr>mk_shared := sh\<lparr>mp_slots := slots\<rparr>\<rparr>)))
         | PPublish v seq \<Rightarrow>
             Some (case slot_round_store (round_of sh seq) (seq AND mp_mask sh) (mp_slots sh) of
                     Inl e \<Rightarrow> Inl e
                   | Inr slots \<Rightarrow>
                       let c1 = c\<lparr>mk_shared := sh\<lparr>mp_slots := slots\<rparr>\<rparr>
                       in Inr (if mp_strategy sh = Park then set_producer i (pr\<lparr>pr_pc := PWake\<rparr>) c1
                               else ptx_return i (Ok ()) pr c1))
         | PWake \<Rightarrow>
             (let (sh', tok) = mpsc_wake_consumer sh (mk_tokens c)
              in Some (Inr (ptx_return i (Ok ()) pr (c\<lparr>mk_shared := sh', mk_tokens := tok\<rparr>))))
         | PDead \<Rightarrow> None)"

section \<open>The consumer's steps\<close>

definition mrx_return :: "'a mrx_result \<Rightarrow> 'a mpsc_conc \<Rightarrow> 'a mpsc_conc" where
  "mrx_return r c = c\<lparr>mk_rx_pc := MIdle, mk_rx_log := mk_rx_log c @ [r]\<rparr>"

text \<open>A load of the head slot's round: \<open>b\<close> says whether it is seen published.\<close>

definition mrx_load_round :: "bool \<Rightarrow> 'a mrx_pc \<Rightarrow> 'a mrx_pc \<Rightarrow> 'a mpsc_conc \<Rightarrow> 'a mpsc_conc outcome option" where
  "mrx_load_round b none_pc some_pc c =
     (case slot_published (mk_shared c) (mrx_head (mk_rx c)) of
        Inl e \<Rightarrow> Some (Inl e)
      | Inr published \<Rightarrow>
          (if b \<and> \<not> published then None
           else Some (Inr (c\<lparr>mk_rx_pc := (if b then some_pc else none_pc)\<rparr>))))"

definition mrx_read_slot :: "('a \<Rightarrow> 'a mrx_pc) \<Rightarrow> 'a mpsc_conc \<Rightarrow> 'a mpsc_conc outcome option" where
  "mrx_read_slot nxt c =
     (let sh = mk_shared c; rx = mk_rx c
      in Some (case slot_value_with assume_init_read (mrx_head rx AND mp_mask sh) (mp_slots sh) of
                 Inl e \<Rightarrow> Inl e
               | Inr (v, slots) \<Rightarrow> Inr (c\<lparr>mk_shared := sh\<lparr>mp_slots := slots\<rparr>,
                                          mk_rx := rx\<lparr>mrx_head := mrx_head rx + 1\<rparr>,
                                          mk_rx_pc := nxt v, mk_taken := mk_taken c @ [v]\<rparr>)))"

definition mrx_wake :: "'a mrx_result \<Rightarrow> 'a mpsc_conc \<Rightarrow> 'a mpsc_conc" where
  "mrx_wake r c =
     (let (sh', tok) = mpsc_wake_producers (mk_shared c) (mk_tokens c)
      in mrx_return r (c\<lparr>mk_shared := sh', mk_tokens := tok\<rparr>))"

definition mrx_micro :: "bool \<Rightarrow> bool \<Rightarrow> 'a mpsc_conc \<Rightarrow> 'a mpsc_conc outcome option" where
  "mrx_micro b p c =
     (let sh = mk_shared c; rx = mk_rx c
      in case mk_rx_pc c of
           MIdle \<Rightarrow> None
         | MTest \<Rightarrow> mrx_load_round b MSenders MRead c
         | MSenders \<Rightarrow>
             (if b \<and> mp_senders sh \<noteq> 0 then None
              else if b then Some (Inr (c\<lparr>mk_rx_pc := MReload\<rparr>))
              else Some (Inr (mrx_return (MRetRecv (Err Empty)) c)))
         | MReload \<Rightarrow>
             (case slot_published sh (mrx_head rx) of
                Inl e \<Rightarrow> Some (Inl e)
              | Inr published \<Rightarrow>
                  Some (Inr (if published then c\<lparr>mk_rx_pc := MRead\<rparr>
                             else mrx_return (MRetRecv (Err RecvDisconnected)) c)))
         | MRead \<Rightarrow> mrx_read_slot MPublish c
         | MPublish v \<Rightarrow>
             Some (Inr (c\<lparr>mk_shared := sh\<lparr>mp_head := mrx_head rx\<rparr>, mk_rx_pc := MWake v\<rparr>))
         | MWake v \<Rightarrow> Some (Inr (mrx_wake (MRetRecv (Ok v)) c))
         | MLoop mx count start \<Rightarrow>
             (if count < mx then mrx_load_round b (MGuard False count start) (MTake mx count start) c
              else Some (Inr (c\<lparr>mk_rx_pc := MGuard False count start\<rparr>)))
         | MTake mx count start \<Rightarrow>
             mrx_read_slot (\<lambda>_. if p then MGuard True (count + 1) start else MLoop mx (count + 1) start) c
         | MGuard panicked count start \<Rightarrow>
             (let c1 = c\<lparr>mk_shared := mpsc_publish_guard_drop start (mrx_head rx) sh\<rparr>
              in Some (Inr (if panicked then mrx_return (MRetDrain Unwound) c1
                            else if count > 0 then c1\<lparr>mk_rx_pc := MDrainWake count\<rparr>
                            else mrx_return (MRetDrain (Returned count)) c1)))
         | MDrainWake count \<Rightarrow> Some (Inr (mrx_wake (MRetDrain (Returned count)) c))
         | MDead \<Rightarrow> None)"

section \<open>All steps\<close>

text \<open>
  A producer clones and drops its handle between calls. (There are fewer than \<open>2\<^sup>6\<^sup>4\<close> handles in
  any run: each is an object in memory.)
\<close>

datatype 'a mconc_action =
    PCall nat 'a
  | PClone nat
  | PDrop nat
  | PStep nat usize bool
  | MCall
  | MDrainCall usize
  | MDrop
  | MStep bool bool

definition producer_idle :: "nat \<Rightarrow> 'a mpsc_conc \<Rightarrow> bool" where
  "producer_idle i c \<longleftrightarrow> i < length (mk_txs c) \<and> pr_pc (mk_txs c ! i) = PIdle"

fun mpsc_micro :: "'a mconc_action \<Rightarrow> 'a mpsc_conc \<Rightarrow> 'a mpsc_conc outcome option" where
  "mpsc_micro (PCall i v) c =
     (if producer_idle i c then Some (Inr (set_producer i ((mk_txs c ! i)\<lparr>pr_pc := PCheck v\<rparr>) c)) else None)"
| "mpsc_micro (PClone i) c =
     (if producer_idle i c \<and> int (length (mk_txs c)) < 2 ^ 64 - 1 then
        (let (sh, tx) = mpsc_sender_clone (mk_shared c) (pr_tx (mk_txs c ! i))
         in Some (Inr (c\<lparr>mk_shared := sh, mk_txs := mk_txs c @ [\<lparr>pr_tx = tx, pr_pc = PIdle, pr_log = []\<rparr>]\<rparr>)))
      else None)"
| "mpsc_micro (PDrop i) c =
     (if producer_idle i c then
        (let (sh, tok) = mpsc_sender_drop (mk_shared c) (mk_tokens c)
         in Some (Inr (set_producer i ((mk_txs c ! i)\<lparr>pr_pc := PDead\<rparr>) (c\<lparr>mk_shared := sh, mk_tokens := tok\<rparr>))))
      else None)"
| "mpsc_micro (PStep i x b) c = (if i < length (mk_txs c) then ptx_micro i x b c else None)"
| "mpsc_micro MCall c = (if mk_rx_pc c = MIdle then Some (Inr (c\<lparr>mk_rx_pc := MTest\<rparr>)) else None)"
| "mpsc_micro (MDrainCall mx) c =
     (if mk_rx_pc c = MIdle then Some (Inr (c\<lparr>mk_rx_pc := MLoop mx 0 (mrx_head (mk_rx c))\<rparr>)) else None)"
| "mpsc_micro MDrop c =
     (if mk_rx_pc c = MIdle then
        (let (sh, tok) = mpsc_receiver_drop (mk_shared c) (mk_tokens c)
         in Some (Inr (c\<lparr>mk_shared := sh, mk_tokens := tok, mk_rx_pc := MDead\<rparr>)))
      else None)"
| "mpsc_micro (MStep b p) c = mrx_micro b p c"

abbreviation mpsc_reachable :: "usize \<Rightarrow> wait_strategy \<Rightarrow> 'a mpsc_conc \<Rightarrow> bool" where
  "mpsc_reachable cap strategy \<equiv> reachable_by (\<lambda>c. mpsc_conc_init cap strategy = Inr c) mpsc_micro"

abbreviation mpsc_schedule_reaches ::
    "usize \<Rightarrow> wait_strategy \<Rightarrow> 'a mconc_action list \<Rightarrow> ('a mpsc_conc \<Rightarrow> bool) \<Rightarrow> bool" where
  "mpsc_schedule_reaches cap strategy \<equiv> run_reaches (mpsc_conc_init cap strategy) mpsc_micro"

section \<open>Who owns which sequence number\<close>

fun own_writing :: "'a ptx_pc \<Rightarrow> nat option" where
  "own_writing (PWrite v seq) = Some (unat seq)"
| "own_writing _ = None"

fun own_pending :: "'a ptx_pc \<Rightarrow> nat option" where
  "own_pending (PWrite v seq) = Some (unat seq)"
| "own_pending (PPublish v seq) = Some (unat seq)"
| "own_pending _ = None"

definition owned :: "('a ptx_pc \<Rightarrow> nat option) \<Rightarrow> 'a producer list \<Rightarrow> nat set" where
  "owned f txs = {q. \<exists>i < length txs. f (pr_pc (txs ! i)) = Some q}"

definition distinct_owners :: "'a producer list \<Rightarrow> bool" where
  "distinct_owners txs \<longleftrightarrow>
     (\<forall>i < length txs. \<forall>j < length txs. \<forall>q.
        own_pending (pr_pc (txs ! i)) = Some q \<longrightarrow> own_pending (pr_pc (txs ! j)) = Some q \<longrightarrow> i = j)"

lemma writing_pending: "own_writing pc = Some q \<Longrightarrow> own_pending pc = Some q"
  by (cases pc) simp_all

lemma owned_writing_pending: "owned own_writing txs \<subseteq> owned own_pending txs"
  by (auto simp: owned_def dest: writing_pending)

lemma owned_update:
  assumes "i < length txs"
  shows "q \<in> owned f (txs[i := pr]) \<longleftrightarrow>
     f (pr_pc pr) = Some q \<or> (\<exists>j < length txs. j \<noteq> i \<and> f (pr_pc (txs ! j)) = Some q)"
  using assms unfolding owned_def mem_Collect_eq length_list_update
  by (metis nth_list_update_eq nth_list_update_neq)

lemma owned_split:
  assumes "i < length txs"
  shows "q \<in> owned f txs \<longleftrightarrow>
     f (pr_pc (txs ! i)) = Some q \<or> (\<exists>j < length txs. j \<noteq> i \<and> f (pr_pc (txs ! j)) = Some q)"
  using assms unfolding owned_def mem_Collect_eq by blast

lemma owned_same:
  "i < length txs \<Longrightarrow> f (pr_pc pr) = f (pr_pc (txs ! i)) \<Longrightarrow> owned f (txs[i := pr]) = owned f txs"
  by (rule set_eqI) (simp add: owned_update owned_split [of i txs])

lemma owned_new:
  assumes "i < length txs" "f (pr_pc (txs ! i)) = None" "f (pr_pc pr) = Some q"
  shows "owned f (txs[i := pr]) = insert q (owned f txs)"
  using assms by (intro set_eqI) (auto simp: owned_update owned_split [OF assms(1)])

lemma owned_released:
  assumes i: "i < length txs" and own: "f (pr_pc (txs ! i)) = Some q" "f (pr_pc pr) = None"
    and dist: "distinct_owners txs" and f: "\<And>pc q. f pc = Some q \<Longrightarrow> own_pending pc = Some q"
  shows "owned f (txs[i := pr]) = owned f txs - {q}"
proof (rule set_eqI)
  fix q'
  have "q' \<noteq> q" if "j < length txs" "j \<noteq> i" "f (pr_pc (txs ! j)) = Some q'" for j
    using dist i own(1) f that unfolding distinct_owners_def by blast
  with own show "q' \<in> owned f (txs[i := pr]) \<longleftrightarrow> q' \<in> owned f txs - {q}"
    by (auto simp: owned_update [OF i] owned_split [OF i])
qed

lemma owned_append: "owned f (txs @ [pr]) = owned f txs \<union> set_option (f (pr_pc pr))"
proof (rule set_eqI)
  fix q
  have "q \<in> owned f (txs @ [pr]) \<longleftrightarrow>
      (\<exists>i < length txs. f (pr_pc ((txs @ [pr]) ! i)) = Some q) \<or> f (pr_pc ((txs @ [pr]) ! length txs)) = Some q"
    unfolding owned_def mem_Collect_eq length_append_singleton less_Suc_eq by blast
  also have "\<dots> \<longleftrightarrow> q \<in> owned f txs \<or> f (pr_pc pr) = Some q"
    by (simp add: owned_def nth_append cong: conj_cong)
  finally show "q \<in> owned f (txs @ [pr]) \<longleftrightarrow> q \<in> owned f txs \<union> set_option (f (pr_pc pr))" by simp
qed

lemma distinct_owners_update:
  assumes dist: "distinct_owners txs" and i: "i < length txs"
    and new: "\<And>q. own_pending (pr_pc pr) = Some q \<Longrightarrow>
           own_pending (pr_pc (txs ! i)) = Some q \<or> q \<notin> owned own_pending txs"
  shows "distinct_owners (txs[i := pr])"
proof -
  let ?own = "\<lambda>txs j. own_pending (pr_pc (txs ! j))"
  have other: "?own txs j \<noteq> Some q" if "own_pending (pr_pc pr) = Some q" "j < length txs" "j \<noteq> i" for j q
    using new [OF that(1)] that dist i unfolding distinct_owners_def owned_def by blast
  show ?thesis
    unfolding distinct_owners_def length_list_update
  proof (intro allI impI)
    fix j k q
    assume jk: "j < length txs" "k < length txs" "?own (txs[i := pr]) j = Some q" "?own (txs[i := pr]) k = Some q"
    show "j = k"
      using jk other [of q] dist i unfolding distinct_owners_def
      by (cases "j = i"; cases "k = i") auto
  qed
qed

lemma distinct_owners_append:
  "distinct_owners txs \<Longrightarrow> own_pending (pr_pc pr) = None \<Longrightarrow> distinct_owners (txs @ [pr])"
  by (auto simp: distinct_owners_def nth_append less_Suc_eq)

section \<open>The slots\<close>

text \<open>
  From the head \<open>h\<close> on, the slot of a sequence number carries its round once it is claimed and
  no longer pending (in \<open>P\<close>), and its value once it is claimed and no longer to be written (in \<open>W\<close>).
\<close>

definition slot_ok :: "'a slot list \<Rightarrow> 'a list \<Rightarrow> nat set \<Rightarrow> nat set \<Rightarrow> nat \<Rightarrow> bool" where
  "slot_ok slots claimed P W q \<longleftrightarrow>
     sl_round (slots ! (q mod length slots)) =
       of_nat (q div length slots) - (if q < length claimed \<and> q \<notin> P then 0 else 1) \<and>
     (if q < length claimed \<and> q \<notin> W then sl_value (slots ! (q mod length slots)) = Live (claimed ! q)
      else \<not> is_live (sl_value (slots ! (q mod length slots))))"

definition slots_ok :: "'a slot list \<Rightarrow> 'a list \<Rightarrow> nat \<Rightarrow> nat set \<Rightarrow> nat set \<Rightarrow> bool" where
  "slots_ok slots claimed h P W \<longleftrightarrow>
     (\<forall>q. h \<le> q \<longrightarrow> q < h + length slots \<longrightarrow> slot_ok slots claimed P W q)"

lemma slots_okI:
  assumes "\<And>q. h \<le> q \<Longrightarrow> q < h + length slots \<Longrightarrow> slot_ok slots claimed P W q"
  shows "slots_ok slots claimed h P W"
  using assms by (simp add: slots_ok_def)

lemma slots_okD: "slots_ok slots claimed h P W \<Longrightarrow> h \<le> q \<Longrightarrow> q < h + length slots \<Longrightarrow> slot_ok slots claimed P W q"
  by (simp add: slots_ok_def)

lemma slots_ok_claim:
  assumes "slots_ok slots claimed h P W"
  shows "slots_ok slots (claimed @ [v]) h (insert (length claimed) P) (insert (length claimed) W)"
  using assms by (auto simp: slots_ok_def slot_ok_def nth_append less_Suc_eq)

lemma slot_ok_other:
  assumes "slot_ok slots claimed P W q" "q mod length slots \<noteq> k mod length slots"
    and "P - {k} = P' - {k}" "W - {k} = W' - {k}"
  shows "slot_ok (slots[k mod length slots := x]) claimed P' W' q"
proof -
  have "q \<noteq> k" using assms(2) by blast
  with assms(3,4) have "q \<in> P \<longleftrightarrow> q \<in> P'" "q \<in> W \<longleftrightarrow> q \<in> W'" by blast+
  with assms(1,2) show ?thesis by (simp add: slot_ok_def)
qed

text \<open>An access that changes the slot of \<open>k\<close> only.\<close>

lemma slots_ok_update:
  assumes ok: "slots_ok slots claimed h P W" and k: "h \<le> k" "k < h + length slots"
    and sets: "P - {k} = P' - {k}" "W - {k} = W' - {k}"
    and at: "slot_ok (slots[k mod length slots := x]) claimed P' W' k"
  shows "slots_ok (slots[k mod length slots := x]) claimed h P' W'"
proof (rule slots_okI)
  fix q
  assume q: "h \<le> q" "q < h + length (slots[k mod length slots := x])"
  show "slot_ok (slots[k mod length slots := x]) claimed P' W' q"
  proof (cases "q = k")
    case False
    with q k have "q mod length slots \<noteq> k mod length slots" by (intro mod_neq_within_lap) auto
    with slots_okD [OF ok q(1)] q(2) sets show ?thesis by (intro slot_ok_other [of slots claimed P W]) auto
  qed (use at in simp)
qed

lemma slots_ok_write:
  assumes ok: "slots_ok slots claimed h P W" and q: "h \<le> q" "q < h + length slots" "q < length claimed"
    and own: "q \<in> W" "q \<in> P" and i: "unat i = q mod length slots"
  shows "\<exists>slots'. slot_value_with (\<lambda>cl. obind (cell_write (claimed ! q) cl) (\<lambda>cl'. Inr ((), cl'))) i slots = Inr ((), slots')
     \<and> length slots' = length slots \<and> slots_ok slots' claimed h P (W - {q})"
proof -
  let ?k = "q mod length slots"
  let ?s = "slots[?k := (slots ! ?k)\<lparr>sl_value := Live (claimed ! q)\<rparr>]"
  have b: "?k < length slots" using q by (intro mod_less_divisor) linarith
  have sl: "slot_ok slots claimed P W q" using slots_okD [OF ok q(1,2)] .
  then have "\<not> is_live (sl_value (slots ! ?k))" using own by (simp add: slot_ok_def)
  then have "cell_write (claimed ! q) (sl_value (slots ! ?k)) = Inr (Live (claimed ! q))"
    by (cases "sl_value (slots ! ?k)") simp_all
  then have "slot_value_with (\<lambda>cl. obind (cell_write (claimed ! q) cl) (\<lambda>cl'. Inr ((), cl'))) i slots = Inr ((), ?s)"
    using b by (simp add: slot_value_with_def i)
  moreover have "slots_ok ?s claimed h P (W - {q})"
    by (rule slots_ok_update [OF ok q(1,2)]) (use sl b q own in \<open>simp_all add: slot_ok_def\<close>)
  ultimately show ?thesis by (intro exI [of _ ?s]) simp
qed

lemma slots_ok_publish:
  assumes ok: "slots_ok slots claimed h P W" and q: "h \<le> q" "q < h + length slots" "q < length claimed"
    and own: "q \<notin> W" and i: "unat i = q mod length slots"
  shows "\<exists>slots'. slot_round_store (of_nat (q div length slots)) i slots = Inr slots'
     \<and> length slots' = length slots \<and> slots_ok slots' claimed h (P - {q}) W"
proof -
  let ?k = "q mod length slots"
  let ?s = "slots[?k := (slots ! ?k)\<lparr>sl_round := of_nat (q div length slots)\<rparr>]"
  have b: "?k < length slots" using q by (intro mod_less_divisor) linarith
  have sl: "slot_ok slots claimed P W q" using slots_okD [OF ok q(1,2)] .
  have "slot_round_store (of_nat (q div length slots)) i slots = Inr ?s"
    using b by (simp add: slot_round_store_def i)
  moreover have "slots_ok ?s claimed h (P - {q}) W"
    by (rule slots_ok_update [OF ok q(1,2)]) (use sl b q own in \<open>simp_all add: slot_ok_def\<close>)
  ultimately show ?thesis by (intro exI [of _ ?s]) simp
qed

lemma slots_ok_read:
  assumes ok: "slots_ok slots claimed h P W" and h: "h < length claimed" "h \<notin> P" "W \<subseteq> P"
    and cap: "length claimed \<le> h + length slots" "0 < length slots" and i: "unat i = h mod length slots"
  shows "\<exists>slots'. slot_value_with assume_init_read i slots = Inr (claimed ! h, slots')
     \<and> length slots' = length slots \<and> slots_ok slots' claimed (Suc h) P W"
proof -
  let ?k = "h mod length slots"
  let ?s = "slots[?k := (slots ! ?k)\<lparr>sl_value := Moved (claimed ! h)\<rparr>]"
  have b: "?k < length slots" using cap by simp
  have hW: "h \<notin> W" using h by blast
  have sl: "slot_ok slots claimed P W h" using slots_okD [OF ok, of h] cap by simp
  then have live: "sl_value (slots ! ?k) = Live (claimed ! h)" and rnd: "sl_round (slots ! ?k) = of_nat (h div length slots)"
    using h(1,2) hW by (simp_all add: slot_ok_def)
  have "slot_value_with assume_init_read i slots = Inr (claimed ! h, ?s)"
    using b live by (simp add: slot_value_with_def i)
  moreover have "slots_ok ?s claimed (Suc h) P W"
  proof (rule slots_okI)
    fix q
    assume q: "Suc h \<le> q" "q < Suc h + length ?s"
    show "slot_ok ?s claimed P W q"
    proof (cases "q = h + length slots")
      case True
      then have "q mod length slots = ?k" "q div length slots = Suc (h div length slots)"
        using cap(2) div_add_self2 [of "length slots" h] by simp_all
      with True cap b rnd show ?thesis by (simp add: slot_ok_def)
    next
      case False
      with q have "q < h + length slots" by simp
      moreover from this q have "q mod length slots \<noteq> ?k" by (intro mod_neq_within_lap) auto
      ultimately show ?thesis using slots_okD [OF ok, of q] q by (intro slot_ok_other [of slots claimed P W]) auto
    qed
  qed
  ultimately show ?thesis by (intro exI [of _ ?s]) simp
qed

text \<open>The consumer's test sees exactly the published slots: it stops at a hole.\<close>

lemma slots_ok_published:
  assumes "slots_ok slots claimed h P W" "0 < length slots"
  shows "sl_round (slots ! (h mod length slots)) = of_nat (h div length slots) \<longleftrightarrow> h < length claimed \<and> h \<notin> P"
  using slots_okD [OF assms(1), of h] assms(2) by (auto simp: slot_ok_def)

section \<open>The invariant\<close>

text \<open>\<open>S\<close> is the shared head; the claim counter and the private head are the lengths of the histories.\<close>

definition mc_counters :: "nat \<Rightarrow> 'a mpsc_shared \<Rightarrow> mpsc_receiver \<Rightarrow> 'a list \<Rightarrow> 'a list \<Rightarrow> bool" where
  "mc_counters S sh rx claimed taken \<longleftrightarrow>
     mp_claim sh = of_nat (length claimed) \<and> length claimed < 2 ^ 64 \<and>
     mrx_head rx = of_nat (length taken) \<and> mp_head sh = of_nat S \<and>
     S \<le> length taken \<and> length taken \<le> length claimed \<and> length claimed \<le> S + unat (mp_cap sh) \<and>
     take (length taken) claimed = taken"

definition mc_slots :: "'a mpsc_shared \<Rightarrow> 'a list \<Rightarrow> nat \<Rightarrow> 'a producer list \<Rightarrow> bool" where
  "mc_slots sh claimed h txs \<longleftrightarrow>
     slots_ok (mp_slots sh) claimed h (owned own_pending txs) (owned own_writing txs)"

fun ptx_pc_ok :: "nat \<Rightarrow> nat \<Rightarrow> 'a list \<Rightarrow> 'a ptx_pc \<Rightarrow> bool" where
  "ptx_pc_ok lim h claimed (PCas v seq) = (unat seq < lim \<and> unat seq < 2 ^ 64 - 1)"
| "ptx_pc_ok lim h claimed (PWrite v seq) =
     (h \<le> unat seq \<and> unat seq < length claimed \<and> claimed ! unat seq = v)"
| "ptx_pc_ok lim h claimed (PPublish v seq) =
     (h \<le> unat seq \<and> unat seq < length claimed \<and> claimed ! unat seq = v)"
| "ptx_pc_ok lim h claimed _ = True"

definition producer_ok :: "nat \<Rightarrow> nat \<Rightarrow> nat \<Rightarrow> 'a list \<Rightarrow> 'a producer \<Rightarrow> bool" where
  "producer_ok S cap h claimed pr \<longleftrightarrow>
     unat (mtx_cached_head (pr_tx pr)) \<le> S \<and>
     ptx_pc_ok (unat (mtx_cached_head (pr_tx pr)) + cap) h claimed (pr_pc pr)"

definition mc_producers :: "nat \<Rightarrow> nat \<Rightarrow> nat \<Rightarrow> 'a list \<Rightarrow> 'a producer list \<Rightarrow> bool" where
  "mc_producers S cap h claimed txs \<longleftrightarrow>
     distinct_owners txs \<and> (\<forall>i < length txs. producer_ok S cap h claimed (txs ! i))"

definition alive :: "'a producer list \<Rightarrow> nat" where
  "alive txs = length (filter (\<lambda>pr. pr_pc pr \<noteq> PDead) txs)"

definition mc_senders :: "'a mpsc_shared \<Rightarrow> 'a producer list \<Rightarrow> bool" where
  "mc_senders sh txs \<longleftrightarrow> mp_senders sh = of_nat (alive txs) \<and> length txs < 2 ^ 64"

text \<open>The head is claimed and published.\<close>

definition ready :: "'a list \<Rightarrow> nat \<Rightarrow> 'a producer list \<Rightarrow> bool" where
  "ready claimed h txs \<longleftrightarrow> h < length claimed \<and> h \<notin> owned own_pending txs"

fun mrx_pc_ok :: "nat \<Rightarrow> nat \<Rightarrow> bool \<Rightarrow> bool \<Rightarrow> 'a mrx_pc \<Rightarrow> bool" where
  "mrx_pc_ok S h rdy dead MRead = (S = h \<and> rdy)"
| "mrx_pc_ok S h rdy dead (MPublish v) = True"
| "mrx_pc_ok S h rdy dead (MLoop mx count start) = (start = of_nat S)"
| "mrx_pc_ok S h rdy dead (MTake mx count start) = (start = of_nat S \<and> rdy)"
| "mrx_pc_ok S h rdy dead (MGuard panicked count start) = (start = of_nat S)"
| "mrx_pc_ok S h rdy dead MReload = (S = h \<and> dead)"
| "mrx_pc_ok S h rdy dead _ = (S = h)"

definition mc_disc :: "'a mrx_result list \<Rightarrow> 'a producer list \<Rightarrow> 'a list \<Rightarrow> 'a list \<Rightarrow> bool" where
  "mc_disc log txs claimed taken \<longleftrightarrow>
     (MRetRecv (Err RecvDisconnected) \<in> set log \<longrightarrow> alive txs = 0 \<and> taken = claimed)"

definition mc_inv :: "nat \<Rightarrow> 'a mpsc_conc \<Rightarrow> bool" where
  "mc_inv S c \<longleftrightarrow>
     mpsc_geometry (mk_shared c) \<and>
     mc_counters S (mk_shared c) (mk_rx c) (mk_claimed c) (mk_taken c) \<and>
     mc_slots (mk_shared c) (mk_claimed c) (length (mk_taken c)) (mk_txs c) \<and>
     mc_producers S (unat (mp_cap (mk_shared c))) (length (mk_taken c)) (mk_claimed c) (mk_txs c) \<and>
     mc_senders (mk_shared c) (mk_txs c) \<and>
     mrx_pc_ok S (length (mk_taken c)) (ready (mk_claimed c) (length (mk_taken c)) (mk_txs c))
       (alive (mk_txs c) = 0) (mk_rx_pc c) \<and>
     mc_disc (mk_rx_log c) (mk_txs c) (mk_claimed c) (mk_taken c)"

lemma mc_cap:
  assumes "mc_inv S c"
  shows "length (mp_slots (mk_shared c)) = unat (mp_cap (mk_shared c))" "0 < length (mp_slots (mk_shared c))"
  using assms is_power_of_two_pos [of "mp_cap (mk_shared c)"] by (auto simp: mc_inv_def mpsc_geometry_def)

lemma unat_of_nat_small: "n < 2 ^ 64 \<Longrightarrow> unat (of_nat n :: usize) = n"
  by (simp add: unat_of_nat)

lemma mc_unats:
  assumes "mc_inv S c"
  shows "unat (mp_claim (mk_shared c)) = length (mk_claimed c)" "unat (mrx_head (mk_rx c)) = length (mk_taken c)"
    "unat (mp_head (mk_shared c)) = S" "S \<le> length (mk_taken c)" "length (mk_taken c) \<le> length (mk_claimed c)"
    "length (mk_claimed c) \<le> S + unat (mp_cap (mk_shared c))" "length (mk_claimed c) < 2 ^ 64"
proof -
  have k: "mc_counters S (mk_shared c) (mk_rx c) (mk_claimed c) (mk_taken c)" using assms by (simp add: mc_inv_def)
  then have o: "S \<le> length (mk_taken c)" "length (mk_taken c) \<le> length (mk_claimed c)"
    "length (mk_claimed c) \<le> S + unat (mp_cap (mk_shared c))" "length (mk_claimed c) < 2 ^ 64"
    by (simp_all only: mc_counters_def)
  then have "length (mk_taken c) < 2 ^ 64" "S < 2 ^ 64" by linarith+
  with k o show "unat (mp_claim (mk_shared c)) = length (mk_claimed c)"
    "unat (mrx_head (mk_rx c)) = length (mk_taken c)" "unat (mp_head (mk_shared c)) = S"
    by (simp_all only: mc_counters_def unat_of_nat_small)
  show "S \<le> length (mk_taken c)" "length (mk_taken c) \<le> length (mk_claimed c)"
    "length (mk_claimed c) \<le> S + unat (mp_cap (mk_shared c))" "length (mk_claimed c) < 2 ^ 64"
    using o .
qed

lemma mc_index:
  assumes "mc_inv S c"
  shows "unat (x AND mp_mask (mk_shared c)) = unat x mod length (mp_slots (mk_shared c))"
  using assms by (simp add: mc_inv_def mpsc_index)

subsection \<open>A producer moves on without touching the ring\<close>

lemma alive_update:
  assumes "i < length txs" "pr_pc pr = PDead \<longleftrightarrow> pr_pc (txs ! i) = PDead"
  shows "alive (txs[i := pr]) = alive txs"
proof -
  have "map (\<lambda>pr. pr_pc pr = PDead) (txs[i := pr]) = map (\<lambda>pr. pr_pc pr = PDead) txs"
    using assms by (simp add: map_update list_update_same_conv)
  moreover have "alive xs = length (filter Not (map (\<lambda>pr. pr_pc pr = PDead) xs))" for xs :: "'a producer list"
    by (simp add: alive_def filter_map comp_def)
  ultimately show ?thesis by (simp only:)
qed

lemma mc_producers_update:
  assumes "mc_producers S cap h claimed txs" "i < length txs" "producer_ok S cap h claimed pr"
    and "\<And>q. own_pending (pr_pc pr) = Some q \<Longrightarrow> own_pending (pr_pc (txs ! i)) = Some q \<or> q \<notin> owned own_pending txs"
  shows "mc_producers S cap h claimed (txs[i := pr])"
  using assms distinct_owners_update [of txs i pr] by (simp add: mc_producers_def nth_list_update)

lemma set_producer_keeps:
  assumes inv: "mc_inv S c" and i: "i < length (mk_txs c)"
    and ok: "producer_ok S (unat (mp_cap (mk_shared c))) (length (mk_taken c)) (mk_claimed c) pr"
    and own: "own_pending (pr_pc pr) = own_pending (pr_pc (mk_txs c ! i))"
      "own_writing (pr_pc pr) = own_writing (pr_pc (mk_txs c ! i))"
    and dead: "pr_pc pr = PDead \<longleftrightarrow> pr_pc (mk_txs c ! i) = PDead"
  shows "mc_inv S (set_producer i pr c)"
proof -
  have "owned own_pending ((mk_txs c)[i := pr]) = owned own_pending (mk_txs c)"
    "owned own_writing ((mk_txs c)[i := pr]) = owned own_writing (mk_txs c)"
    "alive ((mk_txs c)[i := pr]) = alive (mk_txs c)"
    using i own dead by (simp_all add: owned_same alive_update)
  moreover have "mc_producers S (unat (mp_cap (mk_shared c))) (length (mk_taken c)) (mk_claimed c) ((mk_txs c)[i := pr])"
    by (rule mc_producers_update [OF _ i ok]) (use inv own in \<open>simp_all add: mc_inv_def\<close>)
  ultimately show ?thesis
    using inv by (simp add: set_producer_def mc_inv_def mc_slots_def mc_senders_def ready_def mc_disc_def)
qed

lemma alive_pos: "i < length txs \<Longrightarrow> pr_pc (txs ! i) \<noteq> PDead \<Longrightarrow> alive txs \<noteq> 0"
  by (auto simp: alive_def filter_empty_conv)

lemma mrx_pc_ok_mono: "mrx_pc_ok S h rdy dead pc \<Longrightarrow> (rdy \<Longrightarrow> rdy') \<Longrightarrow> mrx_pc_ok S h rdy' dead pc"
  by (cases pc) simp_all

lemma mc_producer:
  "mc_inv S c \<Longrightarrow> i < length (mk_txs c) \<Longrightarrow>
     producer_ok S (unat (mp_cap (mk_shared c))) (length (mk_taken c)) (mk_claimed c) (mk_txs c ! i)"
  by (simp add: mc_inv_def mc_producers_def)

lemma ptx_return_keeps:
  assumes inv: "mc_inv S c" and i: "i < length (mk_txs c)" and pc: "pr_pc (mk_txs c ! i) \<noteq> PDead"
    and own: "own_pending (pr_pc (mk_txs c ! i)) = None" and head: "unat (mtx_cached_head (pr_tx pr)) \<le> S"
  shows "mc_inv S (ptx_return i r pr c)"
proof -
  have "own_writing (pr_pc (mk_txs c ! i)) = None" using own by (cases "pr_pc (mk_txs c ! i)") simp_all
  with own pc head show ?thesis
    unfolding ptx_return_def by (intro set_producer_keeps [OF inv i]) (simp_all add: producer_ok_def)
qed

lemma ptx_local_keeps:
  assumes inv: "mc_inv S c" and i: "i < length (mk_txs c)" and pc: "pr_pc (mk_txs c ! i) \<noteq> PDead"
    and own: "own_pending (pr_pc (mk_txs c ! i)) = None" "own_pending (pr_pc pr) = None" "pr_pc pr \<noteq> PDead"
    and head: "unat (mtx_cached_head (pr_tx pr)) \<le> S"
    and cas: "\<And>v seq. pr_pc pr = PCas v seq \<Longrightarrow>
      unat seq < unat (mtx_cached_head (pr_tx pr)) + unat (mp_cap (mk_shared c)) \<and> unat seq < 2 ^ 64 - 1"
  shows "mc_inv S (set_producer i pr c)"
proof (rule set_producer_keeps [OF inv i])
  show "producer_ok S (unat (mp_cap (mk_shared c))) (length (mk_taken c)) (mk_claimed c) pr"
    using head own(2) cas by (cases "pr_pc pr") (simp_all add: producer_ok_def)
  show "own_writing (pr_pc pr) = own_writing (pr_pc (mk_txs c ! i))"
    using own by (cases "pr_pc pr"; cases "pr_pc (mk_txs c ! i)") simp_all
qed (use own pc in simp_all)

lemma ptx_test_keeps:
  assumes inv: "mc_inv S c" and i: "i < length (mk_txs c)" and pc: "pr_pc (mk_txs c ! i) = PTest v seq"
    and step: "ptx_micro i x b c = Some r"
  shows "\<exists>c'. r = Inr c' \<and> mc_inv S c'"
proof -
  let ?sh = "mk_shared c" and ?pr = "mk_txs c ! i"
  let ?full = "\<lambda>y. seq \<ge> saturating_add y (mp_cap ?sh)"
  have head: "unat (mtx_cached_head (pr_tx ?pr)) \<le> S"
    using mc_producer [OF inv i] by (simp add: producer_ok_def)
  have space: "unat seq < unat y + unat (mp_cap ?sh) \<and> unat seq < 2 ^ 64 - 1" if "\<not> ?full y" for y
    using that usize_bound [of seq] unfolding saturating_ge by auto
  have cas: "mc_inv S (set_producer i (?pr\<lparr>pr_tx := tx, pr_pc := PCas v seq\<rparr>) c)"
    if "unat (mtx_cached_head tx) \<le> S" "\<not> ?full (mtx_cached_head tx)" for tx
    by (rule ptx_local_keeps [OF inv i]) (use pc that space in simp_all)
  show ?thesis
  proof (cases "?full (mtx_cached_head (pr_tx ?pr))")
    case False
    then have "r = Inr (set_producer i (?pr\<lparr>pr_pc := PCas v seq\<rparr>) c)"
      using step pc by (simp add: ptx_micro_def Let_def)
    with cas [OF head False] show ?thesis by simp
  next
    case True
    let ?pr1 = "?pr\<lparr>pr_tx := (pr_tx ?pr)\<lparr>mtx_cached_head := x\<rparr>\<rparr>"
    have x: "x \<le> mp_head ?sh" and r: "r = Inr (if ?full x then ptx_return i (Err (Full v)) ?pr1 c
        else set_producer i (?pr1\<lparr>pr_pc := PCas v seq\<rparr>) c)"
      using step pc True by (auto simp: ptx_micro_def Let_def split: if_splits)
    from x have xS: "unat x \<le> S" using mc_unats(3) [OF inv] by (simp add: word_le_nat_alt)
    have "mc_inv S (ptx_return i (Err (Full v)) ?pr1 c)"
      by (rule ptx_return_keeps [OF inv i]) (use pc xS in simp_all)
    with r cas [of "(pr_tx ?pr)\<lparr>mtx_cached_head := x\<rparr>"] xS show ?thesis by (cases "?full x") simp_all
  qed
qed

text \<open>The successful exchange: the producer becomes the owner of the next sequence number.\<close>

lemma owned_bounds:
  assumes "mc_producers S cap h claimed txs" "q \<in> owned own_pending txs"
  shows "h \<le> q" "q < length claimed"
proof -
  obtain i where i: "i < length txs" "own_pending (pr_pc (txs ! i)) = Some q"
    using assms(2) by (auto simp: owned_def)
  with assms(1) have "producer_ok S cap h claimed (txs ! i)" by (simp add: mc_producers_def)
  with i(2) show "h \<le> q" "q < length claimed"
    by (cases "pr_pc (txs ! i)"; auto simp: producer_ok_def)+
qed

lemma producer_ok_claim: "producer_ok S cap h claimed pr \<Longrightarrow> producer_ok S cap h (claimed @ [v]) pr"
  by (cases "pr_pc pr") (auto simp: producer_ok_def nth_append)

lemma ptx_claim_keeps:
  assumes inv: "mc_inv S c" and i: "i < length (mk_txs c)" and pc: "pr_pc (mk_txs c ! i) = PCas v seq"
    and seq: "mp_claim (mk_shared c) = seq"
  shows "mc_inv S (set_producer i ((mk_txs c ! i)\<lparr>pr_pc := PWrite v seq\<rparr>)
     (c\<lparr>mk_shared := (mk_shared c)\<lparr>mp_claim := seq + 1\<rparr>, mk_claimed := mk_claimed c @ [v]\<rparr>))"
proof -
  let ?sh = "mk_shared c" and ?cl = "mk_claimed c" and ?h = "length (mk_taken c)" and ?txs = "mk_txs c"
  let ?pr = "(mk_txs c ! i)\<lparr>pr_pc := PWrite v seq\<rparr>"
  let ?txs' = "?txs[i := ?pr]"
  note u = mc_unats [OF inv]
  have q: "unat seq = length ?cl" "seq = of_nat (length ?cl)"
    using u(1) seq inv by (simp_all add: mc_inv_def mc_counters_def)
  have ok: "producer_ok S (unat (mp_cap ?sh)) ?h ?cl (?txs ! i)" using mc_producer [OF inv i] .
  then have bound: "length ?cl < S + unat (mp_cap ?sh)" "length ?cl < 2 ^ 64 - 1"
    using pc q(1) by (auto simp: producer_ok_def)
  have prods: "mc_producers S (unat (mp_cap ?sh)) ?h ?cl ?txs" using inv by (simp add: mc_inv_def)
  have new: "length ?cl \<notin> owned own_pending ?txs" using owned_bounds(2) [OF prods, of "length ?cl"] by blast
  have own: "owned own_pending ?txs' = insert (length ?cl) (owned own_pending ?txs)"
    "owned own_writing ?txs' = insert (length ?cl) (owned own_writing ?txs)"
    using pc q(1) by (auto intro!: owned_new [OF i])
  have alv: "alive ?txs' = alive ?txs" "alive ?txs \<noteq> 0" using i pc by (simp_all add: alive_update alive_pos)
  have k: "mc_counters S (?sh\<lparr>mp_claim := seq + 1\<rparr>) (mk_rx c) (?cl @ [v]) (mk_taken c)"
    using inv q(2) bound by (simp add: mc_inv_def mc_counters_def)
  have sl: "mc_slots (?sh\<lparr>mp_claim := seq + 1\<rparr>) (?cl @ [v]) ?h ?txs'"
    unfolding mc_slots_def own using inv slots_ok_claim by (auto simp: mc_inv_def mc_slots_def)
  have "mc_producers S (unat (mp_cap ?sh)) ?h (?cl @ [v]) ?txs"
    using prods by (simp add: mc_producers_def producer_ok_claim)
  moreover have "producer_ok S (unat (mp_cap ?sh)) ?h (?cl @ [v]) ?pr"
    using ok u(5) q(1) by (simp add: producer_ok_def nth_append)
  ultimately have pr: "mc_producers S (unat (mp_cap ?sh)) ?h (?cl @ [v]) ?txs'"
    by (rule mc_producers_update [OF _ i]) (use new q(1) in simp)
  have rdy: "ready ?cl ?h ?txs \<Longrightarrow> ready (?cl @ [v]) ?h ?txs'" by (simp add: ready_def own)
  have rx: "mrx_pc_ok S ?h (ready (?cl @ [v]) ?h ?txs') (alive ?txs' = 0) (mk_rx_pc c)"
    using inv rdy unfolding alv(1) by (auto simp: mc_inv_def intro: mrx_pc_ok_mono)
  show ?thesis
    using inv k sl pr rx alv by (simp add: set_producer_def mc_inv_def mc_senders_def mc_disc_def mpsc_geometry_def)
qed

lemma ptx_cas_keeps:
  assumes inv: "mc_inv S c" and i: "i < length (mk_txs c)" and pc: "pr_pc (mk_txs c ! i) = PCas v seq"
    and step: "ptx_micro i x b c = Some r"
  shows "\<exists>c'. r = Inr c' \<and> mc_inv S c'"
proof (cases "mp_claim (mk_shared c) = seq \<and> \<not> b")
  case True
  with step pc ptx_claim_keeps [OF inv i pc] show ?thesis by (auto simp: ptx_micro_def Let_def)
next
  case False
  then have "r = Inr (set_producer i ((mk_txs c ! i)\<lparr>pr_pc := PTest v x\<rparr>) c)"
    using step pc by (auto simp: ptx_micro_def Let_def split: if_splits)
  moreover have "mc_inv S (set_producer i ((mk_txs c ! i)\<lparr>pr_pc := PTest v x\<rparr>) c)"
    by (rule ptx_local_keeps [OF inv i]) (use pc mc_producer [OF inv i] in \<open>simp_all add: producer_ok_def\<close>)
  ultimately show ?thesis by blast
qed

text \<open>The owner's two accesses to its slot.\<close>

lemma owner_slot_keeps:
  assumes inv: "mc_inv S c" and i: "i < length (mk_txs c)" and pc: "pr_pc (mk_txs c ! i) \<noteq> PDead" "pr_pc pr \<noteq> PDead"
    and len: "length slots = length (mp_slots (mk_shared c))"
    and slots: "slots_ok slots (mk_claimed c) (length (mk_taken c)) (owned own_pending ((mk_txs c)[i := pr]))
      (owned own_writing ((mk_txs c)[i := pr]))"
    and ok: "producer_ok S (unat (mp_cap (mk_shared c))) (length (mk_taken c)) (mk_claimed c) pr"
    and own: "own_pending (pr_pc pr) = None \<or> own_pending (pr_pc pr) = own_pending (pr_pc (mk_txs c ! i))"
  shows "mc_inv S (set_producer i pr (c\<lparr>mk_shared := (mk_shared c)\<lparr>mp_slots := slots\<rparr>\<rparr>))"
proof -
  let ?txs' = "(mk_txs c)[i := pr]"
  have prods: "mc_producers S (unat (mp_cap (mk_shared c))) (length (mk_taken c)) (mk_claimed c) ?txs'"
    by (rule mc_producers_update [OF _ i ok]) (use inv own in \<open>auto simp: mc_inv_def\<close>)
  have "owned own_pending ?txs' \<subseteq> owned own_pending (mk_txs c)"
    using own by (auto simp: owned_update [OF i] owned_split [OF i])
  then have rdy: "ready (mk_claimed c) h (mk_txs c) \<Longrightarrow> ready (mk_claimed c) h ?txs'" for h
    by (auto simp: ready_def)
  have alv: "alive ?txs' = alive (mk_txs c)" using i pc by (simp add: alive_update)
  have rx: "mrx_pc_ok S (length (mk_taken c)) (ready (mk_claimed c) (length (mk_taken c)) ?txs')
      (alive ?txs' = 0) (mk_rx_pc c)"
    unfolding alv
    by (rule mrx_pc_ok_mono [where rdy = "ready (mk_claimed c) (length (mk_taken c)) (mk_txs c)"])
      (use inv rdy in \<open>simp_all add: mc_inv_def\<close>)
  show ?thesis
    using inv prods slots rx alv len
    by (simp add: set_producer_def mc_inv_def mc_counters_def mc_slots_def mc_senders_def mc_disc_def mpsc_geometry_def)
qed

lemma mc_owner:
  assumes inv: "mc_inv S c" and i: "i < length (mk_txs c)" and pc: "own_pending (pr_pc (mk_txs c ! i)) = Some q"
  shows "length (mk_taken c) \<le> q" "q < length (mk_taken c) + length (mp_slots (mk_shared c))"
    "q < length (mk_claimed c)" "q \<in> owned own_pending (mk_txs c)"
proof -
  have q: "q \<in> owned own_pending (mk_txs c)" using i pc by (auto simp: owned_def)
  then show b: "length (mk_taken c) \<le> q" "q < length (mk_claimed c)" "q \<in> owned own_pending (mk_txs c)"
    using owned_bounds [of S "unat (mp_cap (mk_shared c))" "length (mk_taken c)" "mk_claimed c" "mk_txs c" q] inv
    by (simp_all add: mc_inv_def)
  show "q < length (mk_taken c) + length (mp_slots (mk_shared c))"
    using b mc_unats(4,6) [OF inv] mc_cap(1) [OF inv] by simp
qed

lemma ptx_write_keeps:
  assumes inv: "mc_inv S c" and i: "i < length (mk_txs c)" and pc: "pr_pc (mk_txs c ! i) = PWrite v seq"
    and step: "ptx_micro i x b c = Some r"
  shows "\<exists>c'. r = Inr c' \<and> mc_inv S c'"
proof -
  let ?sh = "mk_shared c" and ?txs = "mk_txs c" and ?pr = "(mk_txs c ! i)\<lparr>pr_pc := PPublish v seq\<rparr>"
  let ?P = "owned own_pending ?txs" and ?W = "owned own_writing ?txs"
  have ow: "own_pending (pr_pc (?txs ! i)) = Some (unat seq)" using pc by simp
  note b = mc_owner [OF inv i ow]
  have ok: "producer_ok S (unat (mp_cap ?sh)) (length (mk_taken c)) (mk_claimed c) (?txs ! i)"
    using mc_producer [OF inv i] .
  then have v: "mk_claimed c ! unat seq = v" using pc by (simp add: producer_ok_def)
  have W: "unat seq \<in> ?W" using i pc by (auto simp: owned_def intro!: exI [of _ i])
  have sl: "slots_ok (mp_slots ?sh) (mk_claimed c) (length (mk_taken c)) ?P ?W"
    using inv by (simp add: mc_inv_def mc_slots_def)
  obtain slots where w: "slot_value_with (\<lambda>cl. obind (cell_write v cl) (\<lambda>cl'. Inr ((), cl')))
        (seq AND mp_mask ?sh) (mp_slots ?sh) = Inr ((), slots)"
      "length slots = length (mp_slots ?sh)"
      "slots_ok slots (mk_claimed c) (length (mk_taken c)) ?P (?W - {unat seq})"
    using slots_ok_write [OF sl b(1,2,3) W b(4), of "seq AND mp_mask ?sh"] mc_index [OF inv, of seq] v by auto
  have dist: "distinct_owners ?txs" using inv by (simp add: mc_inv_def mc_producers_def)
  have "owned own_pending (?txs[i := ?pr]) = ?P" using i pc by (intro owned_same) simp_all
  moreover have "owned own_writing (?txs[i := ?pr]) = ?W - {unat seq}"
    by (rule owned_released [OF i _ _ dist writing_pending]) (use pc in simp_all)
  ultimately have "mc_inv S (set_producer i ?pr (c\<lparr>mk_shared := ?sh\<lparr>mp_slots := slots\<rparr>\<rparr>))"
    using w pc ok by (intro owner_slot_keeps [OF inv i]) (simp_all add: producer_ok_def)
  moreover have "r = Inr (set_producer i ?pr (c\<lparr>mk_shared := ?sh\<lparr>mp_slots := slots\<rparr>\<rparr>))"
    using step pc w(1) by (simp add: ptx_micro_def Let_def)
  ultimately show ?thesis by blast
qed

lemma ptx_publish_keeps:
  assumes inv: "mc_inv S c" and i: "i < length (mk_txs c)" and pc: "pr_pc (mk_txs c ! i) = PPublish v seq"
    and step: "ptx_micro i x b c = Some r"
  shows "\<exists>c'. r = Inr c' \<and> mc_inv S c'"
proof -
  let ?sh = "mk_shared c" and ?txs = "mk_txs c"
  let ?P = "owned own_pending ?txs" and ?W = "owned own_writing ?txs"
  have ow: "own_pending (pr_pc (?txs ! i)) = Some (unat seq)" using pc by simp
  note b = mc_owner [OF inv i ow]
  have ok: "producer_ok S (unat (mp_cap ?sh)) (length (mk_taken c)) (mk_claimed c) (?txs ! i)"
    using mc_producer [OF inv i] .
  have dist: "distinct_owners ?txs" using inv by (simp add: mc_inv_def mc_producers_def)
  have W: "unat seq \<notin> ?W"
    using dist i pc ow writing_pending unfolding distinct_owners_def owned_def mem_Collect_eq
    by (metis option.distinct(1) own_writing.simps(7))
  have sl: "slots_ok (mp_slots ?sh) (mk_claimed c) (length (mk_taken c)) ?P ?W"
    and geo: "mpsc_geometry ?sh" using inv by (simp_all add: mc_inv_def mc_slots_def)
  obtain slots where w: "slot_round_store (round_of ?sh seq) (seq AND mp_mask ?sh) (mp_slots ?sh) = Inr slots"
      "length slots = length (mp_slots ?sh)"
      "slots_ok slots (mk_claimed c) (length (mk_taken c)) (?P - {unat seq}) ?W"
    using slots_ok_publish [OF sl b(1,2,3) W, of "seq AND mp_mask ?sh"] mc_index [OF inv, of seq]
    by (auto simp: mpsc_round_of [OF geo])
  have keep: "mc_inv S (set_producer i pr (c\<lparr>mk_shared := ?sh\<lparr>mp_slots := slots\<rparr>\<rparr>))"
    if pr: "own_pending (pr_pc pr) = None" "pr_pc pr \<noteq> PDead" "pr_tx pr = pr_tx (?txs ! i)"
      "\<And>lim h cl. ptx_pc_ok lim h cl (pr_pc pr)" for pr
  proof -
    have "own_writing (pr_pc pr) = None" using pr(1) by (cases "pr_pc pr") simp_all
    then have "owned own_writing (?txs[i := pr]) = ?W" using i pc by (intro owned_same) simp_all
    moreover have "owned own_pending (?txs[i := pr]) = ?P - {unat seq}"
      by (rule owned_released [OF i ow pr(1) dist])
    ultimately show ?thesis
      using w pc ok pr by (intro owner_slot_keeps [OF inv i]) (simp_all add: producer_ok_def)
  qed
  let ?c = "c\<lparr>mk_shared := ?sh\<lparr>mp_slots := slots\<rparr>\<rparr>"
  have "mc_inv S (set_producer i ((?txs ! i)\<lparr>pr_pc := PWake\<rparr>) ?c)" by (rule keep) simp_all
  moreover have "mc_inv S (ptx_return i (Ok ()) (?txs ! i) ?c)" unfolding ptx_return_def by (rule keep) simp_all
  moreover have "r = Inr (if mp_strategy ?sh = Park then set_producer i ((?txs ! i)\<lparr>pr_pc := PWake\<rparr>) ?c
      else ptx_return i (Ok ()) (?txs ! i) ?c)"
    using step pc w(1) by (simp add: ptx_micro_def Let_def)
  ultimately show ?thesis by (cases "mp_strategy ?sh = Park") simp_all
qed

text \<open>Waking touches nothing that the invariant mentions.\<close>

lemma mc_inv_notified:
  "mc_inv S c \<Longrightarrow> mc_inv S (c\<lparr>mk_shared := (mk_shared c)\<lparr>mp_consumer_parker := p\<rparr>, mk_tokens := tok\<rparr>)"
  "mc_inv S c \<Longrightarrow> mc_inv S (c\<lparr>mk_shared := (mk_shared c)\<lparr>mp_prod_waiters := w\<rparr>, mk_tokens := tok\<rparr>)"
  "mc_inv S c \<Longrightarrow> mc_inv S (c\<lparr>mk_tokens := tok\<rparr>)"
  by (simp_all add: mc_inv_def mc_counters_def mc_slots_def mc_senders_def)

lemma ptx_micro_keeps:
  assumes inv: "mc_inv S c" and i: "i < length (mk_txs c)" and step: "ptx_micro i x b c = Some r"
  shows "\<exists>c'. r = Inr c' \<and> mc_inv S c'"
proof -
  have head: "unat (mtx_cached_head (pr_tx (mk_txs c ! i))) \<le> S"
    using mc_producer [OF inv i] by (simp add: producer_ok_def)
  show ?thesis
  proof (cases "pr_pc (mk_txs c ! i)")
    case (PCheck v)
    have "mc_inv S (ptx_return i (Err (SendDisconnected v)) (mk_txs c ! i) c)"
      by (rule ptx_return_keeps [OF inv i]) (use PCheck head in simp_all)
    moreover have "mc_inv S (set_producer i ((mk_txs c ! i)\<lparr>pr_pc := PLoad v\<rparr>) c)"
      by (rule ptx_local_keeps [OF inv i]) (use PCheck head in simp_all)
    ultimately show ?thesis using step PCheck by (auto simp: ptx_micro_def Let_def split: if_splits)
  next
    case (PLoad v)
    have "mc_inv S (set_producer i ((mk_txs c ! i)\<lparr>pr_pc := PTest v x\<rparr>) c)"
      by (rule ptx_local_keeps [OF inv i]) (use PLoad head in simp_all)
    then show ?thesis using step PLoad by (auto simp: ptx_micro_def Let_def split: if_splits)
  next
    case PWake
    obtain p tok where wk: "mpsc_wake_consumer (mk_shared c) (mk_tokens c) = ((mk_shared c)\<lparr>mp_consumer_parker := p\<rparr>, tok)"
      by (simp add: mpsc_wake_consumer_alt)
    let ?c = "c\<lparr>mk_shared := (mk_shared c)\<lparr>mp_consumer_parker := p\<rparr>, mk_tokens := tok\<rparr>"
    have "mc_inv S (ptx_return i (Ok ()) (mk_txs c ! i) ?c)"
      by (rule ptx_return_keeps [OF mc_inv_notified(1) [OF inv]]) (use i PWake head in simp_all)
    moreover have "r = Inr (ptx_return i (Ok ()) (mk_txs c ! i) ?c)" using step PWake wk by (simp add: ptx_micro_def)
    ultimately show ?thesis by blast
  qed (use step ptx_test_keeps [OF inv i _ step] ptx_cas_keeps [OF inv i _ step] ptx_write_keeps [OF inv i _ step]
      ptx_publish_keeps [OF inv i _ step] in \<open>simp_all add: ptx_micro_def\<close>)
qed

subsection \<open>The consumer\<close>

lemma mrx_pc_keeps:
  assumes "mc_inv S c"
    and "mrx_pc_ok S (length (mk_taken c)) (ready (mk_claimed c) (length (mk_taken c)) (mk_txs c)) (alive (mk_txs c) = 0) pc"
  shows "mc_inv S (c\<lparr>mk_rx_pc := pc\<rparr>)"
  using assms by (simp add: mc_inv_def)

lemma mrx_return_keeps:
  assumes "mc_inv S c" "S = length (mk_taken c)"
    and "r = MRetRecv (Err RecvDisconnected) \<Longrightarrow> alive (mk_txs c) = 0 \<and> mk_taken c = mk_claimed c"
  shows "mc_inv S (mrx_return r c)"
  using assms by (auto simp: mrx_return_def mc_inv_def mc_disc_def)

lemma mc_published:
  assumes inv: "mc_inv S c"
  shows "slot_published (mk_shared c) (mrx_head (mk_rx c)) = Inr (ready (mk_claimed c) (length (mk_taken c)) (mk_txs c))"
proof -
  let ?sh = "mk_shared c" and ?h = "length (mk_taken c)"
  have geo: "mpsc_geometry ?sh" using inv by (simp add: mc_inv_def)
  have sl: "slots_ok (mp_slots ?sh) (mk_claimed c) ?h (owned own_pending (mk_txs c)) (owned own_writing (mk_txs c))"
    using inv by (simp add: mc_inv_def mc_slots_def)
  have "mpsc_rounds ?sh ! (?h mod length (mp_slots ?sh)) = sl_round (mp_slots ?sh ! (?h mod length (mp_slots ?sh)))"
    using mc_cap(2) [OF inv] by (simp add: mpsc_rounds_def)
  with slots_ok_published [OF sl mc_cap(2) [OF inv]] show ?thesis
    by (simp add: slot_published_def slot_round_load_ok [OF geo] mpsc_round_of [OF geo] mc_unats(2) [OF inv] ready_def)
qed

lemma mrx_load_round_keeps:
  assumes inv: "mc_inv S c" and step: "mrx_load_round b none_pc some_pc c = Some r"
    and pcs: "\<And>rdy dead. mrx_pc_ok S (length (mk_taken c)) rdy dead none_pc"
      "\<And>dead. mrx_pc_ok S (length (mk_taken c)) True dead some_pc"
  shows "\<exists>c'. r = Inr c' \<and> mc_inv S c'"
proof -
  let ?rdy = "ready (mk_claimed c) (length (mk_taken c)) (mk_txs c)"
  have r: "r = Inr (c\<lparr>mk_rx_pc := (if b then some_pc else none_pc)\<rparr>)" and b: "b \<Longrightarrow> ?rdy"
    using step by (auto simp: mrx_load_round_def mc_published [OF inv] split: if_splits)
  have "mc_inv S (c\<lparr>mk_rx_pc := (if b then some_pc else none_pc)\<rparr>)"
    by (rule mrx_pc_keeps [OF inv]) (use pcs b in \<open>cases b; simp\<close>)
  with r show ?thesis by blast
qed

lemma producer_ok_taken:
  assumes "producer_ok S cap h claimed pr" "own_pending (pr_pc pr) \<noteq> Some h"
  shows "producer_ok S cap (Suc h) claimed pr"
  using assms by (cases "pr_pc pr") (auto simp: producer_ok_def)

lemma mrx_read_slot_keeps:
  assumes inv: "mc_inv S c" and step: "mrx_read_slot nxt c = Some r"
    and rdy: "ready (mk_claimed c) (length (mk_taken c)) (mk_txs c)"
    and pcs: "\<And>v rdy dead. mrx_pc_ok S (Suc (length (mk_taken c))) rdy dead (nxt v)"
  shows "\<exists>c'. r = Inr c' \<and> mc_inv S c'"
proof -
  let ?sh = "mk_shared c" and ?h = "length (mk_taken c)" and ?cl = "mk_claimed c" and ?txs = "mk_txs c"
  have sl: "slots_ok (mp_slots ?sh) ?cl ?h (owned own_pending ?txs) (owned own_writing ?txs)"
    and prods: "mc_producers S (unat (mp_cap ?sh)) ?h ?cl ?txs"
    using inv by (simp_all add: mc_inv_def mc_slots_def)
  have h: "?h < length ?cl" "?h \<notin> owned own_pending ?txs" using rdy by (simp_all add: ready_def)
  have cap: "length ?cl \<le> ?h + length (mp_slots ?sh)"
    using mc_unats(4,6) [OF inv] mc_cap(1) [OF inv] by simp
  obtain slots where w: "slot_value_with assume_init_read (mrx_head (mk_rx c) AND mp_mask ?sh) (mp_slots ?sh)
        = Inr (?cl ! ?h, slots)"
      "length slots = length (mp_slots ?sh)"
      "slots_ok slots ?cl (Suc ?h) (owned own_pending ?txs) (owned own_writing ?txs)"
    using slots_ok_read [OF sl h owned_writing_pending cap mc_cap(2) [OF inv], of "mrx_head (mk_rx c) AND mp_mask ?sh"]
      mc_index [OF inv, of "mrx_head (mk_rx c)"] mc_unats(2) [OF inv] by auto
  let ?c = "c\<lparr>mk_shared := ?sh\<lparr>mp_slots := slots\<rparr>, mk_rx := (mk_rx c)\<lparr>mrx_head := mrx_head (mk_rx c) + 1\<rparr>,
      mk_rx_pc := nxt (?cl ! ?h), mk_taken := mk_taken c @ [?cl ! ?h]\<rparr>"
  have r: "r = Inr ?c" using step w(1) by (simp add: mrx_read_slot_def Let_def)
  have "own_pending (pr_pc (?txs ! i)) \<noteq> Some ?h" if "i < length ?txs" for i
    using that h(2) by (auto simp: owned_def)
  then have pr: "mc_producers S (unat (mp_cap ?sh)) (Suc ?h) ?cl ?txs"
    using prods by (simp add: mc_producers_def producer_ok_taken)
  have k0: "mc_counters S ?sh (mk_rx c) ?cl (mk_taken c)" using inv by (simp add: mc_inv_def)
  then have "take (Suc ?h) ?cl = mk_taken c @ [?cl ! ?h]"
    using h(1) by (simp add: take_Suc_conv_app_nth mc_counters_def)
  with k0 h(1) have k: "mc_counters S (?sh\<lparr>mp_slots := slots\<rparr>) ((mk_rx c)\<lparr>mrx_head := mrx_head (mk_rx c) + 1\<rparr>) ?cl
      (mk_taken c @ [?cl ! ?h])"
    by (simp add: mc_counters_def)
  have "MRetRecv (Err RecvDisconnected) \<notin> set (mk_rx_log c)"
    using inv h(1) by (auto simp: mc_inv_def mc_disc_def)
  then have "mc_inv S ?c"
    using inv k pr w(2,3) pcs by (simp add: mc_inv_def mc_slots_def mc_senders_def mc_disc_def mpsc_geometry_def)
  with r show ?thesis by blast
qed

lemma producer_ok_head: "producer_ok S cap h claimed pr \<Longrightarrow> S \<le> S' \<Longrightarrow> producer_ok S' cap h claimed pr"
  by (auto simp: producer_ok_def)

lemma mrx_store_keeps:
  assumes inv: "mc_inv S c" and pc: "\<And>rdy dead. mrx_pc_ok (length (mk_taken c)) (length (mk_taken c)) rdy dead pc"
  shows "mc_inv (length (mk_taken c)) (c\<lparr>mk_shared := (mk_shared c)\<lparr>mp_head := mrx_head (mk_rx c)\<rparr>, mk_rx_pc := pc\<rparr>)"
proof -
  have o: "S \<le> length (mk_taken c)" using mc_unats(4) [OF inv] .
  then have "mc_producers (length (mk_taken c)) (unat (mp_cap (mk_shared c))) (length (mk_taken c)) (mk_claimed c) (mk_txs c)"
    using inv by (simp add: mc_inv_def mc_producers_def producer_ok_head [OF _ o])
  with inv pc o show ?thesis
    by (simp add: mc_inv_def mc_counters_def mc_slots_def mc_senders_def mpsc_geometry_def)
qed

lemma mrx_wake_keeps:
  assumes inv: "mc_inv S c" "S = length (mk_taken c)" and r: "r \<noteq> MRetRecv (Err RecvDisconnected)"
  shows "mc_inv S (mrx_wake r c)"
proof -
  obtain sh tok where wk: "mpsc_wake_producers (mk_shared c) (mk_tokens c) = (sh, tok)" by fastforce
  have "mc_inv S (c\<lparr>mk_shared := sh, mk_tokens := tok\<rparr>)"
    using wk inv(1) mc_inv_notified(2,3) [OF inv(1)] by (auto simp: mpsc_wake_producers_alt split: if_splits)
  from mrx_return_keeps [OF this, of r] inv r show ?thesis by (simp add: mrx_wake_def wk)
qed

lemma mrx_reload_keeps:
  assumes inv: "mc_inv S c" and pc: "mk_rx_pc c = MReload" and step: "mrx_micro b p c = Some r"
  shows "\<exists>c'. r = Inr c' \<and> mc_inv S c'"
proof -
  have S: "S = length (mk_taken c)" and dead: "alive (mk_txs c) = 0" using inv pc by (simp_all add: mc_inv_def)
  have "own_pending (pr_pc (mk_txs c ! i)) = None" if "i < length (mk_txs c)" for i
    using dead alive_pos [OF that] by fastforce
  then have own: "owned own_pending (mk_txs c) = {}" by (auto simp: owned_def)
  show ?thesis
  proof (cases "ready (mk_claimed c) (length (mk_taken c)) (mk_txs c)")
    case True
    have "mc_inv S (c\<lparr>mk_rx_pc := MRead\<rparr>)" by (rule mrx_pc_keeps [OF inv]) (use True S in simp)
    moreover have "r = Inr (c\<lparr>mk_rx_pc := MRead\<rparr>)"
      using step pc True by (simp add: mrx_micro_def Let_def mc_published [OF inv])
    ultimately show ?thesis by blast
  next
    case False
    then have "length (mk_claimed c) = length (mk_taken c)"
      using mc_unats(5) [OF inv] own by (simp add: ready_def)
    then have "mk_taken c = mk_claimed c"
      using inv by (simp add: mc_inv_def mc_counters_def)
    then have "mc_inv S (mrx_return (MRetRecv (Err RecvDisconnected)) c)"
      using mrx_return_keeps [OF inv S] dead by simp
    moreover have "r = Inr (mrx_return (MRetRecv (Err RecvDisconnected)) c)"
      using step pc False by (simp add: mrx_micro_def Let_def mc_published [OF inv])
    ultimately show ?thesis by blast
  qed
qed

lemma mrx_senders_keeps:
  assumes inv: "mc_inv S c" and pc: "mk_rx_pc c = MSenders" and step: "mrx_micro b p c = Some r"
  shows "\<exists>c'. r = Inr c' \<and> mc_inv S c'"
proof (cases b)
  have S: "S = length (mk_taken c)" using inv pc by (simp add: mc_inv_def)
  case True
  with step pc have z: "mp_senders (mk_shared c) = 0" and r: "r = Inr (c\<lparr>mk_rx_pc := MReload\<rparr>)"
    by (auto simp: mrx_micro_def Let_def split: if_splits)
  have s: "mp_senders (mk_shared c) = of_nat (alive (mk_txs c))" "length (mk_txs c) < 2 ^ 64"
    using inv by (simp_all add: mc_inv_def mc_senders_def)
  have "alive (mk_txs c) \<le> length (mk_txs c)" by (simp add: alive_def)
  then have "unat (mp_senders (mk_shared c)) = alive (mk_txs c)" unfolding s(1) using s(2) by (intro unat_of_nat_small) simp
  then have "alive (mk_txs c) = 0" using z by simp
  then have "mc_inv S (c\<lparr>mk_rx_pc := MReload\<rparr>)" using S by (intro mrx_pc_keeps [OF inv]) simp
  with r show ?thesis by blast
next
  have S: "S = length (mk_taken c)" using inv pc by (simp add: mc_inv_def)
  case False
  with step pc have "r = Inr (mrx_return (MRetRecv (Err Empty)) c)" by (simp add: mrx_micro_def Let_def)
  moreover have "mc_inv S (mrx_return (MRetRecv (Err Empty)) c)" by (rule mrx_return_keeps [OF inv S]) simp
  ultimately show ?thesis by blast
qed

lemma mrx_return_idle: "mrx_return r (c\<lparr>mk_rx_pc := MIdle\<rparr>) = mrx_return r c"
  by (simp add: mrx_return_def)

lemma mrx_guard_keeps:
  assumes inv: "mc_inv S c" and pc: "mk_rx_pc c = MGuard panicked count start" and step: "mrx_micro b p c = Some r"
  shows "\<exists>c' S'. r = Inr c' \<and> mc_inv S' c'"
proof -
  let ?h = "length (mk_taken c)"
  let ?c = "c\<lparr>mk_shared := mpsc_publish_guard_drop start (mrx_head (mk_rx c)) (mk_shared c)\<rparr>"
  note u = mc_unats [OF inv]
  have "start = mp_head (mk_shared c)" using inv pc by (simp add: mc_inv_def mc_counters_def)
  then have eq: "mrx_head (mk_rx c) \<noteq> start \<longleftrightarrow> S \<noteq> ?h" using u(2,3) by (metis word_unat_eq_iff)
  have i: "mc_inv ?h (?c\<lparr>mk_rx_pc := nxt\<rparr>)" if n: "\<And>rdy dead. mrx_pc_ok ?h ?h rdy dead nxt" for nxt
  proof (cases "S = ?h")
    case True
    then have "mc_inv ?h (c\<lparr>mk_rx_pc := nxt\<rparr>)" using mrx_pc_keeps [OF inv, of nxt] n by simp
    moreover have "?c\<lparr>mk_rx_pc := nxt\<rparr> = c\<lparr>mk_rx_pc := nxt\<rparr>"
      using True eq by (simp add: mpsc_publish_guard_drop_def)
    ultimately show ?thesis by simp
  next
    case False
    then have "mpsc_publish_guard_drop start (mrx_head (mk_rx c)) (mk_shared c) = (mk_shared c)\<lparr>mp_head := mrx_head (mk_rx c)\<rparr>"
      using eq by (simp add: mpsc_publish_guard_drop_def)
    with mrx_store_keeps [OF inv n] show ?thesis by simp
  qed
  have j: "mc_inv ?h (?c\<lparr>mk_rx_pc := MIdle\<rparr>)" by (rule i) simp
  have "mc_inv ?h (mrx_return (MRetDrain e) (?c\<lparr>mk_rx_pc := MIdle\<rparr>))" for e
    by (rule mrx_return_keeps [OF j]) simp_all
  then have "mc_inv ?h (mrx_return (MRetDrain e) ?c)" for e unfolding mrx_return_idle .
  moreover have "mc_inv ?h (?c\<lparr>mk_rx_pc := MDrainWake count\<rparr>)" by (rule i) simp
  moreover have "r = Inr (if panicked then mrx_return (MRetDrain Unwound) ?c
      else if count > 0 then ?c\<lparr>mk_rx_pc := MDrainWake count\<rparr> else mrx_return (MRetDrain (Returned count)) ?c)"
    using step pc by (simp add: mrx_micro_def Let_def)
  ultimately show ?thesis by (cases panicked; cases "count > 0") auto
qed

lemma mrx_micro_keeps:
  assumes inv: "mc_inv S c" and step: "mrx_micro b p c = Some r"
  shows "\<exists>c' S'. r = Inr c' \<and> mc_inv S' c'"
proof (cases "mk_rx_pc c")
  case MTest
  have run: "mrx_load_round b MSenders MRead c = Some r" using step MTest by (simp add: mrx_micro_def)
  have "S = length (mk_taken c)" using inv MTest by (simp add: mc_inv_def)
  then have "\<exists>c'. r = Inr c' \<and> mc_inv S c'" by (intro mrx_load_round_keeps [OF inv run]) simp_all
  then show ?thesis by blast
next
  case MSenders
  from mrx_senders_keeps [OF inv this step] show ?thesis by blast
next
  case MReload
  from mrx_reload_keeps [OF inv this step] show ?thesis by blast
next
  case MRead
  have run: "mrx_read_slot MPublish c = Some r" using step MRead by (simp add: mrx_micro_def)
  have "ready (mk_claimed c) (length (mk_taken c)) (mk_txs c)" using inv MRead by (simp add: mc_inv_def)
  then have "\<exists>c'. r = Inr c' \<and> mc_inv S c'" by (intro mrx_read_slot_keeps [OF inv run]) simp_all
  then show ?thesis by blast
next
  case (MPublish v)
  have "mc_inv (length (mk_taken c)) (c\<lparr>mk_shared := (mk_shared c)\<lparr>mp_head := mrx_head (mk_rx c)\<rparr>, mk_rx_pc := MWake v\<rparr>)"
    by (rule mrx_store_keeps [OF inv]) simp
  with step MPublish show ?thesis by (auto simp: mrx_micro_def Let_def)
next
  case (MWake v)
  have "S = length (mk_taken c)" using inv MWake by (simp add: mc_inv_def)
  with mrx_wake_keeps [OF inv, of "MRetRecv (Ok v)"] step MWake show ?thesis by (auto simp: mrx_micro_def)
next
  case (MLoop mx count start)
  then have s: "start = of_nat S" using inv by (simp add: mc_inv_def)
  show ?thesis
  proof (cases "count < mx")
    case True
    with step MLoop have run: "mrx_load_round b (MGuard False count start) (MTake mx count start) c = Some r"
      by (simp add: mrx_micro_def)
    have "\<exists>c'. r = Inr c' \<and> mc_inv S c'" by (rule mrx_load_round_keeps [OF inv run]) (use s in simp_all)
    then show ?thesis by blast
  next
    case False
    have "mc_inv S (c\<lparr>mk_rx_pc := MGuard False count start\<rparr>)" by (rule mrx_pc_keeps [OF inv]) (use s in simp)
    with False step MLoop show ?thesis by (auto simp: mrx_micro_def)
  qed
next
  case (MTake mx count start)
  let ?nxt = "\<lambda>_. if p then MGuard True (count + 1) start else MLoop mx (count + 1) start"
  from MTake have s: "start = of_nat S" "ready (mk_claimed c) (length (mk_taken c)) (mk_txs c)"
    using inv by (simp_all add: mc_inv_def)
  have run: "mrx_read_slot ?nxt c = Some r" using step MTake by (simp add: mrx_micro_def)
  have "\<exists>c'. r = Inr c' \<and> mc_inv S c'" by (rule mrx_read_slot_keeps [OF inv run s(2)]) (use s in simp)
  then show ?thesis by blast
next
  case (MGuard panicked count start)
  from mrx_guard_keeps [OF inv this step] show ?thesis by blast
next
  case (MDrainWake count)
  have "S = length (mk_taken c)" using inv MDrainWake by (simp add: mc_inv_def)
  with mrx_wake_keeps [OF inv, of "MRetDrain (Returned count)"] step MDrainWake show ?thesis by (auto simp: mrx_micro_def)
qed (use step in \<open>simp_all add: mrx_micro_def\<close>)

subsection \<open>Handles come and go\<close>

lemma alive_update_dead:
  "i < length txs \<Longrightarrow> pr_pc (txs ! i) \<noteq> PDead \<Longrightarrow> pr_pc pr = PDead \<Longrightarrow> Suc (alive (txs[i := pr])) = alive txs"
proof (induction txs arbitrary: i)
  case (Cons a txs)
  then show ?case by (cases i) (auto simp: alive_def)
qed simp

lemma pdrop_keeps:
  assumes inv: "mc_inv S c" and idle: "producer_idle i c" and step: "mpsc_micro (PDrop i) c = Some r"
  shows "\<exists>c'. r = Inr c' \<and> mc_inv S c'"
proof -
  let ?txs = "mk_txs c" and ?pr = "(mk_txs c ! i)\<lparr>pr_pc := PDead\<rparr>"
  have i: "i < length ?txs" and pc: "pr_pc (?txs ! i) = PIdle" using idle by (simp_all add: producer_idle_def)
  obtain sh tok where d: "mpsc_sender_drop (mk_shared c) (mk_tokens c) = (sh, tok)" by fastforce
  have alv: "Suc (alive (?txs[i := ?pr])) = alive ?txs" using i pc by (intro alive_update_dead) simp_all
  let ?sh = "(mk_shared c)\<lparr>mp_senders := mp_senders (mk_shared c) - 1\<rparr>"
  let ?c = "set_producer i ?pr (c\<lparr>mk_shared := ?sh\<rparr>)"
  have own: "owned own_pending (?txs[i := ?pr]) = owned own_pending ?txs"
    "owned own_writing (?txs[i := ?pr]) = owned own_writing ?txs"
    using i pc by (simp_all add: owned_same)
  have prods: "mc_producers S (unat (mp_cap (mk_shared c))) (length (mk_taken c)) (mk_claimed c) (?txs[i := ?pr])"
    by (rule mc_producers_update [OF _ i]) (use inv mc_producer [OF inv i] in \<open>simp_all add: mc_inv_def producer_ok_def\<close>)
  have "mp_senders (mk_shared c) = of_nat (alive ?txs)" "length ?txs < 2 ^ 64"
    using inv by (simp_all add: mc_inv_def mc_senders_def)
  then have snd: "mc_senders ?sh (?txs[i := ?pr])" by (simp add: mc_senders_def flip: alv)
  have rx: "mrx_pc_ok S (length (mk_taken c)) (ready (mk_claimed c) (length (mk_taken c)) ?txs) d (mk_rx_pc c)" for d
    using inv alv by (cases "mk_rx_pc c") (auto simp: mc_inv_def)
  have "mc_inv S ?c"
    using inv own prods snd rx alv
    by (auto simp: set_producer_def mc_inv_def mc_counters_def mc_slots_def mc_disc_def ready_def mpsc_geometry_def)
  moreover obtain p where p: "sh = ?sh\<lparr>mp_consumer_parker := p\<rparr>"
  proof (cases "mp_senders (mk_shared c) = 1")
    case True
    then show thesis
      using d that [of "fst (wake (mp_consumer_parker (mk_shared c)) (mk_tokens c))"]
      by (simp add: mpsc_sender_drop_def Let_def mpsc_wake_consumer_alt)
  next
    case False
    then show thesis
      using d that [of "mp_consumer_parker (mk_shared c)"] by (auto simp: mpsc_sender_drop_def Let_def)
  qed
  moreover have "set_producer i ?pr (c\<lparr>mk_shared := sh, mk_tokens := tok\<rparr>) = ?c\<lparr>mk_shared := sh, mk_tokens := tok\<rparr>"
    by (simp add: set_producer_def)
  moreover have "mk_shared ?c = ?sh" by (simp add: set_producer_def)
  ultimately have "mc_inv S (set_producer i ?pr (c\<lparr>mk_shared := sh, mk_tokens := tok\<rparr>))"
    using mc_inv_notified(1) [of S ?c tok p] by (simp only:)
  with step idle d show ?thesis by auto
qed

lemma pclone_keeps:
  assumes inv: "mc_inv S c" and step: "mpsc_micro (PClone i) c = Some r"
  shows "\<exists>c'. r = Inr c' \<and> mc_inv S c'"
proof -
  let ?pr = "\<lparr>pr_tx = \<lparr>mtx_cached_head = 0\<rparr>, pr_pc = PIdle, pr_log = []\<rparr>" and ?txs = "mk_txs c"
  let ?sh = "(mk_shared c)\<lparr>mp_senders := mp_senders (mk_shared c) + 1\<rparr>"
  let ?c = "c\<lparr>mk_shared := ?sh, mk_txs := ?txs @ [?pr]\<rparr>"
  have idle: "producer_idle i c" and len: "length ?txs < 2 ^ 64 - 1" and r: "r = Inr ?c"
    using step by (auto simp: mpsc_sender_clone_def split: if_splits)
  have i: "i < length ?txs" "pr_pc (?txs ! i) \<noteq> PDead" using idle by (auto simp: producer_idle_def)
  have alv: "alive (?txs @ [?pr]) = Suc (alive ?txs)" "alive ?txs \<noteq> 0" using alive_pos [OF i] by (simp_all add: alive_def)
  have own: "owned f (?txs @ [?pr]) = owned f ?txs" if "f PIdle = None" for f
    using that by (simp add: owned_append)
  have "mc_producers S (unat (mp_cap (mk_shared c))) (length (mk_taken c)) (mk_claimed c) ?txs"
    using inv by (simp add: mc_inv_def)
  then have prods: "mc_producers S (unat (mp_cap (mk_shared c))) (length (mk_taken c)) (mk_claimed c) (?txs @ [?pr])"
    by (auto simp: mc_producers_def nth_append less_Suc_eq producer_ok_def intro: distinct_owners_append)
  have rx: "mrx_pc_ok S (length (mk_taken c)) (ready (mk_claimed c) (length (mk_taken c)) ?txs) False (mk_rx_pc c)"
    using inv alv(2) by (simp add: mc_inv_def)
  have "mc_inv S ?c"
    using inv prods rx alv own len
    by (simp add: mc_inv_def mc_counters_def mc_slots_def mc_disc_def mc_senders_def ready_def mpsc_geometry_def)
  with r show ?thesis by blast
qed

lemma mpsc_micro_keeps:
  assumes inv: "mc_inv S c" and step: "mpsc_micro a c = Some r"
  shows "\<exists>c' S'. r = Inr c' \<and> mc_inv S' c'"
proof (cases a)
  case (PCall i v)
  have idle: "i < length (mk_txs c)" "pr_pc (mk_txs c ! i) = PIdle"
    and r: "r = Inr (set_producer i ((mk_txs c ! i)\<lparr>pr_pc := PCheck v\<rparr>) c)"
    using PCall step by (auto simp: producer_idle_def split: if_splits)
  have "mc_inv S (set_producer i ((mk_txs c ! i)\<lparr>pr_pc := PCheck v\<rparr>) c)"
    by (rule ptx_local_keeps [OF inv idle(1)]) (use idle mc_producer [OF inv idle(1)] in \<open>simp_all add: producer_ok_def\<close>)
  with r show ?thesis by blast
next
  case (PClone i)
  with pclone_keeps [OF inv] step show ?thesis by blast
next
  case (PDrop i)
  with step have "producer_idle i c" by (auto split: if_splits)
  with pdrop_keeps [OF inv] step PDrop show ?thesis by blast
next
  case (PStep i x b)
  then have "i < length (mk_txs c)" "ptx_micro i x b c = Some r" using step by (auto split: if_splits)
  from ptx_micro_keeps [OF inv this] show ?thesis by blast
next
  case MCall
  then have pc: "mk_rx_pc c = MIdle" and r: "r = Inr (c\<lparr>mk_rx_pc := MTest\<rparr>)" using step by (auto split: if_splits)
  have "mc_inv S (c\<lparr>mk_rx_pc := MTest\<rparr>)" by (rule mrx_pc_keeps [OF inv]) (use inv pc in \<open>simp add: mc_inv_def\<close>)
  with r show ?thesis by blast
next
  case (MDrainCall mx)
  let ?c = "c\<lparr>mk_rx_pc := MLoop mx 0 (mrx_head (mk_rx c))\<rparr>"
  have pc: "mk_rx_pc c = MIdle" and r: "r = Inr ?c" using MDrainCall step by (auto split: if_splits)
  have "mc_inv S ?c" by (rule mrx_pc_keeps [OF inv]) (use inv pc in \<open>simp add: mc_inv_def mc_counters_def\<close>)
  with r show ?thesis by blast
next
  case MDrop
  let ?sh = "(mk_shared c)\<lparr>mp_rx_dropped := True\<rparr>"
  have pc: "mk_rx_pc c = MIdle" using MDrop step by (auto split: if_splits)
  obtain w tok where w: "wake_all (mp_prod_waiters (mk_shared c)) (mk_tokens c) = (w, tok)" by fastforce
  have S: "S = length (mk_taken c)" using inv pc by (simp add: mc_inv_def)
  let ?c = "c\<lparr>mk_shared := ?sh, mk_rx_pc := MDead\<rparr>"
  have "mc_inv S ?c"
    using inv pc unfolding S by (simp add: mc_inv_def mc_counters_def mc_slots_def mc_senders_def mpsc_geometry_def)
  then have "mc_inv S (?c\<lparr>mk_shared := (mk_shared ?c)\<lparr>mp_prod_waiters := w\<rparr>, mk_tokens := tok\<rparr>)"
    by (rule mc_inv_notified)
  moreover have "r = Inr (?c\<lparr>mk_shared := (mk_shared ?c)\<lparr>mp_prod_waiters := w\<rparr>, mk_tokens := tok\<rparr>)"
    using step MDrop pc w by (auto simp: mpsc_receiver_drop_def Let_def)
  ultimately show ?thesis by blast
next
  case (MStep b p)
  with step mrx_micro_keeps [OF inv, of b p r] show ?thesis by simp
qed

lemma mc_inv_init:
  assumes "mpsc_conc_init cap strategy = Inr c"
  shows "mc_inv 0 c" "mp_cap (mk_shared c) = cap"
proof -
  have cap: "is_power_of_two cap" using assms by (auto simp: mpsc_conc_init_def mpsc_channel_def)
  let ?sh = "\<lparr>mp_slots = replicate (unat cap) \<lparr>sl_round = - 1, sl_value = Uninit\<rparr>, mp_mask = cap - 1, mp_cap = cap,
      mp_shift = trailing_zeros cap, mp_claim = 0, mp_head = 0, mp_senders = 1, mp_rx_dropped = False,
      mp_consumer_parker = parker_new, mp_prod_waiters = waiter_list_new, mp_strategy = strategy\<rparr>"
  let ?txs = "[\<lparr>pr_tx = \<lparr>mtx_cached_head = 0\<rparr>, pr_pc = PIdle, pr_log = []\<rparr>]"
  have ch: "mpsc_channel cap strategy = Inr (?sh, \<lparr>mtx_cached_head = 0\<rparr>, \<lparr>mrx_head = 0\<rparr>)"
    using push_bit_trailing_zeros [OF cap] cap unfolding mpsc_channel_def Let_def by (simp add: assert_cap_cases)
  have c: "c = \<lparr>mk_shared = ?sh, mk_txs = ?txs, mk_rx = \<lparr>mrx_head = 0\<rparr>, mk_rx_pc = MIdle, mk_tokens = {},
      mk_claimed = [], mk_taken = [], mk_rx_log = []\<rparr>"
    using assms unfolding mpsc_conc_init_def ch by simp
  show "mp_cap (mk_shared c) = cap" by (simp add: c)
  have own: "owned f ?txs = {}" if "f PIdle = None" for f :: "'a ptx_pc \<Rightarrow> nat option"
    using that by (simp add: owned_def)
  have "slots_ok (replicate (unat cap) \<lparr>sl_round = - 1, sl_value = Uninit\<rparr>) [] 0 {} {}"
    by (rule slots_okI) (simp add: slot_ok_def)
  then show "mc_inv 0 c"
    using cap
    by (simp add: c mc_inv_def mc_counters_def mc_slots_def own mc_producers_def distinct_owners_def producer_ok_def
        mc_senders_def alive_def mc_disc_def mpsc_geometry_def)
qed

lemma mpsc_micro_cap:
  assumes "mpsc_micro a c = Some (Inr c')"
  shows "mp_cap (mk_shared c') = mp_cap (mk_shared c)"
proof (cases a)
  case (PStep i x b)
  with assms show ?thesis
    by (cases "pr_pc (mk_txs c ! i)")
      (auto simp: ptx_micro_def Let_def ptx_return_def set_producer_def mpsc_wake_consumer_alt
        split: if_splits sum.splits)
next
  case (MStep b p)
  with assms show ?thesis
    by (cases "mk_rx_pc c")
      (auto simp: mrx_micro_def Let_def mrx_return_def mrx_load_round_def mrx_read_slot_def mrx_wake_def
        mpsc_wake_producers_alt mpsc_publish_guard_drop_def split: if_splits sum.splits)
qed (use assms in \<open>auto simp: set_producer_def mpsc_sender_clone_def mpsc_sender_drop_def mpsc_receiver_drop_def
    mpsc_wake_consumer_alt Let_def case_prod_unfold split: if_splits\<close>)

interpretation mpsc_machine: safe_machine "\<lambda>c. mpsc_conc_init cap strategy = Inr c" mpsc_micro
    "\<lambda>c. (\<exists>S. mc_inv S c) \<and> mp_cap (mk_shared c) = cap" for cap strategy
proof unfold_locales
  fix c :: "'a mpsc_conc"
  assume "mpsc_conc_init cap strategy = Inr c"
  then show "(\<exists>S. mc_inv S c) \<and> mp_cap (mk_shared c) = cap" using mc_inv_init by blast
next
  fix c :: "'a mpsc_conc" and a r
  assume inv: "(\<exists>S. mc_inv S c) \<and> mp_cap (mk_shared c) = cap" and step: "mpsc_micro a c = Some r"
  then obtain c' where "r = Inr c'" "\<exists>S. mc_inv S c'" using mpsc_micro_keeps by blast
  with inv step mpsc_micro_cap [of a c c']
  show "\<exists>c'. r = Inr c' \<and> (\<exists>S. mc_inv S c') \<and> mp_cap (mk_shared c') = cap" by auto
qed

lemmas mpsc_reachable_inv = mpsc_machine.reachable_inv

lemma mpsc_reachable_fifo:
  assumes "mpsc_reachable cap strategy c"
  shows "\<exists>rest. mk_claimed c = mk_taken c @ rest \<and> length rest \<le> unat cap \<and>
     (mk_rx_pc c = MRead \<longrightarrow> rest \<noteq> [] \<and>
        (\<forall>i < length (mk_txs c). own_pending (pr_pc (mk_txs c ! i)) \<noteq> Some (length (mk_taken c))))"
proof -
  obtain S where inv: "mc_inv S c" and cap: "mp_cap (mk_shared c) = cap" using mpsc_reachable_inv [OF assms] by blast
  let ?rest = "drop (length (mk_taken c)) (mk_claimed c)"
  have "take (length (mk_taken c)) (mk_claimed c) = mk_taken c" using inv by (simp add: mc_inv_def mc_counters_def)
  then have "mk_claimed c = mk_taken c @ ?rest" by (metis append_take_drop_id)
  moreover have "length ?rest \<le> unat cap" using mc_unats(4,6) [OF inv] cap by simp
  moreover have "ready (mk_claimed c) (length (mk_taken c)) (mk_txs c)" if "mk_rx_pc c = MRead"
    using that inv by (simp add: mc_inv_def)
  ultimately show ?thesis by (intro exI [of _ ?rest]) (auto simp: ready_def owned_def)
qed

lemma mpsc_reachable_gone:
  assumes "mpsc_reachable cap strategy c" "MRetRecv (Err RecvDisconnected) \<in> set (mk_rx_log c)"
  shows "(\<forall>pr \<in> set (mk_txs c). pr_pc pr = PDead) \<and> mk_taken c = mk_claimed c"
  using mpsc_reachable_inv [OF assms(1)] assms(2)
  by (auto simp: mc_inv_def mc_disc_def alive_def filter_empty_conv)

section \<open>What every interleaving guarantees\<close>

text \<open>
  C21: no interleaving of any number of producers with the consumer faults: whatever the loads
  return, however often an exchange fails, and whether or not a drain's closure panics, no step
  overwrites a live slot, reads one that is not live, or indexes out of bounds.
\<close>

theorem mpsc_concurrent_no_fault:
  assumes "mpsc_reachable cap strategy c" "mpsc_micro a c = Some r"
  shows "\<exists>c'. r = Inr c' \<and> mpsc_reachable cap strategy c'"
  using assms by (rule mpsc_machine.no_fault)

theorem mpsc_concurrent_no_fault_witness:
  "\<exists>c c'. mpsc_reachable 2 BusySpin c \<and> pr_pc (mk_txs c ! 1) = PWrite (7 :: nat) 0
     \<and> mpsc_micro (PStep 1 0 False) c = Some (Inr c') \<and> mpsc_reachable 2 BusySpin c'"
proof -
  have "mpsc_schedule_reaches 2 BusySpin
      [PClone 0, PCall 1 7, PStep 1 0 False, PStep 1 0 False, PStep 1 0 False, PStep 1 0 False]
      (\<lambda>c. length (mk_txs c) = 2 \<and> pr_pc (mk_txs c ! 1) = PWrite (7 :: nat) 0)"
    by code_simp
  then obtain c where c: "mpsc_reachable 2 BusySpin c" "length (mk_txs c) = 2" "pr_pc (mk_txs c ! 1) = PWrite (7 :: nat) 0"
    using run_reachesD by blast
  then obtain r where "mpsc_micro (PStep 1 0 False) c = Some r" by (simp add: ptx_micro_def Let_def)
  with mpsc_concurrent_no_fault [OF c(1) this] c show ?thesis by blast
qed



text \<open>
  C23: no data race. A producer about to write its slot shares it with no other producer about to
  write, and not with the consumer about to read: each claimed sequence number has one owner.
\<close>

theorem mpsc_no_data_race:
  assumes "mpsc_reachable cap strategy c" "i < length (mk_txs c)" "pr_pc (mk_txs c ! i) = PWrite v seq"
  shows "(\<forall>j w seq'. j < length (mk_txs c) \<longrightarrow> j \<noteq> i \<longrightarrow> pr_pc (mk_txs c ! j) = PWrite w seq' \<longrightarrow>
            seq' AND mp_mask (mk_shared c) \<noteq> seq AND mp_mask (mk_shared c))
     \<and> (mk_rx_pc c = MRead \<or> (\<exists>mx count start. mk_rx_pc c = MTake mx count start) \<longrightarrow>
            mrx_head (mk_rx c) AND mp_mask (mk_shared c) \<noteq> seq AND mp_mask (mk_shared c))"
proof -
  obtain S where inv: "mc_inv S c" using mpsc_reachable_inv [OF assms(1)] by blast
  let ?n = "length (mp_slots (mk_shared c))" and ?h = "length (mk_taken c)"
  have ow: "own_pending (pr_pc (mk_txs c ! i)) = Some (unat seq)" using assms(3) by simp
  note b = mc_owner [OF inv assms(2) ow]
  have differ: "x AND mp_mask (mk_shared c) \<noteq> seq AND mp_mask (mk_shared c)"
    if "unat x \<noteq> unat seq" "?h \<le> unat x" "unat x < ?h + ?n" for x
  proof -
    have "unat x mod ?n \<noteq> unat seq mod ?n" using that b by (intro mod_neq_within_lap) auto
    then have "unat (x AND mp_mask (mk_shared c)) \<noteq> unat (seq AND mp_mask (mk_shared c))"
      by (simp only: mc_index [OF inv] not_False_eq_True)
    then show ?thesis by metis
  qed
  show ?thesis
  proof (intro conjI allI impI)
    fix j w seq'
    assume j: "j < length (mk_txs c)" "j \<noteq> i" "pr_pc (mk_txs c ! j) = PWrite w seq'"
    then have ow': "own_pending (pr_pc (mk_txs c ! j)) = Some (unat seq')" by simp
    have "distinct_owners (mk_txs c)" using inv by (simp add: mc_inv_def mc_producers_def)
    then have "unat seq' \<noteq> unat seq" using j assms(2) ow ow' unfolding distinct_owners_def by metis
    with mc_owner [OF inv j(1) ow'] show "seq' AND mp_mask (mk_shared c) \<noteq> seq AND mp_mask (mk_shared c)"
      by (intro differ) auto
  next
    assume "mk_rx_pc c = MRead \<or> (\<exists>mx count start. mk_rx_pc c = MTake mx count start)"
    then have "ready (mk_claimed c) ?h (mk_txs c)" using inv by (auto simp: mc_inv_def)
    then have "?h \<noteq> unat seq" using b(4) by (auto simp: ready_def)
    then show "mrx_head (mk_rx c) AND mp_mask (mk_shared c) \<noteq> seq AND mp_mask (mk_shared c)"
      using mc_cap(2) [OF inv] by (intro differ) (simp_all add: mc_unats(2) [OF inv])
  qed
qed

theorem mpsc_no_data_race_witness:
  "\<exists>c. mpsc_reachable 2 BusySpin c \<and> pr_pc (mk_txs c ! 0) = PWrite (7 :: nat) 1 \<and> pr_pc (mk_txs c ! 1) = PWrite 8 0
     \<and> (0 :: usize) AND mp_mask (mk_shared c) \<noteq> 1 AND mp_mask (mk_shared c)"
proof -
  have "mpsc_schedule_reaches 2 BusySpin
      [PClone 0, PCall 0 7, PCall 1 8, PStep 0 0 False, PStep 0 0 False, PStep 0 0 False,
       PStep 1 0 False, PStep 1 0 False, PStep 1 0 False, PStep 1 0 False,
       PStep 0 1 False, PStep 0 0 False, PStep 0 1 False]
      (\<lambda>c. length (mk_txs c) = 2 \<and> pr_pc (mk_txs c ! 0) = PWrite (7 :: nat) 1 \<and> pr_pc (mk_txs c ! 1) = PWrite 8 0)"
    by code_simp
  then obtain c where c: "mpsc_reachable 2 BusySpin c" "length (mk_txs c) = 2"
    "pr_pc (mk_txs c ! 0) = PWrite (7 :: nat) 1" "pr_pc (mk_txs c ! 1) = PWrite 8 0"
    using run_reachesD by blast
  from mpsc_no_data_race [OF c(1) _ c(3)] c show ?thesis by (metis one_less_numeral_iff zero_less_numeral semiring_norm(76) zero_neq_one)
qed

text \<open>
  C24: \<^verbatim>\<open>Disconnected\<close> is never early. If some \<^verbatim>\<open>try_recv\<close> has returned \<^verbatim>\<open>Disconnected\<close>, every producer is
  gone and every claimed value was taken, although producers may have published their last
  values and dropped their handles between the consumer's loads.
\<close>

theorem mpsc_disconnected_is_final:
  assumes "mpsc_reachable cap strategy c" "MRetRecv (Err RecvDisconnected) \<in> set (mk_rx_log c)"
  shows "(\<forall>pr \<in> set (mk_txs c). pr_pc pr = PDead) \<and> mk_taken c = mk_claimed c"
  using assms by (rule mpsc_reachable_gone)

theorem mpsc_disconnected_is_final_witness:
  "\<exists>c. mpsc_reachable 2 BusySpin c \<and> mk_claimed c = [7 :: nat] \<and> length (mk_txs c) = 2
     \<and> (\<forall>pr \<in> set (mk_txs c). pr_pc pr = PDead) \<and> mk_taken c = mk_claimed c"
proof -
  have "mpsc_schedule_reaches 2 BusySpin
      [PClone 0, PDrop 0, MCall, MStep False False, PCall 1 7, PStep 1 0 False, PStep 1 0 False, PStep 1 0 False,
       PStep 1 0 False, PStep 1 0 False, PStep 1 0 False, PDrop 1,
       MStep True False, MStep False False, MStep False False, MStep False False, MStep False False,
       MCall, MStep False False, MStep True False, MStep False False]
      (\<lambda>c. mk_claimed c = [7 :: nat] \<and> length (mk_txs c) = 2 \<and> MRetRecv (Err RecvDisconnected) \<in> set (mk_rx_log c))"
    by code_simp
  then obtain c where c: "mpsc_reachable 2 BusySpin c" "mk_claimed c = [7 :: nat]" "length (mk_txs c) = 2"
    "MRetRecv (Err RecvDisconnected) \<in> set (mk_rx_log c)"
    using run_reachesD by blast
  from mpsc_disconnected_is_final [OF c(1,4)] c show ?thesis by blast
qed

end
