(* ===== verification/Mpsc_Undisturbed.thy ===== *)
theory Mpsc_Undisturbed
  imports Mpsc_Concurrent
begin

text \<open>
  The step machine of \<open>Mpsc_Concurrent\<close> against the sequential methods of \<open>Mpsc\<close>: a call that runs without
  interference, each load current and no exchange failing spuriously, does what \<open>mpsc_try_send\<close> or
  \<open>mpsc_try_recv\<close> computes from the same state, whatever other producers are in the middle of.
\<close>

section \<open>A producer alone\<close>

definition send_alone :: "nat \<Rightarrow> 'a \<Rightarrow> 'a mpsc_shared \<Rightarrow> 'a mconc_action list" where
  "send_alone i v sh =
     [PCall i v, PStep i 0 (mp_rx_dropped sh), PStep i (mp_claim sh) False, PStep i (mp_head sh) False]
     @ replicate 4 (PStep i 0 False)"

text \<open>What the machine has to have done when the call is over.\<close>

definition sent_as :: "nat \<Rightarrow> 'a \<Rightarrow> 'a mpsc_conc \<Rightarrow> 'a mpsc_conc \<Rightarrow> bool" where
  "sent_as i v c c' \<longleftrightarrow>
     (\<exists>r. mpsc_try_send 0 v (mk_shared c) (pr_tx (mk_txs c ! i)) (mk_tokens c)
            = Inr (r, mk_shared c', pr_tx (mk_txs c' ! i), mk_tokens c')
        \<and> pr_pc (mk_txs c' ! i) = PIdle \<and> pr_log (mk_txs c' ! i) = pr_log (mk_txs c ! i) @ [r]
        \<and> (\<forall>j. j \<noteq> i \<longrightarrow> mk_txs c' ! j = mk_txs c ! j) \<and> mk_rx_pc c' = mk_rx_pc c)"

text \<open>The steps from the exchange on: the claim, the payload, the round and the wake.\<close>

lemma send_alone_claimed:
  assumes r: "mpsc_reachable cap strategy c" and i: "i < length (mk_txs c)"
    and pc: "pr_pc (mk_txs c ! i) = PCas v (mp_claim (mk_shared c))"
  shows "\<exists>k c'. k \<le> 4 \<and> run_steps mpsc_micro (replicate k (PStep i 0 False)) c = Some (Inr c')
     \<and> (\<exists>slots slots'. slot_value_with (\<lambda>cl. obind (cell_write v cl) (\<lambda>cl'. Inr ((), cl')))
            (mp_claim (mk_shared c) AND mp_mask (mk_shared c)) (mp_slots (mk_shared c)) = Inr ((), slots)
        \<and> slot_round_store (round_of (mk_shared c) (mp_claim (mk_shared c)))
            (mp_claim (mk_shared c) AND mp_mask (mk_shared c)) slots = Inr slots'
        \<and> (let sh2 = (mk_shared c)\<lparr>mp_claim := mp_claim (mk_shared c) + 1, mp_slots := slots'\<rparr>;
               w = mpsc_woken sh2 (mk_tokens c);
               pr = mk_txs c ! i
           in c' = c\<lparr>mk_shared := fst w, mk_tokens := snd w, mk_claimed := mk_claimed c @ [v],
                     mk_txs := (mk_txs c)[i := pr\<lparr>pr_pc := PIdle, pr_log := pr_log pr @ [Ok ()]\<rparr>]\<rparr>))"
proof -
  let ?sh = "mk_shared c" and ?step = "PStep i 0 False" and ?pr = "mk_txs c ! i"
  let ?seq = "mp_claim ?sh"
  let ?c1 = "set_producer i (?pr\<lparr>pr_pc := PWrite v ?seq\<rparr>) (c\<lparr>mk_shared := ?sh\<lparr>mp_claim := ?seq + 1\<rparr>, mk_claimed := mk_claimed c @ [v]\<rparr>)"
  have s1: "mpsc_micro ?step c = Some (Inr ?c1)" using i pc by (simp add: ptx_micro_def Let_def)
  have r1: "mpsc_reachable cap strategy ?c1" using r s1 by (rule reachable_by.step)
  obtain o2 where o2: "mpsc_micro ?step ?c1 = Some o2" using i by (simp add: ptx_micro_def set_producer_def Let_def)
  from mpsc_machine.no_fault [OF r1 o2] o2 obtain slots where
    slots: "slot_value_with (\<lambda>cl. obind (cell_write v cl) (\<lambda>cl'. Inr ((), cl'))) (?seq AND mp_mask ?sh) (mp_slots ?sh) = Inr ((), slots)"
    using i by (auto simp: ptx_micro_def set_producer_def Let_def split: sum.splits)
  let ?c2 = "set_producer i (?pr\<lparr>pr_pc := PPublish v ?seq\<rparr>) (c\<lparr>mk_shared := ?sh\<lparr>mp_claim := ?seq + 1, mp_slots := slots\<rparr>, mk_claimed := mk_claimed c @ [v]\<rparr>)"
  have s2: "mpsc_micro ?step ?c1 = Some (Inr ?c2)" using i slots by (simp add: ptx_micro_def set_producer_def Let_def)
  have r2: "mpsc_reachable cap strategy ?c2" using r1 s2 by (rule reachable_by.step)
  have round: "round_of (?sh\<lparr>mp_claim := x, mp_slots := y\<rparr>) = round_of ?sh" for x y by (rule ext) (simp add: round_of_def)
  obtain o3 where o3: "mpsc_micro ?step ?c2 = Some o3" using i by (simp add: ptx_micro_def set_producer_def Let_def)
  from mpsc_machine.no_fault [OF r2 o3] o3 obtain slots' where
    slots': "slot_round_store (round_of ?sh ?seq) (?seq AND mp_mask ?sh) slots = Inr slots'"
    using i by (auto simp: ptx_micro_def set_producer_def Let_def round split: sum.splits)
  let ?sh2 = "?sh\<lparr>mp_claim := ?seq + 1, mp_slots := slots'\<rparr>"
  let ?c3 = "c\<lparr>mk_shared := ?sh2, mk_claimed := mk_claimed c @ [v]\<rparr>"
  let ?done = "\<lambda>c. ptx_return i (Ok ()) ?pr c"
  have s3: "mpsc_micro ?step ?c2 = Some (Inr (if mp_strategy ?sh = Park then set_producer i (?pr\<lparr>pr_pc := PWake\<rparr>) ?c3 else ?done ?c3))"
    using i slots' by (simp add: ptx_micro_def set_producer_def ptx_return_def Let_def round)
  obtain sh3 tok3 where wk: "mpsc_wake_consumer ?sh2 (mk_tokens c) = (sh3, tok3)" by fastforce
  have s4: "mpsc_micro ?step (set_producer i (?pr\<lparr>pr_pc := PWake\<rparr>) ?c3) = Some (Inr (?done (c\<lparr>mk_shared := sh3, mk_tokens := tok3, mk_claimed := mk_claimed c @ [v]\<rparr>)))"
    using i wk by (simp add: ptx_micro_def set_producer_def ptx_return_def Let_def)
  have steps: "replicate 3 ?step = [?step, ?step, ?step]" "replicate 4 ?step = [?step, ?step, ?step, ?step]"
    by (simp_all add: eval_nat_numeral)
  show ?thesis
  proof (cases "mp_strategy ?sh = Park")
    case True
    have "run_steps mpsc_micro (replicate 4 ?step) c = Some (Inr (?done (c\<lparr>mk_shared := sh3, mk_tokens := tok3, mk_claimed := mk_claimed c @ [v]\<rparr>)))"
      unfolding steps using s1 s2 s3 s4 True by (simp del: mpsc_micro.simps)
    with True slots slots' wk show ?thesis
      by (intro exI [of _ 4] exI conjI) (auto simp: Let_def mpsc_woken_def ptx_return_def set_producer_def)
  next
    case False
    have "run_steps mpsc_micro (replicate 3 ?step) c = Some (Inr (?done ?c3))"
      unfolding steps using s1 s2 s3 False by (simp del: mpsc_micro.simps)
    with False slots slots' show ?thesis
      by (intro exI [of _ 3] exI conjI) (auto simp: Let_def mpsc_woken_def ptx_return_def set_producer_def)
  qed
qed


lemma mpsc_try_send_alone:
  "mpsc_try_send 0 v sh tx tok =
     (if mp_rx_dropped sh then Inr (Err (SendDisconnected v), sh, tx, tok)
      else let tx1 = claim_refresh sh (mp_claim sh) tx
        in if mp_claim sh \<ge> saturating_add (mtx_cached_head tx1) (mp_cap sh) then Inr (Err (Full v), sh, tx1, tok)
           else
             obind (slot_value_with (\<lambda>c. obind (cell_write v c) (\<lambda>c'. Inr ((), c'))) (mp_claim sh AND mp_mask sh) (mp_slots sh))
               (\<lambda>(_, slots). obind (slot_round_store (round_of sh (mp_claim sh)) (mp_claim sh AND mp_mask sh) slots) (\<lambda>slots'.
                 let w = mpsc_woken (sh\<lparr>mp_claim := mp_claim sh + 1, mp_slots := slots'\<rparr>) tok
                 in Inr (Ok (), fst w, tx1, snd w))))"
proof -
  have "round_of (sh\<lparr>mp_claim := x\<rparr>) = round_of sh" for x by (rule ext) (simp add: round_of_def)
  then show ?thesis
    by (cases "mp_strategy sh = Park")
      (simp_all add: mpsc_try_send_def mpsc_claim_loop.simps Let_def mpsc_woken_def case_prod_unfold)
qed

lemma send_alone_tested:
  assumes "producer_idle i c" "\<not> mp_rx_dropped (mk_shared c)"
  defines "pr \<equiv> mk_txs c ! i" and "sh \<equiv> mk_shared c"
  defines "tx1 \<equiv> claim_refresh sh (mp_claim sh) (pr_tx pr)"
  assumes cached: "mtx_cached_head (pr_tx pr) \<le> mp_head sh"
  shows "run_steps mpsc_micro (take 4 (send_alone i v sh)) c =
    Some (Inr (if mp_claim sh \<ge> saturating_add (mtx_cached_head tx1) (mp_cap sh)
               then ptx_return i (Err (Full v)) (pr\<lparr>pr_tx := tx1\<rparr>) c
               else set_producer i (pr\<lparr>pr_tx := tx1, pr_pc := PCas v (mp_claim sh)\<rparr>) c))"
  using assms
  by (auto simp: send_alone_def ptx_micro_def set_producer_def ptx_return_def producer_idle_def claim_refresh_def Let_def)

text \<open>
  C26: run without interference, with current loads, a producer's steps are the sequential \<open>mpsc_try_send\<close>:
  within seven steps the call returns, with the same result, the same ring, the same handle and the same tokens, whatever
  the other producers and the consumer are in the middle of.
\<close>

theorem mpsc_micro_try_send:
  assumes "mpsc_reachable cap strategy c" "producer_idle i c"
  shows "\<exists>k c'. k \<le> 8 \<and> run_steps mpsc_micro (take k (send_alone i v (mk_shared c))) c = Some (Inr c') \<and> sent_as i v c c'"
proof -
  let ?sh = "mk_shared c" and ?pr = "mk_txs c ! i"
  define tx1 where "tx1 = claim_refresh ?sh (mp_claim ?sh) (pr_tx ?pr)"
  have i: "i < length (mk_txs c)" "pr_pc ?pr = PIdle" using assms(2) by (simp_all add: producer_idle_def)
  have cached: "mtx_cached_head (pr_tx ?pr) \<le> mp_head ?sh"
  proof -
    obtain S where inv: "mc_inv S c" using mpsc_reachable_inv [OF assms(1)] by blast
    from mc_producer [OF inv i(1)] mc_unats(3) [OF inv] show ?thesis by (simp add: word_le_nat_alt producer_ok_def)
  qed
  show ?thesis
  proof (cases "mp_rx_dropped ?sh")
    case True
    then have "run_steps mpsc_micro (take 2 (send_alone i v ?sh)) c = Some (Inr (ptx_return i (Err (SendDisconnected v)) ?pr c))"
      using assms(2) i by (simp add: send_alone_def ptx_micro_def ptx_return_def set_producer_def Let_def)
    moreover have "sent_as i v c (ptx_return i (Err (SendDisconnected v)) ?pr c)"
      using True i by (simp add: sent_as_def mpsc_try_send_def ptx_return_def set_producer_def)
    ultimately show ?thesis by (intro exI [of _ 2] exI conjI) auto
  next
    case conn: False
    note tested = send_alone_tested [OF assms(2) conn cached, of v]
    show ?thesis
    proof (cases "mp_claim ?sh \<ge> saturating_add (mtx_cached_head tx1) (mp_cap ?sh)")
      case True
      let ?c = "ptx_return i (Err (Full v)) (?pr\<lparr>pr_tx := tx1\<rparr>) c"
      have "sent_as i v c ?c"
        using True conn i by (simp add: sent_as_def mpsc_try_send_alone ptx_return_def set_producer_def Let_def tx1_def)
      with tested True show ?thesis by (intro exI [of _ 4] exI [of _ ?c]) (simp add: tx1_def)
    next
      case False
      let ?c1 = "set_producer i (?pr\<lparr>pr_tx := tx1, pr_pc := PCas v (mp_claim ?sh)\<rparr>) c"
      have run1: "run_steps mpsc_micro (take 4 (send_alone i v ?sh)) c = Some (Inr ?c1)" using tested False by (simp add: tx1_def)
      have r1: "mpsc_reachable cap strategy ?c1" using run_steps_reachable [OF run1 assms(1)] .
      have c1: "i < length (mk_txs ?c1)" "pr_pc (mk_txs ?c1 ! i) = PCas v (mp_claim (mk_shared ?c1))"
        using i by (simp_all add: set_producer_def)
      from send_alone_claimed [OF r1 c1] obtain k c' slots slots' where
        k: "k \<le> 4" "run_steps mpsc_micro (replicate k (PStep i 0 False)) ?c1 = Some (Inr c')"
        and w: "slot_value_with (\<lambda>cl. obind (cell_write v cl) (\<lambda>cl'. Inr ((), cl')))
            (mp_claim ?sh AND mp_mask ?sh) (mp_slots ?sh) = Inr ((), slots)"
          "slot_round_store (round_of ?sh (mp_claim ?sh)) (mp_claim ?sh AND mp_mask ?sh) slots = Inr slots'"
        and c': "let w = mpsc_woken (?sh\<lparr>mp_claim := mp_claim ?sh + 1, mp_slots := slots'\<rparr>) (mk_tokens c);
              pr = ?pr\<lparr>pr_tx := tx1, pr_pc := PCas v (mp_claim ?sh)\<rparr>
           in c' = c\<lparr>mk_shared := fst w, mk_tokens := snd w, mk_claimed := mk_claimed c @ [v],
                     mk_txs := (mk_txs c)[i := pr\<lparr>pr_pc := PIdle, pr_log := pr_log pr @ [Ok ()]\<rparr>]\<rparr>"
        using i by (auto simp: set_producer_def Let_def)
      have "take (4 + k) (send_alone i v ?sh) = take 4 (send_alone i v ?sh) @ replicate k (PStep i 0 False)"
        using k(1) by (simp add: take_add send_alone_def min_def)
      then have "run_steps mpsc_micro (take (4 + k) (send_alone i v ?sh)) c = Some (Inr c')"
        using run1 k(2) by (simp add: run_steps_append)
      moreover have "sent_as i v c c'"
        using conn False i w c' by (simp add: sent_as_def mpsc_try_send_alone Let_def flip: tx1_def)
      ultimately show ?thesis using k(1) by (intro exI [of _ "4 + k"] exI [of _ c']) simp
    qed
  qed
qed


theorem mpsc_micro_try_send_witness:
  "\<exists>c k c'. mpsc_reachable 2 Park c \<and> pr_pc (mk_txs c ! 1) = PWrite (8 :: nat) 0
     \<and> run_steps mpsc_micro (take k (send_alone 0 7 (mk_shared c))) c = Some (Inr c') \<and> sent_as 0 7 c c'"
proof -
  have "mpsc_schedule_reaches 2 Park
      [PClone 0, PCall 1 (8 :: nat), PStep 1 0 False, PStep 1 0 False, PStep 1 0 False, PStep 1 0 False]
      (\<lambda>c. producer_idle 0 c \<and> pr_pc (mk_txs c ! 1) = PWrite 8 0)"
    by code_simp
  then obtain c :: "nat mpsc_conc" where
    c: "mpsc_reachable 2 Park c" "producer_idle 0 c" "pr_pc (mk_txs c ! 1) = PWrite 8 0"
    using run_reachesD by blast
  from mpsc_micro_try_send [OF c(1,2), of 7] c(1,3) show ?thesis by blast
qed

section \<open>The consumer alone\<close>

definition recv_alone :: "bool \<Rightarrow> bool \<Rightarrow> 'a mconc_action list" where
  "recv_alone published no_senders =
     MCall # (if published then replicate 4 (MStep True False)
              else [MStep False False, MStep no_senders False] @ (if no_senders then [MStep False False] else []))"

text \<open>
  Run without interference, the consumer's steps are the sequential \<open>mpsc_try_recv\<close>: with the head slot's
  round and the sender count as they are, the call returns within four steps, with the same result, ring, handle and
  tokens.
\<close>

theorem mpsc_micro_try_recv:
  fixes c :: "'a mpsc_conc"
  assumes "mpsc_reachable cap strategy c" "mk_rx_pc c = MIdle"
  shows "\<exists>published c' r. slot_published (mk_shared c) (mrx_head (mk_rx c)) = Inr published
     \<and> run_steps mpsc_micro (recv_alone published (mp_senders (mk_shared c) = 0)) c = Some (Inr c')
     \<and> mpsc_try_recv (mk_shared c) (mk_rx c) (mk_tokens c) = Inr (r, mk_shared c', mk_rx c', mk_tokens c')
     \<and> mk_rx_pc c' = MIdle \<and> mk_rx_log c' = mk_rx_log c @ [MRetRecv r] \<and> mk_txs c' = mk_txs c"
proof -
  let ?sh = "mk_shared c" and ?rx = "mk_rx c" and ?c0 = "c\<lparr>mk_rx_pc := MTest\<rparr>"
  have call: "mpsc_micro MCall c = Some (Inr ?c0)" using assms(2) by simp
  have r0: "mpsc_reachable cap strategy ?c0" using assms(1) call by (rule reachable_by.step)
  obtain o0 where o0: "mpsc_micro (MStep False False) ?c0 = Some o0"
    by (cases "slot_published ?sh (mrx_head ?rx)") (simp_all add: mrx_micro_def mrx_load_round_def)
  from mpsc_machine.no_fault [OF r0 o0] o0 obtain published where
    pub: "slot_published ?sh (mrx_head ?rx) = Inr published"
    by (auto simp: mrx_micro_def mrx_load_round_def split: sum.splits)
  show ?thesis
  proof (cases published)
    case False
    have "run_steps mpsc_micro (recv_alone published (mp_senders ?sh = 0)) c
        = Some (Inr (mrx_return (MRetRecv (Err (if mp_senders ?sh = 0 then RecvDisconnected else Empty))) c))"
      using pub False assms(2) by (simp add: recv_alone_def mrx_micro_def mrx_load_round_def mrx_return_def)
    with pub False show ?thesis
      by (intro exI [of _ published] exI [of _ "Err (if mp_senders ?sh = 0 then RecvDisconnected else Empty)"]
            exI [of _ "mrx_return (MRetRecv (Err (if mp_senders ?sh = 0 then RecvDisconnected else Empty))) c"])
        (simp add: mpsc_try_recv_def mrx_return_def)
  next
    case True
    let ?c1 = "c\<lparr>mk_rx_pc := MRead\<rparr>" and ?step = "MStep True False"
    have s1: "mpsc_micro ?step ?c0 = Some (Inr ?c1)" using pub True by (simp add: mrx_micro_def mrx_load_round_def)
    have r1: "mpsc_reachable cap strategy ?c1" using r0 s1 by (rule reachable_by.step)
    obtain o2 where o2: "mpsc_micro ?step ?c1 = Some o2" by (simp add: mrx_micro_def mrx_read_slot_def Let_def)
    from mpsc_machine.no_fault [OF r1 o2] o2 obtain v slots where
      slots: "slot_value_with assume_init_read (mrx_head ?rx AND mp_mask ?sh) (mp_slots ?sh) = Inr (v, slots)"
      by (auto simp: mrx_micro_def mrx_read_slot_def Let_def split: sum.splits)
    obtain sh2 tok2 where wk: "mpsc_wake_producers (?sh\<lparr>mp_slots := slots, mp_head := mrx_head ?rx + 1\<rparr>) (mk_tokens c) = (sh2, tok2)"
      by fastforce
    let ?c' = "mrx_return (MRetRecv (Ok v)) (c\<lparr>mk_shared := sh2, mk_rx := ?rx\<lparr>mrx_head := mrx_head ?rx + 1\<rparr>,
        mk_tokens := tok2, mk_taken := mk_taken c @ [v]\<rparr>)"
    have "run_steps mpsc_micro (replicate 3 ?step) ?c1 = Some (Inr ?c')"
      using slots wk by (simp add: eval_nat_numeral mrx_micro_def mrx_read_slot_def mrx_wake_def mrx_return_def Let_def)
    moreover have "(recv_alone True d :: 'a mconc_action list) = MCall # ?step # replicate 3 ?step" for d
      by (simp add: recv_alone_def eval_nat_numeral)
    ultimately show ?thesis using pub True call s1 slots wk
      by (intro exI [of _ published] exI [of _ ?c'] exI [of _ "Ok v"])
        (simp add: mpsc_try_recv_def mpsc_pop_def mrx_return_def Let_def del: mpsc_micro.simps)
  qed
qed

theorem mpsc_micro_try_recv_witness:
  "\<exists>c (c' :: nat mpsc_conc) r. mpsc_reachable 2 Park c \<and> pr_pc (mk_txs c ! 0) = PPublish (7 :: nat) 0
     \<and> mpsc_try_recv (mk_shared c) (mk_rx c) (mk_tokens c) = Inr (r, mk_shared c', mk_rx c', mk_tokens c')
     \<and> mk_rx_log c' = mk_rx_log c @ [MRetRecv r]"
proof -
  have "mpsc_schedule_reaches 2 Park (PCall 0 (7 :: nat) # replicate 5 (PStep 0 0 False))
      (\<lambda>c. mk_rx_pc c = MIdle \<and> pr_pc (mk_txs c ! 0) = PPublish 7 0)"
    by code_simp
  then obtain c :: "nat mpsc_conc" where
    c: "mpsc_reachable 2 Park c" "mk_rx_pc c = MIdle" "pr_pc (mk_txs c ! 0) = PPublish 7 0"
    using run_reachesD by blast
  from mpsc_micro_try_recv [OF c(1,2)] c(1,3) show ?thesis by blast
qed

end
