(* ===== verification/Park_Protocol.thy ===== *)
theory Park_Protocol
  imports Notify Step_Machine
begin

text \<open>
  The wake protocol of the \<^verbatim>\<open>Park\<close> strategy (\<^verbatim>\<open>src/notify.rs\<close> as \<^verbatim>\<open>recv\<close>, \<^verbatim>\<open>try_send\<close> and the sender's drop of
  \<^verbatim>\<open>src/spsc.rs\<close> use it), one shared access per step, on store buffers. A store of the sender
  (the tail, the \<^verbatim>\<open>disconnected\<close> flag, \<^verbatim>\<open>parked\<close>) or of the receiver (\<^verbatim>\<open>parked\<close>) waits in its thread's
  FIFO buffer until a flush step writes it to memory; a thread reads its own buffered store before memory; a
  \<^verbatim>\<open>SeqCst\<close> fence and a mutex operation wait until the own buffer is empty. The two fences can be
  switched off, which shows what they are for. The buffer's capacity plays no role here: the sender sends when it
  likes.
\<close>

section \<open>The machine\<close>

datatype buffered_store = StTail nat | StDisc | StFlag bool

datatype waiter_pc =
    WTry | WDisc | WReload | WRegister | WFlag | WFence | WCheck | WCheckDisc | WCancel | WBlocked | WClear | WDone

datatype waker_pc = KIdle | KFence | KTest | KClear | KTake | KUnpark | KDead

text \<open>
  \<open>ps_tail\<close>, \<open>ps_disc\<close> and \<open>ps_parker\<close> are memory; \<open>ps_head\<close> is the receiver's private head, \<open>ps_sent\<close> and
  \<open>ps_closed\<close> what the sender has stored so far, flushed or not; \<open>ps_locked\<close> is the slot's mutex.
\<close>

record park_sys =
  ps_tail :: nat
  ps_disc :: bool
  ps_parker :: parker
  ps_locked :: bool
  ps_tokens :: tokens
  ps_wpc :: waiter_pc
  ps_wbuf :: "bool list"
  ps_head :: nat
  ps_kpc :: waker_pc
  ps_kbuf :: "buffered_store list"
  ps_sent :: nat
  ps_closed :: bool

definition receiver_thread :: tid where
  "receiver_thread = 0"

definition park_init :: park_sys where
  "park_init =
     \<lparr>ps_tail = 0, ps_disc = False, ps_parker = parker_new, ps_locked = False, ps_tokens = {},
      ps_wpc = WTry, ps_wbuf = [], ps_head = 0, ps_kpc = KIdle, ps_kbuf = [], ps_sent = 0, ps_closed = False\<rparr>"

text \<open>The receiver in \<^verbatim>\<open>recv\<close>; \<open>fenced\<close> is its fence, \<open>spurious\<close> a \<^verbatim>\<open>thread::park\<close> that returns without a token.\<close>

definition waiter_step :: "bool \<Rightarrow> bool \<Rightarrow> park_sys \<Rightarrow> park_sys option" where
  "waiter_step fenced spurious c =
     (case ps_wpc c of
        WTry \<Rightarrow>
          (if ps_tail c \<noteq> ps_head c then Some (c\<lparr>ps_head := ps_head c + 1\<rparr>) else Some (c\<lparr>ps_wpc := WDisc\<rparr>))
      | WDisc \<Rightarrow> Some (c\<lparr>ps_wpc := (if ps_disc c then WReload else WRegister)\<rparr>)
      | WReload \<Rightarrow>
          (if ps_tail c = ps_head c then Some (c\<lparr>ps_wpc := WDone\<rparr>)
           else Some (c\<lparr>ps_head := ps_head c + 1, ps_wpc := WTry\<rparr>))
      | WRegister \<Rightarrow>
          (if ps_locked c \<or> ps_wbuf c \<noteq> [] then None
           else Some (c\<lparr>ps_parker := (ps_parker c)\<lparr>pk_slot := Some receiver_thread\<rparr>, ps_wpc := WFlag\<rparr>))
      | WFlag \<Rightarrow> Some (c\<lparr>ps_wbuf := ps_wbuf c @ [True], ps_wpc := WFence\<rparr>)
      | WFence \<Rightarrow> (if fenced \<and> ps_wbuf c \<noteq> [] then None else Some (c\<lparr>ps_wpc := WCheck\<rparr>))
      | WCheck \<Rightarrow> Some (c\<lparr>ps_wpc := (if ps_tail c \<noteq> ps_head c then WCancel else WCheckDisc)\<rparr>)
      | WCheckDisc \<Rightarrow> Some (c\<lparr>ps_wpc := (if ps_disc c then WCancel else WBlocked)\<rparr>)
      | WCancel \<Rightarrow> Some (c\<lparr>ps_wbuf := ps_wbuf c @ [False], ps_wpc := WTry\<rparr>)
      | WBlocked \<Rightarrow>
          (case thread_park receiver_thread (ps_tokens c) of
             Some tok \<Rightarrow> Some (c\<lparr>ps_tokens := tok, ps_wpc := WClear\<rparr>)
           | None \<Rightarrow> (if spurious then Some (c\<lparr>ps_wpc := WClear\<rparr>) else None))
      | WClear \<Rightarrow> Some (c\<lparr>ps_wbuf := ps_wbuf c @ [False], ps_wpc := WTry\<rparr>)
      | WDone \<Rightarrow> None)"

text \<open>The sender: a publication (of a value, or of the drop) and the wake behind it.\<close>

definition publish_start :: "buffered_store \<Rightarrow> park_sys \<Rightarrow> park_sys option" where
  "publish_start st c =
     (if ps_kpc c = KIdle then Some (c\<lparr>ps_kbuf := ps_kbuf c @ [st], ps_kpc := KFence\<rparr>) else None)"

definition send_start :: "park_sys \<Rightarrow> park_sys option" where
  "send_start c = publish_start (StTail (ps_sent c + 1)) (c\<lparr>ps_sent := ps_sent c + 1\<rparr>)"

definition drop_start :: "park_sys \<Rightarrow> park_sys option" where
  "drop_start c = publish_start StDisc (c\<lparr>ps_closed := True\<rparr>)"

definition load_flag :: "buffered_store list \<Rightarrow> bool \<Rightarrow> bool" where
  "load_flag buf mem = fold (\<lambda>st m. case st of StFlag b \<Rightarrow> b | _ \<Rightarrow> m) buf mem"

definition waker_return :: "park_sys \<Rightarrow> park_sys" where
  "waker_return c = c\<lparr>ps_kpc := (if ps_closed c then KDead else KIdle)\<rparr>"

definition waker_step :: "bool \<Rightarrow> park_sys \<Rightarrow> park_sys option" where
  "waker_step fenced c =
     (case ps_kpc c of
        KIdle \<Rightarrow> None
      | KFence \<Rightarrow> (if fenced \<and> ps_kbuf c \<noteq> [] then None else Some (c\<lparr>ps_kpc := KTest\<rparr>))
      | KTest \<Rightarrow>
          (if load_flag (ps_kbuf c) (pk_parked (ps_parker c)) then Some (c\<lparr>ps_kpc := KClear\<rparr>)
           else Some (waker_return c))
      | KClear \<Rightarrow> Some (c\<lparr>ps_kbuf := ps_kbuf c @ [StFlag False], ps_kpc := KTake\<rparr>)
      | KTake \<Rightarrow>
          (if ps_locked c \<or> ps_kbuf c \<noteq> [] then None
           else
             (case pk_slot (ps_parker c) of
                Some _ \<Rightarrow> Some (c\<lparr>ps_parker := (ps_parker c)\<lparr>pk_slot := None\<rparr>, ps_locked := True, ps_kpc := KUnpark\<rparr>)
              | None \<Rightarrow> Some (waker_return c)))
      | KUnpark \<Rightarrow> Some (waker_return (c\<lparr>ps_tokens := unpark receiver_thread (ps_tokens c), ps_locked := False\<rparr>))
      | KDead \<Rightarrow> None)"

definition flush_waiter :: "park_sys \<Rightarrow> park_sys option" where
  "flush_waiter c =
     (case ps_wbuf c of
        [] \<Rightarrow> None
      | b # bs \<Rightarrow> Some (c\<lparr>ps_parker := (ps_parker c)\<lparr>pk_parked := b\<rparr>, ps_wbuf := bs\<rparr>))"

fun commit_store :: "buffered_store \<Rightarrow> park_sys \<Rightarrow> park_sys" where
  "commit_store (StTail n) c = c\<lparr>ps_tail := n\<rparr>"
| "commit_store StDisc c = c\<lparr>ps_disc := True\<rparr>"
| "commit_store (StFlag b) c = c\<lparr>ps_parker := (ps_parker c)\<lparr>pk_parked := b\<rparr>\<rparr>"

definition flush_waker :: "park_sys \<Rightarrow> park_sys option" where
  "flush_waker c =
     (case ps_kbuf c of [] \<Rightarrow> None | st # sts \<Rightarrow> Some (commit_store st (c\<lparr>ps_kbuf := sts\<rparr>)))"

datatype park_action = WaiterStep bool | SendStart | DropStart | WakerStep | FlushWaiter | FlushWaker

text \<open>\<open>fw\<close> and \<open>fk\<close> say whether the receiver's and the sender's fence are there; in the code both are.\<close>

fun park_micro :: "bool \<Rightarrow> bool \<Rightarrow> park_action \<Rightarrow> park_sys \<Rightarrow> park_sys option" where
  "park_micro fw fk (WaiterStep spurious) c = waiter_step fw spurious c"
| "park_micro fw fk SendStart c = send_start c"
| "park_micro fw fk DropStart c = drop_start c"
| "park_micro fw fk WakerStep c = waker_step fk c"
| "park_micro fw fk FlushWaiter c = flush_waiter c"
| "park_micro fw fk FlushWaker c = flush_waker c"

definition park_step :: "bool \<Rightarrow> bool \<Rightarrow> park_action \<Rightarrow> park_sys \<Rightarrow> park_sys outcome option" where
  "park_step fw fk a c = map_option Inr (park_micro fw fk a c)"

abbreviation park_reachable :: "bool \<Rightarrow> bool \<Rightarrow> park_sys \<Rightarrow> bool" where
  "park_reachable fw fk \<equiv> reachable_by (\<lambda>c. Inr park_init = (Inr c :: park_sys outcome)) (park_step fw fk)"

abbreviation park_run_ends :: "bool \<Rightarrow> bool \<Rightarrow> park_action list \<Rightarrow> (park_sys \<Rightarrow> bool) \<Rightarrow> bool" where
  "park_run_ends fw fk \<equiv> run_reaches (Inr park_init) (park_step fw fk)"

section \<open>The invariant of the fenced protocol\<close>

abbreviation registered :: "park_sys \<Rightarrow> bool" where
  "registered c \<equiv> pk_slot (ps_parker c) = Some receiver_thread"

abbreviation has_token :: "park_sys \<Rightarrow> bool" where
  "has_token c \<equiv> receiver_thread \<in> ps_tokens c"

definition waking :: "park_sys \<Rightarrow> bool" where
  "waking c \<longleftrightarrow> ps_kpc c \<noteq> KIdle \<and> ps_kpc c \<noteq> KDead"

text \<open>What the buffers can hold, and how memory lags behind the sender.\<close>

fun kbuf_ok :: "waker_pc \<Rightarrow> nat \<Rightarrow> buffered_store list \<Rightarrow> bool" where
  "kbuf_ok KFence tail buf = (buf = [] \<or> buf = [StTail (Suc tail)] \<or> buf = [StDisc])"
| "kbuf_ok KTake tail buf = (buf = [] \<or> buf = [StFlag False])"
| "kbuf_ok _ tail buf = (buf = [])"

fun unflushed_sends :: "buffered_store list \<Rightarrow> nat" where
  "unflushed_sends [] = 0"
| "unflushed_sends (StTail n # sts) = Suc (unflushed_sends sts)"
| "unflushed_sends (_ # sts) = unflushed_sends sts"

fun wbuf_ok :: "waiter_pc \<Rightarrow> bool list \<Rightarrow> bool" where
  "wbuf_ok WFlag buf = (buf = [])"
| "wbuf_ok WFence buf = (buf = [] \<or> buf = [True])"
| "wbuf_ok WCheck buf = (buf = [])"
| "wbuf_ok WCheckDisc buf = (buf = [])"
| "wbuf_ok WCancel buf = (buf = [])"
| "wbuf_ok WBlocked buf = (buf = [])"
| "wbuf_ok WClear buf = (buf = [])"
| "wbuf_ok _ buf = (buf = [] \<or> buf = [False])"

definition sender_ok :: "park_sys \<Rightarrow> bool" where
  "sender_ok c \<longleftrightarrow>
     kbuf_ok (ps_kpc c) (ps_tail c) (ps_kbuf c) \<and>
     ps_sent c = ps_tail c + unflushed_sends (ps_kbuf c) \<and>
     (ps_disc c \<longleftrightarrow> ps_closed c \<and> StDisc \<notin> set (ps_kbuf c)) \<and> (StDisc \<in> set (ps_kbuf c) \<longrightarrow> ps_closed c) \<and>
     (ps_kpc c = KIdle \<longrightarrow> \<not> ps_closed c) \<and> (ps_kpc c = KDead \<longrightarrow> ps_closed c)"

definition slot_inv :: "park_sys \<Rightarrow> bool" where
  "slot_inv c \<longleftrightarrow>
     ps_head c \<le> ps_tail c \<and> wbuf_ok (ps_wpc c) (ps_wbuf c) \<and>
     (ps_locked c \<longleftrightarrow> ps_kpc c = KUnpark) \<and>
     (registered c \<or> pk_slot (ps_parker c) = None)"

text \<open>
  The heart. From its registration on, the receiver is in the slot, or a wake is under way, or the
  token is set; once its flag has reached memory, a sender that tests the flag sees it, or a sender
  already holds the duty to take the slot.
\<close>

definition announced :: "park_sys \<Rightarrow> bool" where
  "announced c \<longleftrightarrow>
     (ps_wpc c \<in> {WFlag, WFence, WCheck, WCheckDisc, WBlocked} \<longrightarrow>
        registered c \<or> ps_kpc c = KUnpark \<or> has_token c) \<and>
     (ps_wpc c \<in> {WFence, WCheck, WCheckDisc, WBlocked} \<and> ps_wbuf c = [] \<and> registered c \<longrightarrow>
        pk_parked (ps_parker c) \<or> ps_kpc c = KTake)"

definition nothing_missed :: "park_sys \<Rightarrow> bool" where
  "nothing_missed c \<longleftrightarrow>
     (ps_wpc c \<in> {WCheckDisc, WBlocked} \<and> ps_head c < ps_sent c \<longrightarrow> waking c \<or> has_token c) \<and>
     (ps_wpc c = WBlocked \<and> ps_closed c \<longrightarrow> waking c \<or> has_token c)"

definition park_inv :: "park_sys \<Rightarrow> bool" where
  "park_inv c \<longleftrightarrow> sender_ok c \<and> slot_inv c \<and> announced c \<and> nothing_missed c"

lemmas park_inv_defs = park_inv_def sender_ok_def slot_inv_def announced_def nothing_missed_def waking_def

lemma waiter_step_keeps:
  assumes "park_inv c"
  shows "pred_option park_inv (waiter_step True spurious c)"
proof (cases "ps_wpc c")
  case WTry
  with assms show ?thesis
    by (cases "ps_tail c = ps_head c") (simp_all add: waiter_step_def park_inv_def announced_def nothing_missed_def
        sender_ok_def slot_inv_def)
next
  case WReload
  with assms show ?thesis
    by (cases "ps_tail c = ps_head c") (simp_all add: waiter_step_def park_inv_def announced_def nothing_missed_def
        sender_ok_def slot_inv_def)
next
  case WCheck
  with assms show ?thesis
    by (cases "ps_kpc c"; simp add: waiter_step_def; auto simp: park_inv_defs)
next
  case WCheckDisc
  with assms show ?thesis
    by (cases "ps_kpc c"; simp add: waiter_step_def; auto simp: park_inv_defs)
qed (use assms in \<open>simp_all add: waiter_step_def park_inv_defs thread_park_def\<close>)

lemma start_keeps:
  assumes "park_inv c"
  shows "pred_option park_inv (send_start c)" "pred_option park_inv (drop_start c)"
  using assms by (cases "ps_kpc c"; simp add: send_start_def drop_start_def publish_start_def; simp add: park_inv_defs)+

lemma waker_step_keeps:
  assumes "park_inv c"
  shows "pred_option park_inv (waker_step True c)"
proof (cases "ps_kpc c")
  case KTest
  with assms show ?thesis
    by (cases "ps_wpc c"; simp add: waker_step_def load_flag_def waker_return_def; simp add: park_inv_defs; blast?)
next
  case KTake
  with assms show ?thesis
    by (cases "pk_slot (ps_parker c)"; simp add: waker_step_def waker_return_def; simp add: park_inv_defs; blast?)
qed (use assms in \<open>simp_all add: waker_step_def waker_return_def park_inv_defs unpark_def\<close>)

lemma kbuf_cases:
  assumes "park_inv c" "ps_kbuf c = st # sts"
  obtains "st = StTail (Suc (ps_tail c))" "sts = []" "ps_kpc c = KFence"
    | "st = StDisc" "sts = []" "ps_kpc c = KFence"
    | "st = StFlag False" "sts = []" "ps_kpc c = KTake"
  using assms that by (cases "ps_kpc c") (simp_all add: park_inv_def sender_ok_def, blast+)

lemma flush_keeps:
  assumes inv: "park_inv c"
  shows "pred_option park_inv (flush_waiter c)" "pred_option park_inv (flush_waker c)"
proof -
  show "pred_option park_inv (flush_waiter c)"
    using inv by (cases "ps_wbuf c"; cases "ps_wpc c"; simp add: flush_waiter_def; simp add: park_inv_defs)
  show "pred_option park_inv (flush_waker c)"
  proof (cases "ps_kbuf c")
    case Nil
    then show ?thesis by (simp add: flush_waker_def)
  next
    case (Cons st sts)
    from inv Cons show ?thesis
      by (rule kbuf_cases) (use inv Cons in \<open>simp_all add: flush_waker_def park_inv_defs\<close>)
  qed
qed

lemma park_micro_keeps: "park_inv c \<Longrightarrow> park_micro True True a c = Some c' \<Longrightarrow> park_inv c'"
  using waiter_step_keeps [of c] start_keeps [of c] waker_step_keeps [of c] flush_keeps [of c]
  by (cases a) (force simp: pred_option_def)+

interpretation park_machine: safe_machine "\<lambda>c. Inr park_init = (Inr c :: park_sys outcome)" "park_step True True" park_inv
proof unfold_locales
  fix c
  assume "Inr park_init = (Inr c :: park_sys outcome)"
  then have "c = park_init" by simp
  then show "park_inv c" by (simp add: park_init_def park_inv_defs parker_new_def)
next
  fix c a r
  assume "park_inv c" "park_step True True a c = Some r"
  then show "\<exists>c'. r = Inr c' \<and> park_inv c'" using park_micro_keeps by (auto simp: park_step_def)
qed

section \<open>No lost wake-up\<close>

definition asleep :: "park_sys \<Rightarrow> bool" where
  "asleep c \<longleftrightarrow> ps_wpc c = WBlocked \<and> \<not> has_token c"

text \<open>
  C9: the protocol of \<^verbatim>\<open>prepare_park\<close>, fence, re-check and \<^verbatim>\<open>park\<close> against publish, fence and \<^verbatim>\<open>wake\<close> loses no
  wake-up. In every interleaving, with every delay of the buffered stores, a receiver that sleeps
  without a token while the sender is between two calls (or gone) has received everything that was
  sent, and the sender was not dropped: there is nothing to wake up for.
\<close>

theorem park_no_lost_wakeup:
  assumes "park_reachable True True c" "asleep c" "\<not> waking c"
  shows "ps_head c = ps_sent c \<and> ps_tail c = ps_sent c \<and> \<not> ps_closed c"
proof -
  have inv: "park_inv c" using park_machine.reachable_inv [OF assms(1)] .
  have "ps_kbuf c = []" using inv assms(3) by (cases "ps_kpc c") (simp_all add: park_inv_defs)
  then have "ps_tail c = ps_sent c" using inv by (simp add: park_inv_defs)
  moreover have "\<not> ps_head c < ps_sent c" "\<not> ps_closed c" "ps_head c \<le> ps_tail c"
    using inv assms(2,3) by (auto simp: park_inv_def nothing_missed_def slot_inv_def asleep_def)
  ultimately show ?thesis by simp
qed

abbreviation recv_steps :: "nat \<Rightarrow> park_action list" where
  "recv_steps n \<equiv> replicate n (WaiterStep False)"

theorem park_no_lost_wakeup_witness:
  "\<exists>c. park_reachable True True c \<and> asleep c \<and> ps_sent c = 1 \<and> ps_head c = ps_sent c \<and> \<not> ps_closed c"
proof -
  have "park_run_ends True True
      ([SendStart, FlushWaker, WakerStep, WakerStep] @ recv_steps 5 @ [FlushWaiter] @ recv_steps 3)
      (\<lambda>c. asleep c \<and> ps_sent c = 1 \<and> \<not> waking c)"
    by code_simp
  then obtain c where c: "park_reachable True True c" "asleep c" "ps_sent c = 1" "\<not> waking c"
    using run_reachesD by blast
  from park_no_lost_wakeup [OF c(1,2,4)] c show ?thesis by blast
qed

text \<open>The sender's own steps, at most \<open>n\<close>, end its call with the token set.\<close>

definition wake_arrives :: "nat \<Rightarrow> park_sys \<Rightarrow> bool" where
  "wake_arrives n c \<longleftrightarrow>
     (\<exists>as c'. set as \<subseteq> {WakerStep, FlushWaker} \<and> length as \<le> n \<and>
        run_steps (park_step True True) as c = Some (Inr c') \<and> has_token c' \<and> \<not> waking c')"

lemma wake_arrives_mono: "wake_arrives n c \<Longrightarrow> n \<le> m \<Longrightarrow> wake_arrives m c"
  unfolding wake_arrives_def by (meson le_trans)

lemma wake_arrives_step:
  assumes "park_micro True True a c = Some c'" "a \<in> {WakerStep, FlushWaker}" "wake_arrives n c'"
  shows "wake_arrives (Suc n) c"
proof -
  from assms(3) obtain as d where "set as \<subseteq> {WakerStep, FlushWaker}" "length as \<le> n"
    "run_steps (park_step True True) as c' = Some (Inr d)" "has_token d" "\<not> waking d"
    unfolding wake_arrives_def by blast
  with assms(1,2) show ?thesis unfolding wake_arrives_def by (intro exI [of _ "a # as"] exI [of _ d]) (simp add: park_step_def)
qed

lemma wake_arrives_unpark:
  assumes "ps_kpc c = KUnpark"
  shows "wake_arrives 1 c"
proof -
  let ?c = "waker_return (c\<lparr>ps_tokens := unpark receiver_thread (ps_tokens c), ps_locked := False\<rparr>)"
  have "run_steps (park_step True True) [WakerStep] c = Some (Inr ?c)" using assms by (simp add: park_step_def waker_step_def)
  moreover have "has_token ?c" "\<not> waking ?c" by (simp_all add: waker_return_def unpark_def waking_def)
  ultimately show ?thesis unfolding wake_arrives_def by (intro exI [of _ "[WakerStep]"] exI [of _ ?c]) simp
qed

text \<open>A buffered store is flushed first; it does not wake the receiver.\<close>

lemma wake_arrives_flush:
  assumes inv: "park_inv c" and sleep: "asleep c"
    and empty: "\<And>c'. \<lbrakk>park_inv c'; asleep c'; ps_kpc c' = ps_kpc c; ps_kbuf c' = []\<rbrakk> \<Longrightarrow> wake_arrives n c'"
  shows "wake_arrives (Suc n) c"
proof (cases "ps_kbuf c")
  case Nil
  then show ?thesis using wake_arrives_mono [OF empty [OF inv sleep]] by simp
next
  case (Cons st sts)
  then have f: "park_micro True True FlushWaker c = Some (commit_store st (c\<lparr>ps_kbuf := sts\<rparr>))"
    by (simp add: flush_waker_def)
  have "sts = []" using inv Cons by (rule kbuf_cases)
  then have "asleep (commit_store st (c\<lparr>ps_kbuf := sts\<rparr>)) \<and> ps_kpc (commit_store st (c\<lparr>ps_kbuf := sts\<rparr>)) = ps_kpc c
      \<and> ps_kbuf (commit_store st (c\<lparr>ps_kbuf := sts\<rparr>)) = []"
    using sleep by (cases st) (simp_all add: asleep_def)
  with f empty [OF park_micro_keeps [OF inv f]] show ?thesis by (intro wake_arrives_step [OF f]) simp_all
qed

lemma wake_arrives_take:
  assumes inv: "park_inv c" and sleep: "asleep c" and pc: "ps_kpc c = KTake"
  shows "wake_arrives 3 c"
proof -
  have e: "wake_arrives 2 c'" if c': "park_inv c'" "asleep c'" "ps_kpc c' = ps_kpc c" "ps_kbuf c' = []" for c'
  proof -
    let ?c = "c'\<lparr>ps_parker := (ps_parker c')\<lparr>pk_slot := None\<rparr>, ps_locked := True, ps_kpc := KUnpark\<rparr>"
    have k: "ps_kpc c' = KTake" using c'(3) pc by simp
    have "registered c'" "\<not> ps_locked c'" using c'(1,2) k by (simp_all add: park_inv_defs asleep_def)
    then have "park_micro True True WakerStep c' = Some ?c" using c'(4) k by (simp add: waker_step_def)
    from wake_arrives_step [OF this, of 1] wake_arrives_unpark [of ?c] show ?thesis by (simp add: numeral_2_eq_2)
  qed
  have "wake_arrives (Suc 2) c" using inv sleep e by (rule wake_arrives_flush)
  then show ?thesis by simp
qed

lemma wake_arrives_clear:
  assumes inv: "park_inv c" and sleep: "asleep c" and pc: "ps_kpc c = KClear"
  shows "wake_arrives 4 c"
proof -
  let ?c = "c\<lparr>ps_kbuf := ps_kbuf c @ [StFlag False], ps_kpc := KTake\<rparr>"
  have f: "park_micro True True WakerStep c = Some ?c" using pc by (simp add: waker_step_def)
  have "asleep ?c" using sleep by (simp add: asleep_def)
  then have "wake_arrives 3 ?c" by (rule wake_arrives_take [OF park_micro_keeps [OF inv f]]) simp
  from wake_arrives_step [OF f _ this] show ?thesis by simp
qed

text \<open>The sender tests the flag of a sleeping receiver: it is set.\<close>

lemma wake_arrives_test:
  assumes inv: "park_inv c" and sleep: "asleep c" and pc: "ps_kpc c = KTest"
  shows "wake_arrives 5 c"
proof -
  let ?c = "c\<lparr>ps_kpc := KClear\<rparr>"
  have "load_flag (ps_kbuf c) (pk_parked (ps_parker c))"
    using inv sleep pc by (simp add: park_inv_defs asleep_def load_flag_def)
  then have f: "park_micro True True WakerStep c = Some ?c" using pc by (simp add: waker_step_def)
  have "asleep ?c" using sleep by (simp add: asleep_def)
  then have "wake_arrives 4 ?c" by (rule wake_arrives_clear [OF park_micro_keeps [OF inv f]]) simp
  from wake_arrives_step [OF f _ this] show ?thesis by simp
qed

lemma wake_arrives_fence:
  assumes inv: "park_inv c" and sleep: "asleep c" and pc: "ps_kpc c = KFence"
  shows "wake_arrives 7 c"
proof -
  have e: "wake_arrives 6 c'" if c': "park_inv c'" "asleep c'" "ps_kpc c' = ps_kpc c" "ps_kbuf c' = []" for c'
  proof -
    have f: "park_micro True True WakerStep c' = Some (c'\<lparr>ps_kpc := KTest\<rparr>)"
      using c'(3,4) pc by (simp add: waker_step_def)
    have "asleep (c'\<lparr>ps_kpc := KTest\<rparr>)" using c'(2) by (simp add: asleep_def)
    then have "wake_arrives 5 (c'\<lparr>ps_kpc := KTest\<rparr>)"
      by (rule wake_arrives_test [OF park_micro_keeps [OF c'(1) f]]) simp
    from wake_arrives_step [OF f _ this] show ?thesis by simp
  qed
  have "wake_arrives (Suc 6) c" using inv sleep e by (rule wake_arrives_flush)
  then show ?thesis by simp
qed

text \<open>
  C10: a wake that is under way arrives. If the receiver sleeps while the sender is inside a publication (of a
  value or of its drop), the sender's own remaining steps, at most seven with the flushes of its
  buffer, end the call and leave the token set.
\<close>

theorem park_wake_delivered:
  assumes "park_reachable True True c" "asleep c" "waking c"
  shows "\<exists>as c'. set as \<subseteq> {WakerStep, FlushWaker} \<and> length as \<le> 7
     \<and> run_steps (park_step True True) as c = Some (Inr c') \<and> has_token c' \<and> \<not> waking c'"
proof -
  have inv: "park_inv c" using park_machine.reachable_inv [OF assms(1)] .
  have "wake_arrives 7 c"
  proof (cases "ps_kpc c")
    case KFence
    from wake_arrives_fence [OF inv assms(2) this] show ?thesis .
  next
    case KTest
    from wake_arrives_mono [OF wake_arrives_test [OF inv assms(2) this]] show ?thesis by simp
  next
    case KClear
    from wake_arrives_mono [OF wake_arrives_clear [OF inv assms(2) this]] show ?thesis by simp
  next
    case KTake
    from wake_arrives_mono [OF wake_arrives_take [OF inv assms(2) this]] show ?thesis by simp
  next
    case KUnpark
    from wake_arrives_mono [OF wake_arrives_unpark [OF this]] show ?thesis by simp
  qed (use assms(3) in \<open>simp_all add: waking_def\<close>)
  then show ?thesis unfolding wake_arrives_def .
qed

theorem park_wake_delivered_witness:
  "\<exists>c as c'. park_reachable True True c \<and> asleep c \<and> ps_kpc c = KFence \<and> ps_kbuf c = [StTail 1]
     \<and> run_steps (park_step True True) as c = Some (Inr c') \<and> has_token c' \<and> \<not> waking c'"
proof -
  have "park_run_ends True True (recv_steps 4 @ [FlushWaiter] @ recv_steps 3 @ [SendStart])
      (\<lambda>c. asleep c \<and> ps_kpc c = KFence \<and> ps_kbuf c = [StTail 1])"
    by code_simp
  then obtain c where c: "park_reachable True True c" "asleep c" "ps_kpc c = KFence" "ps_kbuf c = [StTail 1]"
    using run_reachesD by blast
  have "waking c" using c(3) by (simp add: waking_def)
  from park_wake_delivered [OF c(1,2) this] c show ?thesis by blast
qed

text \<open>
  Both fences are needed. Without the receiver's fence, and likewise without the sender's, the
  machine reaches a state in which everything is flushed, the sender is between two calls, a
  value is in the ring, and the receiver sleeps without a token: a lost wake-up.
\<close>

theorem park_fences_needed:
  "(\<exists>c. park_reachable False True c \<and> asleep c \<and> \<not> waking c \<and> ps_wbuf c = [] \<and> ps_kbuf c = [] \<and> ps_head c < ps_tail c)
   \<and> (\<exists>c. park_reachable True False c \<and> asleep c \<and> \<not> waking c \<and> ps_wbuf c = [] \<and> ps_kbuf c = [] \<and> ps_head c < ps_tail c)"
proof
  let ?lost = "\<lambda>c. asleep c \<and> \<not> waking c \<and> ps_wbuf c = [] \<and> ps_kbuf c = [] \<and> ps_head c < ps_tail c"
  have "park_run_ends False True
      (recv_steps 7 @ [SendStart, FlushWaker, WakerStep, WakerStep, FlushWaiter]) ?lost"
    by code_simp
  then show "\<exists>c. park_reachable False True c \<and> asleep c \<and> \<not> waking c \<and> ps_wbuf c = [] \<and> ps_kbuf c = [] \<and> ps_head c < ps_tail c"
    by (rule run_reachesD)
  have "park_run_ends True False
      ([SendStart, WakerStep, WakerStep] @ recv_steps 4 @ [FlushWaiter] @ recv_steps 3 @ [FlushWaker]) ?lost"
    by code_simp
  then show "\<exists>c. park_reachable True False c \<and> asleep c \<and> \<not> waking c \<and> ps_wbuf c = [] \<and> ps_kbuf c = [] \<and> ps_head c < ps_tail c"
    by (rule run_reachesD)
qed

end
