(* ===== verification/Waiter_Protocol.thy ===== *)
theory Waiter_Protocol
  imports Notify Step_Machine
begin

text \<open>
  The wake protocol of \<^verbatim>\<open>WaiterList\<close> (\<^verbatim>\<open>src/notify.rs\<close>): any number of MPSC senders that block on a full
  ring in \<^verbatim>\<open>send\<close> (\<^verbatim>\<open>src/mpsc.rs\<close>, strategy \<^verbatim>\<open>Park\<close>) against the one receiver that frees slots and calls
  \<^verbatim>\<open>wake_all\<close>. One shared access per step; the stores of the head, of \<^verbatim>\<open>rx_dropped\<close> and of \<^verbatim>\<open>waiting\<close>
  wait in the storing thread's FIFO buffer until a flush step. A read-modify-write (the claim's
  exchange, the swap of \<^verbatim>\<open>waiting\<close>) acts on memory at once and does not wait for the thread's own
  buffer, as a relaxed one need not; a fence waits for it, and so does a push under the mutex, whose
  unlock is a release. Only the park path is here: the slots, the rounds and the wake of the
  receiver are the business of the other machines. Counters are natural numbers.
\<close>

section \<open>The machine\<close>

datatype send_pc =
    STry | SSeq | SBound | SCas | SRegister | SFlag | SFence | SReClaim | SReHead | SReDropped | SBlocked | SGone

text \<open>One sender: where it is in \<^verbatim>\<open>send\<close>, the claim counter it has read, and its store buffer.\<close>

record sender_thread =
  st_pc :: send_pc
  st_seq :: nat
  st_buf :: "bool list"

datatype head_store = HdHead nat | HdDropped

datatype recv_pc = RIdle | RFence | RSwap | RLock | RUnpark | RDead

text \<open>
  \<open>wt_claim\<close>, \<open>wt_head\<close>, \<open>wt_dropped\<close> and \<open>wt_waiters\<close> are memory; \<open>wt_taken\<close> is the receiver's private head and
  \<open>wt_closed\<close> its drop, flushed or not; \<open>wt_draining\<close> holds what \<^verbatim>\<open>drain(..)\<close> of the list has left to unpark.
\<close>

record wait_shared =
  wt_cap :: nat
  wt_claim :: nat
  wt_head :: nat
  wt_dropped :: bool
  wt_waiters :: waiter_list
  wt_locked :: bool
  wt_tokens :: tokens
  wt_rpc :: recv_pc
  wt_rbuf :: "head_store list"
  wt_taken :: nat
  wt_closed :: bool
  wt_draining :: "tid list"

type_synonym wait_sys = "wait_shared \<times> sender_thread list"

definition sender_start :: sender_thread where
  "sender_start = \<lparr>st_pc = STry, st_seq = 0, st_buf = []\<rparr>"

definition wait_init :: "nat \<Rightarrow> nat \<Rightarrow> wait_sys" where
  "wait_init cap n =
     (\<lparr>wt_cap = cap, wt_claim = 0, wt_head = 0, wt_dropped = False, wt_waiters = waiter_list_new, wt_locked = False,
       wt_tokens = {}, wt_rpc = RIdle, wt_rbuf = [], wt_taken = 0, wt_closed = False, wt_draining = []\<rparr>,
      replicate n sender_start)"

text \<open>
  One access of sender \<open>me\<close> in a loop of \<^verbatim>\<open>send\<close> calls. \<open>fenced\<close> is its fence, \<open>spurious\<close> an exchange that fails
  for no reason or a \<^verbatim>\<open>thread::park\<close> that returns without a token.
\<close>

definition sender_step :: "bool \<Rightarrow> bool \<Rightarrow> tid \<Rightarrow> sender_thread \<Rightarrow> wait_shared \<Rightarrow> (wait_shared \<times> sender_thread) option" where
  "sender_step fenced spurious me t s =
     (case st_pc t of
        STry \<Rightarrow> Some (s, t\<lparr>st_pc := (if wt_dropped s then SGone else SSeq)\<rparr>)
      | SSeq \<Rightarrow> Some (s, t\<lparr>st_seq := wt_claim s, st_pc := SBound\<rparr>)
      | SBound \<Rightarrow> Some (s, t\<lparr>st_pc := (if st_seq t \<ge> wt_head s + wt_cap s then SRegister else SCas)\<rparr>)
      | SCas \<Rightarrow>
          (if wt_claim s = st_seq t \<and> \<not> spurious
           then Some (s\<lparr>wt_claim := st_seq t + 1\<rparr>, t\<lparr>st_pc := STry\<rparr>)
           else Some (s, t\<lparr>st_seq := wt_claim s, st_pc := SBound\<rparr>))
      | SRegister \<Rightarrow>
          (if wt_locked s \<or> st_buf t \<noteq> [] then None
           else Some (s\<lparr>wt_waiters := (wt_waiters s)\<lparr>wl_list := wl_list (wt_waiters s) @ [me]\<rparr>\<rparr>, t\<lparr>st_pc := SFlag\<rparr>))
      | SFlag \<Rightarrow> Some (s, t\<lparr>st_buf := st_buf t @ [True], st_pc := SFence\<rparr>)
      | SFence \<Rightarrow> (if fenced \<and> st_buf t \<noteq> [] then None else Some (s, t\<lparr>st_pc := SReClaim\<rparr>))
      | SReClaim \<Rightarrow> Some (s, t\<lparr>st_seq := wt_claim s, st_pc := SReHead\<rparr>)
      | SReHead \<Rightarrow> Some (s, t\<lparr>st_pc := (if st_seq t < wt_head s + wt_cap s then STry else SReDropped)\<rparr>)
      | SReDropped \<Rightarrow> Some (s, t\<lparr>st_pc := (if wt_dropped s then STry else SBlocked)\<rparr>)
      | SBlocked \<Rightarrow>
          (case waiter_park me (wt_tokens s) of
             Some tok \<Rightarrow> Some (s\<lparr>wt_tokens := tok\<rparr>, t\<lparr>st_pc := STry\<rparr>)
           | None \<Rightarrow> (if spurious then Some (s, t\<lparr>st_pc := STry\<rparr>) else None))
      | SGone \<Rightarrow> None)"

definition flush_sender :: "sender_thread \<Rightarrow> wait_shared \<Rightarrow> (wait_shared \<times> sender_thread) option" where
  "flush_sender t s =
     (case st_buf t of
        [] \<Rightarrow> None
      | b # bs \<Rightarrow> Some (s\<lparr>wt_waiters := (wt_waiters s)\<lparr>wl_waiting := b\<rparr>\<rparr>, t\<lparr>st_buf := bs\<rparr>))"

text \<open>The receiver moves \<open>n\<close> values out (one in \<^verbatim>\<open>try_recv\<close>, several in \<^verbatim>\<open>drain\<close>) and stores its head, or drops.\<close>

definition take_start :: "nat \<Rightarrow> wait_shared \<Rightarrow> wait_shared option" where
  "take_start n s =
     (if wt_rpc s = RIdle \<and> 0 < n \<and> wt_taken s + n \<le> wt_claim s
      then Some (s\<lparr>wt_taken := wt_taken s + n, wt_rbuf := wt_rbuf s @ [HdHead (wt_taken s + n)], wt_rpc := RFence\<rparr>)
      else None)"

definition rx_drop_start :: "wait_shared \<Rightarrow> wait_shared option" where
  "rx_drop_start s =
     (if wt_rpc s = RIdle
      then Some (s\<lparr>wt_closed := True, wt_rbuf := wt_rbuf s @ [HdDropped], wt_rpc := RFence\<rparr>) else None)"

definition recv_return :: "wait_shared \<Rightarrow> wait_shared" where
  "recv_return s = s\<lparr>wt_rpc := (if wt_closed s then RDead else RIdle)\<rparr>"

definition wake_all_step :: "bool \<Rightarrow> wait_shared \<Rightarrow> wait_shared option" where
  "wake_all_step fenced s =
     (case wt_rpc s of
        RIdle \<Rightarrow> None
      | RFence \<Rightarrow> (if fenced \<and> wt_rbuf s \<noteq> [] then None else Some (s\<lparr>wt_rpc := RSwap\<rparr>))
      | RSwap \<Rightarrow>
          (let s' = s\<lparr>wt_waiters := (wt_waiters s)\<lparr>wl_waiting := False\<rparr>\<rparr>
           in Some (if wl_waiting (wt_waiters s) then s'\<lparr>wt_rpc := RLock\<rparr> else recv_return s'))
      | RLock \<Rightarrow>
          (if wt_locked s then None
           else Some (s\<lparr>wt_locked := True, wt_draining := wl_list (wt_waiters s),
                        wt_waiters := (wt_waiters s)\<lparr>wl_list := []\<rparr>, wt_rpc := RUnpark\<rparr>))
      | RUnpark \<Rightarrow>
          (case wt_draining s of
             [] \<Rightarrow> (if wt_rbuf s \<noteq> [] then None else Some (recv_return (s\<lparr>wt_locked := False\<rparr>)))
           | t # ts \<Rightarrow> Some (s\<lparr>wt_tokens := unpark t (wt_tokens s), wt_draining := ts\<rparr>))
      | RDead \<Rightarrow> None)"

fun commit_head :: "head_store \<Rightarrow> wait_shared \<Rightarrow> wait_shared" where
  "commit_head (HdHead n) s = s\<lparr>wt_head := n\<rparr>"
| "commit_head HdDropped s = s\<lparr>wt_dropped := True\<rparr>"

definition flush_receiver :: "wait_shared \<Rightarrow> wait_shared option" where
  "flush_receiver s =
     (case wt_rbuf s of [] \<Rightarrow> None | st # sts \<Rightarrow> Some (commit_head st (s\<lparr>wt_rbuf := sts\<rparr>)))"

datatype wait_action = SenderStep tid bool | FlushSender tid | TakeStart nat | RxDropStart | WakeAllStep | FlushReceiver

text \<open>An action of one sender changes the shared part and that sender; one of the receiver the shared part.\<close>

definition on_sender ::
    "tid \<Rightarrow> (sender_thread \<Rightarrow> wait_shared \<Rightarrow> (wait_shared \<times> sender_thread) option) \<Rightarrow> wait_sys \<Rightarrow> wait_sys option" where
  "on_sender i f c =
     (if i < length (snd c)
      then map_option (\<lambda>(s, t). (s, (snd c)[i := t])) (f (snd c ! i) (fst c)) else None)"

definition on_shared :: "(wait_shared \<Rightarrow> wait_shared option) \<Rightarrow> wait_sys \<Rightarrow> wait_sys option" where
  "on_shared f c = map_option (\<lambda>s. (s, snd c)) (f (fst c))"

fun wait_micro :: "bool \<Rightarrow> bool \<Rightarrow> wait_action \<Rightarrow> wait_sys \<Rightarrow> wait_sys option" where
  "wait_micro fs fr (SenderStep i spurious) c = on_sender i (sender_step fs spurious i) c"
| "wait_micro fs fr (FlushSender i) c = on_sender i flush_sender c"
| "wait_micro fs fr (TakeStart n) c = on_shared (take_start n) c"
| "wait_micro fs fr RxDropStart c = on_shared rx_drop_start c"
| "wait_micro fs fr WakeAllStep c = on_shared (wake_all_step fr) c"
| "wait_micro fs fr FlushReceiver c = on_shared flush_receiver c"

text \<open>\<open>fs\<close> and \<open>fr\<close> say whether the senders' and the receiver's fence are there; in the code both are.\<close>

definition wait_step :: "bool \<Rightarrow> bool \<Rightarrow> wait_action \<Rightarrow> wait_sys \<Rightarrow> wait_sys outcome option" where
  "wait_step fs fr a c = map_option Inr (wait_micro fs fr a c)"

abbreviation wait_reachable :: "bool \<Rightarrow> bool \<Rightarrow> nat \<Rightarrow> nat \<Rightarrow> wait_sys \<Rightarrow> bool" where
  "wait_reachable fs fr cap n \<equiv>
     reachable_by (\<lambda>c. Inr (wait_init cap n) = (Inr c :: wait_sys outcome)) (wait_step fs fr)"

abbreviation wait_run_ends :: "bool \<Rightarrow> bool \<Rightarrow> nat \<Rightarrow> nat \<Rightarrow> wait_action list \<Rightarrow> (wait_sys \<Rightarrow> bool) \<Rightarrow> bool" where
  "wait_run_ends fs fr cap n \<equiv> run_reaches (Inr (wait_init cap n)) (wait_step fs fr)"

section \<open>The invariant of the fenced protocol\<close>

definition wake_running :: "wait_shared \<Rightarrow> bool" where
  "wake_running s \<longleftrightarrow> wt_rpc s \<noteq> RIdle \<and> wt_rpc s \<noteq> RDead"

text \<open>The receiver's side: at most one store is buffered, and only before the fence; the mutex is held while it unparks.\<close>

definition receiver_inv :: "wait_shared \<Rightarrow> bool" where
  "receiver_inv s \<longleftrightarrow>
     (wt_rbuf s = [] \<and> wt_head s = wt_taken s \<and> wt_dropped s = wt_closed s
        \<or> wt_rpc s = RFence \<and> wt_rbuf s = [HdHead (wt_taken s)] \<and> wt_head s < wt_taken s \<and> \<not> wt_dropped s \<and> \<not> wt_closed s
        \<or> wt_rpc s = RFence \<and> wt_rbuf s = [HdDropped] \<and> wt_head s = wt_taken s \<and> \<not> wt_dropped s \<and> wt_closed s) \<and>
     (wt_rpc s = RIdle \<longrightarrow> \<not> wt_closed s) \<and>
     (wt_locked s \<longleftrightarrow> wt_rpc s = RUnpark) \<and>
     (wt_rpc s \<noteq> RUnpark \<longrightarrow> wt_draining s = []) \<and> (wt_rpc s = RUnpark \<longrightarrow> wl_list (wt_waiters s) = [])"

text \<open>
  A sender that has registered is in the list, or about to be unparked, or holds a token; once its
  flag is in memory, a sender in the list is covered by the flag or by a receiver on its
  way to the lock. A sender that has passed its re-check has seen a full ring.
\<close>

abbreviation registered_pcs :: "send_pc set" where
  "registered_pcs \<equiv> {SFlag, SFence, SReClaim, SReHead, SReDropped, SBlocked}"

definition sender_inv :: "wait_shared \<Rightarrow> tid \<Rightarrow> sender_thread \<Rightarrow> bool" where
  "sender_inv s i t \<longleftrightarrow>
     (st_buf t = [] \<or> st_pc t = SFence \<and> st_buf t = [True]) \<and>
     (st_pc t \<in> registered_pcs \<longrightarrow> i \<in> set (wl_list (wt_waiters s)) \<union> set (wt_draining s) \<union> wt_tokens s) \<and>
     (st_pc t \<in> registered_pcs - {SFlag} \<and> st_buf t = [] \<and> i \<in> set (wl_list (wt_waiters s)) \<longrightarrow>
        wl_waiting (wt_waiters s) \<or> wt_rpc s = RLock) \<and>
     (st_pc t \<in> {SBound, SCas, SReHead} \<longrightarrow> st_seq t \<le> wt_claim s) \<and>
     (st_pc t \<in> {SReDropped, SBlocked} \<and> wt_claim s < wt_taken s + wt_cap s \<longrightarrow> wake_running s \<or> i \<in> wt_tokens s) \<and>
     (st_pc t = SBlocked \<and> wt_closed s \<longrightarrow> wake_running s \<or> i \<in> wt_tokens s)"

definition wait_inv :: "wait_sys \<Rightarrow> bool" where
  "wait_inv c \<longleftrightarrow> receiver_inv (fst c) \<and> (\<forall>i < length (snd c). sender_inv (fst c) i (snd c ! i))"

lemmas wait_inv_defs = receiver_inv_def sender_inv_def wake_running_def

text \<open>The receiver's steps keep every sender's part, whichever sender it is.\<close>

definition keeps_senders :: "wait_shared \<Rightarrow> wait_shared \<Rightarrow> bool" where
  "keeps_senders s s' \<longleftrightarrow> receiver_inv s' \<and> (\<forall>i t. sender_inv s i t \<longrightarrow> sender_inv s' i t)"

lemma receiver_settled:
  "receiver_inv s \<Longrightarrow> wt_rpc s \<noteq> RFence \<or> wt_rbuf s = [] \<Longrightarrow>
     wt_rbuf s = [] \<and> wt_head s = wt_taken s \<and> wt_dropped s = wt_closed s"
  unfolding receiver_inv_def by (elim conjE disjE) simp_all

lemma start_take_keeps:
  assumes inv: "receiver_inv s"
  shows "pred_option (keeps_senders s) (take_start n s)" "pred_option (keeps_senders s) (rx_drop_start s)"
proof -
  have "wt_rpc s = RIdle \<Longrightarrow> wt_rbuf s = [] \<and> wt_head s = wt_taken s \<and> \<not> wt_dropped s \<and> \<not> wt_closed s
      \<and> \<not> wt_locked s \<and> wt_draining s = []"
    using inv receiver_settled [OF inv] by (simp add: receiver_inv_def)
  then show "pred_option (keeps_senders s) (take_start n s)" "pred_option (keeps_senders s) (rx_drop_start s)"
    by (cases "wt_rpc s = RIdle"; simp add: take_start_def rx_drop_start_def keeps_senders_def; simp add: wait_inv_defs)+
qed

text \<open>The buffered store of the receiver, and memory while it is buffered.\<close>

lemma rbuf_cases:
  assumes "receiver_inv s" "wt_rbuf s = st # sts"
  obtains "st = HdHead (wt_taken s)" "sts = []" "wt_rpc s = RFence" "\<not> wt_dropped s" "\<not> wt_closed s"
    | "st = HdDropped" "sts = []" "wt_rpc s = RFence" "wt_head s = wt_taken s" "wt_closed s"
proof -
  from assms(1) consider "wt_rbuf s = []"
    | "wt_rpc s = RFence" "wt_rbuf s = [HdHead (wt_taken s)]" "\<not> wt_dropped s" "\<not> wt_closed s"
    | "wt_rpc s = RFence" "wt_rbuf s = [HdDropped]" "wt_head s = wt_taken s" "wt_closed s"
    unfolding receiver_inv_def by (elim conjE disjE) blast+
  then show thesis by cases (use assms(2) that in simp_all)
qed

lemma flush_receiver_keeps: 
  assumes inv: "receiver_inv s"
  shows "pred_option (keeps_senders s) (flush_receiver s)"
proof (cases "wt_rbuf s")
  case Nil
  then show ?thesis by (simp add: flush_receiver_def)
next
  case (Cons st sts)
  have r: "wt_rpc s = RFence" using inv Cons by (rule rbuf_cases)
  have "wt_locked s = False" "wt_draining s = []" using inv r by (simp_all add: receiver_inv_def)
  moreover have "keeps_senders s (commit_head st (s\<lparr>wt_rbuf := sts\<rparr>))"
    using inv Cons
    by (rule rbuf_cases) (use r calculation in \<open>simp_all add: keeps_senders_def wait_inv_defs\<close>)
  ultimately show ?thesis using Cons by (simp add: flush_receiver_def)
qed

lemma wake_all_step_keeps: 
  assumes inv: "receiver_inv s"
  shows "pred_option (keeps_senders s) (wake_all_step True s)"
proof (cases "wt_rpc s")
  case RFence
  then show ?thesis using inv receiver_settled [OF inv]
    by (simp add: wake_all_step_def keeps_senders_def; simp add: wait_inv_defs)
next
  case RUnpark
  then show ?thesis using inv receiver_settled [OF inv]
    by (cases "wt_draining s"; simp add: wake_all_step_def keeps_senders_def recv_return_def; simp add: wait_inv_defs unpark_def; blast?)
next
  case RSwap
  show ?thesis
  proof (cases "wl_waiting (wt_waiters s)")
    case True
    with RSwap show ?thesis using inv receiver_settled [OF inv]
      by (simp add: wake_all_step_def keeps_senders_def; simp add: wait_inv_defs)
  next
    case False
    let ?s = "recv_return (s\<lparr>wt_waiters := (wt_waiters s)\<lparr>wl_waiting := False\<rparr>\<rparr>)"
    have "sender_inv ?s i t" if "sender_inv s i t" for i t
      using that RSwap False inv by (cases "st_pc t"; simp add: recv_return_def; auto simp: wait_inv_defs)
    moreover have "receiver_inv ?s"
      using RSwap inv receiver_settled [OF inv] by (simp add: recv_return_def; simp add: receiver_inv_def)
    ultimately show ?thesis using RSwap False by (simp add: wake_all_step_def keeps_senders_def)
  qed
next
  case RLock
  then show ?thesis using inv receiver_settled [OF inv]
    by (simp add: wake_all_step_def keeps_senders_def; simp add: wait_inv_defs)
qed (simp_all add: wake_all_step_def)


text \<open>A sender's step: it keeps the receiver's part, its own, and that of every other sender.\<close>

definition keeps_others :: "tid \<Rightarrow> wait_shared \<Rightarrow> wait_shared \<times> sender_thread \<Rightarrow> bool" where
  "keeps_others me s r \<longleftrightarrow>
     receiver_inv (fst r) \<and> sender_inv (fst r) me (snd r) \<and>
     (\<forall>j t. j \<noteq> me \<longrightarrow> sender_inv s j t \<longrightarrow> sender_inv (fst r) j t)"

lemma sender_inv_claim:
  assumes "sender_inv s j t" "wt_claim s \<le> n"
  shows "sender_inv (s\<lparr>wt_claim := n\<rparr>) j t"
  using assms by (cases "st_pc t") (simp_all add: sender_inv_def wake_running_def)

lemma sender_step_keeps:
  assumes inv: "receiver_inv s" "sender_inv s me t"
  shows "pred_option (keeps_others me s) (sender_step True spurious me t s)"
proof (cases "st_pc t")
  case SReHead
  then have "wt_claim s < wt_taken s + wt_cap s \<Longrightarrow> \<not> st_seq t < wt_head s + wt_cap s \<Longrightarrow> wt_rpc s = RFence"
    using inv receiver_settled [OF inv(1)] by (auto simp: sender_inv_def)
  with SReHead inv show ?thesis
    by (simp add: sender_step_def keeps_others_def; simp add: sender_inv_def wake_running_def)
next
  case SReDropped
  then have "wt_closed s \<Longrightarrow> \<not> wt_dropped s \<Longrightarrow> wt_rpc s = RFence"
    using receiver_settled [OF inv(1)] by auto
  with SReDropped inv show ?thesis
    by (simp add: sender_step_def keeps_others_def; simp add: sender_inv_def wake_running_def)
next
  case SCas
  show ?thesis
  proof (cases "wt_claim s = st_seq t \<and> \<not> spurious")
    case True
    let ?s = "s\<lparr>wt_claim := Suc (wt_claim s)\<rparr>"
    have "receiver_inv ?s" using inv(1) by (simp add: receiver_inv_def)
    moreover have "sender_inv ?s j t'" if "sender_inv s j t'" for j t' using that by (rule sender_inv_claim) simp
    moreover have "sender_inv ?s me (t\<lparr>st_pc := STry\<rparr>)" using SCas inv(2) by (simp add: sender_inv_def)
    ultimately have "keeps_others me s (?s, t\<lparr>st_pc := STry\<rparr>)" by (simp add: keeps_others_def)
    then show ?thesis using SCas True by (simp add: sender_step_def)
  next
    case False
    then have "sender_step True spurious me t s = Some (s, t\<lparr>st_seq := wt_claim s, st_pc := SBound\<rparr>)"
      using SCas by (auto simp: sender_step_def)
    then show ?thesis using SCas inv by (simp add: keeps_others_def sender_inv_def)
  qed
next
  case SBlocked
  with inv show ?thesis
    by (simp add: sender_step_def keeps_others_def waiter_park_def thread_park_def; simp add: wait_inv_defs)
next
  case SRegister
  with inv show ?thesis
    by (simp add: sender_step_def keeps_others_def; simp add: wait_inv_defs)
qed (use inv in \<open>simp_all add: sender_step_def keeps_others_def sender_inv_def\<close>)

lemma flush_sender_keeps:
  assumes inv: "receiver_inv s" "sender_inv s me t"
  shows "pred_option (keeps_others me s) (flush_sender t s)"
  using inv by (cases "st_buf t"; simp add: flush_sender_def keeps_others_def; simp add: wait_inv_defs)


lemma wait_micro_keeps:
  assumes inv: "wait_inv c" and m: "wait_micro True True a c = Some c'"
  shows "wait_inv c'"
proof -
  have shared: "wait_inv c'" if "pred_option (keeps_senders (fst c)) (f (fst c))" "on_shared f c = Some c'" for f
    using that inv by (auto simp: on_shared_def wait_inv_def keeps_senders_def)
  have thread: "wait_inv c'"
    if k: "i < length (snd c) \<Longrightarrow> pred_option (keeps_others i (fst c)) (f (snd c ! i) (fst c))" and o: "on_sender i f c = Some c'" for i f
    using k o inv by (auto simp: on_sender_def wait_inv_def keeps_others_def nth_list_update split: if_splits)
  have r: "receiver_inv (fst c)" and t: "i < length (snd c) \<Longrightarrow> sender_inv (fst c) i (snd c ! i)" for i
    using inv by (simp_all add: wait_inv_def)
  show ?thesis
  proof (cases a)
    case (SenderStep i spurious)
    with m have "on_sender i (sender_step True spurious i) c = Some c'" by simp
    with sender_step_keeps [OF r t] show ?thesis by (intro thread)
  next
    case (FlushSender i)
    with m have "on_sender i flush_sender c = Some c'" by simp
    with flush_sender_keeps [OF r t] show ?thesis by (intro thread)
  qed (use m in \<open>auto intro: shared start_take_keeps [OF r] wake_all_step_keeps [OF r] flush_receiver_keeps [OF r]\<close>)
qed

interpretation wait_machine:
  safe_machine "\<lambda>c. Inr (wait_init cap n) = (Inr c :: wait_sys outcome)" "wait_step True True" wait_inv for cap n
proof unfold_locales
  fix c
  assume "Inr (wait_init cap n) = (Inr c :: wait_sys outcome)"
  then have "c = wait_init cap n" by simp
  then show "wait_inv c"
    by (simp add: wait_init_def wait_inv_def receiver_inv_def sender_inv_def sender_start_def)
next
  fix c a r
  assume "wait_inv c" "wait_step True True a c = Some r"
  then show "\<exists>c'. r = Inr c' \<and> wait_inv c'" using wait_micro_keeps [of c a] by (cases "wait_micro True True a c") (auto simp: wait_step_def simp del: split_paired_Ex split_paired_All)
qed

section \<open>No sender sleeps through a wake\<close>

definition sender_asleep :: "wait_sys \<Rightarrow> tid \<Rightarrow> bool" where
  "sender_asleep c i \<longleftrightarrow> i < length (snd c) \<and> st_pc (snd c ! i) = SBlocked \<and> i \<notin> wt_tokens (fst c)"


abbreviation send_steps :: "tid \<Rightarrow> nat \<Rightarrow> wait_action list" where
  "send_steps i k \<equiv> replicate k (SenderStep i False)"

text \<open>A send on a ring of capacity one takes four steps, one that goes to sleep nine and a flush.\<close>

abbreviation sleep_steps :: "tid \<Rightarrow> wait_action list" where
  "sleep_steps i \<equiv> send_steps i 5 @ [FlushSender i] @ send_steps i 4"



text \<open>The receiver's own steps, at most \<open>k\<close>, end its call with a token for every thread of \<open>B\<close>.\<close>

definition wakes_within :: "nat \<Rightarrow> tid set \<Rightarrow> wait_sys \<Rightarrow> bool" where
  "wakes_within k B c \<longleftrightarrow>
     (\<exists>as c'. set as \<subseteq> {WakeAllStep, FlushReceiver} \<and> length as \<le> k \<and>
        run_steps (wait_step True True) as c = Some (Inr c') \<and> B \<subseteq> wt_tokens (fst c') \<and> \<not> wake_running (fst c'))"

definition blocked_senders :: "wait_sys \<Rightarrow> tid set" where
  "blocked_senders c = {i. i < length (snd c) \<and> st_pc (snd c ! i) = SBlocked}"

lemma wakes_within_mono: "wakes_within k B c \<Longrightarrow> k \<le> m \<Longrightarrow> A \<subseteq> B \<Longrightarrow> wakes_within m A c"
  unfolding wakes_within_def by (meson le_trans subset_trans)

lemma wakes_within_done: "\<not> wake_running (fst c) \<Longrightarrow> B \<subseteq> wt_tokens (fst c) \<Longrightarrow> wakes_within 0 B c"
  unfolding wakes_within_def by (intro exI [of _ "[]"] exI [of _ c]) simp

lemma wakes_within_step:
  assumes "wait_micro True True a c = Some c'" "a \<in> {WakeAllStep, FlushReceiver}" "wakes_within k B c'"
  shows "wakes_within (Suc k) B c"
proof -
  from assms(3) obtain as d where "set as \<subseteq> {WakeAllStep, FlushReceiver}" "length as \<le> k"
    "run_steps (wait_step True True) as c' = Some (Inr d)" "B \<subseteq> wt_tokens (fst d)" "\<not> wake_running (fst d)"
    unfolding wakes_within_def by blast
  with assms(1,2) show ?thesis
    unfolding wakes_within_def by (intro exI [of _ "a # as"] exI [of _ d]) (simp add: wait_step_def)
qed

lemma recv_return_idle [simp]: "\<not> wake_running (recv_return s)" "wt_tokens (recv_return s) = wt_tokens s"
  by (simp_all add: recv_return_def wake_running_def)

lemma wakes_within_unpark:
  assumes "wt_rpc s = RUnpark" "wt_rbuf s = []"
  shows "wakes_within (Suc (length (wt_draining s))) (set (wt_draining s) \<union> wt_tokens s) (s, ts)"
  using assms
proof (induction "wt_draining s" arbitrary: s)
  case Nil
  then have "wait_micro True True WakeAllStep (s, ts) = Some (recv_return (s\<lparr>wt_locked := False\<rparr>), ts)"
    by (simp add: on_shared_def wake_all_step_def flip: Nil.hyps)
  from wakes_within_step [OF this _ wakes_within_done] Nil.hyps show ?case by simp
next
  case (Cons i rest)
  let ?s = "s\<lparr>wt_tokens := unpark i (wt_tokens s), wt_draining := rest\<rparr>"
  have "wait_micro True True WakeAllStep (s, ts) = Some (?s, ts)"
    using Cons.prems by (simp add: on_shared_def wake_all_step_def flip: Cons.hyps(2))
  from wakes_within_step [OF this _ Cons.hyps(1) [of ?s]] Cons.prems show ?case
    by (simp add: unpark_def flip: Cons.hyps(2))
qed

lemma wakes_within_lock:
  assumes "wt_rpc s = RLock" "wt_rbuf s = []" "\<not> wt_locked s"
  shows "wakes_within (length (wl_list (wt_waiters s)) + 2) (set (wl_list (wt_waiters s)) \<union> wt_tokens s) (s, ts)"
proof -
  let ?s = "s\<lparr>wt_locked := True, wt_draining := wl_list (wt_waiters s), wt_waiters := (wt_waiters s)\<lparr>wl_list := []\<rparr>, wt_rpc := RUnpark\<rparr>"
  have "wait_micro True True WakeAllStep (s, ts) = Some (?s, ts)" using assms by (simp add: on_shared_def wake_all_step_def)
  from wakes_within_step [OF this _ wakes_within_unpark [of ?s]] assms show ?thesis by simp
qed

text \<open>Where a blocked sender is to be found, by the place of the receiver in its call.\<close>

lemma blocked_sender_places:
  assumes inv: "wait_inv c"
  shows "wt_rpc (fst c) = RUnpark \<Longrightarrow> blocked_senders c \<subseteq> set (wt_draining (fst c)) \<union> wt_tokens (fst c)"
    and "wt_rpc (fst c) \<noteq> RUnpark \<Longrightarrow> blocked_senders c \<subseteq> set (wl_list (wt_waiters (fst c))) \<union> wt_tokens (fst c)"
    and "\<lbrakk>wt_rpc (fst c) = RSwap; \<not> wl_waiting (wt_waiters (fst c))\<rbrakk> \<Longrightarrow> blocked_senders c \<subseteq> wt_tokens (fst c)"
proof -
  have b: "i \<in> set (wl_list (wt_waiters (fst c))) \<union> set (wt_draining (fst c)) \<union> wt_tokens (fst c)"
    "i \<in> set (wl_list (wt_waiters (fst c))) \<longrightarrow> wl_waiting (wt_waiters (fst c)) \<or> wt_rpc (fst c) = RLock"
    if "i \<in> blocked_senders c" for i
  proof -
    from that have "sender_inv (fst c) i (snd c ! i)" "st_pc (snd c ! i) = SBlocked"
      using inv by (simp_all add: wait_inv_def blocked_senders_def)
    then show "i \<in> set (wl_list (wt_waiters (fst c))) \<union> set (wt_draining (fst c)) \<union> wt_tokens (fst c)"
      "i \<in> set (wl_list (wt_waiters (fst c))) \<longrightarrow> wl_waiting (wt_waiters (fst c)) \<or> wt_rpc (fst c) = RLock"
      by (simp_all add: sender_inv_def)
  qed
  have "wt_rpc (fst c) \<noteq> RUnpark \<Longrightarrow> wt_draining (fst c) = []"
    "wt_rpc (fst c) = RUnpark \<Longrightarrow> wl_list (wt_waiters (fst c)) = []"
    using inv by (simp_all add: wait_inv_def receiver_inv_def)
  with b show "wt_rpc (fst c) = RUnpark \<Longrightarrow> blocked_senders c \<subseteq> set (wt_draining (fst c)) \<union> wt_tokens (fst c)"
    "wt_rpc (fst c) \<noteq> RUnpark \<Longrightarrow> blocked_senders c \<subseteq> set (wl_list (wt_waiters (fst c))) \<union> wt_tokens (fst c)"
    "\<lbrakk>wt_rpc (fst c) = RSwap; \<not> wl_waiting (wt_waiters (fst c))\<rbrakk> \<Longrightarrow> blocked_senders c \<subseteq> wt_tokens (fst c)"
    by fastforce+
qed

lemma wakes_within_swap:
  assumes inv: "wait_inv c" and pc: "wt_rpc (fst c) = RSwap"
  shows "wakes_within (length (wl_list (wt_waiters (fst c))) + 3) (blocked_senders c) c"
proof -
  obtain s ts where c: "c = (s, ts)" by (cases c)
  have r: "receiver_inv s" using inv by (simp add: wait_inv_def c)
  have s: "wt_rbuf s = []" "\<not> wt_locked s" using receiver_settled [OF r] r pc by (simp_all add: c receiver_inv_def)
  let ?s = "s\<lparr>wt_waiters := (wt_waiters s)\<lparr>wl_waiting := False\<rparr>\<rparr>"
  show ?thesis
  proof (cases "wl_waiting (wt_waiters s)")
    case True
    then have "wait_micro True True WakeAllStep c = Some (?s\<lparr>wt_rpc := RLock\<rparr>, ts)"
      using pc by (simp add: c on_shared_def wake_all_step_def)
    from wakes_within_step [OF this _ wakes_within_lock] s blocked_sender_places(2) [OF inv] pc show ?thesis
      by (auto simp: c elim: wakes_within_mono)
  next
    case False
    then have "wait_micro True True WakeAllStep c = Some (recv_return ?s, ts)"
      using pc by (simp add: c on_shared_def wake_all_step_def)
    from wakes_within_step [OF this _ wakes_within_done, of "blocked_senders c"] blocked_sender_places(3) [OF inv pc] False
    have "wakes_within 1 (blocked_senders c) c" by (simp add: c)
    from wakes_within_mono [OF this] show ?thesis by simp
  qed
qed

lemma wakes_within_fence:
  assumes inv: "wait_inv c" and pc: "wt_rpc (fst c) = RFence"
  shows "wakes_within (length (wl_list (wt_waiters (fst c))) + 5) (blocked_senders c) c"
proof -
  have fenced: "wakes_within (length (wl_list (wt_waiters (fst d))) + 4) (blocked_senders d) d"
    if d: "wait_inv d" "wt_rpc (fst d) = RFence" "wt_rbuf (fst d) = []" for d
  proof -
    let ?d = "((fst d)\<lparr>wt_rpc := RSwap\<rparr>, snd d)"
    have m: "wait_micro True True WakeAllStep d = Some ?d" using d by (simp add: on_shared_def wake_all_step_def)
    from wakes_within_swap [OF wait_micro_keeps [OF d(1) m]]
    have "wakes_within (length (wl_list (wt_waiters (fst d))) + 3) (blocked_senders d) ?d" by (simp add: blocked_senders_def)
    from wakes_within_mono [OF wakes_within_step [OF m _ this]] show ?thesis by simp
  qed
  show ?thesis
  proof (cases "wt_rbuf (fst c)")
    case Nil
    from wakes_within_mono [OF fenced [OF inv pc Nil]] show ?thesis by simp
  next
    case (Cons st sts)
    let ?d = "(commit_head st ((fst c)\<lparr>wt_rbuf := sts\<rparr>), snd c)"
    have m: "wait_micro True True FlushReceiver c = Some ?d" using Cons by (simp add: on_shared_def flush_receiver_def)
    have r: "receiver_inv (fst c)" using inv by (simp add: wait_inv_def)
    have "sts = []" using r Cons by (rule rbuf_cases)
    then have "wt_rpc (fst ?d) = RFence" "wt_rbuf (fst ?d) = []" "wt_waiters (fst ?d) = wt_waiters (fst c)"
      using pc by (cases st; simp)+
    with fenced [OF wait_micro_keeps [OF inv m]]
    have "wakes_within (length (wl_list (wt_waiters (fst c))) + 4) (blocked_senders c) ?d" by (simp add: blocked_senders_def)
    from wakes_within_mono [OF wakes_within_step [OF m _ this]] show ?thesis by simp
  qed
qed


text \<open>
  C12: a \<^verbatim>\<open>wake_all\<close> that is under way reaches every blocked sender. If the receiver is inside a call that
  frees slots or drops it, its own remaining steps, one per registered sender and at most five more, end the
  call and leave a token with each sender that was blocked.
\<close>

theorem wake_all_delivered:
  assumes "wait_reachable True True cap n c" "wake_running (fst c)"
  shows "\<exists>as c'. set as \<subseteq> {WakeAllStep, FlushReceiver}
     \<and> length as \<le> length (wl_list (wt_waiters (fst c))) + length (wt_draining (fst c)) + 5
     \<and> run_steps (wait_step True True) as c = Some (Inr c')
     \<and> blocked_senders c \<subseteq> wt_tokens (fst c') \<and> \<not> wake_running (fst c')"
proof -
  let ?k = "length (wl_list (wt_waiters (fst c))) + length (wt_draining (fst c)) + 5"
  have inv: "wait_inv c" using wait_machine.reachable_inv [OF assms(1)] .
  have r: "receiver_inv (fst c)" using inv by (simp add: wait_inv_def)
  have "wakes_within ?k (blocked_senders c) c"
  proof (cases "wt_rpc (fst c)")
    case RFence
    from wakes_within_mono [OF wakes_within_fence [OF inv this]] show ?thesis by simp
  next
    case RSwap
    from wakes_within_mono [OF wakes_within_swap [OF inv this]] show ?thesis by simp
  next
    case RLock
    then have "wt_rbuf (fst c) = []" "\<not> wt_locked (fst c)" using receiver_settled [OF r] r by (simp_all add: receiver_inv_def)
    from wakes_within_mono [OF wakes_within_lock [OF RLock this, of "snd c"]] blocked_sender_places(2) [OF inv] RLock
    show ?thesis by simp
  next
    case RUnpark
    then have "wt_rbuf (fst c) = []" using receiver_settled [OF r] by simp
    from wakes_within_mono [OF wakes_within_unpark [OF RUnpark this, of "snd c"]] blocked_sender_places(1) [OF inv] RUnpark
    show ?thesis by simp
  qed (use assms(2) in \<open>simp_all add: wake_running_def\<close>)
  then show ?thesis unfolding wakes_within_def .
qed

theorem wake_all_delivered_witness:
  "\<exists>c as c'. wait_reachable True True 1 2 c \<and> sender_asleep c 0 \<and> sender_asleep c 1
     \<and> wt_rbuf (fst c) = [HdHead 1] \<and> run_steps (wait_step True True) as c = Some (Inr c')
     \<and> {0, 1} \<subseteq> wt_tokens (fst c') \<and> \<not> wake_running (fst c')"
proof -
  have "wait_run_ends True True 1 2 (send_steps 0 4 @ sleep_steps 0 @ sleep_steps 1 @ [TakeStart 1])
      (\<lambda>c. sender_asleep c 0 \<and> sender_asleep c 1 \<and> wake_running (fst c) \<and> wt_rbuf (fst c) = [HdHead 1])"
    by code_simp
  then obtain c where c: "wait_reachable True True 1 2 c" "sender_asleep c 0" "sender_asleep c 1" "wake_running (fst c)"
    "wt_rbuf (fst c) = [HdHead 1]"
    using run_reachesD by blast
  have "{0, 1} \<subseteq> blocked_senders c" using c(2,3) by (simp add: sender_asleep_def blocked_senders_def)
  with wake_all_delivered [OF c(1,4)] c show ?thesis by blast
qed

text \<open>
  Both fences of the waiter list's protocol are needed. Without the senders' fence, and likewise without
  the receiver's, the machine reaches a state in which every store is flushed, the receiver is between two
  calls, the ring has room, and a sender sleeps without a token.
\<close>

theorem waiter_fences_needed:
  "(\<exists>c. wait_reachable False True 1 1 c \<and> sender_asleep c 0 \<and> \<not> wake_running (fst c) \<and> st_buf (snd c ! 0) = []
      \<and> wt_rbuf (fst c) = [] \<and> wt_claim (fst c) < wt_head (fst c) + wt_cap (fst c))
   \<and> (\<exists>c. wait_reachable True False 1 1 c \<and> sender_asleep c 0 \<and> \<not> wake_running (fst c) \<and> st_buf (snd c ! 0) = []
      \<and> wt_rbuf (fst c) = [] \<and> wt_claim (fst c) < wt_head (fst c) + wt_cap (fst c))"
proof
  let ?lost = "\<lambda>c. sender_asleep c 0 \<and> \<not> wake_running (fst c) \<and> st_buf (snd c ! 0) = []
      \<and> wt_rbuf (fst c) = [] \<and> wt_claim (fst c) < wt_head (fst c) + wt_cap (fst c)"
  have "wait_run_ends False True 1 1
      (send_steps 0 13 @ [TakeStart 1, FlushReceiver, WakeAllStep, WakeAllStep, FlushSender 0]) ?lost"
    by code_simp
  then show "\<exists>c. wait_reachable False True 1 1 c \<and> ?lost c" by (rule run_reachesD)
  have "wait_run_ends True False 1 1
      (send_steps 0 4 @ [TakeStart 1, WakeAllStep, WakeAllStep] @ sleep_steps 0 @ [FlushReceiver]) ?lost"
    by code_simp
  then show "\<exists>c. wait_reachable True False 1 1 c \<and> ?lost c" by (rule run_reachesD)
qed

end
