(* ===== verification/Unit_Tests.thy ===== *)
theory Unit_Tests
  imports Spsc Mpsc Sharded
begin

text \<open>
  The unit tests of \<^verbatim>\<open>src/spsc.rs\<close>, \<^verbatim>\<open>src/mpsc.rs\<close>, \<^verbatim>\<open>src/sharded.rs\<close> and \<^verbatim>\<open>src/wait.rs\<close>, run on the model. Each test is
  an executable definition with the calls and the assertions of the Rust test; the kernel
  evaluates it. The 512 sends of \<^verbatim>\<open>full_is_per_shard_not_total\<close> are proved from the
  specification of a shard instead. Of the tests that bound wall-clock time the untimed content is checked: which rungs
  of the ladder sleep.
\<close>

section \<open>Test scripts\<close>

text \<open>A step performs a call and asserts its result; \<open>None\<close> is a failed assertion or a panic.\<close>

definition expect :: "('c \<Rightarrow> ('r \<times> 'c) outcome) \<Rightarrow> 'r \<Rightarrow> 'c \<Rightarrow> 'c option" where
  "expect call r c = (case call c of Inl _ \<Rightarrow> None | Inr (r', c') \<Rightarrow> if r' = r then Some c' else None)"

definition expect_drain :: "('c \<Rightarrow> (drain_exit \<times> 'a list \<times> 'c) outcome) \<Rightarrow> usize \<Rightarrow> 'a list \<Rightarrow> 'c \<Rightarrow> 'c option" where
  "expect_drain call n got c =
     (case call c of
        Inl _ \<Rightarrow> None
      | Inr (e, got', c') \<Rightarrow> if e = Returned n \<and> got' = got then Some c' else None)"

definition call_only :: "('c \<Rightarrow> ('r \<times> 'c) outcome) \<Rightarrow> 'c \<Rightarrow> 'c option" where
  "call_only call c = (case call c of Inl _ \<Rightarrow> None | Inr (_, c') \<Rightarrow> Some c')"

fun run_script :: "('c \<Rightarrow> 'c option) list \<Rightarrow> 'c \<Rightarrow> 'c option" where
  "run_script [] c = Some c"
| "run_script (s # ss) c = (case s c of None \<Rightarrow> None | Some c' \<Rightarrow> run_script ss c')"

definition passes :: "'c outcome \<Rightarrow> ('c \<Rightarrow> 'c option) list \<Rightarrow> bool" where
  "passes opened script =
     (case opened of
        Inl _ \<Rightarrow> False
      | Inr c \<Rightarrow> (case run_script script c of None \<Rightarrow> False | Some _ \<Rightarrow> True))"

text \<open>\<^verbatim>\<open>#[should_panic(expected = msg)]\<close>: a panic whose message contains \<open>msg\<close>.\<close>

fun contains :: "string \<Rightarrow> string \<Rightarrow> bool" where
  "contains msg [] = (msg = [])"
| "contains msg (c # cs) = (take (length msg) (c # cs) = msg \<or> contains msg cs)"

definition should_panic :: "string \<Rightarrow> 'c outcome \<Rightarrow> bool" where
  "should_panic msg r = (case r of Inl (Panic m) \<Rightarrow> contains msg m | _ \<Rightarrow> False)"

section \<open>\<^verbatim>\<open>src/spsc.rs\<close>\<close>

definition spsc_rejects_non_power_of_two_capacity :: bool where
  "spsc_rejects_non_power_of_two_capacity =
     should_panic ''positive power of two'' (spsc_open 100 BusySpin :: nat spsc outcome)"

definition spsc_full_and_empty_are_reported :: bool where
  "spsc_full_and_empty_are_reported =
     passes (spsc_open 2 BusySpin :: nat spsc outcome)
       [expect spsc_recv_op (Err Empty),
        expect (spsc_send_op 1) (Ok ()),
        expect (spsc_send_op 2) (Ok ()),
        expect (spsc_send_op 3) (Err (Full 3)),
        expect spsc_recv_op (Ok 1),
        expect (spsc_send_op 3) (Ok ()),
        expect spsc_recv_op (Ok 2),
        expect spsc_recv_op (Ok 3),
        expect spsc_recv_op (Err Empty)]"

definition spsc_disconnect_semantics_try_paths :: bool where
  "spsc_disconnect_semantics_try_paths =
     (passes (spsc_open 4 BusySpin :: string spsc outcome)
        [expect (spsc_send_op ''a'') (Ok ()),
         call_only spsc_drop_tx,
         expect spsc_recv_op (Ok ''a''),
         expect spsc_recv_op (Err RecvDisconnected)]
      \<and> passes (spsc_open 4 BusySpin :: string spsc outcome)
        [call_only spsc_drop_rx,
         expect (spsc_send_op ''b'') (Err (SendDisconnected ''b''))])"

definition spsc_drain_consumes_batch :: bool where
  "spsc_drain_consumes_batch =
     passes (spsc_open 8 BusySpin :: nat spsc outcome)
       (map (\<lambda>i. expect (spsc_send_op i) (Ok ())) [0..<5] @
        [expect_drain (spsc_drain_op 3 push_back []) 3 [0, 1, 2],
         expect_drain (spsc_drain_op usize_max push_back []) 2 [3, 4],
         expect_drain (spsc_drain_op usize_max push_back []) 0 []])"

definition spsc_zero_sized_payloads_work :: bool where
  "spsc_zero_sized_payloads_work =
     passes (spsc_open 2 BusySpin :: unit spsc outcome)
       [expect (spsc_send_op ()) (Ok ()), expect spsc_recv_op (Ok ())]"

lemma spsc_unit_tests:
  "spsc_rejects_non_power_of_two_capacity" "spsc_full_and_empty_are_reported"
  "spsc_disconnect_semantics_try_paths" "spsc_drain_consumes_batch" "spsc_zero_sized_payloads_work"
  by code_simp+

section \<open>\<^verbatim>\<open>src/mpsc.rs\<close>\<close>

text \<open>The first handle is number 0, its clone number 1; no exchange fails spuriously here.\<close>

definition mpsc_rejects_non_power_of_two_capacity :: bool where
  "mpsc_rejects_non_power_of_two_capacity =
     should_panic ''positive power of two'' (mpsc_open 100 BusySpin :: nat mpsc outcome)"

definition mpsc_try_send_reports_full_without_claiming :: bool where
  "mpsc_try_send_reports_full_without_claiming =
     passes (mpsc_open 2 BusySpin :: nat mpsc outcome)
       [expect (mpsc_send_op (0, 0) 1) (Ok ()),
        expect (mpsc_send_op (0, 0) 2) (Ok ()),
        expect (mpsc_send_op (0, 0) 3) (Err (Full 3)),
        expect (mpsc_send_op (0, 0) 4) (Err (Full 4)),
        expect mpsc_recv_op (Ok 1),
        expect (mpsc_send_op (0, 0) 5) (Ok ()),
        expect (mpsc_send_op (0, 0) 6) (Err (Full 6)),
        expect mpsc_recv_op (Ok 2),
        expect mpsc_recv_op (Ok 5),
        expect mpsc_recv_op (Err Empty)]"

definition mpsc_disconnect_semantics_try_paths :: bool where
  "mpsc_disconnect_semantics_try_paths =
     (passes (mpsc_open 4 BusySpin :: string mpsc outcome)
        [call_only (mpsc_clone_op 0),
         expect (mpsc_send_op (0, 0) ''a'') (Ok ()),
         call_only (mpsc_drop_tx 0),
         expect mpsc_recv_op (Ok ''a''),
         expect mpsc_recv_op (Err Empty),
         call_only (mpsc_drop_tx 1),
         expect mpsc_recv_op (Err RecvDisconnected)]
      \<and> passes (mpsc_open 4 BusySpin :: string mpsc outcome)
        [call_only mpsc_drop_rx,
         expect (mpsc_send_op (0, 0) ''b'') (Err (SendDisconnected ''b''))])"

definition mpsc_wrap_round :: "int \<Rightarrow> (int mpsc \<Rightarrow> int mpsc option) list" where
  "mpsc_wrap_round round =
     (let vs = map (\<lambda>i. round * 4 + i) [0, 1, 2, 3]
      in map (\<lambda>v. expect (mpsc_send_op (0, 0) v) (Ok ())) vs @
         [expect (mpsc_send_op (0, 0) 9999) (Err (Full 9999))] @
         (if round mod 2 = 0 then map (\<lambda>v. expect mpsc_recv_op (Ok v)) vs
          else [expect_drain (mpsc_drain_op usize_max push_back []) 4 vs]))"

definition mpsc_survives_many_ring_wraps :: bool where
  "mpsc_survives_many_ring_wraps =
     passes (mpsc_open 4 BusySpin) (concat (map mpsc_wrap_round [0..49]) @ [expect mpsc_recv_op (Err Empty)])"

definition mpsc_drain_consumes_contiguous_prefix :: bool where
  "mpsc_drain_consumes_contiguous_prefix =
     passes (mpsc_open 8 BusySpin :: nat mpsc outcome)
       (map (\<lambda>i. expect (mpsc_send_op (0, 0) i) (Ok ())) [0..<5] @
        [expect_drain (mpsc_drain_op usize_max push_back []) 5 [0, 1, 2, 3, 4]])"

lemma mpsc_unit_tests:
  "mpsc_rejects_non_power_of_two_capacity" "mpsc_try_send_reports_full_without_claiming"
  "mpsc_disconnect_semantics_try_paths" "mpsc_drain_consumes_contiguous_prefix"
  by code_simp+

lemma mpsc_wrap_test: "mpsc_survives_many_ring_wraps"
  by code_simp

section \<open>\<^verbatim>\<open>src/sharded.rs\<close>\<close>

definition sharded_rejects_uneven_split :: bool where
  "sharded_rejects_uneven_split =
     should_panic ''must divide evenly'' (sharded_channel 3 1024 BusySpin :: nat sharded outcome)"

definition sharded_rejects_non_power_of_two_per_shard :: bool where
  "sharded_rejects_non_power_of_two_per_shard =
     should_panic ''must be a positive power of two'' (sharded_channel 4 100 BusySpin :: nat sharded outcome)"

definition sharded_rejects_park_strategy :: bool where
  "sharded_rejects_park_strategy =
     should_panic ''does not support WaitStrategy::Park'' (sharded_channel 2 1024 Park :: nat sharded outcome)"

definition sharded_accepts_every_self_waking_strategy :: bool where
  "sharded_accepts_every_self_waking_strategy =
     list_all (\<lambda>strategy.
       passes (sharded_channel 2 8 strategy :: nat sharded outcome)
         [expect (sharded_try_send 0 1) (Ok ()), expect sharded_try_recv (Ok 1)])
       [BusySpin, Backoff, BackoffYield]"

definition sharded_drain_sweeps_shards_and_respects_max :: bool where
  "sharded_drain_sweeps_shards_and_respects_max =
     passes (sharded_channel 2 8 BusySpin :: nat sharded outcome)
       (map (\<lambda>v. expect (sharded_try_send 0 v) (Ok ())) [1, 2, 3] @
        map (\<lambda>v. expect (sharded_try_send 1 v) (Ok ())) [10, 20] @
        [expect_drain (sharded_drain 2 push_back []) 2 [1, 2],
         expect_drain (sharded_drain usize_max push_back []) 3 [3, 10, 20],
         expect_drain (sharded_drain usize_max push_back []) 0 []])"

text \<open>\<^verbatim>\<open>drop(senders)\<close> drops the handles of the vector in order.\<close>

definition sharded_drain_returns_zero_after_disconnect :: bool where
  "sharded_drain_returns_zero_after_disconnect =
     passes (sharded_channel 2 8 BusySpin :: nat sharded outcome)
       [expect (sharded_try_send 0 7) (Ok ()),
        call_only (sharded_drop_tx 0),
        call_only (sharded_drop_tx 1),
        expect_drain (sharded_drain usize_max push_back []) 1 [7],
        expect_drain (sharded_drain usize_max push_back []) 0 [],
        expect sharded_try_recv (Err RecvDisconnected)]"

text \<open>\<^verbatim>\<open>while let Ok(v) = rx.try_recv()\<close>, at most \<open>fuel\<close> calls.\<close>

fun recv_while_ok :: "nat \<Rightarrow> 'a sharded \<Rightarrow> ('a list \<times> 'a sharded) outcome" where
  "recv_while_ok 0 s = Inl (Panic ''out of fuel'')"
| "recv_while_ok (Suc fuel) s =
     (case sharded_try_recv s of
        Inl e \<Rightarrow> Inl e
      | Inr (Err _, s') \<Rightarrow> Inr ([], s')
      | Inr (Ok v, s') \<Rightarrow>
          (case recv_while_ok fuel s' of Inl e \<Rightarrow> Inl e | Inr (vs, s'') \<Rightarrow> Inr (v # vs, s'')))"

definition sharded_sticky_cursor_drains_a_shard_before_advancing :: bool where
  "sharded_sticky_cursor_drains_a_shard_before_advancing =
     passes (sharded_channel 2 8 BusySpin :: nat sharded outcome)
       (map (\<lambda>v. expect (sharded_try_send 0 v) (Ok ())) [1, 2, 3] @
        map (\<lambda>v. expect (sharded_try_send 1 v) (Ok ())) [10, 20] @
        [expect (recv_while_ok 6) [1, 2, 3, 10, 20]])"

definition sharded_visit_budget_advances_cursor_after_32_items :: bool where
  "sharded_visit_budget_advances_cursor_after_32_items =
     passes (sharded_channel 2 128 BusySpin :: int sharded outcome)
       (map (\<lambda>v. expect (sharded_try_send 0 v) (Ok ())) [0..39] @
        [expect (sharded_try_send 1 999) (Ok ())] @
        map (\<lambda>v. expect sharded_try_recv (Ok v)) ([0..31] @ [999, 32]))"

definition sharded_disconnect_requires_every_shard :: bool where
  "sharded_disconnect_requires_every_shard =
     passes (sharded_channel 2 8 BusySpin :: nat sharded outcome)
       [expect (sharded_try_send 1 7) (Ok ()),
        call_only (sharded_drop_tx 0),
        expect sharded_try_recv (Ok 7),
        expect sharded_try_recv (Err Empty),
        call_only (sharded_drop_tx 1),
        expect sharded_try_recv (Err RecvDisconnected)]"

definition sharded_drains_remaining_items_after_all_senders_drop :: bool where
  "sharded_drains_remaining_items_after_all_senders_drop =
     passes (sharded_channel 2 8 BusySpin :: nat sharded outcome)
       [expect (sharded_try_send 0 1) (Ok ()),
        expect (sharded_try_send 1 2) (Ok ()),
        call_only (sharded_drop_tx 0),
        call_only (sharded_drop_tx 1),
        expect sharded_try_recv (Ok 1),
        expect sharded_try_recv (Ok 2),
        expect sharded_try_recv (Err RecvDisconnected)]"

definition sharded_single_shard_degenerates_cleanly :: bool where
  "sharded_single_shard_degenerates_cleanly =
     passes (sharded_channel 1 4 BusySpin :: nat sharded outcome)
       [expect (sharded_try_send 0 1) (Ok ()),
        expect (sharded_try_send 0 2) (Ok ()),
        expect sharded_try_recv (Ok 1),
        expect sharded_try_recv (Ok 2),
        expect sharded_try_recv (Err Empty)]"

definition sharded_zero_sized_payloads_work :: bool where
  "sharded_zero_sized_payloads_work =
     passes (sharded_channel 2 8 BusySpin :: unit sharded outcome)
       [expect (sharded_try_send 0 ()) (Ok ()), expect sharded_try_recv (Ok ())]"

lemma sharded_constructor_tests:
  "sharded_rejects_uneven_split" "sharded_rejects_non_power_of_two_per_shard" "sharded_rejects_park_strategy"
  "sharded_accepts_every_self_waking_strategy"
  by code_simp+

lemma sharded_sweep_tests:
  "sharded_drain_sweeps_shards_and_respects_max" "sharded_drain_returns_zero_after_disconnect"
  "sharded_sticky_cursor_drains_a_shard_before_advancing" "sharded_disconnect_requires_every_shard"
  "sharded_drains_remaining_items_after_all_senders_drop" "sharded_single_shard_degenerates_cleanly"
  "sharded_zero_sized_payloads_work"
  by code_simp+

lemma sharded_budget_test: "sharded_visit_budget_advances_cursor_after_32_items"
  by code_simp

definition sharded_full_is_per_shard_not_total :: bool where
  "sharded_full_is_per_shard_not_total =
     passes (sharded_channel 2 1024 BusySpin :: nat sharded outcome)
       ([\<lambda>s. if length (sd_shards s) = 2 then Some s else None] @
        map (\<lambda>i. expect (sharded_try_send 0 i) (Ok ())) [0..<512] @
        [expect (sharded_try_send 0 512) (Err (Full 512)), expect (sharded_try_send 1 0) (Ok ())])"

lemma run_script_append:
  "run_script (ss @ ts) c = (case run_script ss c of None \<Rightarrow> None | Some c' \<Rightarrow> run_script ts c')"
  by (induction ss arbitrary: c) (auto split: option.splits)

lemma fill_shard:
  assumes "sharded_inv s" "i < length (sd_shards s)" "sharded_abs s ! i = q" "0 < bc_senders q" "bc_rx_live q" "bc_quota q = None"
    and "length (bc_queue q) + length vs \<le> bc_cap q"
  shows "\<exists>s'. run_script (map (\<lambda>v. expect (sharded_try_send i v) (Ok ())) vs) s = Some s' \<and> sharded_inv s'
     \<and> sharded_abs s' = (sharded_abs s)[i := q\<lparr>bc_queue := bc_queue q @ vs\<rparr>]"
  using assms
proof (induction vs arbitrary: s q)
  case Nil
  then show ?case by (auto simp: list_update_same_conv)
next
  case (Cons v vs)
  let ?q = "q\<lparr>bc_queue := bc_queue q @ [v]\<rparr>"
  have spec: "spec_try_send v q = (Ok (), ?q)" using Cons.prems(5-7) by (simp add: spec_try_send_def)
  from sharded_try_send_correct [OF Cons.prems(1,2), of v] obtain s1 where
    s1: "sharded_try_send i v s = Inr (Ok (), s1)" "sharded_inv s1" "sharded_abs s1 = (sharded_abs s)[i := ?q]"
    using Cons.prems(3,4) spec by auto
  have len: "length (sd_shards s1) = length (sd_shards s)" using arg_cong [OF s1(3), of length] by simp
  from Cons.IH [OF s1(2), of ?q] Cons.prems s1(3) len obtain s' where
    "run_script (map (\<lambda>v. expect (sharded_try_send i v) (Ok ())) vs) s1 = Some s'" "sharded_inv s'"
    "sharded_abs s' = (sharded_abs s)[i := q\<lparr>bc_queue := bc_queue q @ v # vs\<rparr>]"
    by auto
  moreover have "expect (sharded_try_send i v) (Ok ()) s = Some s1" using s1(1) by (simp add: expect_def)
  ultimately show ?case by auto
qed

lemma sharded_full_test: "sharded_full_is_per_shard_not_total"
proof -
  have ok: "(1024 :: usize) mod 2 = 0" "is_power_of_two ((1024 :: usize) div 2)" "(2 :: usize) > 0" by code_simp+
  have two: "replicate 2 x = [x, x]" for x :: "nat bchan" by (simp add: numeral_2_eq_2)
  have u: "unat (2 :: usize) = 2" "unat ((1024 :: usize) div 2) = 512" by simp_all
  from sharded_channel_ok [OF ok(3,1,2), of BusySpin] obtain s :: "nat sharded" where
    s: "sharded_channel 2 1024 BusySpin = Inr s" "sharded_inv s"
      "sharded_abs s = replicate (unat (2 :: usize)) (fresh_bchan (1024 div 2))" "length (sd_shards s) = unat (2 :: usize)"
    by auto
  let ?q = "fresh_bchan (1024 div 2) :: nat bchan"
  have abs: "sharded_abs s = [?q, ?q]" "length (sd_shards s) = 2" using s(3,4) unfolding u(1) by (simp_all add: two)
  let ?full = "?q\<lparr>bc_queue := [0..<512]\<rparr>"
  from fill_shard [OF s(2), of 0 ?q "[0..<512]"] abs obtain s1 where
    s1: "run_script (map (\<lambda>i. expect (sharded_try_send 0 i) (Ok ())) [0..<512]) s = Some s1" "sharded_inv s1"
      "sharded_abs s1 = [?full, ?q]"
    by auto
  have len: "length (sd_shards s1) = 2" using arg_cong [OF s1(3), of length] by simp
  from sharded_try_send_correct [OF s1(2), of 0 512] s1(3) len obtain s2 where
    s2: "sharded_try_send 0 512 s1 = Inr (Err (Full 512), s2)" "sharded_inv s2" "sharded_abs s2 = [?full, ?q]"
    by (auto simp: spec_try_send_def)
  have len2: "length (sd_shards s2) = 2" using arg_cong [OF s2(3), of length] by simp
  from sharded_try_send_correct [OF s2(2), of 1 0] s2(3) len2 obtain s3 where
    s3: "sharded_try_send 1 0 s2 = Inr (Ok (), s3)"
    by (auto simp: spec_try_send_def)
  show ?thesis
    unfolding sharded_full_is_per_shard_not_total_def passes_def s(1) sum.case run_script_append
    using abs(2) s1(1) s2(1) s3 by (simp add: expect_def del: upt.simps)
qed

section \<open>\<^verbatim>\<open>src/wait.rs\<close>\<close>

definition park_min_is_at_or_above_the_os_timer_floor :: bool where
  "park_min_is_at_or_above_the_os_timer_floor = (PARK_MIN \<ge> from_micros 64 \<and> PARK_MAX > PARK_MIN)"

definition yielding_ladder_never_escalates_to_parks :: bool where
  "yielding_ladder_never_escalates_to_parks =
     (let n = unat (SPINS + YIELDS + 5);
          yielding = idle_after n (for_strategy BackoffYield);
          parking = idle_after n (for_strategy Backoff)
      in idle_park parking > PARK_MIN \<and> idle_park yielding = PARK_MIN)"

text \<open>The untimed part of the first test: no park on the first rungs, then a park of at least \<^verbatim>\<open>PARK_MIN\<close>, and 30 more calls.\<close>

fun idle_trace :: "nat \<Rightarrow> idle_state \<Rightarrow> wait_action list" where
  "idle_trace 0 i = []"
| "idle_trace (Suc n) i = (let (act, i') = idle i in act # idle_trace n i')"

fun park_time :: "wait_action \<Rightarrow> int option" where
  "park_time (ParkTimeout t) = Some t"
| "park_time _ = None"

definition idle_ladder_spins_then_yields_then_parks_bounded :: bool where
  "idle_ladder_spins_then_yields_then_parks_bounded =
     (let k = unat (SPINS + YIELDS); times = map park_time (idle_trace (k + 31) idle_new)
      in list_all (\<lambda>t. t = None) (take k times) \<and>
         list_all (\<lambda>t. case t of None \<Rightarrow> False | Some d \<Rightarrow> PARK_MIN \<le> d \<and> d \<le> PARK_MAX) (drop k times))"

definition yielding_ladder_does_not_sleep :: bool where
  "yielding_ladder_does_not_sleep =
     list_all (\<lambda>act. park_time act = None) (idle_trace (unat (SPINS + YIELDS + 50)) (for_strategy BackoffYield))"

lemma wait_unit_tests:
  "park_min_is_at_or_above_the_os_timer_floor" "yielding_ladder_never_escalates_to_parks"
  "idle_ladder_spins_then_yields_then_parks_bounded" "yielding_ladder_does_not_sleep"
  by code_simp+

end
