(* ===== verification/Spsc_Calls.thy ===== *)
theory Spsc_Calls
  imports Spsc_Concurrent
begin

text \<open>
  The calls of the concurrent SPSC machine as a client sees them: which thread's steps move what,
  that a call in progress can always take its next step, how many of its own steps it still
  needs, and what the value it returns has to do with the values that left the ring.
\<close>

section \<open>Calls in progress\<close>

fun recv_pc :: "'a rx_pc \<Rightarrow> bool" where
  "recv_pc RTest = True"
| "recv_pc RDisc = True"
| "recv_pc RReload = True"
| "recv_pc RRead = True"
| "recv_pc (RPublish v) = True"
| "recv_pc (RWake v) = True"
| "recv_pc _ = False"

fun drain_pc :: "'a rx_pc \<Rightarrow> bool" where
  "drain_pc (RLoop mx count start) = True"
| "drain_pc (RTake mx count start) = True"
| "drain_pc (RGuard panicked count start) = True"
| "drain_pc (RDrainWake count) = True"
| "drain_pc _ = False"

fun send_pc :: "'a tx_pc \<Rightarrow> bool" where
  "send_pc TIdle = False"
| "send_pc TDead = False"
| "send_pc _ = True"

text \<open>How many steps of its own a call can still take, whatever the other thread does.\<close>

fun recv_left :: "'a rx_pc \<Rightarrow> nat" where
  "recv_left RTest = 6"
| "recv_left RDisc = 5"
| "recv_left RReload = 4"
| "recv_left RRead = 3"
| "recv_left (RPublish v) = 2"
| "recv_left (RWake v) = 1"
| "recv_left _ = 0"

fun send_left :: "'a tx_pc \<Rightarrow> nat" where
  "send_left (TCheck v) = 5"
| "send_left (TTest v) = 4"
| "send_left (TWrite v) = 3"
| "send_left (TPublish v) = 2"
| "send_left TWake = 1"
| "send_left _ = 0"

text \<open>The value a \<^verbatim>\<open>try_recv\<close> has moved out and not returned yet, and the values of its results.\<close>

fun rx_inflight :: "'a rx_pc \<Rightarrow> 'a list" where
  "rx_inflight (RPublish v) = [v]"
| "rx_inflight (RWake v) = [v]"
| "rx_inflight _ = []"

fun ok_value :: "'a rx_result \<Rightarrow> 'a list" where
  "ok_value (RetRecv (Ok v)) = [v]"
| "ok_value _ = []"

abbreviation ok_values :: "'a rx_result list \<Rightarrow> 'a list" where
  "ok_values log \<equiv> concat (map ok_value log)"

lemmas micro_defs = tx_micro_def rx_micro_def tx_return_def rx_return_def rx_load_tail_def rx_read_slot_def
  rx_wake_def drop_handle_def publish_guard_drop_def

section \<open>Steps of one side\<close>

text \<open>The sender's actions leave the receiver's side alone.\<close>

fun sender_action :: "'a conc_action \<Rightarrow> bool" where
  "sender_action (TCall v) = True"
| "sender_action TDrop = True"
| "sender_action (TStep x b) = True"
| "sender_action _ = False"

lemma sender_step_frame:
  assumes "sender_action a" "spsc_micro a c = Some (Inr c')"
  shows "cc_rx_pc c' = cc_rx_pc c" "cc_rx_log c' = cc_rx_log c" "cc_taken c' = cc_taken c"
  using assms
  by (cases a; auto simp: micro_defs Let_def case_prod_unfold split: if_splits tx_pc.splits sum.splits)+

lemma receiver_step_frame:
  assumes "\<not> sender_action a" "spsc_micro a c = Some (Inr c')"
  shows "cc_tx_pc c' = cc_tx_pc c" "cc_tx_log c' = cc_tx_log c" "cc_published c' = cc_published c"
  using assms
  by (cases a; auto simp: micro_defs Let_def case_prod_unfold split: if_splits rx_pc.splits sum.splits)+

text \<open>Histories only grow.\<close>

lemma micro_histories_grow:
  assumes "spsc_micro a c = Some (Inr c')"
  shows "\<exists>rs. cc_rx_log c' = cc_rx_log c @ rs" "\<exists>vs. cc_taken c' = cc_taken c @ vs"
  using assms
  by (cases a; auto simp: micro_defs Let_def case_prod_unfold split: if_splits tx_pc.splits rx_pc.splits sum.splits)+

text \<open>
  One step inside a \<^verbatim>\<open>try_recv\<close>: the call goes on or returns, and its result is the value it took
  out of the ring, if any.
\<close>

lemma recv_step_cases:
  assumes "recv_pc (cc_rx_pc c)" "spsc_micro (RStep x b p) c = Some (Inr c')"
  obtains (go) vs where "recv_pc (cc_rx_pc c')" "cc_rx_log c' = cc_rx_log c" "cc_taken c' = cc_taken c @ vs"
      "rx_inflight (cc_rx_pc c') = rx_inflight (cc_rx_pc c) @ vs" "recv_left (cc_rx_pc c') < recv_left (cc_rx_pc c)"
    | (ret) r where "cc_rx_pc c' = RIdle" "cc_rx_log c' = cc_rx_log c @ [RetRecv r]" "cc_taken c' = cc_taken c"
      "ok_value (RetRecv r) = rx_inflight (cc_rx_pc c)"
  using assms
  by (cases "cc_rx_pc c")
    (auto simp: micro_defs Let_def case_prod_unfold split: if_splits sum.splits)

lemma drain_step_cases:
  assumes "drain_pc (cc_rx_pc c)" "spsc_micro (RStep x b p) c = Some (Inr c')"
  obtains (go) "drain_pc (cc_rx_pc c')" "cc_rx_log c' = cc_rx_log c"
    | (ret) e where "cc_rx_pc c' = RIdle" "cc_rx_log c' = cc_rx_log c @ [RetDrain e]"
  using assms
  by (cases "cc_rx_pc c")
    (auto simp: micro_defs Let_def case_prod_unfold split: if_splits sum.splits)

lemma send_step_left:
  assumes "send_pc (cc_tx_pc c)" "spsc_micro (TStep x b) c = Some (Inr c')"
  shows "send_left (cc_tx_pc c') < send_left (cc_tx_pc c)"
    "cc_tx_pc c' = TIdle \<or> send_pc (cc_tx_pc c')"
  using assms
  by (cases "cc_tx_pc c"; auto simp: micro_defs Let_def case_prod_unfold split: if_splits sum.splits)+

text \<open>A call in progress is never blocked: with current loads its next step exists.\<close>

lemma recv_step_exists:
  assumes "recv_pc (cc_rx_pc c)"
  shows "\<exists>r. spsc_micro (RStep (sp_tail (cc_shared c)) False p) c = Some r"
  using assms by (cases "cc_rx_pc c") (auto simp: micro_defs seen_def Let_def)

lemma drain_step_exists:
  assumes "drain_pc (cc_rx_pc c)"
  shows "\<exists>r. spsc_micro (RStep (sp_tail (cc_shared c)) False p) c = Some r"
  using assms by (cases "cc_rx_pc c") (auto simp: micro_defs seen_def Let_def)

lemma send_step_exists:
  assumes "send_pc (cc_tx_pc c)"
  shows "\<exists>r. spsc_micro (TStep (sp_head (cc_shared c)) False) c = Some r"
  using assms by (cases "cc_tx_pc c") (auto simp: micro_defs seen_def Let_def case_prod_unfold)

section \<open>The non-blocking methods are wait-free\<close>

definition in_send :: "(unit, 'a try_send_error) rust_result list \<Rightarrow> 'a spsc_conc \<Rightarrow> bool" where
  "in_send log c \<longleftrightarrow> (send_pc (cc_tx_pc c) \<and> cc_tx_log c = log) \<or> (\<exists>r. cc_tx_pc c = TIdle \<and> cc_tx_log c = log @ [r])"

definition in_ring_recv :: "'a rx_result list \<Rightarrow> 'a spsc_conc \<Rightarrow> bool" where
  "in_ring_recv log c \<longleftrightarrow>
     (recv_pc (cc_rx_pc c) \<and> cc_rx_log c = log) \<or> (\<exists>r. cc_rx_pc c = RIdle \<and> cc_rx_log c = log @ [RetRecv r])"

text \<open>Actions that neither start another call nor drop the handle, on the sender's and on the receiver's side.\<close>

fun within_send :: "'a conc_action \<Rightarrow> bool" where
  "within_send (TCall v) = False"
| "within_send TDrop = False"
| "within_send _ = True"

fun within_recv :: "'a conc_action \<Rightarrow> bool" where
  "within_recv RCall = False"
| "within_recv (RDrainCall mx) = False"
| "within_recv RDrop = False"
| "within_recv _ = True"

fun is_tx_step :: "'a conc_action \<Rightarrow> bool" where
  "is_tx_step (TStep x b) = True"
| "is_tx_step _ = False"

fun is_rx_step :: "'a conc_action \<Rightarrow> bool" where
  "is_rx_step (RStep x b p) = True"
| "is_rx_step _ = False"

lemma send_step_log:
  assumes "send_pc (cc_tx_pc c)" "spsc_micro (TStep x b) c = Some (Inr c')"
  shows "in_send (cc_tx_log c) c'"
  using assms
  by (cases "cc_tx_pc c") (auto simp: in_send_def micro_defs Let_def case_prod_unfold split: if_splits sum.splits)

lemma send_progress:
  assumes "in_send log c" "within_send a" "spsc_micro a c = Some (Inr c')"
  shows "in_send log c' \<and> send_left (cc_tx_pc c') + (if is_tx_step a then 1 else 0) \<le> send_left (cc_tx_pc c)"
proof (cases "is_tx_step a")
  case True
  then obtain x b where a: "a = TStep x b" by (cases a) simp_all
  with assms have "send_pc (cc_tx_pc c)" "cc_tx_log c = log" by (auto simp: in_send_def tx_micro_def)
  with send_step_log [of c x b c'] send_step_left(1) [of c x b c'] assms(3) a show ?thesis by simp
next
  case False
  then have "\<not> sender_action a" using assms(2) by (cases a) simp_all
  from receiver_step_frame [OF this assms(3)] assms(1) False show ?thesis by (simp add: in_send_def)
qed

lemma recv_progress:
  assumes "in_ring_recv log c" "within_recv a" "spsc_micro a c = Some (Inr c')"
  shows "in_ring_recv log c' \<and> recv_left (cc_rx_pc c') + (if is_rx_step a then 1 else 0) \<le> recv_left (cc_rx_pc c)"
proof (cases "is_rx_step a")
  case True
  then obtain x b p where a: "a = RStep x b p" by (cases a) simp_all
  with assms have pc: "recv_pc (cc_rx_pc c)" "cc_rx_log c = log" by (auto simp: in_ring_recv_def rx_micro_def)
  have pos: "0 < recv_left (cc_rx_pc c)" using pc(1) by (cases "cc_rx_pc c") simp_all
  from pc(1) assms(3) [unfolded a] show ?thesis
    by (cases rule: recv_step_cases) (use pc pos True in \<open>auto simp: in_ring_recv_def\<close>)
next
  case False
  then have "sender_action a" using assms(2) by (cases a) simp_all
  from sender_step_frame [OF this assms(3)] assms(1) False show ?thesis by (simp add: in_ring_recv_def)
qed

interpretation send_call: bounded_call "\<lambda>c. spsc_conc_init cap strategy = Inr c" spsc_micro
    "\<lambda>c. (\<exists>S CH CT. conc_inv S CH CT c) \<and> sp_cap (cc_shared c) = cap"
    in_send within_send is_tx_step "\<lambda>c. send_left (cc_tx_pc c)" for cap strategy
  by unfold_locales (rule send_progress)

interpretation recv_call: bounded_call "\<lambda>c. spsc_conc_init cap strategy = Inr c" spsc_micro
    "\<lambda>c. (\<exists>S CH CT. conc_inv S CH CT c) \<and> sp_cap (cc_shared c) = cap"
    in_ring_recv within_recv is_rx_step "\<lambda>c. recv_left (cc_rx_pc c)" for cap strategy
  by unfold_locales (rule recv_progress)

text \<open>
  \<^verbatim>\<open>try_send\<close> is wait-free. Whatever the receiver's thread does in between, and whatever the loads
  return, a call takes at most five steps of its own, and until it has returned its next
  step is possible.
\<close>

theorem spsc_try_send_wait_free:
  assumes "spsc_reachable cap strategy c" "list_all within_send as"
    and "run_steps spsc_micro (TCall v # as) c = Some (Inr c')"
  shows "length (filter is_tx_step as) \<le> 5 \<and>
     ((\<exists>r. cc_tx_pc c' = TIdle \<and> cc_tx_log c' = cc_tx_log c @ [r])
      \<or> (\<exists>x b c''. spsc_micro (TStep x b) c' = Some (Inr c'')))"
proof -
  let ?c = "c\<lparr>cc_tx_pc := TCheck v\<rparr>"
  have s1: "spsc_micro (TCall v) c = Some (Inr ?c)" "run_steps spsc_micro as ?c = Some (Inr c')"
    using assms(3) by (auto split: if_splits)
  have reach: "spsc_reachable cap strategy ?c" using reachable_by.step [OF assms(1) s1(1)] .
  have fin: "in_send (cc_tx_log c) c'" "length (filter is_tx_step as) \<le> 5"
    using send_call.progress_run [OF reach _ assms(2) s1(2), of "cc_tx_log c"] by (simp_all add: in_send_def)
  have "spsc_reachable cap strategy c'" using run_steps_reachable [OF s1(2) reach] .
  then have "\<exists>x b c''. spsc_micro (TStep x b) c' = Some (Inr c'')" if "send_pc (cc_tx_pc c')"
    using send_step_exists [OF that] spsc_machine.no_fault [of cap strategy c'] by blast
  with fin show ?thesis by (auto simp: in_send_def)
qed

theorem spsc_try_send_wait_free_witness:
  "\<exists>c c'. spsc_reachable 2 BusySpin c \<and> run_steps spsc_micro [TCall (7 :: nat), TStep 0 False, RCall, TStep 0 False] c = Some (Inr c')
     \<and> (\<exists>x b c''. spsc_micro (TStep x b) c' = Some (Inr c''))"
proof -
  have "schedule_reaches 2 BusySpin []
      (\<lambda>c :: nat spsc_conc. run_reaches (Inr c) spsc_micro [TCall 7, TStep 0 False, RCall, TStep 0 False] (\<lambda>c'. cc_tx_pc c' = TWrite 7))"
    by code_simp
  then obtain c :: "nat spsc_conc" where c: "spsc_reachable 2 BusySpin c"
    "run_reaches (Inr c) spsc_micro [TCall 7, TStep 0 False, RCall, TStep 0 False] (\<lambda>c'. cc_tx_pc c' = TWrite 7)"
    using run_reachesD by blast
  then obtain c' where c': "run_steps spsc_micro [TCall 7, TStep 0 False, RCall, TStep 0 False] c = Some (Inr c')"
    "cc_tx_pc c' = TWrite 7"
    by (auto simp: run_reaches_def simp del: run_steps.simps split: option.splits sum.splits)
  from spsc_try_send_wait_free [OF c(1) _ c'(1)] c'(2) have "\<exists>x b c''. spsc_micro (TStep x b) c' = Some (Inr c'')" by simp
  with c(1) c'(1) show ?thesis by blast
qed

text \<open>The same for \<^verbatim>\<open>try_recv\<close>: at most six steps of its own.\<close>

theorem spsc_try_recv_wait_free:
  assumes "spsc_reachable cap strategy c" "list_all within_recv as"
    and "run_steps spsc_micro (RCall # as) c = Some (Inr c')"
  shows "length (filter is_rx_step as) \<le> 6 \<and>
     ((\<exists>r. cc_rx_pc c' = RIdle \<and> cc_rx_log c' = cc_rx_log c @ [RetRecv r])
      \<or> (\<exists>x b p c''. spsc_micro (RStep x b p) c' = Some (Inr c'')))"
proof -
  let ?c = "c\<lparr>cc_rx_pc := RTest\<rparr>"
  have s1: "spsc_micro RCall c = Some (Inr ?c)" "run_steps spsc_micro as ?c = Some (Inr c')"
    using assms(3) by (auto split: if_splits)
  have reach: "spsc_reachable cap strategy ?c" using reachable_by.step [OF assms(1) s1(1)] .
  have fin: "in_ring_recv (cc_rx_log c) c'" "length (filter is_rx_step as) \<le> 6"
    using recv_call.progress_run [OF reach _ assms(2) s1(2), of "cc_rx_log c"] by (simp_all add: in_ring_recv_def)
  have "spsc_reachable cap strategy c'" using run_steps_reachable [OF s1(2) reach] .
  then have "\<exists>x b p c''. spsc_micro (RStep x b p) c' = Some (Inr c'')" if "recv_pc (cc_rx_pc c')"
    using recv_step_exists [OF that] spsc_machine.no_fault [of cap strategy c'] by blast
  with fin show ?thesis by (auto simp: in_ring_recv_def)
qed

section \<open>Results and histories\<close>

text \<open>
  As long as only \<^verbatim>\<open>try_recv\<close> is used, the values it returned, and the one it is about to return, are the
  values that left the ring.
\<close>

definition ring_returns :: "'a spsc_conc \<Rightarrow> bool" where
  "ring_returns c \<longleftrightarrow>
     ((\<forall>e. RetDrain e \<notin> set (cc_rx_log c)) \<and> \<not> drain_pc (cc_rx_pc c) \<longrightarrow>
       ok_values (cc_rx_log c) @ rx_inflight (cc_rx_pc c) = cc_taken c)"

lemma ring_returns_receiver_step:
  assumes "ring_returns c" "spsc_micro (RStep x b p) c = Some (Inr c')"
  shows "ring_returns c'"
proof -
  consider (recv) "recv_pc (cc_rx_pc c)" | (drain) "drain_pc (cc_rx_pc c)"
    using assms(2) by (cases "cc_rx_pc c") (auto simp: rx_micro_def)
  then show ?thesis
  proof cases
    case recv
    then have "\<not> drain_pc (cc_rx_pc c)" by (cases "cc_rx_pc c") simp_all
    with recv assms(2) show ?thesis
      by (cases rule: recv_step_cases) (use assms(1) in \<open>auto simp: ring_returns_def simp flip: append_assoc\<close>)
  next
    case drain
    from drain assms(2) show ?thesis by (cases rule: drain_step_cases) (auto simp: ring_returns_def)
  qed
qed

lemma control_step_frame:
  assumes "\<not> sender_action a" "\<not> is_rx_step a" "spsc_micro a c = Some (Inr c')"
  shows "cc_rx_pc c = RIdle" "cc_rx_log c' = cc_rx_log c" "cc_taken c' = cc_taken c" "rx_inflight (cc_rx_pc c') = []"
  using assms by (cases a; auto simp: drop_handle_def case_prod_unfold Let_def split: if_splits)+

lemma spsc_reachable_returns: "spsc_reachable cap strategy c \<Longrightarrow> ring_returns c"
proof (induction rule: reachable_by.induct)
  case (init c)
  then show ?case by (auto simp: spsc_conc_init_def ring_returns_def)
next
  case (step c a c')
  show ?case
  proof (cases "sender_action a")
    case True
    from sender_step_frame [OF this step.hyps(2)] step.IH show ?thesis by (simp add: ring_returns_def)
  next
    case False
    show ?thesis
    proof (cases "is_rx_step a")
      case True
      then obtain x b p where "a = RStep x b p" by (cases a) simp_all
      with step ring_returns_receiver_step show ?thesis by blast
    next
      case other: False
      from control_step_frame [OF False other step.hyps(2)] step.IH show ?thesis by (simp add: ring_returns_def)
    qed
  qed
qed

text \<open>
  What a consumer that loops on \<^verbatim>\<open>try_recv\<close> is given. In every interleaving the values of the \<^verbatim>\<open>Ok\<close>
  results are, in order, a prefix of the values the sender published; once \<^verbatim>\<open>Disconnected\<close> was returned
  they are all of them.
\<close>

theorem spsc_results_fifo:
  assumes "spsc_reachable cap strategy c" "cc_rx_pc c = RIdle" "\<forall>e. RetDrain e \<notin> set (cc_rx_log c)"
  shows "\<exists>rest. cc_published c = ok_values (cc_rx_log c) @ rest \<and> length rest \<le> unat cap
     \<and> (RetRecv (Err RecvDisconnected) \<in> set (cc_rx_log c) \<longrightarrow> rest = [])"
proof -
  have "cc_taken c = ok_values (cc_rx_log c)"
    using spsc_reachable_returns [OF assms(1)] assms(2,3) by (simp add: ring_returns_def)
  then show ?thesis using spsc_reachable_fifo [OF assms(1)] spsc_reachable_gone [OF assms(1)] by auto
qed

theorem spsc_results_fifo_witness:
  "\<exists>c rest. spsc_reachable 2 BusySpin c \<and> cc_rx_log c = [RetRecv (Err Empty), RetRecv (Ok (7 :: nat))]
     \<and> cc_published c = [7] @ rest"
proof -
  have "schedule_reaches 2 BusySpin
      [RCall, TCall 7, RStep 0 False False, TStep 0 False, TStep 0 False, TStep 0 False, TStep 0 False, RStep 0 False False,
       TCall 8, RCall, TStep 0 False, RStep 1 False False, TStep 0 False, RStep 0 False False, RStep 0 False False]
      (\<lambda>c. cc_rx_pc c = RIdle \<and> cc_rx_log c = [RetRecv (Err Empty), RetRecv (Ok (7 :: nat))])"
    by code_simp
  then obtain c where c: "spsc_reachable 2 BusySpin c" "cc_rx_pc c = RIdle"
    "cc_rx_log c = [RetRecv (Err Empty), RetRecv (Ok (7 :: nat))]"
    using run_reachesD by blast
  have "\<exists>rest. cc_published c = [7] @ rest" using spsc_results_fifo [OF c(1,2)] c(3) by auto
  with c(1,3) show ?thesis by blast
qed

end
