(* ===== verification/Mpsc_Calls.thy ===== *)
theory Mpsc_Calls
  imports Mpsc_Concurrent
begin

text \<open>
  The consumer's \<^verbatim>\<open>try_recv\<close> of the concurrent MPSC machine: it never waits for a producer. A producer that
  has claimed a slot and not published it yet (and may be descheduled there) makes the call
  return \<^verbatim>\<open>Empty\<close>, not spin. Values and results: what the calls returned is what left the ring.
\<close>

fun mrecv_pc :: "'a mrx_pc \<Rightarrow> bool" where
  "mrecv_pc MTest = True"
| "mrecv_pc MSenders = True"
| "mrecv_pc MReload = True"
| "mrecv_pc MRead = True"
| "mrecv_pc (MPublish v) = True"
| "mrecv_pc (MWake v) = True"
| "mrecv_pc _ = False"

fun mdrain_pc :: "'a mrx_pc \<Rightarrow> bool" where
  "mdrain_pc (MLoop mx count start) = True"
| "mdrain_pc (MTake mx count start) = True"
| "mdrain_pc (MGuard panicked count start) = True"
| "mdrain_pc (MDrainWake count) = True"
| "mdrain_pc _ = False"

fun mrecv_left :: "'a mrx_pc \<Rightarrow> nat" where
  "mrecv_left MTest = 6"
| "mrecv_left MSenders = 5"
| "mrecv_left MReload = 4"
| "mrecv_left MRead = 3"
| "mrecv_left (MPublish v) = 2"
| "mrecv_left (MWake v) = 1"
| "mrecv_left _ = 0"

fun mrx_inflight :: "'a mrx_pc \<Rightarrow> 'a list" where
  "mrx_inflight (MPublish v) = [v]"
| "mrx_inflight (MWake v) = [v]"
| "mrx_inflight _ = []"

fun mok_value :: "'a mrx_result \<Rightarrow> 'a list" where
  "mok_value (MRetRecv (Ok v)) = [v]"
| "mok_value _ = []"

abbreviation mok_values :: "'a mrx_result list \<Rightarrow> 'a list" where
  "mok_values log \<equiv> concat (map mok_value log)"

lemmas mrx_defs = mrx_micro_def mrx_return_def mrx_load_round_def mrx_read_slot_def mrx_wake_def

section \<open>Steps\<close>

fun producer_action :: "'a mconc_action \<Rightarrow> bool" where
  "producer_action (PCall i v) = True"
| "producer_action (PClone i) = True"
| "producer_action (PDrop i) = True"
| "producer_action (PStep i x b) = True"
| "producer_action _ = False"

lemma ptx_micro_frame:
  assumes "ptx_micro i x b c = Some (Inr c')"
  shows "mk_rx_pc c' = mk_rx_pc c \<and> mk_rx_log c' = mk_rx_log c \<and> mk_taken c' = mk_taken c"
  using assms
  by (cases "pr_pc (mk_txs c ! i)")
    (auto simp: ptx_micro_def ptx_return_def set_producer_def Let_def case_prod_unfold split: if_splits sum.splits)

lemma producer_action_frame:
  assumes "producer_action a" "mpsc_micro a c = Some (Inr c')"
  shows "mk_rx_pc c' = mk_rx_pc c" "mk_rx_log c' = mk_rx_log c" "mk_taken c' = mk_taken c"
  using assms ptx_micro_frame [of _ _ _ c c']
  by (cases a; auto simp: set_producer_def Let_def case_prod_unfold split: if_splits)+

lemma mrecv_step_cases:
  assumes "mrecv_pc (mk_rx_pc c)" "mpsc_micro (MStep b p) c = Some (Inr c')"
  obtains (go) vs where "mrecv_pc (mk_rx_pc c')" "mk_rx_log c' = mk_rx_log c" "mk_taken c' = mk_taken c @ vs"
      "mrx_inflight (mk_rx_pc c') = mrx_inflight (mk_rx_pc c) @ vs" "mrecv_left (mk_rx_pc c') < mrecv_left (mk_rx_pc c)"
    | (ret) r where "mk_rx_pc c' = MIdle" "mk_rx_log c' = mk_rx_log c @ [MRetRecv r]" "mk_taken c' = mk_taken c"
      "mok_value (MRetRecv r) = mrx_inflight (mk_rx_pc c)"
  using assms
  by (cases "mk_rx_pc c") (auto simp: mrx_defs Let_def case_prod_unfold split: if_splits sum.splits)

lemma mdrain_step_cases:
  assumes "mdrain_pc (mk_rx_pc c)" "mpsc_micro (MStep b p) c = Some (Inr c')"
  obtains (go) "mdrain_pc (mk_rx_pc c')" "mk_rx_log c' = mk_rx_log c"
    | (ret) e where "mk_rx_pc c' = MIdle" "mk_rx_log c' = mk_rx_log c @ [MRetDrain e]"
  using assms
  by (cases "mk_rx_pc c") (auto simp: mrx_defs Let_def case_prod_unfold split: if_splits sum.splits)

lemma mrecv_step_exists:
  assumes "mrecv_pc (mk_rx_pc c)"
  shows "\<exists>r. mpsc_micro (MStep False p) c = Some r"
  using assms by (cases "mk_rx_pc c") (auto simp: mrx_defs Let_def split: sum.splits)

section \<open>The call is wait-free\<close>

definition in_mrecv :: "'a mrx_result list \<Rightarrow> 'a mpsc_conc \<Rightarrow> bool" where
  "in_mrecv log c \<longleftrightarrow>
     (mrecv_pc (mk_rx_pc c) \<and> mk_rx_log c = log) \<or> (\<exists>r. mk_rx_pc c = MIdle \<and> mk_rx_log c = log @ [MRetRecv r])"

fun within_mrecv :: "'a mconc_action \<Rightarrow> bool" where
  "within_mrecv MCall = False"
| "within_mrecv (MDrainCall mx) = False"
| "within_mrecv MDrop = False"
| "within_mrecv _ = True"

fun is_mrx_step :: "'a mconc_action \<Rightarrow> bool" where
  "is_mrx_step (MStep b p) = True"
| "is_mrx_step _ = False"

lemma mrecv_progress:
  assumes "in_mrecv log c" "within_mrecv a" "mpsc_micro a c = Some (Inr c')"
  shows "in_mrecv log c' \<and> mrecv_left (mk_rx_pc c') + (if is_mrx_step a then 1 else 0) \<le> mrecv_left (mk_rx_pc c)"
proof (cases "is_mrx_step a")
  case True
  then obtain b p where a: "a = MStep b p" by (cases a) simp_all
  with assms have pc: "mrecv_pc (mk_rx_pc c)" "mk_rx_log c = log" by (auto simp: in_mrecv_def mrx_micro_def)
  have pos: "0 < mrecv_left (mk_rx_pc c)" using pc(1) by (cases "mk_rx_pc c") simp_all
  from pc(1) assms(3) [unfolded a] show ?thesis
    by (cases rule: mrecv_step_cases) (use pc pos True in \<open>auto simp: in_mrecv_def\<close>)
next
  case False
  then have "producer_action a" using assms(2) by (cases a) simp_all
  from producer_action_frame [OF this assms(3)] assms(1) False show ?thesis by (simp add: in_mrecv_def)
qed

interpretation mrecv_call: bounded_call "\<lambda>c. mpsc_conc_init cap strategy = Inr c" mpsc_micro
    "\<lambda>c. (\<exists>S. mc_inv S c) \<and> mp_cap (mk_shared c) = cap"
    in_mrecv within_mrecv is_mrx_step "\<lambda>c. mrecv_left (mk_rx_pc c)" for cap strategy
  by unfold_locales (rule mrecv_progress)

text \<open>
  C25: the consumer never waits for a producer. However the producers' steps (and their stops in the
  middle of a send) are interleaved, a call of \<^verbatim>\<open>try_recv\<close> takes at most six steps of its own, and until it has
  returned its next step is possible.
\<close>

theorem mpsc_try_recv_wait_free:
  assumes "mpsc_reachable cap strategy c" "list_all within_mrecv as"
    and "run_steps mpsc_micro (MCall # as) c = Some (Inr c')"
  shows "length (filter is_mrx_step as) \<le> 6 \<and>
     ((\<exists>r. mk_rx_pc c' = MIdle \<and> mk_rx_log c' = mk_rx_log c @ [MRetRecv r])
      \<or> (\<exists>b p c''. mpsc_micro (MStep b p) c' = Some (Inr c'')))"
proof -
  let ?c = "c\<lparr>mk_rx_pc := MTest\<rparr>"
  have s1: "mpsc_micro MCall c = Some (Inr ?c)" "run_steps mpsc_micro as ?c = Some (Inr c')"
    using assms(3) by (auto split: if_splits)
  have reach: "mpsc_reachable cap strategy ?c" using reachable_by.step [OF assms(1) s1(1)] .
  have fin: "in_mrecv (mk_rx_log c) c'" "length (filter is_mrx_step as) \<le> 6"
    using mrecv_call.progress_run [OF reach _ assms(2) s1(2), of "mk_rx_log c"] by (simp_all add: in_mrecv_def)
  have "mpsc_reachable cap strategy c'" using run_steps_reachable [OF s1(2) reach] .
  then have "\<exists>b p c''. mpsc_micro (MStep b p) c' = Some (Inr c'')" if "mrecv_pc (mk_rx_pc c')"
    using mrecv_step_exists [OF that] mpsc_machine.no_fault [of cap strategy c'] by blast
  with fin show ?thesis by (auto simp: in_mrecv_def)
qed

text \<open>In the witness a producer stops between its claim and its publication.\<close>

theorem mpsc_try_recv_wait_free_witness:
  "\<exists>c c'. mpsc_reachable 2 BusySpin c \<and> mk_claimed c = [7 :: nat]
     \<and> run_steps mpsc_micro [MCall, MStep False False] c = Some (Inr c')
     \<and> (\<exists>b p c''. mpsc_micro (MStep b p) c' = Some (Inr c''))"
proof -
  have "mpsc_schedule_reaches 2 BusySpin [PCall 0 7, PStep 0 0 False, PStep 0 0 False, PStep 0 0 False, PStep 0 0 False]
      (\<lambda>c. mk_claimed c = [7 :: nat] \<and> run_reaches (Inr c) mpsc_micro [MCall, MStep False False] (\<lambda>c'. mk_rx_pc c' = MSenders))"
    by code_simp
  then obtain c where c: "mpsc_reachable 2 BusySpin c" "mk_claimed c = [7 :: nat]"
    "run_reaches (Inr c) mpsc_micro [MCall, MStep False False] (\<lambda>c'. mk_rx_pc c' = MSenders)"
    using run_reachesD by blast
  then obtain c' where c': "run_steps mpsc_micro [MCall, MStep False False] c = Some (Inr c')" "mk_rx_pc c' = MSenders"
    by (auto simp: run_reaches_def simp del: run_steps.simps split: option.splits sum.splits)
  from mpsc_try_recv_wait_free [OF c(1) _ c'(1)] c'(2) have "\<exists>b p c''. mpsc_micro (MStep b p) c' = Some (Inr c'')" by simp
  with c(1,2) c'(1) show ?thesis by blast
qed

section \<open>Results and histories\<close>

definition mpsc_returns :: "'a mpsc_conc \<Rightarrow> bool" where
  "mpsc_returns c \<longleftrightarrow>
     ((\<forall>e. MRetDrain e \<notin> set (mk_rx_log c)) \<and> \<not> mdrain_pc (mk_rx_pc c) \<longrightarrow>
       mok_values (mk_rx_log c) @ mrx_inflight (mk_rx_pc c) = mk_taken c)"

lemma mpsc_returns_receiver_step:
  assumes "mpsc_returns c" "mpsc_micro (MStep b p) c = Some (Inr c')"
  shows "mpsc_returns c'"
proof -
  consider (recv) "mrecv_pc (mk_rx_pc c)" | (drain) "mdrain_pc (mk_rx_pc c)"
    using assms(2) by (cases "mk_rx_pc c") (auto simp: mrx_micro_def)
  then show ?thesis
  proof cases
    case recv
    then have "\<not> mdrain_pc (mk_rx_pc c)" by (cases "mk_rx_pc c") simp_all
    with recv assms(2) show ?thesis
      by (cases rule: mrecv_step_cases) (use assms(1) in \<open>auto simp: mpsc_returns_def simp flip: append_assoc\<close>)
  next
    case drain
    from drain assms(2) show ?thesis by (cases rule: mdrain_step_cases) (auto simp: mpsc_returns_def)
  qed
qed

lemma mcontrol_step_frame:
  assumes "\<not> producer_action a" "\<not> is_mrx_step a" "mpsc_micro a c = Some (Inr c')"
  shows "mk_rx_pc c = MIdle" "mk_rx_log c' = mk_rx_log c" "mk_taken c' = mk_taken c" "mrx_inflight (mk_rx_pc c') = []"
  using assms by (cases a; auto simp: case_prod_unfold Let_def split: if_splits)+

lemma mpsc_reachable_returns: "mpsc_reachable cap strategy c \<Longrightarrow> mpsc_returns c"
proof (induction rule: reachable_by.induct)
  case (init c)
  then show ?case by (auto simp: mpsc_conc_init_def mpsc_returns_def)
next
  case (step c a c')
  show ?case
  proof (cases "producer_action a")
    case True
    from producer_action_frame [OF this step.hyps(2)] step.IH show ?thesis by (simp add: mpsc_returns_def)
  next
    case False
    show ?thesis
    proof (cases "is_mrx_step a")
      case True
      then obtain b p where "a = MStep b p" by (cases a) simp_all
      with step mpsc_returns_receiver_step show ?thesis by blast
    next
      case other: False
      from mcontrol_step_frame [OF False other step.hyps(2)] step.IH show ?thesis by (simp add: mpsc_returns_def)
    qed
  qed
qed

text \<open>
  What a consumer that loops on \<^verbatim>\<open>try_recv\<close> is given by any number of producers. In every
  interleaving the values of the \<^verbatim>\<open>Ok\<close> results are, in order, a prefix of the values in the order of their
  claims (one global order), and once \<^verbatim>\<open>Disconnected\<close> was returned they are all of them.
\<close>

theorem mpsc_results_fifo:
  assumes "mpsc_reachable cap strategy c" "mk_rx_pc c = MIdle" "\<forall>e. MRetDrain e \<notin> set (mk_rx_log c)"
  shows "\<exists>rest. mk_claimed c = mok_values (mk_rx_log c) @ rest \<and> length rest \<le> unat cap
     \<and> (MRetRecv (Err RecvDisconnected) \<in> set (mk_rx_log c) \<longrightarrow> rest = [])"
proof -
  have "mk_taken c = mok_values (mk_rx_log c)"
    using mpsc_reachable_returns [OF assms(1)] assms(2,3) by (simp add: mpsc_returns_def)
  then show ?thesis using mpsc_reachable_fifo [OF assms(1)] mpsc_reachable_gone [OF assms(1)] by auto
qed

theorem mpsc_results_fifo_witness:
  "\<exists>c rest. mpsc_reachable 2 BusySpin c \<and> mk_rx_log c = [MRetRecv (Ok (8 :: nat))] \<and> mk_claimed c = [8] @ rest"
proof -
  have "mpsc_schedule_reaches 2 BusySpin
      [PClone 0, PCall 0 7, PCall 1 8, PStep 0 0 False, PStep 0 0 False, PStep 0 0 False,
       PStep 1 0 False, PStep 1 0 False, PStep 1 0 False, PStep 1 0 False,
       PStep 0 1 False, PStep 1 0 False, PStep 1 0 False,
       MCall, MStep True False, MStep False False, MStep False False, MStep False False]
      (\<lambda>c. mk_rx_pc c = MIdle \<and> mk_rx_log c = [MRetRecv (Ok (8 :: nat))])"
    by code_simp
  then obtain c where c: "mpsc_reachable 2 BusySpin c" "mk_rx_pc c = MIdle" "mk_rx_log c = [MRetRecv (Ok (8 :: nat))]"
    using run_reachesD by blast
  have "\<exists>rest. mk_claimed c = [8] @ rest" using mpsc_results_fifo [OF c(1,2)] c(3) by auto
  with c(1,3) show ?thesis by blast
qed

end
