(* ===== verification/Sharded_Concurrent.thy ===== *)
theory Sharded_Concurrent
  imports Sharded Spsc_Calls
begin

text \<open>
  The sharded channel under interference: every producer works on its own ring while the
  receiver's thread sweeps, one shared access per step, in every interleaving. A ring is a state
  of \<open>spsc_micro\<close> with all the weak behaviour of that machine; the sweep of \<^verbatim>\<open>src/sharded.rs\<close> is
  thread-local code around the calls of the ring at the cursor. The claim on top of the rings
  is that counting the \<^verbatim>\<open>Disconnected\<close> answers of one sweep is sound although they are
  collected at different times.
\<close>

section \<open>The machine\<close>

text \<open>
  \<open>SRecv k d\<close>: inside the \<^verbatim>\<open>try_recv\<close> of the ring at the cursor, with \<open>k\<close> iterations of the sweep to
  go after this one and \<open>d\<close> shards counted. \<open>SDrain k mx count\<close>: the same for \<^verbatim>\<open>drain\<close>. \<open>SDropping k\<close>:
  the first \<open>k\<close> ring receivers are dropped.
\<close>

datatype sweep_pc = SIdle | SRecv nat usize | SDrain nat usize usize | SDropping nat | SDead

text \<open>\<open>sc_taken\<close> is the history of the values that left the rings, each with its shard.\<close>

record 'a sharded_conc =
  sc_shards :: "'a spsc_conc list"
  sc_cursor :: usize
  sc_budget :: usize
  sc_pc :: sweep_pc
  sc_taken :: "(nat \<times> 'a) list"
  sc_log :: "'a rx_result list"

fun conc_rings :: "nat \<Rightarrow> usize \<Rightarrow> wait_strategy \<Rightarrow> 'a spsc_conc list outcome" where
  "conc_rings 0 per_shard strategy = Inr []"
| "conc_rings (Suc k) per_shard strategy =
     obind (spsc_conc_init per_shard strategy) (\<lambda>c.
       obind (conc_rings k per_shard strategy) (\<lambda>cs. Inr (c # cs)))"

definition sharded_conc_init :: "usize \<Rightarrow> usize \<Rightarrow> wait_strategy \<Rightarrow> 'a sharded_conc outcome" where
  "sharded_conc_init n_shards total_cap strategy =
     obind (sharded_channel n_shards total_cap strategy :: 'a sharded outcome) (\<lambda>s.
       obind (conc_rings (length (sd_shards s)) (total_cap div n_shards) strategy) (\<lambda>cs.
         Inr \<lparr>sc_shards = cs, sc_cursor = sd_cursor s, sc_budget = sd_budget s, sc_pc = SIdle,
              sc_taken = [], sc_log = []\<rparr>))"

text \<open>A step of ring \<open>i\<close>.\<close>

definition ring_step :: "nat \<Rightarrow> 'a conc_action \<Rightarrow> 'a sharded_conc \<Rightarrow> 'a sharded_conc outcome option" where
  "ring_step i a s =
     (if i < length (sc_shards s) then
        (case spsc_micro a (sc_shards s ! i) of
           None \<Rightarrow> None
         | Some (Inl e) \<Rightarrow> Some (Inl e)
         | Some (Inr c) \<Rightarrow>
             Some (Inr (s\<lparr>sc_shards := (sc_shards s)[i := c],
                          sc_taken := sc_taken s @
                            map (Pair i) (drop (length (cc_taken (sc_shards s ! i))) (cc_taken c))\<rparr>)))
      else Some (Inl (Panic ''index out of bounds'')))"

abbreviation cursor_step :: "'a conc_action \<Rightarrow> 'a sharded_conc \<Rightarrow> 'a sharded_conc outcome option" where
  "cursor_step a s \<equiv> ring_step (unat (sc_cursor s)) a s"

definition conc_advance :: "'a sharded_conc \<Rightarrow> 'a sharded_conc" where
  "conc_advance s =
     s\<lparr>sc_cursor := (if sc_cursor s + 1 = of_nat (length (sc_shards s)) then 0 else sc_cursor s + 1),
       sc_budget := 0\<rparr>"

definition sweep_return :: "'a rx_result \<Rightarrow> 'a sharded_conc \<Rightarrow> 'a sharded_conc" where
  "sweep_return r s = s\<lparr>sc_pc := SIdle, sc_log := sc_log s @ [r]\<rparr>"

text \<open>The head of the loop of \<^verbatim>\<open>try_recv\<close>, and what follows a ring's answer.\<close>

fun recv_from :: "nat \<Rightarrow> usize \<Rightarrow> 'a sharded_conc \<Rightarrow> 'a sharded_conc outcome option" where
  "recv_from 0 d s =
     Some (Inr (sweep_return
       (RetRecv (Err (if d = of_nat (length (sc_shards s)) then RecvDisconnected else Empty))) s))"
| "recv_from (Suc k) d s = cursor_step RCall (s\<lparr>sc_pc := SRecv k d\<rparr>)"

fun recv_result :: "nat \<Rightarrow> usize \<Rightarrow> 'a rx_result \<Rightarrow> 'a sharded_conc \<Rightarrow> 'a sharded_conc outcome option" where
  "recv_result k d (RetRecv (Ok v)) s =
     Some (Inr (sweep_return (RetRecv (Ok v)) (s\<lparr>sc_budget := sc_budget s + 1\<rparr>)))"
| "recv_result k d (RetRecv (Err RecvDisconnected)) s = recv_from k (d + 1) (conc_advance s)"
| "recv_result k d (RetRecv (Err Empty)) s = recv_from k d (conc_advance s)"
| "recv_result k d (RetDrain e) s = None"

text \<open>The same for \<^verbatim>\<open>drain\<close>; a panic of the closure unwinds through the sweep.\<close>

fun drain_from :: "nat \<Rightarrow> usize \<Rightarrow> usize \<Rightarrow> 'a sharded_conc \<Rightarrow> 'a sharded_conc outcome option" where
  "drain_from 0 mx count s = Some (Inr (sweep_return (RetDrain (Returned count)) s))"
| "drain_from (Suc k) mx count s =
     (if count \<ge> mx then Some (Inr (sweep_return (RetDrain (Returned count)) s))
      else cursor_step (RDrainCall (mx - count)) (s\<lparr>sc_pc := SDrain k mx count\<rparr>))"

fun drain_result :: "nat \<Rightarrow> usize \<Rightarrow> usize \<Rightarrow> 'a rx_result \<Rightarrow> 'a sharded_conc \<Rightarrow> 'a sharded_conc outcome option" where
  "drain_result k mx count (RetDrain (Returned took)) s =
     (if took = mx - count then Some (Inr (sweep_return (RetDrain (Returned (count + took))) s))
      else drain_from k mx (count + took) (conc_advance s))"
| "drain_result k mx count (RetDrain Unwound) s = Some (Inr (sweep_return (RetDrain Unwound) s))"
| "drain_result k mx count (RetRecv r) s = None"

text \<open>
  A step of the ring's method at the cursor; when it was the last one of that call, the thread-local code
  behind the call runs with the result.
\<close>

definition call_step ::
    "('a rx_result \<Rightarrow> 'a sharded_conc \<Rightarrow> 'a sharded_conc outcome option) \<Rightarrow> 'a conc_action \<Rightarrow>
     'a sharded_conc \<Rightarrow> 'a sharded_conc outcome option" where
  "call_step result a s =
     (case cursor_step a s of
        Some (Inr s1) \<Rightarrow>
          (let c = sc_shards s1 ! unat (sc_cursor s1)
           in if cc_rx_pc c = RIdle then result (last (cc_rx_log c)) s1 else Some (Inr s1))
      | r \<Rightarrow> r)"

definition sweep_micro :: "usize \<Rightarrow> bool \<Rightarrow> bool \<Rightarrow> 'a sharded_conc \<Rightarrow> 'a sharded_conc outcome option" where
  "sweep_micro x b p s =
     (case sc_pc s of
        SIdle \<Rightarrow> None
      | SRecv k d \<Rightarrow> call_step (recv_result k d) (RStep x b p) s
      | SDrain k mx count \<Rightarrow> call_step (drain_result k mx count) (RStep x b p) s
      | SDropping k \<Rightarrow>
          (if k < length (sc_shards s) then ring_step k RDrop (s\<lparr>sc_pc := SDropping (Suc k)\<rparr>)
           else Some (Inr (s\<lparr>sc_pc := SDead\<rparr>)))
      | SDead \<Rightarrow> None)"

datatype 'a sharded_action =
    SendCall nat 'a | SendStep nat usize bool | SendDrop nat
  | RecvCall | DrainCall usize | SweepStep usize bool bool | RecvDrop

fun sharded_micro :: "'a sharded_action \<Rightarrow> 'a sharded_conc \<Rightarrow> 'a sharded_conc outcome option" where
  "sharded_micro (SendCall i v) s = (if i < length (sc_shards s) then ring_step i (TCall v) s else None)"
| "sharded_micro (SendStep i x b) s = (if i < length (sc_shards s) then ring_step i (TStep x b) s else None)"
| "sharded_micro (SendDrop i) s = (if i < length (sc_shards s) then ring_step i TDrop s else None)"
| "sharded_micro RecvCall s =
     (if sc_pc s = SIdle then
        recv_from (length (sc_shards s)) 0 (if sc_budget s \<ge> VISIT_BUDGET then conc_advance s else s)
      else None)"
| "sharded_micro (DrainCall mx) s =
     (if sc_pc s = SIdle then drain_from (length (sc_shards s)) mx 0 s else None)"
| "sharded_micro (SweepStep x b p) s = sweep_micro x b p s"
| "sharded_micro RecvDrop s = (if sc_pc s = SIdle then Some (Inr (s\<lparr>sc_pc := SDropping 0\<rparr>)) else None)"

abbreviation sharded_reachable :: "usize \<Rightarrow> usize \<Rightarrow> wait_strategy \<Rightarrow> 'a sharded_conc \<Rightarrow> bool" where
  "sharded_reachable n total_cap strategy \<equiv>
     reachable_by (\<lambda>s. sharded_conc_init n total_cap strategy = Inr s) sharded_micro"

abbreviation sharded_reaches ::
    "usize \<Rightarrow> usize \<Rightarrow> wait_strategy \<Rightarrow> 'a sharded_action list \<Rightarrow> ('a sharded_conc \<Rightarrow> bool) \<Rightarrow> bool" where
  "sharded_reaches n total_cap strategy \<equiv> run_reaches (sharded_conc_init n total_cap strategy) sharded_micro"

section \<open>The invariant\<close>

abbreviation reported_gone :: "'a sharded_conc \<Rightarrow> nat \<Rightarrow> bool" where
  "reported_gone s j \<equiv> RetRecv (Err RecvDisconnected) \<in> set (cc_rx_log (sc_shards s ! j))"

abbreviation taken_from :: "nat \<Rightarrow> 'a sharded_conc \<Rightarrow> 'a list" where
  "taken_from j s \<equiv> map snd (filter (\<lambda>p. fst p = j) (sc_taken s))"

text \<open>
  What holds between the steps whatever the receiver is doing: every ring is in a state its own
  machine can reach, the cursor is in range, the joint history projects to the rings'
  histories, and a sweep that answered \<^verbatim>\<open>Disconnected\<close> had that answer from every ring.
\<close>

definition rings_inv :: "usize \<Rightarrow> usize \<Rightarrow> wait_strategy \<Rightarrow> 'a sharded_conc \<Rightarrow> bool" where
  "rings_inv n per_shard strategy s \<longleftrightarrow>
     length (sc_shards s) = unat n \<and> unat (sc_cursor s) < unat n \<and> sc_budget s \<le> VISIT_BUDGET \<and>
     (\<forall>j < unat n. spsc_reachable per_shard strategy (sc_shards s ! j)) \<and>
     (\<forall>j < unat n. taken_from j s = cc_taken (sc_shards s ! j)) \<and> (\<forall>p \<in> set (sc_taken s). fst p < unat n) \<and>
     (RetRecv (Err RecvDisconnected) \<in> set (sc_log s) \<longrightarrow> (\<forall>j < unat n. reported_gone s j))"

text \<open>
  Where each ring's receiver is, by the program counter of the sweep; only the ring at the cursor is in a
  call.
\<close>

fun ring_phase :: "sweep_pc \<Rightarrow> nat \<Rightarrow> nat \<Rightarrow> 'a rx_pc \<Rightarrow> bool" where
  "ring_phase SIdle cur j pc = (pc = RIdle)"
| "ring_phase (SRecv k d) cur j pc = (if j = cur then recv_pc pc else pc = RIdle)"
| "ring_phase (SDrain k mx count) cur j pc = (if j = cur then drain_pc pc else pc = RIdle)"
| "ring_phase (SDropping k) cur j pc = (pc = (if j < k then RDead else RIdle))"
| "ring_phase SDead cur j pc = (pc = RDead)"

definition rings_in_phase :: "'a sharded_conc \<Rightarrow> bool" where
  "rings_in_phase s \<longleftrightarrow> (\<forall>j < length (sc_shards s). ring_phase (sc_pc s) (unat (sc_cursor s)) j (cc_rx_pc (sc_shards s ! j)))"

text \<open>The count of a sweep: that many shards off the rest of the path have reported \<^verbatim>\<open>Disconnected\<close>.\<close>

definition counted :: "nat list \<Rightarrow> usize \<Rightarrow> 'a sharded_conc \<Rightarrow> bool" where
  "counted path d s \<longleftrightarrow>
     (\<exists>D. D \<subseteq> {..<length (sc_shards s)} - set path \<and> card D = unat d \<and> (\<forall>j \<in> D. reported_gone s j))"

definition sweep_counts :: "'a sharded_conc \<Rightarrow> bool" where
  "sweep_counts s \<longleftrightarrow>
     (case sc_pc s of
        SRecv k d \<Rightarrow> k < length (sc_shards s) \<and> sc_budget s < VISIT_BUDGET \<and>
          counted (sweep_path (length (sc_shards s)) (unat (sc_cursor s)) (Suc k)) d s
      | _ \<Rightarrow> True)"

text \<open>
  As long as only \<^verbatim>\<open>try_recv\<close> is used, the values it returned and the one it is about to return are the values
  that left the rings.
\<close>

abbreviation sweep_inflight :: "'a sharded_conc \<Rightarrow> 'a list" where
  "sweep_inflight s \<equiv> rx_inflight (cc_rx_pc (sc_shards s ! unat (sc_cursor s)))"

definition only_recv :: "'a sharded_conc \<Rightarrow> bool" where
  "only_recv s \<longleftrightarrow> (\<forall>e. RetDrain e \<notin> set (sc_log s)) \<and> (\<forall>k mx count. sc_pc s \<noteq> SDrain k mx count)"

definition returns_taken :: "'a sharded_conc \<Rightarrow> bool" where
  "returns_taken s \<longleftrightarrow> (only_recv s \<longrightarrow> ok_values (sc_log s) @ sweep_inflight s = map snd (sc_taken s))"

definition sharded_conc_inv :: "usize \<Rightarrow> usize \<Rightarrow> wait_strategy \<Rightarrow> 'a sharded_conc \<Rightarrow> bool" where
  "sharded_conc_inv n per_shard strategy s \<longleftrightarrow>
     rings_inv n per_shard strategy s \<and> rings_in_phase s \<and> sweep_counts s \<and> returns_taken s"

section \<open>Steps of a ring\<close>

abbreviation ring_moved :: "nat \<Rightarrow> 'a spsc_conc \<Rightarrow> 'a list \<Rightarrow> 'a sharded_conc \<Rightarrow> 'a sharded_conc" where
  "ring_moved i c vs s \<equiv> s\<lparr>sc_shards := (sc_shards s)[i := c], sc_taken := sc_taken s @ map (Pair i) vs\<rparr>"

lemma ring_step_inv:
  assumes inv: "rings_inv n per_shard strategy s" and i: "i < length (sc_shards s)"
    and c: "spsc_micro a (sc_shards s ! i) = Some (Inr c)" "cc_taken c = cc_taken (sc_shards s ! i) @ vs"
  shows "ring_step i a s = Some (Inr (ring_moved i c vs s))" "rings_inv n per_shard strategy (ring_moved i c vs s)"
proof -
  let ?c = "sc_shards s ! i"
  show "ring_step i a s = Some (Inr (ring_moved i c vs s))" using c i by (simp add: ring_step_def)
  have "spsc_reachable per_shard strategy ?c" using inv i by (simp add: rings_inv_def)
  from spsc_machine.no_fault [OF this c(1)] have reach: "spsc_reachable per_shard strategy c" by blast
  obtain rs where grow: "cc_rx_log c = cc_rx_log ?c @ rs" using micro_histories_grow(1) [OF c(1)] by blast
  show "rings_inv n per_shard strategy (ring_moved i c vs s)"
    using inv i c(2) grow reach by (auto simp: rings_inv_def nth_list_update filter_map comp_def)
qed

lemma ring_stepE:
  assumes inv: "rings_inv n per_shard strategy s" and i: "i < length (sc_shards s)"
    and step: "ring_step i a s = Some r"
  obtains c vs where "spsc_micro a (sc_shards s ! i) = Some (Inr c)" "cc_taken c = cc_taken (sc_shards s ! i) @ vs"
    "r = Inr (ring_moved i c vs s)" "rings_inv n per_shard strategy (ring_moved i c vs s)"
proof -
  let ?c = "sc_shards s ! i"
  have reach: "spsc_reachable per_shard strategy ?c" using inv i by (simp add: rings_inv_def)
  obtain y where y: "spsc_micro a ?c = Some y"
    using step i by (cases "spsc_micro a ?c") (auto simp: ring_step_def)
  with spsc_machine.no_fault [OF reach y] obtain c where c: "spsc_micro a ?c = Some (Inr c)" by blast
  obtain vs where vs: "cc_taken c = cc_taken ?c @ vs" using micro_histories_grow(2) [OF c] by blast
  from ring_step_inv [OF inv i c vs] step that [OF c vs] show thesis by simp
qed

lemma reported_gone_mono:
  assumes "spsc_micro a (sc_shards s ! i) = Some (Inr c)" "reported_gone s j"
  shows "reported_gone (s\<lparr>sc_shards := (sc_shards s)[i := c], sc_taken := t\<rparr>) j"
  using assms(2) micro_histories_grow(1) [OF assms(1)]
  by (cases "i < length (sc_shards s)") (auto simp: nth_list_update list_update_beyond)

lemma counted_mono:
  assumes "spsc_micro a (sc_shards s ! i) = Some (Inr c)" "counted path d s"
  shows "counted path d (s\<lparr>sc_shards := (sc_shards s)[i := c], sc_taken := t\<rparr>)"
  using assms(2) reported_gone_mono [OF assms(1)] unfolding counted_def by (simp del: sharded_conc.update_convs) blast

text \<open>A producer's step keeps everything.\<close>

lemma producer_step_keeps:
  assumes inv: "sharded_conc_inv n per_shard strategy s" and i: "i < length (sc_shards s)"
    and a: "sender_action a" and step: "ring_step i a s = Some r"
  shows "\<exists>s'. r = Inr s' \<and> sharded_conc_inv n per_shard strategy s'"
proof -
  have base: "rings_inv n per_shard strategy s" using inv by (simp add: sharded_conc_inv_def)
  from ring_stepE [OF base i step] obtain c vs where
    c: "spsc_micro a (sc_shards s ! i) = Some (Inr c)" "cc_taken c = cc_taken (sc_shards s ! i) @ vs"
      "r = Inr (ring_moved i c vs s)" "rings_inv n per_shard strategy (ring_moved i c vs s)"
    by blast
  let ?s = "ring_moved i c vs s"
  note frame = sender_step_frame [OF a c(1)]
  have vs: "vs = []" using frame(3) c(2) by simp
  have pcs: "cc_rx_pc ((sc_shards s)[i := c] ! j) = cc_rx_pc (sc_shards s ! j)" for j
    using frame(1) i by (cases "j = i") simp_all
  have "rings_in_phase ?s"
    using inv pcs by (simp add: sharded_conc_inv_def rings_in_phase_def)
  moreover have "sweep_counts ?s"
    using inv counted_mono [OF c(1)] by (auto simp: sharded_conc_inv_def sweep_counts_def split: sweep_pc.splits)
  moreover have "returns_taken ?s"
    using inv pcs by (simp add: sharded_conc_inv_def returns_taken_def only_recv_def vs)
  ultimately show ?thesis using c(3,4) by (auto simp: sharded_conc_inv_def)
qed

section \<open>The sweep\<close>

definition all_idle :: "'a sharded_conc \<Rightarrow> bool" where
  "all_idle s \<longleftrightarrow> (\<forall>j < length (sc_shards s). cc_rx_pc (sc_shards s ! j) = RIdle)"

text \<open>The values the results so far account for, between two calls of a ring.\<close>

definition results_taken :: "'a sharded_conc \<Rightarrow> bool" where
  "results_taken s \<longleftrightarrow> ((\<forall>e. RetDrain e \<notin> set (sc_log s)) \<longrightarrow> ok_values (sc_log s) = map snd (sc_taken s))"

text \<open>The steps the receiver's thread still takes in this \<^verbatim>\<open>try_recv\<close>.\<close>

definition sweep_left :: "'a sharded_conc \<Rightarrow> nat" where
  "sweep_left s =
     (case sc_pc s of SRecv k d \<Rightarrow> 6 * k + recv_left (cc_rx_pc (sc_shards s ! unat (sc_cursor s))) | _ \<Rightarrow> 0)"

lemma rings_inv_pc [simp]: "rings_inv n per_shard strategy (s\<lparr>sc_pc := pc\<rparr>) \<longleftrightarrow> rings_inv n per_shard strategy s"
  by (simp add: rings_inv_def)

lemma rings_inv_length: "rings_inv n per_shard strategy s \<Longrightarrow> length (sc_shards s) = unat n"
  by (simp add: rings_inv_def)

lemma rings_inv_cursor: "rings_inv n per_shard strategy s \<Longrightarrow> unat (sc_cursor s) < length (sc_shards s)"
  by (simp add: rings_inv_def)

lemma counted_fields [simp]:
  "counted path d (s\<lparr>sc_pc := pc\<rparr>) \<longleftrightarrow> counted path d s"
  "counted path d (s\<lparr>sc_cursor := x\<rparr>) \<longleftrightarrow> counted path d s"
  "counted path d (s\<lparr>sc_budget := x\<rparr>) \<longleftrightarrow> counted path d s"
  by (simp_all add: counted_def)

lemma counted_all:
  assumes "counted [] d s" "d = of_nat (length (sc_shards s))" "length (sc_shards s) < 2 ^ 64"
  shows "\<forall>j < length (sc_shards s). reported_gone s j"
proof -
  obtain D where D: "D \<subseteq> {..<length (sc_shards s)}" "card D = unat d" "\<forall>j \<in> D. reported_gone s j"
    using assms(1) by (auto simp: counted_def)
  have "card D = length (sc_shards s)" using D(2) assms(2,3) by (simp add: unat_of_nat)
  then have "D = {..<length (sc_shards s)}" using D(1) by (intro card_subset_eq) auto
  with D(3) show ?thesis by simp
qed

lemma counted_skip: "counted (j # path) d s \<Longrightarrow> counted path d s"
  unfolding counted_def by (elim exE conjE) (auto intro: exI)

lemma counted_report:
  assumes "counted (j # path) d s" "reported_gone s j" "j < length (sc_shards s)" "j \<notin> set path"
    and "length (sc_shards s) < 2 ^ 64"
  shows "counted path (d + 1) s"
proof -
  let ?n = "length (sc_shards s)"
  obtain D where D: "D \<subseteq> {..<?n} - set (j # path)" "card D = unat d" "\<forall>i \<in> D. reported_gone s i"
    using assms(1) unfolding counted_def by blast
  have fin: "finite D" using D(1) by (rule finite_subset) simp
  have "card D < ?n"
    using D(1) assms(3) psubset_card_mono [of "{..<?n}" D] by auto
  then have "unat (d + 1) = Suc (unat d)" using D(2) assms(5) using unat_le_add_one [of d] by simp
  then have "card (insert j D) = unat (d + 1)" using D(1,2) fin by (subst card_insert_disjoint) auto
  moreover have "insert j D \<subseteq> {..<?n} - set path" using D(1) assms(3,4) by auto
  ultimately show ?thesis using D(3) assms(2) unfolding counted_def by blast
qed

lemma recv_from_keeps:
  assumes base: "rings_inv n per_shard strategy s" and idle: "all_idle s" and k: "k \<le> length (sc_shards s)"
    and cnt: "counted (sweep_path (length (sc_shards s)) (unat (sc_cursor s)) k) d s"
    and budget: "sc_budget s < VISIT_BUDGET" and res: "results_taken s"
  shows "\<exists>s'. recv_from k d s = Some (Inr s') \<and> sharded_conc_inv n per_shard strategy s' \<and> sweep_left s' \<le> 6 * k"
proof (cases k)
  case 0
  let ?e = "if d = of_nat (length (sc_shards s)) then RecvDisconnected else Empty"
  let ?s = "sweep_return (RetRecv (Err ?e)) s"
  have len: "length (sc_shards s) < 2 ^ 64" using rings_inv_length [OF base] usize_bound [of n] by simp
  have "rings_inv n per_shard strategy ?s"
    using base 0 cnt counted_all [OF _ _ len, of d] by (auto simp: rings_inv_def sweep_return_def)
  moreover have "rings_in_phase ?s" "sweep_counts ?s"
    using idle by (simp_all add: rings_in_phase_def sweep_return_def all_idle_def sweep_counts_def)
  moreover have "returns_taken ?s"
    using res idle rings_inv_cursor [OF base]
    by (simp add: returns_taken_def results_taken_def only_recv_def sweep_return_def all_idle_def)
  ultimately show ?thesis using 0 by (simp add: sharded_conc_inv_def sweep_left_def sweep_return_def)
next
  case (Suc m)
  let ?i = "unat (sc_cursor s)"
  let ?c = "(sc_shards s ! ?i)\<lparr>cc_rx_pc := RTest\<rparr>"
  let ?t = "s\<lparr>sc_pc := SRecv m d\<rparr>"
  let ?s = "ring_moved ?i ?c [] ?t"
  have i: "?i < length (sc_shards s)" using rings_inv_cursor [OF base] .
  have "cc_rx_pc (sc_shards s ! ?i) = RIdle" using idle i by (simp add: all_idle_def)
  then have call: "spsc_micro RCall (sc_shards ?t ! ?i) = Some (Inr ?c)" by simp
  have step: "ring_step ?i RCall ?t = Some (Inr ?s)" "rings_inv n per_shard strategy ?s"
    using ring_step_inv [of n per_shard strategy ?t ?i RCall ?c "[]"] base i call by simp_all
  have cm: "counted (sweep_path (length (sc_shards s)) ?i k) d ?s"
    by (rule counted_mono [OF call]) (use cnt in simp)
  note step(2)
  moreover have "rings_in_phase ?s"
    using idle by (simp add: rings_in_phase_def all_idle_def nth_list_update)
  moreover have "sweep_counts ?s" using k Suc budget cm by (simp add: sweep_counts_def)
  moreover have "returns_taken ?s"
    using res i by (simp add: returns_taken_def results_taken_def only_recv_def)
  ultimately show ?thesis using Suc step i by (simp add: sharded_conc_inv_def sweep_left_def)
qed

text \<open>Moving the cursor on.\<close>

lemma conc_advance_frame [simp]:
  "sc_shards (conc_advance s) = sc_shards s" "sc_log (conc_advance s) = sc_log s"
  "sc_taken (conc_advance s) = sc_taken s" "sc_pc (conc_advance s) = sc_pc s"
  by (simp_all add: conc_advance_def)

lemma conc_advance_budget: "sc_budget (conc_advance s) < VISIT_BUDGET"
  by (simp add: conc_advance_def VISIT_BUDGET_def)

lemma conc_advance_predicates [simp]:
  "counted path d (conc_advance s) \<longleftrightarrow> counted path d s" "all_idle (conc_advance s) \<longleftrightarrow> all_idle s"
  "results_taken (conc_advance s) \<longleftrightarrow> results_taken s"
  by (simp_all add: counted_def all_idle_def results_taken_def)

lemma conc_advance_inv:
  assumes "rings_inv n per_shard strategy s"
  shows "rings_inv n per_shard strategy (conc_advance s)"
    "unat (sc_cursor (conc_advance s)) = next_shard (length (sc_shards s)) (unat (sc_cursor s))"
proof -
  have b: "unat (sc_cursor s) < length (sc_shards s)" "length (sc_shards s) < 2 ^ 64"
    using rings_inv_cursor [OF assms] rings_inv_length [OF assms] usize_bound [of n] by simp_all
  from unat_next_cursor [OF b] show cur: "unat (sc_cursor (conc_advance s)) = next_shard (length (sc_shards s)) (unat (sc_cursor s))"
    by (simp add: conc_advance_def)
  have "unat (sc_cursor (conc_advance s)) < unat n"
    using next_shard_less [OF b(1)] rings_inv_length [OF assms] by (simp add: cur)
  moreover have "sc_budget (conc_advance s) \<le> VISIT_BUDGET" by (simp add: conc_advance_def)
  ultimately show "rings_inv n per_shard strategy (conc_advance s)" using assms by (simp add: rings_inv_def)
qed

text \<open>
  A ring has answered: all rings are idle again, and the answer is the last entry of the log of the ring at
  the cursor.
\<close>

lemma recv_result_keeps:
  assumes base: "rings_inv n per_shard strategy s" and idle: "all_idle s" and k: "k < length (sc_shards s)"
    and cnt: "counted (sweep_path (length (sc_shards s)) (unat (sc_cursor s)) (Suc k)) d s"
    and budget: "sc_budget s < VISIT_BUDGET"
    and r: "RetRecv r \<in> set (cc_rx_log (sc_shards s ! unat (sc_cursor s)))"
    and res: "(\<forall>e. RetDrain e \<notin> set (sc_log s)) \<Longrightarrow> ok_values (sc_log s) @ ok_value (RetRecv r) = map snd (sc_taken s)"
  shows "\<exists>s'. recv_result k d (RetRecv r) s = Some (Inr s') \<and> sharded_conc_inv n per_shard strategy s' \<and> sweep_left s' \<le> 6 * k"
proof -
  let ?n = "length (sc_shards s)" and ?i = "unat (sc_cursor s)"
  let ?path = "sweep_path ?n (next_shard ?n ?i) k"
  have i: "?i < ?n" "?n < 2 ^ 64"
    using rings_inv_cursor [OF base] rings_inv_length [OF base] usize_bound [of n] by simp_all
  have fresh: "?i \<notin> set ?path" using sweep_path_distinct [OF i(1), of "Suc k"] k by simp
  note adv = conc_advance_inv [OF base]
  have go: "\<exists>s'. recv_from k d' (conc_advance s) = Some (Inr s') \<and> sharded_conc_inv n per_shard strategy s' \<and> sweep_left s' \<le> 6 * k"
    if "counted ?path d' s" "ok_value (RetRecv r) = []" for d'
    using recv_from_keeps [OF adv(1), of k d'] idle that k res by (simp add: adv(2) results_taken_def conc_advance_budget)
  consider (ok) v where "r = Ok v" | (gone) "r = Err RecvDisconnected" | (empty) "r = Err Empty"
    by (metis rust_result.exhaust try_recv_error.exhaust)
  then show ?thesis
  proof cases
    case (ok v)
    let ?s = "sweep_return (RetRecv (Ok v)) (s\<lparr>sc_budget := sc_budget s + 1\<rparr>)"
    have "sc_budget s + 1 \<le> VISIT_BUDGET" using budget by (rule inc_le)
    then have "rings_inv n per_shard strategy ?s" using base by (simp add: rings_inv_def sweep_return_def)
    moreover have "rings_in_phase ?s" "sweep_counts ?s"
      using idle by (simp_all add: rings_in_phase_def sweep_return_def all_idle_def sweep_counts_def)
    moreover have "returns_taken ?s"
      using res ok idle i by (simp add: returns_taken_def only_recv_def sweep_return_def all_idle_def)
    ultimately show ?thesis using ok by (simp add: sharded_conc_inv_def sweep_left_def sweep_return_def)
  next
    case gone
    have "counted ?path (d + 1) s" using counted_report [of ?i ?path d s] cnt r gone i fresh by simp
    with go gone show ?thesis by simp
  next
    case empty
    have "counted ?path d s" using counted_skip [of ?i ?path d s] cnt by simp
    with go empty show ?thesis by simp
  qed
qed

text \<open>
  One step of the receiver's thread inside a sweep: either the ring's call goes on, or it
  returned and the sweep acts on its result.
\<close>

lemma call_step_cases:
  assumes base: "rings_inv n per_shard strategy s"
    and ring: "spsc_micro a (sc_shards s ! unat (sc_cursor s)) = Some y"
  obtains (go) c vs where "spsc_micro a (sc_shards s ! unat (sc_cursor s)) = Some (Inr c)"
      "cc_taken c = cc_taken (sc_shards s ! unat (sc_cursor s)) @ vs"
      "rings_inv n per_shard strategy (ring_moved (unat (sc_cursor s)) c vs s)"
      "cc_rx_pc c \<noteq> RIdle" "call_step result a s = Some (Inr (ring_moved (unat (sc_cursor s)) c vs s))"
    | (ret) c vs where "spsc_micro a (sc_shards s ! unat (sc_cursor s)) = Some (Inr c)"
      "cc_taken c = cc_taken (sc_shards s ! unat (sc_cursor s)) @ vs"
      "rings_inv n per_shard strategy (ring_moved (unat (sc_cursor s)) c vs s)"
      "cc_rx_pc c = RIdle"
      "call_step result a s = result (last (cc_rx_log c)) (ring_moved (unat (sc_cursor s)) c vs s)"
proof -
  let ?i = "unat (sc_cursor s)"
  have i: "?i < length (sc_shards s)" using rings_inv_cursor [OF base] .
  from ring i obtain z where z: "cursor_step a s = Some z" by (cases y) (auto simp: ring_step_def)
  from ring_stepE [OF base i z] obtain c vs where
    c: "spsc_micro a (sc_shards s ! ?i) = Some (Inr c)" "cc_taken c = cc_taken (sc_shards s ! ?i) @ vs"
      "z = Inr (ring_moved ?i c vs s)" "rings_inv n per_shard strategy (ring_moved ?i c vs s)"
    by blast
  show thesis
  proof (cases "cc_rx_pc c = RIdle")
    case True
    with z c(3) i have "call_step result a s = result (last (cc_rx_log c)) (ring_moved ?i c vs s)"
      by (simp add: call_step_def)
    with ret [OF c(1,2,4) True] show thesis .
  next
    case False
    with z c(3) i have "call_step result a s = Some (Inr (ring_moved ?i c vs s))" by (simp add: call_step_def)
    with go [OF c(1,2,4) False] show thesis .
  qed
qed

lemma call_step_ring:
  assumes "rings_inv n per_shard strategy s" "call_step result a s = Some r"
  shows "\<exists>y. spsc_micro a (sc_shards s ! unat (sc_cursor s)) = Some y"
  using rings_inv_cursor [OF assms(1)] assms(2)
  by (cases "spsc_micro a (sc_shards s ! unat (sc_cursor s))") (simp_all add: call_step_def ring_step_def)

lemma recv_call_total:
  assumes inv: "sharded_conc_inv n per_shard strategy s" and pc: "sc_pc s = SRecv k d"
    and ring: "spsc_micro (RStep x b p) (sc_shards s ! unat (sc_cursor s)) = Some y"
  shows "\<exists>s'. call_step (recv_result k d) (RStep x b p) s = Some (Inr s') \<and> sharded_conc_inv n per_shard strategy s' \<and> sweep_left s' < sweep_left s"
proof -
  let ?i = "unat (sc_cursor s)" and ?n = "length (sc_shards s)"
  have base: "rings_inv n per_shard strategy s" using inv by (simp add: sharded_conc_inv_def)
  have i: "?i < ?n" using rings_inv_cursor [OF base] .
  have cnt: "counted (sweep_path ?n ?i (Suc k)) d s" "k < ?n" "sc_budget s < VISIT_BUDGET"
    using inv pc by (simp_all add: sharded_conc_inv_def sweep_counts_def)
  have ph: "recv_pc (cc_rx_pc (sc_shards s ! ?i))" "\<And>j. j < ?n \<Longrightarrow> j \<noteq> ?i \<Longrightarrow> cc_rx_pc (sc_shards s ! j) = RIdle"
    using inv pc i by (auto simp: sharded_conc_inv_def rings_in_phase_def)
  have res: "ok_values (sc_log s) @ sweep_inflight s = map snd (sc_taken s)" if "\<forall>e. RetDrain e \<notin> set (sc_log s)"
    using inv pc that by (simp add: sharded_conc_inv_def returns_taken_def only_recv_def)
  have left: "sweep_left s = 6 * k + recv_left (cc_rx_pc (sc_shards s ! ?i))" by (simp add: sweep_left_def pc)
  from base ring show ?thesis
  proof (cases rule: call_step_cases [where result = "recv_result k d"])
    case (go c vs)
    let ?s = "ring_moved ?i c vs s"
    from ph(1) go(1) have c: "recv_pc (cc_rx_pc c)" "rx_inflight (cc_rx_pc c) = rx_inflight (cc_rx_pc (sc_shards s ! ?i)) @ vs"
      "recv_left (cc_rx_pc c) < recv_left (cc_rx_pc (sc_shards s ! ?i))"
      by (cases rule: recv_step_cases; use go in simp)+
    have "rings_in_phase ?s" using ph(2) pc c(1) i by (simp add: rings_in_phase_def nth_list_update)
    moreover have "counted (sweep_path ?n ?i (Suc k)) d ?s" using counted_mono [OF go(1) cnt(1)] .
    then have "sweep_counts ?s" using pc cnt(2,3) by (simp add: sweep_counts_def)
    moreover have "returns_taken ?s" using res i c(2) by (simp add: returns_taken_def only_recv_def comp_def flip: append_assoc)
    ultimately show ?thesis using go(3,5) c(3) i left pc by (simp add: sharded_conc_inv_def sweep_left_def)
  next
    case (ret c vs)
    let ?s = "ring_moved ?i c vs s"
    from ph(1) ret(1) obtain q where q: "cc_rx_log c = cc_rx_log (sc_shards s ! ?i) @ [RetRecv q]"
      "cc_taken c = cc_taken (sc_shards s ! ?i)" "ok_value (RetRecv q) = rx_inflight (cc_rx_pc (sc_shards s ! ?i))"
      by (cases rule: recv_step_cases) (use ret in auto)
    have vs: "vs = []" using q(2) ret(2) by simp
    have idle: "all_idle ?s" using ph(2) ret(4) i by (simp add: all_idle_def nth_list_update)
    have "counted (sweep_path ?n ?i (Suc k)) d ?s" using counted_mono [OF ret(1) cnt(1)] .
    with recv_result_keeps [OF ret(3) idle, of k d q] cnt(2,3) i q(1,3) res
    obtain s' where "recv_result k d (RetRecv q) ?s = Some (Inr s')" "sharded_conc_inv n per_shard strategy s'" "sweep_left s' \<le> 6 * k"
      by (auto simp: vs)
    moreover have "0 < recv_left (cc_rx_pc (sc_shards s ! ?i))" using ph(1) by (cases "cc_rx_pc (sc_shards s ! ?i)") simp_all
    ultimately show ?thesis using ret(5) q(1) left by auto
  qed
qed

lemma drain_return_keeps:
  assumes base: "rings_inv n per_shard strategy s" and idle: "all_idle s"
  shows "sharded_conc_inv n per_shard strategy (sweep_return (RetDrain e) s)"
  using base idle
  by (auto simp: sharded_conc_inv_def rings_inv_def rings_in_phase_def sweep_counts_def returns_taken_def
      only_recv_def sweep_return_def all_idle_def)

lemma drain_from_keeps:
  assumes base: "rings_inv n per_shard strategy s" and idle: "all_idle s"
  shows "\<exists>s'. drain_from k mx count s = Some (Inr s') \<and> sharded_conc_inv n per_shard strategy s'"
proof (cases "k = 0 \<or> count \<ge> mx")
  case True
  then show ?thesis using drain_return_keeps [OF base idle] by (cases k) auto
next
  case False
  then obtain m where m: "k = Suc m" by (cases k) auto
  let ?i = "unat (sc_cursor s)"
  let ?c = "(sc_shards s ! ?i)\<lparr>cc_rx_pc := RLoop (mx - count) 0 (rx_head (cc_rx (sc_shards s ! ?i)))\<rparr>"
  let ?t = "s\<lparr>sc_pc := SDrain m mx count\<rparr>"
  let ?s = "ring_moved ?i ?c [] ?t"
  have i: "?i < length (sc_shards s)" using rings_inv_cursor [OF base] .
  then have "cc_rx_pc (sc_shards s ! ?i) = RIdle" using idle by (simp add: all_idle_def)
  then have "spsc_micro (RDrainCall (mx - count)) (sc_shards ?t ! ?i) = Some (Inr ?c)" by simp
  with ring_step_inv [of n per_shard strategy ?t ?i "RDrainCall (mx - count)" ?c "[]"] base i
  have step: "ring_step ?i (RDrainCall (mx - count)) ?t = Some (Inr ?s)" "rings_inv n per_shard strategy ?s"
    by simp_all
  have "rings_in_phase ?s" "sweep_counts ?s" "returns_taken ?s"
    using idle
    by (simp_all add: rings_in_phase_def all_idle_def nth_list_update sweep_counts_def returns_taken_def only_recv_def)
  with step False m show ?thesis by (simp add: sharded_conc_inv_def)
qed

lemma drain_call_total:
  assumes inv: "sharded_conc_inv n per_shard strategy s" and pc: "sc_pc s = SDrain k mx count"
    and ring: "spsc_micro (RStep x b p) (sc_shards s ! unat (sc_cursor s)) = Some y"
  shows "\<exists>s'. call_step (drain_result k mx count) (RStep x b p) s = Some (Inr s') \<and> sharded_conc_inv n per_shard strategy s'"
proof -
  let ?i = "unat (sc_cursor s)" and ?n = "length (sc_shards s)"
  have base: "rings_inv n per_shard strategy s" using inv by (simp add: sharded_conc_inv_def)
  have i: "?i < ?n" using rings_inv_cursor [OF base] .
  have ph: "drain_pc (cc_rx_pc (sc_shards s ! ?i))" "\<And>j. j < ?n \<Longrightarrow> j \<noteq> ?i \<Longrightarrow> cc_rx_pc (sc_shards s ! j) = RIdle"
    using inv pc i by (auto simp: sharded_conc_inv_def rings_in_phase_def)
  from base ring show ?thesis
  proof (cases rule: call_step_cases [where result = "drain_result k mx count"])
    case (go c vs)
    let ?s = "ring_moved ?i c vs s"
    from ph(1) go(1) have "drain_pc (cc_rx_pc c)" by (cases rule: drain_step_cases) (use go in simp)+
    then have "rings_in_phase ?s" using ph(2) pc i by (simp add: rings_in_phase_def nth_list_update)
    then show ?thesis
      using go(3,5) pc by (simp add: sharded_conc_inv_def sweep_counts_def returns_taken_def only_recv_def)
  next
    case (ret c vs)
    let ?s = "ring_moved ?i c vs s"
    from ph(1) ret(1) obtain e where e: "last (cc_rx_log c) = RetDrain e"
      by (cases rule: drain_step_cases) (use ret in auto)
    have idle: "all_idle ?s" using ph(2) ret(4) i by (simp add: all_idle_def nth_list_update)
    note keep = drain_return_keeps [OF ret(3) idle]
      drain_from_keeps [OF conc_advance_inv(1) [OF ret(3)], unfolded conc_advance_predicates, OF idle]
    show ?thesis
    proof (cases e)
      case Unwound
      with keep(1) ret(5) e show ?thesis by auto
    next
      case (Returned took)
      with keep(1) [of "Returned (count + took)"] keep(2) [of k mx "count + took"] ret(5) e show ?thesis
        by (auto split: if_splits)
    qed
  qed
qed

lemma sweep_call_keeps:
  assumes inv: "sharded_conc_inv n per_shard strategy s"
  shows "sc_pc s = SRecv k d \<Longrightarrow> call_step (recv_result k d) (RStep x b p) s = Some r \<Longrightarrow>
      \<exists>s'. r = Inr s' \<and> sharded_conc_inv n per_shard strategy s'"
    and "sc_pc s = SDrain k mx count \<Longrightarrow> call_step (drain_result k mx count) (RStep x b p) s = Some r \<Longrightarrow>
      \<exists>s'. r = Inr s' \<and> sharded_conc_inv n per_shard strategy s'"
proof -
  have base: "rings_inv n per_shard strategy s" using inv by (simp add: sharded_conc_inv_def)
  show "sc_pc s = SRecv k d \<Longrightarrow> call_step (recv_result k d) (RStep x b p) s = Some r \<Longrightarrow>
      \<exists>s'. r = Inr s' \<and> sharded_conc_inv n per_shard strategy s'"
    using recv_call_total [OF inv] call_step_ring [OF base] by fastforce
  show "sc_pc s = SDrain k mx count \<Longrightarrow> call_step (drain_result k mx count) (RStep x b p) s = Some r \<Longrightarrow>
      \<exists>s'. r = Inr s' \<and> sharded_conc_inv n per_shard strategy s'"
    using drain_call_total [OF inv] call_step_ring [OF base] by fastforce
qed

lemma dropping_keeps:
  assumes inv: "sharded_conc_inv n per_shard strategy s" and pc: "sc_pc s = SDropping k"
    and step: "sweep_micro x b p s = Some r"
  shows "\<exists>s'. r = Inr s' \<and> sharded_conc_inv n per_shard strategy s'"
proof (cases "k < length (sc_shards s)")
  case True
  let ?t = "s\<lparr>sc_pc := SDropping (Suc k)\<rparr>"
  have base: "rings_inv n per_shard strategy ?t" using inv by (simp add: sharded_conc_inv_def)
  have "ring_step k RDrop ?t = Some r" using step pc True by (simp add: sweep_micro_def)
  from ring_stepE [OF base _ this] True obtain c vs where
    c: "spsc_micro RDrop (sc_shards s ! k) = Some (Inr c)" "cc_taken c = cc_taken (sc_shards s ! k) @ vs"
      "r = Inr (ring_moved k c vs ?t)" "rings_inv n per_shard strategy (ring_moved k c vs ?t)"
    by auto
  have dead: "cc_rx_pc c = RDead" "vs = []"
    using c(1,2) by (auto simp: drop_handle_def case_prod_unfold Let_def split: if_splits)
  let ?s = "ring_moved k c vs ?t"
  have "rings_in_phase ?s"
    using inv pc dead by (simp add: sharded_conc_inv_def rings_in_phase_def nth_list_update less_Suc_eq)
  moreover have "sweep_inflight ?s = []" "sweep_inflight s = []"
    using rings_inv_cursor [OF base] inv pc dead True
    by (auto simp: sharded_conc_inv_def rings_in_phase_def nth_list_update)
  then have "returns_taken ?s" using inv pc dead(2) by (simp add: sharded_conc_inv_def returns_taken_def only_recv_def)
  ultimately show ?thesis using c(3,4) by (simp add: sharded_conc_inv_def sweep_counts_def)
next
  case False
  with inv pc step show ?thesis
    by (auto simp: sweep_micro_def sharded_conc_inv_def rings_in_phase_def sweep_counts_def returns_taken_def only_recv_def)
qed

lemma sharded_micro_keeps:
  assumes inv: "sharded_conc_inv n per_shard strategy s" and step: "sharded_micro a s = Some r"
  shows "\<exists>s'. r = Inr s' \<and> sharded_conc_inv n per_shard strategy s'"
proof -
  have base: "rings_inv n per_shard strategy s" using inv by (simp add: sharded_conc_inv_def)
  have idle: "all_idle s" if "sc_pc s = SIdle"
    using inv that by (simp add: sharded_conc_inv_def rings_in_phase_def all_idle_def)
  have res: "results_taken s" if "sc_pc s = SIdle"
    using inv that rings_inv_cursor [OF base]
    by (auto simp: sharded_conc_inv_def rings_in_phase_def returns_taken_def results_taken_def only_recv_def)
  show ?thesis
  proof (cases a)
    case RecvCall
    let ?t = "if sc_budget s \<ge> VISIT_BUDGET then conc_advance s else s"
    have pc: "sc_pc s = SIdle" and run: "recv_from (length (sc_shards s)) 0 ?t = Some r"
      using RecvCall step by (simp_all split: if_splits)
    have "rings_inv n per_shard strategy ?t" "sc_budget ?t < VISIT_BUDGET" "all_idle ?t" "results_taken ?t"
        "length (sc_shards ?t) = length (sc_shards s)"
      using base conc_advance_inv(1) [OF base] conc_advance_budget idle [OF pc] res [OF pc] by auto
    moreover have "counted path 0 ?t" for path by (auto simp: counted_def intro: exI [of _ "{}"])
    ultimately show ?thesis using recv_from_keeps [of n per_shard strategy ?t "length (sc_shards s)" 0] run by auto
  next
    case (DrainCall mx)
    with step drain_from_keeps [OF base idle, of "length (sc_shards s)" mx 0] show ?thesis by (auto split: if_splits)
  next
    case (SweepStep x b p)
    with step have "sweep_micro x b p s = Some r" by simp
    with sweep_call_keeps [OF inv] dropping_keeps [OF inv] show ?thesis
      by (cases "sc_pc s") (auto simp: sweep_micro_def)
  next
    case RecvDrop
    with step inv show ?thesis
      by (auto simp: sharded_conc_inv_def rings_in_phase_def sweep_counts_def returns_taken_def only_recv_def split: if_splits)
  next
    case (SendCall i v)
    with step producer_step_keeps [OF inv, of i "TCall v" r] show ?thesis by (simp split: if_splits)
  next
    case (SendStep i x b)
    with step producer_step_keeps [OF inv, of i "TStep x b" r] show ?thesis by (simp split: if_splits)
  next
    case (SendDrop i)
    with step producer_step_keeps [OF inv, of i TDrop r] show ?thesis by (simp split: if_splits)
  qed
qed

text \<open>The constructor.\<close>

lemma conc_rings_ok:
  "conc_rings k per_shard strategy = Inr cs \<Longrightarrow>
     length cs = k \<and> (\<forall>c \<in> set cs. spsc_conc_init per_shard strategy = Inr c)"
  by (induction k arbitrary: cs) auto

lemma spsc_conc_init_fresh:
  "spsc_conc_init cap strategy = Inr c \<Longrightarrow> cc_rx_pc c = RIdle \<and> cc_taken c = [] \<and> cc_rx_log c = []"
  by (auto simp: spsc_conc_init_def)

lemma sharded_conc_init_inv:
  assumes "sharded_conc_init n total_cap strategy = Inr s"
  shows "sharded_conc_inv n (total_cap div n) strategy s"
proof -
  obtain t :: "'a sharded" and cs where t: "sharded_channel n total_cap strategy = Inr t"
    "conc_rings (length (sd_shards t)) (total_cap div n) strategy = Inr cs"
    "s = \<lparr>sc_shards = cs, sc_cursor = sd_cursor t, sc_budget = sd_budget t, sc_pc = SIdle, sc_taken = [], sc_log = []\<rparr>"
    using assms by (auto simp: sharded_conc_init_def)
  have "\<exists>t' :: 'a sharded. sharded_channel n total_cap strategy = Inr t' \<and> length (sd_shards t') = unat n
      \<and> sd_cursor t' = 0 \<and> sd_budget t' = 0"
    using sharded_channel_ok [OF sharded_channel_Inr [OF t(1)]] by blast
  then have open_ok: "length (sd_shards t) = unat n" "sd_cursor t = 0" "sd_budget t = 0" by (simp_all add: t(1))
  have pos: "0 < unat n" using sharded_channel_Inr(1) [OF t(1)] by (simp add: unat_gt_0 word_gt_0)
  have init: "spsc_conc_init (total_cap div n) strategy = Inr (cs ! j)" if "j < unat n" for j
    using conc_rings_ok [OF t(2)] that open_ok(1) by auto
  have "rings_inv n (total_cap div n) strategy s"
    using conc_rings_ok [OF t(2)] open_ok pos init spsc_conc_init_fresh [OF init]
    by (auto simp: t(3) rings_inv_def intro: reachable_by.init)
  moreover have "rings_in_phase s" "sweep_counts s" "returns_taken s"
    using conc_rings_ok [OF t(2)] open_ok pos spsc_conc_init_fresh [OF init]
    by (simp_all add: t(3) rings_in_phase_def sweep_counts_def returns_taken_def)
  ultimately show ?thesis by (simp add: sharded_conc_inv_def)
qed

interpretation sharded_machine: safe_machine "\<lambda>s. sharded_conc_init n total_cap strategy = Inr s" sharded_micro
    "sharded_conc_inv n (total_cap div n) strategy" for n total_cap strategy
  by unfold_locales (auto intro: sharded_conc_init_inv dest: sharded_micro_keeps)

lemmas sharded_reachable_inv = sharded_machine.reachable_inv

lemma sharded_reachable_final:
  assumes "sharded_reachable n total_cap strategy s" "RetRecv (Err RecvDisconnected) \<in> set (sc_log s)" "j < unat n"
  shows "cc_tx_pc (sc_shards s ! j) = TDead \<and> taken_from j s = cc_published (sc_shards s ! j)"
proof -
  have base: "rings_inv n (total_cap div n) strategy s"
    using sharded_reachable_inv [OF assms(1)] by (simp add: sharded_conc_inv_def)
  then have "spsc_reachable (total_cap div n) strategy (sc_shards s ! j)" "reported_gone s j"
      "taken_from j s = cc_taken (sc_shards s ! j)"
    using assms(2,3) by (simp_all add: rings_inv_def)
  with spsc_reachable_gone show ?thesis by fastforce
qed

section \<open>What every interleaving guarantees\<close>

text \<open>
  C29: no interleaving of the producers with the sweeping receiver faults: whatever the loads of the
  rings return (within coherence), no step overwrites a live slot, reads a dead one or indexes
  the shards out of bounds.
\<close>

theorem sharded_concurrent_no_fault:
  assumes "sharded_reachable n total_cap strategy s" "sharded_micro a s = Some r"
  shows "\<exists>s'. r = Inr s' \<and> sharded_reachable n total_cap strategy s'"
  using assms by (rule sharded_machine.no_fault)

theorem sharded_concurrent_no_fault_witness:
  "\<exists>s s'. sharded_reachable 2 4 BusySpin s \<and> sc_pc s = SRecv 0 0 \<and> sc_shards s \<noteq> ([] :: nat spsc_conc list)
     \<and> sharded_micro (SendDrop 0) s = Some (Inr s') \<and> sharded_reachable 2 4 BusySpin s'"
proof -
  have "sharded_reaches 2 4 BusySpin [RecvCall, SendCall 1 7, SweepStep 0 False False, SweepStep 0 False False]
      (\<lambda>s :: nat sharded_conc. sc_pc s = SRecv 0 0 \<and> sc_shards s \<noteq> []
        \<and> (case sharded_micro (SendDrop 0) s of None \<Rightarrow> False | _ \<Rightarrow> True))"
    by code_simp
  then obtain s :: "nat sharded_conc" where s: "sharded_reachable 2 4 BusySpin s" "sc_pc s = SRecv 0 0" "sc_shards s \<noteq> []"
    "case sharded_micro (SendDrop 0) s of None \<Rightarrow> False | _ \<Rightarrow> True"
    using run_reachesD by blast
  then obtain r where "sharded_micro (SendDrop 0) s = Some r" by (auto split: option.splits)
  with sharded_concurrent_no_fault [OF s(1) this] s show ?thesis by blast
qed

text \<open>
  C30: FIFO per producer and backpressure per shard, under interference. In the joint stream of
  all values the receiver took, those of shard \<open>j\<close> are a prefix of what producer \<open>j\<close> published, in
  the same order, each once, and at most \<^verbatim>\<open>total_cap / n_shards\<close> of them are outstanding.
\<close>

theorem sharded_concurrent_fifo:
  assumes "sharded_reachable n total_cap strategy s" "j < unat n"
  shows "\<exists>rest. cc_published (sc_shards s ! j) = taken_from j s @ rest \<and> length rest \<le> unat (total_cap div n)"
proof -
  have base: "rings_inv n (total_cap div n) strategy s"
    using sharded_reachable_inv [OF assms(1)] by (simp add: sharded_conc_inv_def)
  then have "spsc_reachable (total_cap div n) strategy (sc_shards s ! j)" "taken_from j s = cc_taken (sc_shards s ! j)"
    using assms(2) by (simp_all add: rings_inv_def)
  with spsc_reachable_fifo show ?thesis by fastforce
qed

theorem sharded_concurrent_fifo_witness:
  "\<exists>s rest. sharded_reachable 2 4 Backoff s \<and> sc_taken s = [(1, 7 :: nat)]
     \<and> cc_published (sc_shards s ! 1) = taken_from 1 s @ rest"
proof -
  have "sharded_reaches 2 4 Backoff
      [SendCall 1 7, SendStep 1 0 False, SendStep 1 0 False, SendStep 1 0 False, RecvCall, SweepStep 0 False False,
       SendStep 1 0 False, SweepStep 0 False False, SendCall 0 5, SweepStep 1 False False, SweepStep 0 False False]
      (\<lambda>s. sc_taken s = [(1, 7 :: nat)])"
    by code_simp
  then obtain s where s: "sharded_reachable 2 4 Backoff s" "sc_taken s = [(1, 7 :: nat)]"
    using run_reachesD by blast
  with sharded_concurrent_fifo [OF s(1), of 1] show ?thesis by fastforce
qed

text \<open>
  C28: \<^verbatim>\<open>Disconnected\<close> is never early, although the sweep collects the shards' answers one after the other
  while the producers go on: when some \<^verbatim>\<open>try_recv\<close> has returned it, every producer is gone and every
  value ever published, in any shard, was taken.
\<close>

theorem sharded_disconnected_is_final:
  assumes "sharded_reachable n total_cap strategy s" "RetRecv (Err RecvDisconnected) \<in> set (sc_log s)" "j < unat n"
  shows "cc_tx_pc (sc_shards s ! j) = TDead \<and> taken_from j s = cc_published (sc_shards s ! j)"
  using assms by (rule sharded_reachable_final)

theorem sharded_disconnected_is_final_witness:
  "\<exists>s. sharded_reachable 2 4 BusySpin s \<and> cc_published (sc_shards s ! 1) = [7 :: nat]
     \<and> cc_tx_pc (sc_shards s ! 1) = TDead \<and> taken_from 1 s = cc_published (sc_shards s ! 1)"
proof -
  have "sharded_reaches 2 4 BusySpin
      [SendCall 1 7, SendStep 1 0 False, SendStep 1 0 False, SendStep 1 0 False, RecvCall, SweepStep 0 False False,
       SendStep 1 0 False, SendDrop 0, SendDrop 1, SweepStep 0 True False, SweepStep 0 True False,
       SweepStep 1 True False, SweepStep 1 True False, SweepStep 1 True False,
       RecvCall, SweepStep 1 False False, SweepStep 1 True False, SweepStep 1 False False,
       SweepStep 0 True False, SweepStep 0 True False, SweepStep 0 True False]
      (\<lambda>s. cc_published (sc_shards s ! 1) = [7 :: nat] \<and> RetRecv (Err RecvDisconnected) \<in> set (sc_log s))"
    by code_simp
  then obtain s where s: "sharded_reachable 2 4 BusySpin s" "cc_published (sc_shards s ! 1) = [7 :: nat]"
    "RetRecv (Err RecvDisconnected) \<in> set (sc_log s)"
    using run_reachesD by blast
  from sharded_disconnected_is_final [OF s(1,3), of 1] s show ?thesis by auto
qed

section \<open>The sweep is wait-free\<close>

text \<open>One call of \<^verbatim>\<open>try_recv\<close> that started when the log was \<open>log\<close>: in progress, or returned.\<close>

definition in_recv :: "'a rx_result list \<Rightarrow> 'a sharded_conc \<Rightarrow> bool" where
  "in_recv log s \<longleftrightarrow>
     (\<exists>k d. sc_pc s = SRecv k d \<and> sc_log s = log) \<or> (\<exists>r. sc_pc s = SIdle \<and> sc_log s = log @ [RetRecv r])"

fun within_call :: "'a sharded_action \<Rightarrow> bool" where
  "within_call RecvCall = False"
| "within_call (DrainCall mx) = False"
| "within_call RecvDrop = False"
| "within_call _ = True"

fun is_sweep_step :: "'a sharded_action \<Rightarrow> bool" where
  "is_sweep_step (SweepStep x b p) = True"
| "is_sweep_step _ = False"

lemma ring_step_frame:
  assumes "ring_step i a s = Some (Inr s')"
  shows "sc_pc s' = sc_pc s" "sc_log s' = sc_log s" "sc_cursor s' = sc_cursor s"
    "\<exists>c. spsc_micro a (sc_shards s ! i) = Some (Inr c) \<and> sc_shards s' = (sc_shards s)[i := c]"
  using assms by (auto simp: ring_step_def split: if_splits option.splits sum.splits)

lemma recv_from_in_recv: "recv_from k d s = Some (Inr s') \<Longrightarrow> in_recv (sc_log s) s'"
  by (cases k) (auto simp: in_recv_def sweep_return_def dest: ring_step_frame)

lemma recv_result_in_recv: "recv_result k d r s = Some (Inr s') \<Longrightarrow> in_recv (sc_log s) s'"
  using recv_from_in_recv [of k _ "conc_advance s" s']
  by (induction k d r s rule: recv_result.induct) (auto simp: in_recv_def sweep_return_def)

lemma recv_call_in_recv:
  assumes "sc_pc s = SRecv k d" "call_step (recv_result k d) a s = Some (Inr s')"
  shows "in_recv (sc_log s) s'"
proof -
  obtain s1 where s1: "cursor_step a s = Some (Inr s1)"
    using assms(2) by (auto simp: call_step_def split: option.splits sum.splits)
  note frame = ring_step_frame [OF s1]
  show ?thesis
  proof (cases "cc_rx_pc (sc_shards s1 ! unat (sc_cursor s1)) = RIdle")
    case True
    with assms(2) s1 recv_result_in_recv [of k d _ s1 s'] frame(2) show ?thesis by (simp add: call_step_def Let_def)
  next
    case False
    with assms s1 frame(1,2) show ?thesis by (auto simp: call_step_def in_recv_def)
  qed
qed

lemma sender_sweep_left:
  assumes "i < length (sc_shards s)" "sender_action a" "ring_step i a s = Some (Inr s')"
  shows "sweep_left s' = sweep_left s" "in_recv log s' \<longleftrightarrow> in_recv log s"
proof -
  note frame = ring_step_frame [OF assms(3)]
  from frame(4) obtain c where c: "spsc_micro a (sc_shards s ! i) = Some (Inr c)" "sc_shards s' = (sc_shards s)[i := c]"
    by blast
  have "cc_rx_pc (sc_shards s' ! j) = cc_rx_pc (sc_shards s ! j)" for j
    using sender_step_frame(1) [OF assms(2) c(1)] assms(1) c(2) by (cases "j = i") simp_all
  then show "sweep_left s' = sweep_left s" by (simp add: sweep_left_def frame(1,3) split: sweep_pc.split)
  show "in_recv log s' \<longleftrightarrow> in_recv log s" by (simp add: in_recv_def frame(1,2))
qed

lemma sweep_progress_step:
  assumes inv: "sharded_conc_inv n per_shard strategy s" and run: "in_recv log s" "within_call a"
    and step: "sharded_micro a s = Some (Inr s')"
  shows "in_recv log s' \<and> sweep_left s' + (if is_sweep_step a then 1 else 0) \<le> sweep_left s"
proof (cases a)
  case (SweepStep x b p)
  with step run(1) obtain k d where pc: "sc_pc s = SRecv k d" "sc_log s = log"
    by (auto simp: in_recv_def sweep_micro_def)
  with SweepStep step have call: "call_step (recv_result k d) (RStep x b p) s = Some (Inr s')"
    by (simp add: sweep_micro_def)
  have "rings_inv n per_shard strategy s" using inv by (simp add: sharded_conc_inv_def)
  from call_step_ring [OF this call] recv_call_total [OF inv pc(1)] call have "sweep_left s' < sweep_left s"
    by fastforce
  with recv_call_in_recv [OF pc(1) call] pc(2) SweepStep show ?thesis by simp
next
  case (SendCall i v)
  with step run(1) sender_sweep_left [of i s "TCall v" s'] show ?thesis by (simp split: if_splits)
next
  case (SendStep i x b)
  with step run(1) sender_sweep_left [of i s "TStep x b" s'] show ?thesis by (simp split: if_splits)
next
  case (SendDrop i)
  with step run(1) sender_sweep_left [of i s TDrop s'] show ?thesis by (simp split: if_splits)
qed (use run(2) in simp_all)

interpretation sweep_call: bounded_call "\<lambda>s. sharded_conc_init n total_cap strategy = Inr s" sharded_micro
    "sharded_conc_inv n (total_cap div n) strategy" in_recv within_call is_sweep_step sweep_left
    for n total_cap strategy
  by unfold_locales (rule sweep_progress_step)

lemma recv_call_starts:
  assumes "sharded_reachable n total_cap strategy s" "sharded_micro RecvCall s = Some (Inr s')"
  shows "in_recv (sc_log s) s' \<and> sweep_left s' \<le> 6 * unat n"
proof -
  let ?t = "if sc_budget s \<ge> VISIT_BUDGET then conc_advance s else s"
  have len: "length (sc_shards s) = unat n"
    using sharded_reachable_inv [OF assms(1)] by (simp add: sharded_conc_inv_def rings_inv_def)
  have run: "recv_from (unat n) 0 ?t = Some (Inr s')" using assms(2) len by (simp split: if_splits)
  have "in_recv (sc_log s) s'" using recv_from_in_recv [OF run] by (simp split: if_splits)
  moreover have "sweep_left s' \<le> 6 * unat n"
  proof (cases "unat n")
    case (Suc m)
    with run have "ring_step (unat (sc_cursor ?t)) RCall (?t\<lparr>sc_pc := SRecv m 0\<rparr>) = Some (Inr s')" by simp
    from ring_step_frame [OF this] have "sc_pc s' = SRecv m 0" by simp
    moreover have "recv_left pc \<le> 6" for pc :: "'a rx_pc" by (cases pc) simp_all
    ultimately show ?thesis using Suc by (simp add: sweep_left_def)
  qed (use run in \<open>auto simp: sweep_left_def sweep_return_def\<close>)
  ultimately show ?thesis ..
qed

text \<open>
  C31: the sweep of \<^verbatim>\<open>try_recv\<close> is wait-free. However the producers' steps are interleaved with it, one call
  takes at most six steps of the receiver's thread per shard, and as long as it has not returned
  its result the receiver can take a step.
\<close>

theorem sharded_try_recv_wait_free:
  assumes "sharded_reachable n total_cap strategy s" "list_all within_call as"
    and "run_steps sharded_micro (RecvCall # as) s = Some (Inr s')"
  shows "length (filter is_sweep_step as) \<le> 6 * unat n \<and>
     ((\<exists>r. sc_pc s' = SIdle \<and> sc_log s' = sc_log s @ [RetRecv r])
      \<or> (\<exists>x b p s''. sharded_micro (SweepStep x b p) s' = Some (Inr s'')))"
proof -
  from assms(3) obtain s1 where s1: "sharded_micro RecvCall s = Some (Inr s1)" "run_steps sharded_micro as s1 = Some (Inr s')"
    by (auto split: option.splits sum.splits simp del: sharded_micro.simps)
  have reach1: "sharded_reachable n total_cap strategy s1" using reachable_by.step [OF assms(1) s1(1)] .
  note start = recv_call_starts [OF assms(1) s1(1)]
  have fin: "in_recv (sc_log s) s'" "sweep_left s' + length (filter is_sweep_step as) \<le> sweep_left s1"
    using sweep_call.progress_run [OF reach1 _ assms(2) s1(2)] start by auto
  have inv: "sharded_conc_inv n (total_cap div n) strategy s'"
    using sharded_reachable_inv [OF run_steps_reachable [OF s1(2) reach1]] .
  have "\<exists>x b p s''. sharded_micro (SweepStep x b p) s' = Some (Inr s'')" if pc: "sc_pc s' = SRecv k d" for k d
  proof -
    let ?c = "sc_shards s' ! unat (sc_cursor s')"
    have base: "rings_inv n (total_cap div n) strategy s'" using inv by (simp add: sharded_conc_inv_def)
    have "recv_pc (cc_rx_pc ?c)"
      using inv pc rings_inv_cursor [OF base] by (auto simp: sharded_conc_inv_def rings_in_phase_def)
    from recv_step_exists [OF this, of False] recv_call_total [OF inv pc] show ?thesis
      by (fastforce simp: sweep_micro_def pc)
  qed
  with fin start show ?thesis by (auto simp: in_recv_def)
qed

theorem sharded_try_recv_wait_free_witness:
  "\<exists>s s'. sharded_reachable 2 4 BusySpin s \<and>
     run_steps sharded_micro (RecvCall # [SweepStep 0 False False, SendCall 0 (3 :: nat), SweepStep 0 False False]) s = Some (Inr s')
     \<and> (\<exists>x b p s''. sharded_micro (SweepStep x b p) s' = Some (Inr s''))"
proof -
  let ?as = "[SweepStep 0 False False, SendCall 0 (3 :: nat), SweepStep 0 False False]"
  have "sharded_reaches 2 4 BusySpin []
      (\<lambda>s :: nat sharded_conc. sc_log s = [] \<and> run_reaches (Inr s) sharded_micro (RecvCall # ?as) (\<lambda>s'. sc_pc s' = SRecv 0 0))"
    by code_simp
  then obtain s :: "nat sharded_conc" where s: "sharded_reachable 2 4 BusySpin s"
    "run_reaches (Inr s) sharded_micro (RecvCall # ?as) (\<lambda>s'. sc_pc s' = SRecv 0 0)"
    using run_reachesD by blast
  then obtain s' where s': "run_steps sharded_micro (RecvCall # ?as) s = Some (Inr s')" "sc_pc s' = SRecv 0 0"
    by (auto simp: run_reaches_def simp del: run_steps.simps split: option.splits sum.splits)
  from sharded_try_recv_wait_free [OF s(1) _ s'(1)] s'(2) have "\<exists>x b p s''. sharded_micro (SweepStep x b p) s' = Some (Inr s'')"
    by simp
  with s(1) s'(1) show ?thesis by blast
qed

end
