(* ===== verification/Sharded_Undisturbed.thy ===== *)
theory Sharded_Undisturbed
  imports Sharded_Concurrent
begin

text \<open>
  The sweep of the concurrent machine is the code's: if the receiver's thread runs a \<^verbatim>\<open>try_recv\<close>
  without interference and its loads return the current values, the steps end with exactly the result and
  the state of the sequential \<open>sharded_try_recv\<close>.
\<close>

section \<open>The sequential state of a concurrent one\<close>

definition ring_of :: "'a spsc_conc \<Rightarrow> 'a spsc" where
  "ring_of c =
     \<lparr>ch_shared = cc_shared c, ch_tx = (if cc_tx_pc c = TDead then None else Some (cc_tx c)),
      ch_rx = (if cc_rx_pc c = RDead then None else Some (cc_rx c)), ch_tokens = cc_tokens c\<rparr>"

definition sharded_of :: "wait_strategy \<Rightarrow> 'a sharded_conc \<Rightarrow> 'a sharded" where
  "sharded_of strategy s =
     \<lparr>sd_shards = map ring_of (sc_shards s), sd_cursor = sc_cursor s, sd_budget = sc_budget s, sd_strategy = strategy\<rparr>"

lemma receiver_step_tx: "\<not> sender_action a \<Longrightarrow> spsc_micro a c = Some (Inr c') \<Longrightarrow> cc_tx c' = cc_tx c"
  by (cases a) (auto simp: micro_defs Let_def case_prod_unfold split: if_splits rx_pc.splits sum.splits)

lemma receiver_run_frame:
  assumes "run_steps spsc_micro as c = Some (Inr c')" "list_all (\<lambda>a. \<not> sender_action a) as"
  shows "cc_tx c' = cc_tx c \<and> cc_tx_pc c' = cc_tx_pc c"
  using assms
proof (induction as arbitrary: c)
  case (Cons a as)
  from Cons.prems(1) obtain c1 where c1: "spsc_micro a c = Some (Inr c1)" "run_steps spsc_micro as c1 = Some (Inr c')"
    by (auto split: option.splits sum.splits simp del: spsc_micro.simps)
  with Cons receiver_step_tx [OF _ c1(1)] receiver_step_frame(1) [OF _ c1(1)] show ?case by simp
qed simp

text \<open>A ring's \<^verbatim>\<open>try_recv\<close>, undisturbed.\<close>

lemma ring_call_undisturbed:
  assumes "spsc_reachable cap strategy c" "cc_rx_pc c = RIdle"
  shows "\<exists>m x b c' r. run_steps spsc_micro (replicate m (RStep x b False)) (c\<lparr>cc_rx_pc := RTest\<rparr>) = Some (Inr c')
     \<and> spsc_recv_op (ring_of c) = Inr (r, ring_of c') \<and> cc_rx_pc c' = RIdle \<and> cc_rx_log c' = cc_rx_log c @ [RetRecv r]"
proof -
  let ?x = "sp_tail (cc_shared c)" and ?b = "sp_disconnected (cc_shared c)"
  from spsc_micro_try_recv [OF assms] obtain m c' r where
    run: "run_steps spsc_micro (RCall # replicate m (RStep ?x ?b False)) c = Some (Inr c')"
    and seq: "spsc_try_recv (cc_shared c) (cc_rx c) (cc_tokens c) = Inr (r, cc_shared c', cc_rx c', cc_tokens c')"
    and ret: "cc_rx_pc c' = RIdle" "cc_rx_log c' = cc_rx_log c @ [RetRecv r]"
    by blast
  have "list_all (\<lambda>a. \<not> sender_action a) (RCall # replicate m (RStep ?x ?b False))" by (simp add: list_all_iff)
  from receiver_run_frame [OF run this] have "cc_tx c' = cc_tx c" "cc_tx_pc c' = cc_tx_pc c" by simp_all
  with seq ret(1) assms(2) have "spsc_recv_op (ring_of c) = Inr (r, ring_of c')"
    by (simp add: spsc_recv_op_def ring_of_def)
  with run ret assms(2) show ?thesis by auto
qed

section \<open>The sweep\<close>

text \<open>The steps of the ring's call, taken by the sweep.\<close>

lemma sweep_runs_call:
  assumes "sc_pc s = SRecv k d" "i = unat (sc_cursor s)" "i < length (sc_shards s)"
    and "recv_pc (cc_rx_pc (sc_shards s ! i))" "cc_rx_pc c' = RIdle"
    and "run_steps spsc_micro (replicate m (RStep x b False)) (sc_shards s ! i) = Some (Inr c')"
  shows "\<exists>vs. run_steps sharded_micro (replicate m (SweepStep x b False)) s
     = recv_result k d (last (cc_rx_log c')) (ring_moved i c' vs s)"
  using assms
proof (induction m arbitrary: s)
  case 0
  then show ?case by simp
next
  case (Suc m)
  let ?c = "sc_shards s ! i"
  from Suc.prems(6) obtain c1 where c1: "spsc_micro (RStep x b False) ?c = Some (Inr c1)"
    "run_steps spsc_micro (replicate m (RStep x b False)) c1 = Some (Inr c')"
    by (auto split: option.splits sum.splits simp del: spsc_micro.simps)
  obtain vs where vs: "cc_taken c1 = cc_taken ?c @ vs" using micro_histories_grow(2) [OF c1(1)] by blast
  let ?s = "ring_moved i c1 vs s"
  have step: "ring_step i (RStep x b False) s = Some (Inr ?s)" using c1(1) vs Suc.prems(3) by (simp add: ring_step_def)
  show ?case
  proof (cases "cc_rx_pc c1 = RIdle")
    case True
    with c1(2) have "m = 0" "c' = c1" by (cases m; simp add: rx_micro_def)+
    moreover have "sharded_micro (SweepStep x b False) s = recv_result k d (last (cc_rx_log c1)) ?s"
      using step True Suc.prems(1-3) by (simp add: sweep_micro_def call_step_def)
    ultimately show ?thesis by (intro exI [of _ vs]) (auto split: option.splits sum.splits)
  next
    case False
    with Suc.prems(4) c1(1) have pc: "recv_pc (cc_rx_pc c1)" by (cases rule: recv_step_cases) simp_all
    have "sharded_micro (SweepStep x b False) s = Some (Inr ?s)"
      using step False Suc.prems(1-3) by (simp add: sweep_micro_def call_step_def)
    moreover from Suc.IH [of ?s] Suc.prems(1-3,5) pc c1(2) obtain ws where
      "run_steps sharded_micro (replicate m (SweepStep x b False)) ?s
        = recv_result k d (last (cc_rx_log c')) (ring_moved i c' ws ?s)"
      by auto
    moreover have "ring_moved i c' ws ?s = ring_moved i c' (vs @ ws) s" by simp
    ultimately show ?thesis by (intro exI [of _ "vs @ ws"]) simp
  qed
qed

definition rings_ready :: "usize \<Rightarrow> wait_strategy \<Rightarrow> 'a sharded_conc \<Rightarrow> bool" where
  "rings_ready per_shard strategy s \<longleftrightarrow>
     unat (sc_cursor s) < length (sc_shards s) \<and> length (sc_shards s) < 2 ^ 64 \<and>
     (\<forall>j < length (sc_shards s). spsc_reachable per_shard strategy (sc_shards s ! j) \<and> cc_rx_pc (sc_shards s ! j) = RIdle)"

lemma rings_ready_advance: "rings_ready per_shard strategy s \<Longrightarrow> rings_ready per_shard strategy (conc_advance s)"
  using unat_next_cursor [of "sc_cursor s" "length (sc_shards s)"] next_shard_less [of "unat (sc_cursor s)" "length (sc_shards s)"]
  by (simp add: rings_ready_def) (simp add: conc_advance_def)

lemma sharded_of_advance: "sharded_of strategy (conc_advance s) = sharded_advance (sharded_of strategy s)"
  by (simp add: sharded_of_def conc_advance_def sharded_advance_def)

text \<open>One visit: the ring at the cursor answers, in both models alike.\<close>

lemma visit_undisturbed:
  assumes ready: "rings_ready per_shard strategy s"
  shows "\<exists>s1 as t r. recv_from (Suc k) d s = Some (Inr s1) \<and> list_all is_sweep_step as
     \<and> run_steps sharded_micro as s1 = recv_result k d (RetRecv r) t
     \<and> at_cursor spsc_recv_op (sharded_of strategy s) = Inr (r, sharded_of strategy t)
     \<and> rings_ready per_shard strategy t \<and> sc_log t = sc_log s"
proof -
  let ?i = "unat (sc_cursor s)"
  let ?c = "sc_shards s ! ?i"
  let ?run = "?c\<lparr>cc_rx_pc := RTest\<rparr>"
  let ?s = "ring_moved ?i ?run [] (s\<lparr>sc_pc := SRecv k d\<rparr>)"
  have i: "?i < length (sc_shards s)" and c: "spsc_reachable per_shard strategy ?c" "cc_rx_pc ?c = RIdle"
    using ready by (simp_all add: rings_ready_def)
  have start: "recv_from (Suc k) d s = Some (Inr ?s)" using i c(2) by (simp add: ring_step_def)
  from ring_call_undisturbed [OF c] obtain m x b c' r where
    call: "run_steps spsc_micro (replicate m (RStep x b False)) ?run = Some (Inr c')"
      "spsc_recv_op (ring_of ?c) = Inr (r, ring_of c')" "cc_rx_pc c' = RIdle" "cc_rx_log c' = cc_rx_log ?c @ [RetRecv r]"
    by blast
  from sweep_runs_call [of ?s k d ?i c' m x b] call(1,3,4) i obtain vs where
    sweep: "run_steps sharded_micro (replicate m (SweepStep x b False)) ?s = recv_result k d (RetRecv r) (ring_moved ?i c' vs ?s)"
    by auto
  let ?t = "ring_moved ?i c' vs ?s"
  have "spsc_micro RCall ?c = Some (Inr ?run)" using c(2) by simp
  then have "spsc_reachable per_shard strategy c'"
    using run_steps_reachable [OF call(1)] reachable_by.step [OF c(1)] by blast
  then have "rings_ready per_shard strategy ?t" using ready call(3) by (simp add: rings_ready_def nth_list_update)
  moreover have "at_cursor spsc_recv_op (sharded_of strategy s) = Inr (r, sharded_of strategy ?t)"
    using i call(2) by (simp add: at_cursor_def on_shard_def sharded_of_def map_update)
  moreover have "list_all is_sweep_step (replicate m (SweepStep x b False))" by (simp add: list_all_iff)
  ultimately show ?thesis using start sweep by (intro exI [of _ ?s] exI [of _ "replicate m (SweepStep x b False)"] exI [of _ ?t] exI [of _ r]) simp
qed

lemma sweep_undisturbed:
  assumes "rings_ready per_shard strategy s"
  shows "\<exists>s1 as s' r. recv_from k d s = Some (Inr s1) \<and> list_all is_sweep_step as
     \<and> run_steps sharded_micro as s1 = Some (Inr s')
     \<and> sharded_sweep k d (sharded_of strategy s) = Inr (r, sharded_of strategy s')
     \<and> sc_pc s' = SIdle \<and> sc_log s' = sc_log s @ [RetRecv r]"
  using assms
proof (induction k arbitrary: d s)
  case 0
  show ?case
    by (intro exI [of _ "sweep_return (RetRecv (Err (if d = of_nat (length (sc_shards s)) then RecvDisconnected else Empty))) s"]
        exI [of _ "[]"]) (simp add: sharded_of_def sweep_return_def)
next
  case (Suc k)
  from visit_undisturbed [OF Suc.prems, of k d] obtain s1 as t r where
    v: "recv_from (Suc k) d s = Some (Inr s1)" "list_all is_sweep_step as"
      "run_steps sharded_micro as s1 = recv_result k d (RetRecv r) t"
      "at_cursor spsc_recv_op (sharded_of strategy s) = Inr (r, sharded_of strategy t)"
      "rings_ready per_shard strategy t" "sc_log t = sc_log s"
    by blast
  have go: "\<exists>s1 as s' q. recv_from (Suc k) d s = Some (Inr s1) \<and> list_all is_sweep_step as
     \<and> run_steps sharded_micro as s1 = Some (Inr s')
     \<and> sharded_sweep k d' (sharded_advance (sharded_of strategy t)) = Inr (q, sharded_of strategy s')
     \<and> sc_pc s' = SIdle \<and> sc_log s' = sc_log s @ [RetRecv q]"
    if next_visit: "recv_result k d (RetRecv r) t = recv_from k d' (conc_advance t)" for d'
  proof -
    from Suc.IH [OF rings_ready_advance [OF v(5)], of d'] obtain s2 bs s' q where
      ih: "recv_from k d' (conc_advance t) = Some (Inr s2)" "list_all is_sweep_step bs"
        "run_steps sharded_micro bs s2 = Some (Inr s')"
        "sharded_sweep k d' (sharded_advance (sharded_of strategy t)) = Inr (q, sharded_of strategy s')"
        "sc_pc s' = SIdle" "sc_log s' = sc_log s @ [RetRecv q]"
      using v(6) by (auto simp: sharded_of_advance)
    have "run_steps sharded_micro (as @ bs) s1 = Some (Inr s')"
      using v(3) ih(1,3) next_visit by (simp add: run_steps_append)
    with v(1,2) ih show ?thesis by (intro exI [of _ s1] exI [of _ "as @ bs"] exI [of _ s'] exI [of _ q]) simp
  qed
  consider (ok) w where "r = Ok w" | (gone) "r = Err RecvDisconnected" | (empty) "r = Err Empty"
    by (metis rust_result.exhaust try_recv_error.exhaust)
  then show ?case
  proof cases
    case (ok w)
    let ?s = "sweep_return (RetRecv (Ok w)) (t\<lparr>sc_budget := sc_budget t + 1\<rparr>)"
    have "sharded_of strategy ?s = (sharded_of strategy t)\<lparr>sd_budget := sd_budget (sharded_of strategy t) + 1\<rparr>"
      by (simp add: sharded_of_def sweep_return_def)
    with ok v show ?thesis
      by (intro exI [of _ s1] exI [of _ as] exI [of _ ?s] exI [of _ "Ok w"]) (simp add: sweep_return_def)
  next
    case gone
    with go [of "d + 1"] v(4) show ?thesis by simp
  next
    case empty
    with go [of d] v(4) show ?thesis by simp
  qed
qed

text \<open>
  C32: the concurrent machine refines to the sequential method. From every reachable state in which the
  receiver is idle, there is an undisturbed run of \<^verbatim>\<open>try_recv\<close> (steps of the receiver's thread only) that returns
  exactly what the sequential \<open>sharded_try_recv\<close> returns on the same state, and leaves exactly the state it
  leaves.
\<close>

theorem sharded_micro_try_recv:
  assumes "sharded_reachable n total_cap strategy s" "sc_pc s = SIdle"
  shows "\<exists>as s' r. list_all is_sweep_step as \<and> run_steps sharded_micro (RecvCall # as) s = Some (Inr s')
     \<and> sharded_try_recv (sharded_of strategy s) = Inr (r, sharded_of strategy s')
     \<and> sc_pc s' = SIdle \<and> sc_log s' = sc_log s @ [RetRecv r]"
proof -
  let ?t = "if sc_budget s \<ge> VISIT_BUDGET then conc_advance s else s"
  have inv: "sharded_conc_inv n (total_cap div n) strategy s" using sharded_reachable_inv [OF assms(1)] .
  then have ready: "rings_ready (total_cap div n) strategy s"
    using assms(2) usize_bound [of n] by (simp add: sharded_conc_inv_def rings_inv_def rings_in_phase_def rings_ready_def)
  then have "rings_ready (total_cap div n) strategy ?t" using rings_ready_advance [OF ready] by simp
  from sweep_undisturbed [OF this, of "length (sc_shards s)" 0] obtain s1 as s' r where
    run: "recv_from (length (sc_shards s)) 0 ?t = Some (Inr s1)" "list_all is_sweep_step as"
      "run_steps sharded_micro as s1 = Some (Inr s')"
      "sharded_sweep (length (sc_shards s)) 0 (sharded_of strategy ?t) = Inr (r, sharded_of strategy s')"
      "sc_pc s' = SIdle" "sc_log s' = sc_log ?t @ [RetRecv r]"
    by blast
  have start: "(if sd_budget (sharded_of strategy s) \<ge> VISIT_BUDGET then sharded_advance (sharded_of strategy s)
      else sharded_of strategy s) = sharded_of strategy ?t"
    by (simp add: sharded_of_advance) (simp add: sharded_of_def)
  have len: "length (sd_shards (sharded_of strategy ?t)) = length (sc_shards s)" by (simp add: sharded_of_def)
  have "sharded_try_recv (sharded_of strategy s) = Inr (r, sharded_of strategy s')"
    unfolding sharded_try_recv_def Let_def start len by (rule run(4))
  moreover have "run_steps sharded_micro (RecvCall # as) s = Some (Inr s')" using run(1,3) assms(2) by simp
  moreover have "sc_log s' = sc_log s @ [RetRecv r]" using run(6) by (simp split: if_splits)
  ultimately show ?thesis using run(2,5) by blast
qed

theorem sharded_micro_try_recv_witness:
  "\<exists>s as s' r. sharded_reachable 2 4 BusySpin s \<and> cc_published (sc_shards s ! 0) = [3 :: nat]
     \<and> run_steps sharded_micro (RecvCall # as) s = Some (Inr s')
     \<and> sharded_try_recv (sharded_of BusySpin s) = Inr (r, sharded_of BusySpin s')"
proof -
  have "sharded_reaches 2 4 BusySpin
      [SendCall 0 3, SendStep 0 0 False, SendStep 0 0 False, SendStep 0 0 False, SendStep 0 0 False]
      (\<lambda>s. sc_pc s = SIdle \<and> cc_published (sc_shards s ! 0) = [3 :: nat])"
    by code_simp
  then obtain s where s: "sharded_reachable 2 4 BusySpin s" "sc_pc s = SIdle" "cc_published (sc_shards s ! 0) = [3 :: nat]"
    using run_reachesD by blast
  from sharded_micro_try_recv [OF s(1,2)] s(1,3) show ?thesis by blast
qed

end
