(* ===== verification/Sharded_Delivery.thy ===== *)
theory Sharded_Delivery
  imports Sharded_Concurrent "HOL-Library.Multiset"
begin

text \<open>
  What a consumer that loops on \<^verbatim>\<open>try_recv\<close> has at the end, in every interleaving with the
  producers: the composition that \<^verbatim>\<open>tests/loom.rs\<close> checks on small instances
  (\<^verbatim>\<open>sharded_composition\<close>), for any number of shards and any values.
\<close>

lemma mset_by_shard:
  fixes n :: nat
  shows "\<forall>p \<in> set ps. fst p < n \<Longrightarrow> mset (map snd ps) = (\<Sum>j<n. mset (map snd (filter (\<lambda>p. fst p = j) ps)))"
proof (induction ps)
  case (Cons p ps)
  have "(\<Sum>j<n. mset (map snd (filter (\<lambda>p. fst p = j) (p # ps))))
      = (\<Sum>j<n. (if j = fst p then {#snd p#} else {#}) + mset (map snd (filter (\<lambda>p. fst p = j) ps)))"
    by (intro sum.cong) auto
  also have "\<dots> = {#snd p#} + (\<Sum>j<n. mset (map snd (filter (\<lambda>p. fst p = j) ps)))"
    using Cons.prems by (simp add: sum.distrib)
  finally show ?case using Cons by simp
qed simp

lemma sharded_returns_taken:
  assumes "sharded_reachable n total_cap strategy s" "sc_pc s = SIdle" "\<forall>e. RetDrain e \<notin> set (sc_log s)"
  shows "ok_values (sc_log s) = map snd (sc_taken s)"
proof -
  have inv: "sharded_conc_inv n (total_cap div n) strategy s" using sharded_reachable_inv [OF assms(1)] .
  then have "unat (sc_cursor s) < length (sc_shards s)" using rings_inv_cursor by (auto simp: sharded_conc_inv_def)
  with inv assms(2) have "sweep_inflight s = []" by (simp add: sharded_conc_inv_def rings_in_phase_def)
  with inv assms(2,3) show ?thesis by (simp add: sharded_conc_inv_def returns_taken_def only_recv_def)
qed

lemma sharded_delivers:
  assumes "sharded_reachable n total_cap strategy s" "sc_pc s = SIdle" "\<forall>e. RetDrain e \<notin> set (sc_log s)"
    and "RetRecv (Err RecvDisconnected) \<in> set (sc_log s)"
  shows "mset (ok_values (sc_log s)) = (\<Sum>j<unat n. mset (cc_published (sc_shards s ! j)))"
proof -
  have base: "rings_inv n (total_cap div n) strategy s"
    using sharded_reachable_inv [OF assms(1)] by (simp add: sharded_conc_inv_def)
  have "mset (ok_values (sc_log s)) = (\<Sum>j<unat n. mset (taken_from j s))"
    unfolding sharded_returns_taken [OF assms(1-3)] using base by (intro mset_by_shard) (simp add: rings_inv_def)
  also have "\<dots> = (\<Sum>j<unat n. mset (cc_published (sc_shards s ! j)))"
    using sharded_reachable_final [OF assms(1,4)] by (intro sum.cong) auto
  finally show ?thesis .
qed

text \<open>
  C27: exactly once. A consumer calls \<^verbatim>\<open>try_recv\<close> until it returns \<^verbatim>\<open>Disconnected\<close>; then the values it was
  given are, as a multiset, exactly the values that all producers together published:
  none lost behind a shard that was already gone, none delivered twice.
\<close>

theorem sharded_exactly_once:
  assumes "sharded_reachable n total_cap strategy s" "sc_pc s = SIdle" "\<forall>e. RetDrain e \<notin> set (sc_log s)"
    and "RetRecv (Err RecvDisconnected) \<in> set (sc_log s)"
  shows "mset (ok_values (sc_log s)) = (\<Sum>j<unat n. mset (cc_published (sc_shards s ! j)))"
  using assms by (rule sharded_delivers)

text \<open>
  The witness is the scenario of \<^verbatim>\<open>loom_sharded_no_loss_no_early_disconnect\<close>: two shards, one value each, the
  drops racing the sweep.
\<close>

theorem sharded_exactly_once_witness:
  "\<exists>s. sharded_reachable 2 4 BusySpin s \<and> map cc_published (sc_shards s) = [[0 :: nat], [1]]
     \<and> mset (ok_values (sc_log s)) = {#0, 1#}"
proof -
  have "sharded_reaches 2 4 BusySpin
      [SendCall 1 1, RecvCall, SweepStep 0 False False, SendCall 0 0, SendStep 1 0 False, SendStep 1 0 False,
       SendStep 0 0 False, SendStep 1 0 False, SendStep 1 0 False, SendStep 0 0 False, SendDrop 1, SendStep 0 0 False,
       SendStep 0 0 False, SweepStep 0 False False, SendDrop 0, SweepStep 1 False False, SweepStep 0 False False,
       SweepStep 0 False False,
       RecvCall, SweepStep 1 False False, SweepStep 1 True False, SweepStep 0 False False,
       SweepStep 1 False False, SweepStep 0 False False, SweepStep 0 False False,
       RecvCall, SweepStep 1 False False, SweepStep 1 True False, SweepStep 0 False False,
       SweepStep 1 False False, SweepStep 1 True False, SweepStep 0 False False]
      (\<lambda>s. sc_pc s = SIdle \<and> map cc_published (sc_shards s) = [[0 :: nat], [1]]
         \<and> sc_log s = [RetRecv (Ok 1), RetRecv (Ok 0), RetRecv (Err RecvDisconnected)])"
    by code_simp
  from run_reachesD [OF this] obtain s :: "nat sharded_conc" where s: "sharded_reachable 2 4 BusySpin s" "sc_pc s = SIdle"
    "map cc_published (sc_shards s) = [[0 :: nat], [1]]"
    "sc_log s = [RetRecv (Ok 1), RetRecv (Ok 0), RetRecv (Err RecvDisconnected)]"
    by (elim exE conjE)
  have "cc_published (sc_shards s ! 0) = [0]" "cc_published (sc_shards s ! 1) = [1]"
    using s(3) by (auto simp: map_eq_Cons_conv)
  with sharded_exactly_once [OF s(1,2)] s(4) have "mset (ok_values (sc_log s)) = {#0, 1#}"
    by (simp add: lessThan_nat_numeral)
  with s(1,3) show ?thesis by (intro exI [of _ s] conjI)
qed

end
