(* ===== verification/Integration_Tests.thy ===== *)
theory Integration_Tests
  imports Unit_Tests Mpsc_Blocking Sharded_Blocking Sharded_Delivery Mpsc_Calls
begin

text \<open>
  The integration tests under \<^verbatim>\<open>tests/\<close>, run on the model. \<^verbatim>\<open>close_semantics.rs\<close>: the deterministic
  tests are evaluated, and the randomised drop-accounting test is proved for every number of
  rounds and every seed of its generator. \<^verbatim>\<open>spsc_blocking.rs\<close>, \<^verbatim>\<open>mpsc_blocking.rs\<close> and \<^verbatim>\<open>sharded_blocking.rs\<close>: the close-while-parked
  tests with the peer's event at a given iteration of the wait loop. \<^verbatim>\<open>loom.rs\<close>: the
  assertions of the scenarios, for every interleaving of the concurrent machines. The single-threaded tests
  of \<^verbatim>\<open>spsc_stress.rs\<close>, \<^verbatim>\<open>mpsc_stress.rs\<close> and \<^verbatim>\<open>sharded_stress.rs\<close> are evaluated too.
\<close>

section \<open>\<^verbatim>\<open>tests/close_semantics.rs\<close>\<close>

definition try_recv_closed_with_data_spsc_and_mpsc :: bool where
  "try_recv_closed_with_data_spsc_and_mpsc =
     (passes (spsc_open 4 BusySpin :: nat spsc outcome)
        [expect (spsc_send_op 1) (Ok ()), call_only spsc_drop_tx,
         expect spsc_recv_op (Ok 1), expect spsc_recv_op (Err RecvDisconnected)]
      \<and> passes (mpsc_open 4 BusySpin :: nat mpsc outcome)
        [expect (mpsc_send_op (0, 0) 1) (Ok ()), call_only (mpsc_drop_tx 0),
         expect mpsc_recv_op (Ok 1), expect mpsc_recv_op (Err RecvDisconnected)])"

text \<open>The counter of \<^verbatim>\<open>Counted\<close> is the number of values that the drops of the handles free.\<close>

definition drop_full_ring_drops_all_values_once :: bool where
  "drop_full_ring_drops_all_values_once =
     list_all (\<lambda>produced.
       passes (mpsc_open 8 BusySpin :: unit mpsc outcome)
         (replicate produced (expect (mpsc_send_op (0, 0) ()) (Ok ())) @
          [expect mpsc_drop_rx [], expect (mpsc_drop_tx 0) (replicate produced ())]))
       [1, 4, 8]"

text \<open>The blocking \<^verbatim>\<open>send\<close>, with nobody else acting.\<close>

definition mpsc_send_alone :: "'a \<Rightarrow> 'a mpsc \<Rightarrow> ((unit, 'a send_error) rust_result option \<times> 'a mpsc) outcome" where
  "mpsc_send_alone v c =
     (case mpsc_send 0 (0, 0) (\<lambda>_ d. d) 2 v c of
        Inl e \<Rightarrow> Inl e
      | Inr None \<Rightarrow> Inr (None, c)
      | Inr (Some (r, (_, _, c'))) \<Rightarrow> Inr (Some r, c'))"

definition send_after_disconnect_returns_value :: bool where
  "send_after_disconnect_returns_value =
     passes (mpsc_open 4 BusySpin :: string mpsc outcome)
       [call_only mpsc_drop_rx,
        expect (mpsc_send_op (0, 0) ''t'') (Err (SendDisconnected ''t'')),
        expect (mpsc_send_alone ''b'') (Some (Err (SendError ''b'')))]"

definition sharded_try_recv_closed_with_data :: bool where
  "sharded_try_recv_closed_with_data =
     passes (sharded_channel 2 8 BusySpin :: nat sharded outcome)
       [expect (sharded_try_send 1 1) (Ok ()), call_only (sharded_drop_tx 0), call_only (sharded_drop_tx 1),
        expect sharded_try_recv (Ok 1), expect sharded_try_recv (Err RecvDisconnected)]"

definition sharded_drop_full_rings_drop_all_values_once :: bool where
  "sharded_drop_full_rings_drop_all_values_once =
     list_all (\<lambda>(in_shard0, in_shard1).
       passes (sharded_channel 2 8 BusySpin :: unit sharded outcome)
         (replicate in_shard0 (expect (sharded_try_send 0 ()) (Ok ())) @
          replicate in_shard1 (expect (sharded_try_send 1 ()) (Ok ())) @
          [expect sharded_drop_rx [],
           expect (sharded_drop_tx 0) (replicate in_shard0 ()),
           expect (sharded_drop_tx 1) (replicate in_shard1 ())]))
       [(1, 0), (4, 2), (4, 4)]"

definition sharded_send_after_disconnect_returns_value :: bool where
  "sharded_send_after_disconnect_returns_value =
     passes (sharded_channel 2 8 BusySpin :: string sharded outcome)
       [call_only sharded_drop_rx,
        expect (sharded_try_send 0 ''t'') (Err (SendDisconnected ''t'')),
        expect (sharded_try_send 1 ''t'') (Err (SendDisconnected ''t''))]"

lemma close_semantics_tests:
  "try_recv_closed_with_data_spsc_and_mpsc" "drop_full_ring_drops_all_values_once"
  "send_after_disconnect_returns_value" "sharded_try_recv_closed_with_data"
  "sharded_drop_full_rings_drop_all_values_once" "sharded_send_after_disconnect_returns_value"
  by code_simp+

subsection \<open>The randomised drop accounting\<close>

text \<open>The generator, and one round: produce, consume, close; the result is the count of drops.\<close>

definition fuzz_next :: "64 word \<Rightarrow> 64 word" where
  "fuzz_next seed =
     (let s1 = seed XOR push_bit 13 seed; s2 = s1 XOR drop_bit 7 s1 in s2 XOR push_bit 17 s2)"

fun fuzz_produce :: "nat \<Rightarrow> unit mpsc \<Rightarrow> ((nat \<times> nat) \<times> unit mpsc) outcome" where
  "fuzz_produce 0 c = Inr ((0, 0), c)"
| "fuzz_produce (Suc k) c =
     (case mpsc_send_op (0, 0) () c of
        Inl e \<Rightarrow> Inl e
      | Inr (Err (SendDisconnected v), c1) \<Rightarrow> Inl (Panic ''internal error: entered unreachable code'')
      | Inr (r, c1) \<Rightarrow>
          obind (fuzz_produce k c1) (\<lambda>((sent, dropped), c2).
            Inr (if r = Ok () then (Suc sent, dropped) else (sent, Suc dropped), c2)))"

fun fuzz_consume :: "nat \<Rightarrow> unit mpsc \<Rightarrow> (nat \<times> unit mpsc) outcome" where
  "fuzz_consume 0 c = Inr (0, c)"
| "fuzz_consume (Suc k) c =
     (case mpsc_recv_op c of
        Inl e \<Rightarrow> Inl e
      | Inr (r, c1) \<Rightarrow>
          obind (fuzz_consume k c1) (\<lambda>(consumed, c2). Inr ((case r of Ok _ \<Rightarrow> Suc consumed | Err _ \<Rightarrow> consumed), c2)))"

definition fuzz_round :: "nat \<Rightarrow> nat \<Rightarrow> nat outcome" where
  "fuzz_round produce consume_max =
     obind (mpsc_open 16 BusySpin) (\<lambda>c0.
     obind (fuzz_produce produce c0) (\<lambda>((sent, rejected), c1).
     obind (fuzz_consume (min consume_max sent) c1) (\<lambda>(consumed, c2).
     obind (mpsc_drop_tx 0 c2) (\<lambda>(freed_tx, c3).
     obind (mpsc_drop_rx c3) (\<lambda>(freed_rx, _).
       Inr (rejected + consumed + length freed_tx + length freed_rx))))))"

text \<open>\<^verbatim>\<open>rounds\<close> rounds from a seed; every assertion holds.\<close>

fun randomized_drop_accounting_fuzz :: "nat \<Rightarrow> 64 word \<Rightarrow> bool" where
  "randomized_drop_accounting_fuzz 0 seed = True"
| "randomized_drop_accounting_fuzz (Suc rounds) seed =
     (let s1 = fuzz_next seed; s2 = fuzz_next s1; produce = unat (s1 mod 40); consume_max = unat (s2 mod 40)
      in fuzz_round produce consume_max = Inr produce \<and> randomized_drop_accounting_fuzz rounds s2)"

definition fuzz_inv :: "unit mpsc \<Rightarrow> bool" where
  "fuzz_inv c \<longleftrightarrow> mpsc_inv c \<and> mpsc_tx_live (0, 0) c \<and> bc_rx_live (mpsc_abs c) \<and> live_senders c = 1"

abbreviation queued :: "'a mpsc \<Rightarrow> nat" where
  "queued c \<equiv> length (bc_queue (mpsc_abs c))"

lemma live_senders_abs: "live_senders c = bc_senders (mpsc_abs c)"
  by (simp add: mpsc_abs_def)

lemma fuzz_produce_counts:
  assumes "fuzz_inv c"
  shows "\<exists>sent dropped c'. fuzz_produce k c = Inr ((sent, dropped), c') \<and> fuzz_inv c'
    \<and> sent + dropped = k \<and> queued c' = queued c + sent"
  using assms
proof (induction k arbitrary: c)
  case (Suc k)
  have live: "mpsc_inv c" "mpsc_tx_live (0, 0) c" "bc_rx_live (mpsc_abs c)" "bc_senders (mpsc_abs c) = 1"
    using Suc.prems by (simp_all add: fuzz_inv_def live_senders_abs)
  from mpsc.send_refines [OF live(1,2), of "()"] obtain c1 where
    c1: "mpsc_send_op (0, 0) () c = Inr (fst (spec_try_send () (mpsc_abs c)), c1)" "mpsc_inv c1"
      "mpsc_abs c1 = snd (spec_try_send () (mpsc_abs c))" "mpsc_tx_live (0, 0) c1"
    using live(2) by blast
  have "fuzz_inv c1"
    using c1 live(3,4) by (simp add: fuzz_inv_def live_senders_abs spec_try_send_def)
  from Suc.IH [OF this] obtain sent dropped c' where
    ih: "fuzz_produce k c1 = Inr ((sent, dropped), c')" "fuzz_inv c'" "sent + dropped = k" "queued c' = queued c1 + sent"
    by blast
  show ?case
    using c1(1,3) ih live(3) by (auto simp: spec_try_send_def)
qed simp

lemma fuzz_consume_counts:
  assumes "fuzz_inv c"
  shows "\<exists>consumed c'. fuzz_consume k c = Inr (consumed, c') \<and> fuzz_inv c' \<and> consumed + queued c' = queued c"
  using assms
proof (induction k arbitrary: c)
  case (Suc k)
  have live: "mpsc_inv c" "mpsc_tx_live (0, 0) c" "bc_rx_live (mpsc_abs c)" "bc_senders (mpsc_abs c) = 1"
    using Suc.prems by (simp_all add: fuzz_inv_def live_senders_abs)
  from mpsc.recv_refines [OF live(1,3)] live(2) obtain c1 where
    c1: "mpsc_recv_op c = Inr (fst (spec_try_recv (mpsc_abs c)), c1)" "mpsc_inv c1"
      "mpsc_abs c1 = snd (spec_try_recv (mpsc_abs c))" "mpsc_tx_live (0, 0) c1"
    by blast
  have "fuzz_inv c1"
    using c1 live(3,4) by (simp add: fuzz_inv_def live_senders_abs spec_try_recv_def split: list.splits)
  from Suc.IH [OF this] obtain consumed c' where
    ih: "fuzz_consume k c1 = Inr (consumed, c')" "fuzz_inv c'" "consumed + queued c' = queued c1"
    by blast
  show ?case
    using c1(1,3) ih by (auto simp: spec_try_recv_def split: list.splits)
qed simp

lemma fuzz_close_frees:
  assumes "fuzz_inv c"
  shows "\<exists>c1 freed c2. mpsc_drop_tx 0 c = Inr ([], c1) \<and> mpsc_drop_rx c1 = Inr (freed, c2) \<and> length freed = queued c"
proof -
  have inv: "mpsc_inv c" and one: "live_senders c = 1" using assms by (simp_all add: fuzz_inv_def)
  obtain tx where tx: "mc_tx 0 c = Some tx" using assms by (auto simp: fuzz_inv_def mpsc_tx_live_def)
  obtain rx where rx: "mc_rx c = Some rx"
    using assms by (cases "mc_rx c") (auto simp: fuzz_inv_def mpsc_abs_def mpsc_inv_def)
  from mpsc_drop_tx_correct [OF inv tx] rx one obtain c1 where
    c1: "mpsc_drop_tx 0 c = Inr ([], c1)" "mpsc_inv c1" "mpsc_abs c1 = (mpsc_abs c)\<lparr>bc_senders := 0\<rparr>" "mc_rx c1 = Some rx"
    by auto
  have "live_senders c1 = 0" using c1(3) by (simp add: live_senders_abs)
  with mpsc_drop_rx_correct [OF c1(2,4)] c1(1,3) show ?thesis by auto
qed

lemma fuzz_round_counts: "fuzz_round produce consume_max = Inr produce"
proof -
  have "is_power_of_two (16 :: usize)" by code_simp
  from mpsc_open_inv [OF this] obtain c0 :: "unit mpsc" where
    c0: "mpsc_open 16 BusySpin = Inr c0" "mpsc_inv c0" "mpsc_abs c0 = (fresh_bchan 16)\<lparr>bc_quota := Some (2 ^ 64 - 1)\<rparr>"
      "mc_tx 0 c0 \<noteq> None"
    by blast
  have "fuzz_inv c0" "queued c0 = 0" using c0 by (simp_all add: fuzz_inv_def live_senders_abs mpsc_tx_live_def)
  with fuzz_produce_counts [of c0 produce] obtain sent rejected c1 where
    c1: "fuzz_produce produce c0 = Inr ((sent, rejected), c1)" "fuzz_inv c1" "sent + rejected = produce" "queued c1 = sent"
    by auto
  from fuzz_consume_counts [OF c1(2), of "min consume_max sent"] obtain consumed c2 where
    c2: "fuzz_consume (min consume_max sent) c1 = Inr (consumed, c2)" "fuzz_inv c2" "consumed + queued c2 = sent"
    using c1(4) by auto
  from fuzz_close_frees [OF c2(2)] c0(1) c1(1,3) c2(1,3) show ?thesis by (auto simp: fuzz_round_def)
qed

text \<open>
  The randomised test passes for every number of rounds and every seed, not only for the
  500 rounds of the one seed it runs: each constructed value is dropped exactly once, whether the
  ring rejected it, the consumer took it or the last handle's drop found it.
\<close>

theorem randomized_drop_accounting_always_passes:
  "randomized_drop_accounting_fuzz rounds seed"
  by (induction rounds arbitrary: seed) (simp_all add: Let_def fuzz_round_counts)

section \<open>Drop accounting of the stress tests\<close>

text \<open>
  \<^verbatim>\<open>tests/spsc_stress.rs\<close>, \<^verbatim>\<open>tests/mpsc_stress.rs\<close> and \<^verbatim>\<open>tests/sharded_stress.rs\<close>: the single-threaded tests. Values
  are numbered, so that the lists freed by the last drops say which values they were, and not
  only how many.
\<close>

definition spsc_every_value_dropped_exactly_once :: bool where
  "spsc_every_value_dropped_exactly_once =
     passes (spsc_open 8 BusySpin :: nat spsc outcome)
       (map (\<lambda>v. expect (spsc_send_op v) (Ok ())) [0..<6] @ map (\<lambda>v. expect spsc_recv_op (Ok v)) [0..<2] @
        [expect spsc_drop_tx [], expect spsc_drop_rx [2, 3, 4, 5]])"

definition mpsc_every_value_dropped_exactly_once :: bool where
  "mpsc_every_value_dropped_exactly_once =
     passes (mpsc_open 8 BusySpin :: nat mpsc outcome)
       (map (\<lambda>v. expect (mpsc_send_op (0, 0) v) (Ok ())) [0..<6] @ map (\<lambda>v. expect mpsc_recv_op (Ok v)) [0..<2] @
        [expect (mpsc_drop_tx 0) [], expect mpsc_drop_rx [2, 3, 4, 5]])"

definition sharded_every_value_dropped_exactly_once :: bool where
  "sharded_every_value_dropped_exactly_once =
     passes (sharded_channel 2 16 BusySpin :: nat sharded outcome)
       (concat (map (\<lambda>i. [expect (sharded_try_send 0 i) (Ok ()), expect (sharded_try_send 1 (10 + i)) (Ok ())]) [0..<3]) @
        map (\<lambda>v. expect sharded_try_recv (Ok v)) [0..<2] @
        [expect (sharded_drop_tx 0) [], expect (sharded_drop_tx 1) [], expect sharded_drop_rx [2, 10, 11, 12]])"

text \<open>
  The closure counts the drops of the values handed to it, that of the value it panics on included (the
  unwinding drops it).
\<close>

definition panic_on_second :: "'a \<Rightarrow> nat \<Rightarrow> bool \<times> nat" where
  "panic_on_second _ drops = (drops = 1, Suc drops)"

definition expect_unwound :: "('c \<Rightarrow> (drain_exit \<times> 's \<times> 'c) outcome) \<Rightarrow> 's \<Rightarrow> 'c \<Rightarrow> 'c option" where
  "expect_unwound call st c =
     (case call c of Inr (Unwound, st', c') \<Rightarrow> if st' = st then Some c' else None | _ \<Rightarrow> None)"

definition spsc_drain_unwind_safe :: bool where
  "spsc_drain_unwind_safe =
     passes (spsc_open 8 BusySpin :: nat spsc outcome)
       (map (\<lambda>v. expect (spsc_send_op v) (Ok ())) [0..<4] @
        [expect_unwound (spsc_drain_op 4 panic_on_second 0) 2, expect spsc_drop_tx [], expect spsc_drop_rx [2, 3]])"

definition mpsc_drain_unwind_safe :: bool where
  "mpsc_drain_unwind_safe =
     passes (mpsc_open 4 BusySpin :: nat mpsc outcome)
       (map (\<lambda>v. expect (mpsc_send_op (0, 0) v) (Ok ())) [0..<4] @
        [expect_unwound (mpsc_drain_op 4 panic_on_second 0) 2, expect (mpsc_drop_tx 0) [], expect mpsc_drop_rx [2, 3]])"

lemma drop_accounting_tests:
  "spsc_every_value_dropped_exactly_once" "mpsc_every_value_dropped_exactly_once"
  "sharded_every_value_dropped_exactly_once" "spsc_drain_unwind_safe" "mpsc_drain_unwind_safe"
  by code_simp+

section \<open>Closing while a thread waits\<close>

text \<open>
  \<^verbatim>\<open>tests/spsc_blocking.rs\<close>, \<^verbatim>\<open>tests/mpsc_blocking.rs\<close> and \<^verbatim>\<open>tests/sharded_blocking.rs\<close>: the spawned thread
  blocks, and the main thread's action comes at iteration \<open>k\<close> of its wait loop (the tests sleep for 50 ms so that it
  comes late). The two senders of \<^verbatim>\<open>parked_senders_wake_on_receiver_drop_and_return_values\<close> are run one at a
  time.
\<close>

definition returns :: "'r \<Rightarrow> ('r \<times> 's) option outcome \<Rightarrow> bool" where
  "returns r m = (case m of Inr (Some (r', _)) \<Rightarrow> r' = r | _ \<Rightarrow> False)"

definition prepared :: "'c outcome \<Rightarrow> ('c \<Rightarrow> 'c option) list \<Rightarrow> ('c \<Rightarrow> bool) \<Rightarrow> bool" where
  "prepared opened script final =
     (case opened of
        Inl _ \<Rightarrow> False
      | Inr c \<Rightarrow> (case run_script script c of None \<Rightarrow> False | Some c' \<Rightarrow> final c'))"

abbreviation event_at :: "nat \<Rightarrow> 'e \<Rightarrow> 'e \<Rightarrow> nat \<Rightarrow> 'e" where
  "event_at k e quiet \<equiv> \<lambda>j. if j = k then e else quiet"

definition spsc_parked_recv_wakes_on_send :: "nat \<Rightarrow> bool" where
  "spsc_parked_recv_wakes_on_send k =
     prepared (spsc_open 4 Park :: nat spsc outcome) []
       (\<lambda>c. returns (Ok 7) (spsc_recv 1 (spsc_tx_env (event_at k (TxTrySend 7) TxIdle)) (k + 4) c))"

definition spsc_parked_recv_wakes_on_disconnect :: "nat \<Rightarrow> bool" where
  "spsc_parked_recv_wakes_on_disconnect k =
     prepared (spsc_open 4 Park :: nat spsc outcome) []
       (\<lambda>c. returns (Err RecvError) (spsc_recv 1 (spsc_tx_env (event_at k TxDrop TxIdle)) (k + 4) c))"

definition spsc_parked_send_wakes_on_disconnect_and_returns_value :: "nat \<Rightarrow> bool" where
  "spsc_parked_send_wakes_on_disconnect_and_returns_value k =
     prepared (spsc_open 1 Park :: nat spsc outcome) [expect (spsc_send_op 1) (Ok ())]
       (\<lambda>c. returns (Err (SendError 2)) (spsc_send 1 (spsc_rx_env (event_at k RxDrop RxIdle)) (k + 4) 2 c))"

definition mpsc_parked_recv_wakes_on_last_sender_drop :: bool where
  "mpsc_parked_recv_wakes_on_last_sender_drop =
     prepared (mpsc_open 4 Park :: nat mpsc outcome) [call_only (mpsc_clone_op 0)]
       (\<lambda>c. returns (Err RecvError) (mpsc_recv 1 (mpsc_tx_env [MDropTx 0, MDropTx 1]) 6 c))"

definition mpsc_parked_senders_wake_on_receiver_drop_and_return_values :: "nat \<Rightarrow> bool" where
  "mpsc_parked_senders_wake_on_receiver_drop_and_return_values k =
     list_all (\<lambda>i.
       prepared (mpsc_open 1 Park :: nat mpsc outcome)
         [call_only (mpsc_clone_op 0), expect (mpsc_send_op (1, 0) 0) (Ok ()),
          call_only (mpsc_clone_op 0), call_only (mpsc_clone_op 0), call_only (mpsc_drop_tx 0)]
         (\<lambda>c. returns (Err (SendError i)) (mpsc_send i (Suc i, 0) (mpsc_rx_env (event_at k RxDrop RxIdle)) (k + 4) i c)))
       [1, 2]"

definition sharded_recv_returns_err_after_all_senders_drop :: bool where
  "sharded_recv_returns_err_after_all_senders_drop =
     prepared (sharded_channel 2 8 Backoff :: nat sharded outcome) [expect (sharded_try_send 0 5) (Ok ())]
       (\<lambda>s. case sharded_recv (\<lambda>_ t. t) 3 s of
              Inr (Some (Ok v, (_, s'))) \<Rightarrow>
                v = 5 \<and> returns (Err RecvError)
                  (sharded_recv (sharded_tx_env (\<lambda>j. if j = 0 then ShDrop 0 else if j = 1 then ShDrop 1 else ShIdle)) 4 s')
            | _ \<Rightarrow> False)"

definition sharded_blocked_send_returns_value_after_receiver_drop :: "nat \<Rightarrow> bool" where
  "sharded_blocked_send_returns_value_after_receiver_drop k =
     prepared (sharded_channel 2 4 Backoff :: nat sharded outcome)
       [expect (sharded_try_send 0 0) (Ok ()), expect (sharded_try_send 0 1) (Ok ())]
       (\<lambda>s. case sharded_send 0 1 (spsc_rx_env (event_at k RxDrop RxIdle)) (k + 4) 2 s of
              Inr (Some r, _) \<Rightarrow> r = Err (SendError 2) | _ \<Rightarrow> False)"

definition sharded_blocked_send_completes_when_consumer_frees_the_shard :: "nat \<Rightarrow> bool" where
  "sharded_blocked_send_completes_when_consumer_frees_the_shard k =
     prepared (sharded_channel 1 2 Backoff :: nat sharded outcome)
       [expect (sharded_try_send 0 0) (Ok ()), expect (sharded_try_send 0 1) (Ok ())]
       (\<lambda>s. case sharded_send 0 1 (spsc_rx_env (event_at k RxTryRecv RxIdle)) (k + 4) 2 s of
              Inr (Some (Ok _), s') \<Rightarrow> run_script [expect sharded_try_recv (Ok 1), expect sharded_try_recv (Ok 2)] s' \<noteq> None
            | _ \<Rightarrow> False)"

lemma blocking_tests:
  "list_all spsc_parked_recv_wakes_on_send [0, 1, 5]" "list_all spsc_parked_recv_wakes_on_disconnect [0, 1, 5]"
  "list_all spsc_parked_send_wakes_on_disconnect_and_returns_value [0, 1, 5]"
  "mpsc_parked_recv_wakes_on_last_sender_drop"
  "list_all mpsc_parked_senders_wake_on_receiver_drop_and_return_values [0, 1, 5]"
  "sharded_recv_returns_err_after_all_senders_drop"
  "list_all sharded_blocked_send_returns_value_after_receiver_drop [0, 1, 5]"
  by code_simp+

lemma sharded_completes_test:
  "list_all sharded_blocked_send_completes_when_consumer_frees_the_shard [0, 1, 5]"
  by code_simp

section \<open>\<^verbatim>\<open>tests/loom.rs\<close>\<close>

text \<open>
  Each scenario's assertion, for every interleaving; what the test's threads send is a
  hypothesis on the published values. (3) and (4) are the
  subject of \<open>Park_Protocol\<close>, (5) of \<open>Waiter_Protocol\<close>; (8) is that no interleaving with the receiver's drop faults and that
  \<^verbatim>\<open>try_send\<close> is wait-free (\<open>Spsc_Calls\<close>).
\<close>

lemma loom_spsc_publish_consume:
  assumes "spsc_reachable 2 BusySpin c" "cc_rx_pc c = RIdle" "\<forall>e. RetDrain e \<notin> set (cc_rx_log c)"
    and "cc_published c = [0, 1, 2 :: nat]" "length (ok_values (cc_rx_log c)) = 3"
  shows "ok_values (cc_rx_log c) = [0, 1, 2]"
proof -
  have "cc_taken c = ok_values (cc_rx_log c)"
    using spsc_reachable_returns [OF assms(1)] assms(2,3) by (simp add: ring_returns_def)
  with spsc_reachable_fifo [OF assms(1)] obtain rest where "[0, 1, 2] = ok_values (cc_rx_log c) @ rest"
    using assms(4) by auto
  with assms(5) have "ok_values (cc_rx_log c) = take 3 [0, 1, 2]" by (metis append_eq_conv_conj)
  then show ?thesis by simp
qed

lemma loom_mpsc_two_producers:
  assumes "mpsc_reachable 2 BusySpin c" "mk_rx_pc c = MIdle" "\<forall>e. MRetDrain e \<notin> set (mk_rx_log c)"
    and "mset (mk_claimed c) = {#0, 1 :: nat#}" "length (mok_values (mk_rx_log c)) = 2"
  shows "sort (mok_values (mk_rx_log c)) = [0, 1]"
proof -
  have "mk_taken c = mok_values (mk_rx_log c)"
    using mpsc_reachable_returns [OF assms(1)] assms(2,3) by (simp add: mpsc_returns_def)
  with mpsc_reachable_fifo [OF assms(1)] obtain rest where rest: "mk_claimed c = mok_values (mk_rx_log c) @ rest"
    by auto
  have "length (mk_claimed c) = 2" using arg_cong [OF assms(4), of size] by simp
  with rest assms(5) have "mset (mok_values (mk_rx_log c)) = mset [0, 1]" using assms(4) by simp
  then have "sort (mok_values (mk_rx_log c)) = sort [0, 1]" by (rule properties_for_sort [OF _ sorted_sort, symmetric, simplified])
  then show ?thesis by simp
qed

lemma loom_sharded_no_loss_no_early_disconnect:
  assumes "sharded_reachable 2 4 BusySpin s" "sc_pc s = SIdle" "\<forall>e. RetDrain e \<notin> set (sc_log s)"
    and "RetRecv (Err RecvDisconnected) \<in> set (sc_log s)"
    and "cc_published (sc_shards s ! 0) = [0 :: nat]" "cc_published (sc_shards s ! 1) = [1]"
  shows "mset (ok_values (sc_log s)) = {#0, 1#}"
  using sharded_delivers [OF assms(1-4)] assms(5,6) by (simp add: lessThan_nat_numeral lessThan_Suc)

lemma loom_sharded_staggered_drop:
  assumes "sharded_reachable 2 4 BusySpin s" "sc_pc s = SIdle" "\<forall>e. RetDrain e \<notin> set (sc_log s)"
    and "RetRecv (Err RecvDisconnected) \<in> set (sc_log s)"
    and "cc_published (sc_shards s ! 0) = []" "cc_published (sc_shards s ! 1) = [7 :: nat]"
  shows "ok_values (sc_log s) = [7]"
  using sharded_delivers [OF assms(1-4)] assms(5,6) by (simp add: lessThan_nat_numeral lessThan_Suc)

end
