(* ===== verification/Text_Input.thy ===== *)
theory Text_Input
  imports Prelude
begin

text \<open>
  What the example programs use of Rust's \<^verbatim>\<open>str\<close>: \<^verbatim>\<open>parse::<u64>\<close>, \<^verbatim>\<open>split_whitespace().next()\<close>, \<^verbatim>\<open>split(',')\<close> and
  \<^verbatim>\<open>trim\<close>, on strings of characters below 256. The lemmas are round trips with printing and joining.
\<close>

section \<open>Numbers\<close>

definition digit_value :: "char \<Rightarrow> nat option" where
  "digit_value c = (let n = of_char c in if 48 \<le> n \<and> n \<le> 57 then Some (n - 48) else None)"

text \<open>Digits from the left, with checked arithmetic: an overflow is an error.\<close>

fun parse_digits :: "usize \<Rightarrow> string \<Rightarrow> usize option" where
  "parse_digits acc [] = Some acc"
| "parse_digits acc (c # cs) =
     (case digit_value c of
        None \<Rightarrow> None
      | Some d \<Rightarrow>
          (if uint acc * 10 + int d < 18446744073709551616 then parse_digits (acc * 10 + of_nat d) cs else None))"

text \<open>\<^verbatim>\<open>u64::from_str\<close>: an optional plus sign, then one digit or more.\<close>

definition parse_u64 :: "string \<Rightarrow> usize option" where
  "parse_u64 s =
     (let ds = (case s of c # cs \<Rightarrow> if c = CHR ''+'' then cs else s | [] \<Rightarrow> s)
      in if ds = [] then None else parse_digits 0 ds)"

lemma parse_digits_append:
  "parse_digits acc (cs @ ds) = (case parse_digits acc cs of None \<Rightarrow> None | Some a \<Rightarrow> parse_digits a ds)"
  by (induction cs arbitrary: acc) (auto split: option.splits)

lemma digit_char: "n < 10 \<Longrightarrow> digit_value (''0123456789'' ! n) = Some n"
proof -
  assume "n < 10"
  then have "n \<in> {0, 1, 2, 3, 4, 5, 6, 7, 8, 9}" by auto
  then show ?thesis by (auto simp: digit_value_def)
qed

lemma fmt_digits_chars: "set (fmt_digits k x) \<subseteq> {c. digit_value c \<noteq> None}"
proof (induction k arbitrary: x)
  case (Suc k)
  have "unat (x mod 10) < 10" by (simp add: unat_mod)
  moreover have "x < 10 \<Longrightarrow> unat x < 10" by (simp add: word_less_nat_alt)
  ultimately show ?case using Suc.IH [of "x div 10"] digit_char by (auto split: if_splits)
qed simp

lemma fmt_digits_nonempty: "0 < k \<Longrightarrow> fmt_digits k x \<noteq> []"
  by (cases k) simp_all

text \<open>The last digit is appended to what the others parse to.\<close>

lemma parse_last_digit:
  assumes "a = x div 10"
  shows "parse_digits a [''0123456789'' ! unat (x mod 10)] = Some x"
proof -
  have "unat (x mod 10) < 10" by (simp add: unat_mod)
  moreover have e: "unat (x div 10) * 10 + unat (x mod 10) = unat x" by (simp add: unat_div unat_mod)
  then have "uint (x div 10) * 10 + int (unat (x mod 10)) = int (unat x)"
    by (metis (mono_tags, opaque_lifting) of_nat_add of_nat_mult of_nat_numeral uint_nat)
  moreover have "x div 10 * 10 + x mod 10 = x" by (rule div_mult_mod_eq)
  moreover have "uint x < 18446744073709551616" using unsigned_less [of x, where 'a = int] by simp
  ultimately show ?thesis using assms digit_char by simp
qed

lemma parse_fmt_digits:
  assumes "unat x < 10 ^ k" "0 < k"
  shows "parse_digits 0 (fmt_digits k x) = Some x"
  using assms
proof (induction k arbitrary: x)
  case (Suc k)
  show ?case
  proof (cases "x < 10")
    case True
    then have "x div 10 = 0" "x mod 10 = x" by (simp_all add: word_less_nat_alt word_unat_eq_iff unat_div unat_mod)
    with parse_last_digit [of 0 x] True show ?thesis by simp
  next
    case False
    then have "10 \<le> unat x" by (simp add: word_less_nat_alt)
    with Suc.prems have "0 < k" by (cases k) simp_all
    moreover have "unat (x div 10) < 10 ^ k" using Suc.prems by (simp add: unat_div)
    ultimately have "parse_digits 0 (fmt_digits k (x div 10)) = Some (x div 10)" by (rule Suc.IH [rotated])
    with parse_last_digit [of "x div 10" x] False show ?thesis by (simp add: parse_digits_append)
  qed
qed simp

lemma parse_fmt_usize: "parse_u64 (fmt_usize x) = Some x"
proof -
  have x: "unat x < 10 ^ 20" using usize_bound [of x] by simp
  obtain c cs where s: "fmt_digits 20 x = c # cs" using fmt_digits_nonempty [of 20 x] by (cases "fmt_digits 20 x") auto
  then have "c \<noteq> CHR ''+''" using fmt_digits_chars [of 20 x] by (auto simp: digit_value_def)
  with s parse_fmt_digits [OF x] show ?thesis by (simp add: parse_u64_def fmt_usize_def)
qed

section \<open>Words\<close>

definition is_whitespace :: "char \<Rightarrow> bool" where
  "is_whitespace c \<longleftrightarrow> (of_char c :: nat) \<in> {9, 10, 11, 12, 13, 32, 133, 160}"

definition first_word :: "string \<Rightarrow> string option" where
  "first_word s =
     (let w = takeWhile (\<lambda>c. \<not> is_whitespace c) (dropWhile is_whitespace s) in if w = [] then None else Some w)"

definition trim :: "string \<Rightarrow> string" where
  "trim s = rev (dropWhile is_whitespace (rev (dropWhile is_whitespace s)))"

fun split_on :: "char \<Rightarrow> string \<Rightarrow> string list" where
  "split_on d [] = [[]]"
| "split_on d (c # cs) =
     (if c = d then [] # split_on d cs
      else (case split_on d cs of w # ws \<Rightarrow> (c # w) # ws | [] \<Rightarrow> [[c]]))"

fun join_with :: "char \<Rightarrow> string list \<Rightarrow> string" where
  "join_with d [] = []"
| "join_with d [w] = w"
| "join_with d (w # ws) = w @ d # join_with d ws"

lemma first_word_found:
  assumes "list_all is_whitespace ws" "w \<noteq> []" "\<not> list_ex is_whitespace w" "rest = [] \<or> is_whitespace (hd rest)"
  shows "first_word (ws @ w @ rest) = Some w"
proof -
  have "dropWhile is_whitespace (ws @ w @ rest) = w @ rest"
    using assms(1-3) by (cases w) (auto simp: list_all_iff list_ex_iff dropWhile_append2)
  moreover have "takeWhile (\<lambda>c. \<not> is_whitespace c) (w @ rest) = w"
    using assms(3,4) by (cases rest) (auto simp: list_ex_iff takeWhile_append2)
  ultimately show ?thesis using assms(2) by (simp add: first_word_def)
qed

lemma fmt_usize_no_whitespace: "\<not> list_ex is_whitespace (fmt_usize x)"
proof -
  have "\<not> is_whitespace c" if "digit_value c \<noteq> None" for c
    using that by (auto simp: digit_value_def is_whitespace_def Let_def split: if_splits)
  then show ?thesis using fmt_digits_chars [of 20 x] by (auto simp: fmt_usize_def list_ex_iff)
qed

lemma split_on_word: "d \<notin> set w \<Longrightarrow> split_on d (w @ d # s) = w # split_on d s"
  by (induction w) auto

lemma split_on_end: "d \<notin> set w \<Longrightarrow> split_on d w = [w]"
  by (induction w) auto

lemma split_join:
  "ws \<noteq> [] \<Longrightarrow> list_all (\<lambda>w. d \<notin> set w) ws \<Longrightarrow> split_on d (join_with d ws) = ws"
  by (induction d ws rule: join_with.induct) (simp_all add: split_on_word split_on_end)

lemma trim_surrounded:
  assumes "list_all is_whitespace a" "list_all is_whitespace b" "\<not> list_ex is_whitespace w" "w \<noteq> []"
  shows "trim (a @ w @ b) = w"
proof -
  have "dropWhile is_whitespace (xs @ v @ ys) = v @ ys"
    if "list_all is_whitespace xs" "\<not> list_ex is_whitespace v" "v \<noteq> []" for xs v ys
    using that by (cases v) (auto simp: list_all_iff list_ex_iff dropWhile_append2)
  from this [of a w b] this [of "rev b" "rev w" "[]"] assms show ?thesis
    by (simp add: trim_def list_all_iff list_ex_iff)
qed

end
