(* ===== verification/Sort_By.thy ===== *)
theory Sort_By
  imports Prelude "HOL-Library.Multiset"
begin

text \<open>
  What the example programs use of \<^verbatim>\<open>slice::sort_by\<close> with a partial comparison that is unwrapped, and how many
  entries of a sorted list lie below and above a position.
\<close>

datatype rust_ordering = OLess | OEqual | OGreater

text \<open>
  \<^verbatim>\<open>sort_by(|a, b| \<dots>.partial_cmp(\<dots>).unwrap())\<close>: a stable sort, here by insertion from the right; a comparison
  that is undefined panics.
\<close>

fun insert_by :: "('a \<Rightarrow> 'a \<Rightarrow> rust_ordering option) \<Rightarrow> 'a \<Rightarrow> 'a list \<Rightarrow> 'a list outcome" where
  "insert_by cmp x [] = Inr [x]"
| "insert_by cmp x (y # ys) =
     (case cmp y x of
        None \<Rightarrow> Inl (Panic ''called `Option::unwrap()` on a `None` value'')
      | Some OLess \<Rightarrow> obind (insert_by cmp x ys) (\<lambda>zs. Inr (y # zs))
      | Some _ \<Rightarrow> Inr (x # y # ys))"

fun sort_by :: "('a \<Rightarrow> 'a \<Rightarrow> rust_ordering option) \<Rightarrow> 'a list \<Rightarrow> 'a list outcome" where
  "sort_by cmp [] = Inr []"
| "sort_by cmp (x # xs) = obind (sort_by cmp xs) (insert_by cmp x)"

definition ordering_of :: "'k :: linorder \<Rightarrow> 'k \<Rightarrow> rust_ordering" where
  "ordering_of a b = (if a < b then OLess else if a = b then OEqual else OGreater)"

text \<open>The comparison agrees with a linear order on the values at hand.\<close>

definition ranks :: "('a \<Rightarrow> 'k :: linorder) \<Rightarrow> ('a \<Rightarrow> 'a \<Rightarrow> rust_ordering option) \<Rightarrow> 'a set \<Rightarrow> bool" where
  "ranks rank cmp A \<longleftrightarrow> (\<forall>x \<in> A. \<forall>y \<in> A. cmp x y = Some (ordering_of (rank x) (rank y)))"

lemma ranks_subset: "ranks rank cmp A \<Longrightarrow> B \<subseteq> A \<Longrightarrow> ranks rank cmp B"
  by (auto simp: ranks_def)

lemma insert_by_sorts:
  assumes "ranks rank cmp (insert x (set ys))" "sorted (map rank ys)"
  shows "\<exists>zs. insert_by cmp x ys = Inr zs \<and> mset zs = add_mset x (mset ys) \<and> sorted (map rank zs)"
  using assms
proof (induction ys)
  case (Cons y ys)
  then have cmp: "cmp y x = Some (ordering_of (rank y) (rank x))" by (simp add: ranks_def)
  show ?case
  proof (cases "rank y < rank x")
    case True
    obtain zs where zs: "insert_by cmp x ys = Inr zs" "mset zs = add_mset x (mset ys)" "sorted (map rank zs)"
      using Cons.IH Cons.prems by (auto intro: ranks_subset)
    have "set zs = insert x (set ys)" using arg_cong [OF zs(2), of set_mset] by simp
    with True cmp zs Cons.prems show ?thesis by (auto simp: ordering_of_def)
  next
    case False
    with cmp Cons.prems show ?thesis by (auto simp: ordering_of_def intro: order_trans)
  qed
qed simp

lemma sort_by_sorts:
  assumes "ranks rank cmp (set xs)"
  shows "\<exists>zs. sort_by cmp xs = Inr zs \<and> mset zs = mset xs \<and> sorted (map rank zs)"
  using assms
proof (induction xs)
  case (Cons x xs)
  then obtain ys where ys: "sort_by cmp xs = Inr ys" "mset ys = mset xs" "sorted (map rank ys)"
    by (auto intro: ranks_subset)
  then have "set ys = set xs" by (metis set_mset_mset)
  with insert_by_sorts [of rank cmp x ys] ys Cons.prems show ?case by simp
qed simp

lemma length_filter_mset: "mset xs = mset ys \<Longrightarrow> length (filter P xs) = length (filter P ys)"
  by (metis mset_filter size_mset)

text \<open>In a sorted list at most \<open>i\<close> entries are below the \<open>i\<close>-th and at most \<open>n - 1 - i\<close> above it.\<close>

lemma sorted_nth_counts:
  assumes "sorted (map rank zs)" "i < length zs"
  shows "length (filter (\<lambda>z. rank z < rank (zs ! i)) zs) \<le> i"
    and "length (filter (\<lambda>z. rank (zs ! i) < rank z) zs) \<le> length zs - 1 - i"
proof -
  have le: "rank (zs ! a) \<le> rank (zs ! b)" if "a \<le> b" "b < length zs" for a b
    using assms(1) that sorted_nth_mono [of "map rank zs" a b] by simp
  have "{j. j < length zs \<and> rank (zs ! j) < rank (zs ! i)} \<subseteq> {..<i}"
    by (auto simp: not_le [symmetric] intro: le)
  from card_mono [OF _ this] show "length (filter (\<lambda>z. rank z < rank (zs ! i)) zs) \<le> i"
    by (simp add: length_filter_conv_card)
  have "{j. j < length zs \<and> rank (zs ! i) < rank (zs ! j)} \<subseteq> {i<..<length zs}"
    using assms(2) by (auto simp: not_le [symmetric] intro: le)
  from card_mono [OF _ this] show "length (filter (\<lambda>z. rank (zs ! i) < rank z) zs) \<le> length zs - 1 - i"
    by (simp add: length_filter_conv_card)
qed

end
