(* ===== verification/Handoff.thy ===== *)
theory Handoff
  imports Channel_Spec Step_Machine "HOL-Library.Multiset"
begin

text \<open>
  The workload of the measurement programs under \<^verbatim>\<open>examples/\<close> (\<^verbatim>\<open>measure_with\<close> and \<^verbatim>\<open>paced\<close> of \<^verbatim>\<open>cpu_cost.rs\<close>,
  \<^verbatim>\<open>measure\<close> of \<^verbatim>\<open>wake_latency.rs\<close>): producer threads that each send a fixed number of values through a channel and
  drop their handle, and a consumer that receives until it has them all. One step is one attempt
  (\<^verbatim>\<open>try_send\<close>, \<^verbatim>\<open>try_recv\<close>, or one round of the loop inside \<^verbatim>\<open>send\<close> and \<^verbatim>\<open>recv\<close>) or the end of a
  loop. The channel is a parameter; what the workload needs of it is the locale \<open>handoff_channel\<close>.
\<close>

section \<open>The machine\<close>

datatype producer_state = HSending usize | HLeaving | HGone

text \<open>\<open>ho_values\<close> lists what the consumer has received; \<open>ho_done\<close> says that it has left its loop.\<close>

record ('c, 'h, 'a) handoff =
  ho_chan :: 'c
  ho_producers :: "('h \<times> producer_state) list"
  ho_got :: usize
  ho_values :: "'a list"
  ho_done :: bool

definition handoff_start :: "'h list \<Rightarrow> 'c \<Rightarrow> ('c, 'h, 'a) handoff" where
  "handoff_start hs c =
     \<lparr>ho_chan = c, ho_producers = map (\<lambda>h. (h, HSending 0)) hs, ho_got = 0, ho_values = [], ho_done = False\<rparr>"

definition set_sender :: "nat \<Rightarrow> producer_state \<Rightarrow> 'c \<Rightarrow> ('c, 'h, 'a) handoff \<Rightarrow> ('c, 'h, 'a) handoff" where
  "set_sender k s c st =
     st\<lparr>ho_chan := c, ho_producers := (ho_producers st)[k := (fst (ho_producers st ! k), s)]\<rparr>"

text \<open>
  One attempt of the polling closures: \<open>None\<close> says that the closure tries again, \<open>Some True\<close> that it returns true.
\<close>

fun poll_send :: "(unit, 'a try_send_error) rust_result \<Rightarrow> bool option" where
  "poll_send (Ok _) = Some True"
| "poll_send (Err (Full _)) = None"
| "poll_send (Err (SendDisconnected _)) = Some False"

fun poll_recv :: "('a, try_recv_error) rust_result \<Rightarrow> bool option" where
  "poll_recv (Ok _) = Some True"
| "poll_recv (Err Empty) = None"
| "poll_recv (Err RecvDisconnected) = Some False"

fun ok_list :: "('a, 'e) rust_result \<Rightarrow> 'a list" where
  "ok_list (Ok v) = [v]"
| "ok_list (Err _) = []"

text \<open>
  Producer \<open>k\<close>: the loop over \<open>0 .. per\<close>, in which \<^verbatim>\<open>Full\<close> is tried again and \<^verbatim>\<open>Disconnected\<close> breaks, then the
  drop of the handle that its closure owns. \<open>n\<close> is the attempt's number of spurious exchange failures, \<open>val i\<close> the
  value sent in round \<open>i\<close>.
\<close>

definition producer_turn ::
    "('h \<times> nat \<Rightarrow> 'a \<Rightarrow> 'c \<Rightarrow> ((unit, 'a try_send_error) rust_result \<times> 'c) outcome) \<Rightarrow>
     ('h \<Rightarrow> 'c \<Rightarrow> ('a list \<times> 'c) outcome) \<Rightarrow> usize \<Rightarrow> (usize \<Rightarrow> 'a) \<Rightarrow> nat \<Rightarrow> nat \<Rightarrow>
     ('c, 'h, 'a) handoff \<Rightarrow> ('c, 'h, 'a) handoff outcome option" where
  "producer_turn ts dp per val k n st =
     (if k < length (ho_producers st) then
        (let (h, s) = ho_producers st ! k
         in case s of
              HSending i \<Rightarrow>
                (if i < per then
                   Some (obind (ts (h, n) (val i) (ho_chan st)) (\<lambda>(r, c).
                     Inr (set_sender k
                       (case poll_send r of
                          None \<Rightarrow> HSending i
                        | Some sent \<Rightarrow> (if sent then HSending (i + 1) else HLeaving)) c st)))
                 else Some (Inr (set_sender k HLeaving (ho_chan st) st)))
            | HLeaving \<Rightarrow> Some (obind (dp h (ho_chan st)) (\<lambda>(_, c). Inr (set_sender k HGone c st)))
            | HGone \<Rightarrow> None)
      else None)"

text \<open>The consumer: \<^verbatim>\<open>while got < target\<close>, in which \<^verbatim>\<open>Empty\<close> is tried again and \<^verbatim>\<open>Disconnected\<close> breaks.\<close>

definition consumer_turn ::
    "('c \<Rightarrow> (('a, try_recv_error) rust_result \<times> 'c) outcome) \<Rightarrow> usize \<Rightarrow>
     ('c, 'h, 'a) handoff \<Rightarrow> ('c, 'h, 'a) handoff outcome option" where
  "consumer_turn tr target st =
     (if ho_done st then None
      else if ho_got st < target then
        Some (obind (tr (ho_chan st)) (\<lambda>(r, c).
          Inr (case poll_recv r of
                 None \<Rightarrow> st\<lparr>ho_chan := c\<rparr>
               | Some got \<Rightarrow>
                   (if got then st\<lparr>ho_chan := c, ho_got := ho_got st + 1, ho_values := ho_values st @ ok_list r\<rparr>
                    else st\<lparr>ho_chan := c, ho_done := True\<rparr>))))
      else Some (Inr (st\<lparr>ho_done := True\<rparr>)))"

datatype handoff_action = ProducerTurn nat nat | ConsumerTurn

fun handoff_micro ::
    "('h \<times> nat \<Rightarrow> 'a \<Rightarrow> 'c \<Rightarrow> ((unit, 'a try_send_error) rust_result \<times> 'c) outcome) \<Rightarrow>
     ('c \<Rightarrow> (('a, try_recv_error) rust_result \<times> 'c) outcome) \<Rightarrow>
     ('h \<Rightarrow> 'c \<Rightarrow> ('a list \<times> 'c) outcome) \<Rightarrow> usize \<Rightarrow> (usize \<Rightarrow> 'a) \<Rightarrow> usize \<Rightarrow> handoff_action \<Rightarrow>
     ('c, 'h, 'a) handoff \<Rightarrow> ('c, 'h, 'a) handoff outcome option" where
  "handoff_micro ts tr dp per val target (ProducerTurn k n) st = producer_turn ts dp per val k n st"
| "handoff_micro ts tr dp per val target ConsumerTurn st = consumer_turn tr target st"

lemma handoff_micro_length:
  "handoff_micro ts tr dp per val target a st = Some (Inr st') \<Longrightarrow> length (ho_producers st') = length (ho_producers st)"
  by (cases a)
    (auto simp: producer_turn_def consumer_turn_def set_sender_def case_prod_unfold Let_def
      split: if_splits producer_state.splits option.splits)

definition handoff_over :: "('c, 'h, 'a) handoff \<Rightarrow> bool" where
  "handoff_over st \<longleftrightarrow> ho_done st \<and> list_all (\<lambda>p. snd p = HGone) (ho_producers st)"

section \<open>What was sent\<close>

fun rounds_done :: "usize \<Rightarrow> producer_state \<Rightarrow> nat" where
  "rounds_done per (HSending i) = unat i"
| "rounds_done per _ = unat per"

text \<open>The values of the first \<open>n\<close> rounds.\<close>

definition sent_values :: "(usize \<Rightarrow> 'a) \<Rightarrow> nat \<Rightarrow> 'a list" where
  "sent_values val n = map (\<lambda>i. val (of_nat i)) [0..<n]"

lemma sent_values_Suc: "sent_values val (Suc n) = sent_values val n @ [val (of_nat n)]"
  by (simp add: sent_values_def)

definition all_sent :: "usize \<Rightarrow> (usize \<Rightarrow> 'a) \<Rightarrow> ('h \<times> producer_state) list \<Rightarrow> 'a multiset" where
  "all_sent per val ps = sum_list (map (\<lambda>p. mset (sent_values val (rounds_done per (snd p)))) ps)"

lemma size_all_sent: "size (all_sent per val ps) = sum_list (map (\<lambda>p. rounds_done per (snd p)) ps)"
  by (induction ps) (simp_all add: all_sent_def sent_values_def)

text \<open>What the producers still have to send.\<close>

definition left_to_send :: "usize \<Rightarrow> ('h \<times> producer_state) list \<Rightarrow> nat" where
  "left_to_send per ps = sum_list (map (\<lambda>p. unat per - rounds_done per (snd p)) ps)"

definition rounds_ok_upto :: "usize \<Rightarrow> ('h \<times> producer_state) list \<Rightarrow> bool" where
  "rounds_ok_upto per ps \<longleftrightarrow> list_all (\<lambda>p. rounds_done per (snd p) \<le> unat per) ps"

lemma sent_plus_left:
  "rounds_ok_upto per ps \<Longrightarrow> size (all_sent per val ps) + left_to_send per ps = length ps * unat per"
  unfolding size_all_sent left_to_send_def rounds_ok_upto_def by (induction ps) simp_all


lemma all_sent_update:
  "k < length ps \<Longrightarrow> all_sent per val (ps[k := (h, s)]) + mset (sent_values val (rounds_done per (snd (ps ! k))))
     = all_sent per val ps + mset (sent_values val (rounds_done per s))"
  unfolding all_sent_def
  using sum_list_map_update [of k ps "\<lambda>p. mset (sent_values val (rounds_done per (snd p)))" "(h, s)"] by simp

lemma left_to_send_update:
  "k < length ps \<Longrightarrow> left_to_send per (ps[k := (h, s)]) + (unat per - rounds_done per (snd (ps ! k)))
     = left_to_send per ps + (unat per - rounds_done per s)"
  unfolding left_to_send_def
  using sum_list_map_update [of k ps "\<lambda>p. unat per - rounds_done per (snd p)" "(h, s)"] by simp

section \<open>What the workload needs of a channel\<close>

locale handoff_channel = bounded_channel invar abs live try_send try_recv drain
  for invar :: "'c \<Rightarrow> bool" and abs :: "'c \<Rightarrow> 'a bchan" and live :: "'h \<times> nat \<Rightarrow> 'c \<Rightarrow> bool"
    and try_send and try_recv and drain +
  fixes drop_tx :: "'h \<Rightarrow> 'c \<Rightarrow> ('a list \<times> 'c) outcome"
  assumes drop_refines: "\<lbrakk>invar c; \<And>n. live (h, n) c; bc_rx_live (abs c)\<rbrakk> \<Longrightarrow>
      \<exists>vs c'. drop_tx h c = Inr (vs, c') \<and> invar c' \<and> abs c' = (abs c)\<lparr>bc_senders := bc_senders (abs c) - 1\<rparr>
        \<and> (\<forall>g n. g \<noteq> h \<longrightarrow> live (g, n) c' = live (g, n) c)"
begin

abbreviation handoff_step ::
    "usize \<Rightarrow> (usize \<Rightarrow> 'a) \<Rightarrow> usize \<Rightarrow> handoff_action \<Rightarrow> ('c, 'h, 'a) handoff \<Rightarrow> ('c, 'h, 'a) handoff outcome option" where
  "handoff_step \<equiv> handoff_micro try_send try_recv drop_tx"

text \<open>The channel's part of the invariant, for a given list of producers.\<close>

definition chan_part :: "usize \<Rightarrow> (usize \<Rightarrow> 'a) \<Rightarrow> 'a list \<Rightarrow> 'c \<Rightarrow> ('h \<times> producer_state) list \<Rightarrow> bool" where
  "chan_part per val got c ps \<longleftrightarrow>
     invar c \<and> bc_rx_live (abs c) \<and> distinct (map fst ps) \<and>
     (\<forall>k < length ps. snd (ps ! k) \<noteq> HGone \<longrightarrow> (\<forall>n. live (fst (ps ! k), n) c)) \<and>
     bc_senders (abs c) = length (filter (\<lambda>p. snd p \<noteq> HGone) ps) \<and>
     rounds_ok_upto per ps \<and>
     mset got + mset (bc_queue (abs c)) = all_sent per val ps \<and>
     (\<forall>q. bc_quota (abs c) = Some q \<longrightarrow> left_to_send per ps \<le> q)"

definition handoff_inv :: "usize \<Rightarrow> (usize \<Rightarrow> 'a) \<Rightarrow> usize \<Rightarrow> ('c, 'h, 'a) handoff \<Rightarrow> bool" where
  "handoff_inv per val target st \<longleftrightarrow>
     chan_part per val (ho_values st) (ho_chan st) (ho_producers st) \<and>
     unat (ho_got st) = length (ho_values st) \<and> (ho_done st \<longrightarrow> ho_got st = target) \<and>
     unat target = length (ho_producers st) * unat per"

lemma chan_part_update:
  assumes inv: "chan_part per val got c ps" and k: "k < length ps" and s: "rounds_done per s \<le> unat per"
    and c': "invar c'" "bc_rx_live (abs c')" "\<And>g n. g \<noteq> fst (ps ! k) \<Longrightarrow> live (g, n) c \<Longrightarrow> live (g, n) c'"
      "\<And>n. s \<noteq> HGone \<Longrightarrow> live (fst (ps ! k), n) c'"
      "bc_senders (abs c') = length (filter (\<lambda>p. snd p \<noteq> HGone) (ps[k := (fst (ps ! k), s)]))"
    and moved: "mset (bc_queue (abs c')) + mset (sent_values val (rounds_done per (snd (ps ! k))))
      = mset (bc_queue (abs c)) + mset (sent_values val (rounds_done per s))"
    and quota: "\<And>q. bc_quota (abs c') = Some q \<Longrightarrow> left_to_send per (ps[k := (fst (ps ! k), s)]) \<le> q"
  shows "chan_part per val got c' (ps[k := (fst (ps ! k), s)])"
proof -
  let ?ps = "ps[k := (fst (ps ! k), s)]"
  have fst: "map fst ?ps = map fst ps" using k by (simp add: map_update list_update_same_conv)
  then have d: "distinct (map fst ?ps)" using inv by (simp add: chan_part_def)
  have live: "live (fst (?ps ! j), n) c'" if j: "j < length ?ps" "snd (?ps ! j) \<noteq> HGone" for j n
  proof (cases "j = k")
    case True
    with j c'(4) k show ?thesis by simp
  next
    case False
    have "fst (ps ! j) \<noteq> fst (ps ! k)"
      using inv k j False by (metis (no_types) chan_part_def length_list_update length_map nth_eq_iff_index_eq nth_map)
    with False j inv c'(3) show ?thesis by (simp add: chan_part_def)
  qed
  have "mset got + mset (bc_queue (abs c')) + mset (sent_values val (rounds_done per (snd (ps ! k))))
      = all_sent per val ps + mset (sent_values val (rounds_done per s))"
    using moved inv by (simp add: chan_part_def add.assoc)
  then have m: "mset got + mset (bc_queue (abs c')) = all_sent per val ?ps"
    using all_sent_update [OF k, of per val "fst (ps ! k)" s] by (metis add_right_cancel)
  have "rounds_ok_upto per ?ps"
    using inv s k unfolding chan_part_def rounds_ok_upto_def
    by (auto simp: list_all_length nth_list_update)
  with d live m c' quota show ?thesis unfolding chan_part_def by blast
qed

lemma producer_send_keeps:
  assumes inv: "chan_part per val got c ps" and k: "k < length ps" and s: "snd (ps ! k) = HSending i" and i: "i < per"
  shows "\<exists>c'. try_send (fst (ps ! k), n) (val i) c = Inr (fst (spec_try_send (val i) (abs c)), c')
     \<and> chan_part per val got c' (ps[k := (fst (ps ! k),
         case poll_send (fst (spec_try_send (val i) (abs c))) of
           None \<Rightarrow> HSending i | Some sent \<Rightarrow> (if sent then HSending (i + 1) else HLeaving))])
     \<and> abs c' = snd (spec_try_send (val i) (abs c))"
proof -
  have live: "live (fst (ps ! k), m) c" for m using inv k s by (auto simp: chan_part_def)
  have rx: "invar c" "bc_rx_live (abs c)" using inv by (simp_all add: chan_part_def)
  from send_refines [OF rx(1) live] obtain c' where
    c': "try_send (fst (ps ! k), n) (val i) c = Inr (fst (spec_try_send (val i) (abs c)), c')" "invar c'"
    "abs c' = snd (spec_try_send (val i) (abs c))" "\<forall>q. live q c' = live q c"
    by blast
  have one: "unat (i + 1) = Suc (unat i)" using i by (simp add: unat_less_suc)
  have senders: "length (filter (\<lambda>p. snd p \<noteq> HGone) (ps[k := (fst (ps ! k), HSending j)])) = bc_senders (abs c)" for j
    using inv k s by (simp add: chan_part_def filter_update_same)
  have iper: "unat i < unat per" using i by (simp add: word_less_nat_alt)
  let ?full = "length (bc_queue (abs c)) = bc_cap (abs c) \<or> bc_quota (abs c) = Some 0"
  show ?thesis
  proof (cases ?full)
    case True
    then have e: "spec_try_send (val i) (abs c) = (Err (Full (val i)), abs c)" using rx by (simp add: spec_try_send_def)
    have "chan_part per val got c' (ps[k := (fst (ps ! k), HSending i)])"
      by (rule chan_part_update [OF inv k])
        (use c' e rx iper senders live s k inv left_to_send_update [OF k, of per "fst (ps ! k)" "HSending i"] in
          \<open>auto simp: chan_part_def\<close>)
    with c' e show ?thesis by simp
  next
    case False
    then have e: "spec_try_send (val i) (abs c) =
        (Ok (), (abs c)\<lparr>bc_queue := bc_queue (abs c) @ [val i], bc_quota := map_option (\<lambda>n. n - 1) (bc_quota (abs c))\<rparr>)"
      using rx by (simp add: spec_try_send_def)
    have left: "Suc (left_to_send per (ps[k := (fst (ps ! k), HSending (i + 1))])) = left_to_send per ps"
      using left_to_send_update [OF k, of per "fst (ps ! k)" "HSending (i + 1)"] s one iper by simp
    have "chan_part per val got c' (ps[k := (fst (ps ! k), HSending (i + 1))])"
    proof (rule chan_part_update [OF inv k])
      show "mset (bc_queue (abs c')) + mset (sent_values val (rounds_done per (snd (ps ! k))))
          = mset (bc_queue (abs c)) + mset (sent_values val (rounds_done per (HSending (i + 1))))"
        using c' e s one by (simp add: sent_values_Suc)
      show "left_to_send per (ps[k := (fst (ps ! k), HSending (i + 1))]) \<le> q" if "bc_quota (abs c') = Some q" for q
        using that c' e left inv by (auto simp: chan_part_def)
    qed (use c' e rx iper senders live one in auto)
    with c' e show ?thesis by simp
  qed
qed

lemma producer_leave_keeps:
  assumes inv: "chan_part per val got c ps" and k: "k < length ps" and s: "snd (ps ! k) = HSending i" and i: "\<not> i < per"
  shows "chan_part per val got c (ps[k := (fst (ps ! k), HLeaving)])"
proof -
  have "unat i \<le> unat per" using inv k s by (auto simp: chan_part_def rounds_ok_upto_def list_all_length)
  then have e: "i = per" using i by (simp add: word_less_nat_alt word_unat_eq_iff)
  then have "left_to_send per (ps[k := (fst (ps ! k), HLeaving)]) = left_to_send per ps"
    using left_to_send_update [OF k, of per "fst (ps ! k)" HLeaving] s by simp
  with e show ?thesis
    by (intro chan_part_update [OF inv k]) (use inv k s in \<open>auto simp: chan_part_def filter_update_same\<close>)
qed

lemma producer_drop_keeps:
  assumes inv: "chan_part per val got c ps" and k: "k < length ps" and s: "snd (ps ! k) = HLeaving"
  shows "\<exists>vs c'. drop_tx (fst (ps ! k)) c = Inr (vs, c') \<and> chan_part per val got c' (ps[k := (fst (ps ! k), HGone)])
     \<and> bc_queue (abs c') = bc_queue (abs c)"
proof -
  have rx: "invar c" "bc_rx_live (abs c)" "\<And>n. live (fst (ps ! k), n) c" using inv k s by (auto simp: chan_part_def)
  from drop_refines [OF rx(1) rx(3,2)] obtain vs c' where
    c': "drop_tx (fst (ps ! k)) c = Inr (vs, c')" "invar c'" "abs c' = (abs c)\<lparr>bc_senders := bc_senders (abs c) - 1\<rparr>"
    "\<forall>g n. g \<noteq> fst (ps ! k) \<longrightarrow> live (g, n) c' = live (g, n) c"
    by blast
  have "Suc (length (filter (\<lambda>p. snd p \<noteq> HGone) (ps[k := (fst (ps ! k), HGone)]))) = length (filter (\<lambda>p. snd p \<noteq> HGone) ps)"
    by (rule filter_update_drop) (use k s in simp_all)
  moreover have "left_to_send per (ps[k := (fst (ps ! k), HGone)]) = left_to_send per ps"
    using left_to_send_update [OF k, of per "fst (ps ! k)" HGone] s by simp
  ultimately have "chan_part per val got c' (ps[k := (fst (ps ! k), HGone)])"
    by (intro chan_part_update [OF inv k]) (use inv c' rx s in \<open>auto simp: chan_part_def\<close>)
  with c' show ?thesis by (intro exI [of _ vs] exI [of _ c']) simp
qed

text \<open>A receive takes the queue's first value; on an empty queue whose senders are gone it reports \<^verbatim>\<open>Disconnected\<close>.\<close>

lemma consumer_recv_keeps:
  assumes inv: "chan_part per val got c ps"
  shows "\<exists>c'. try_recv c = Inr (fst (spec_try_recv (abs c)), c')
     \<and> (case bc_queue (abs c) of
          [] \<Rightarrow> chan_part per val got c' ps
        | v # q \<Rightarrow> chan_part per val (got @ [v]) c' ps \<and> bc_queue (abs c') = q)
     \<and> abs c' = snd (spec_try_recv (abs c))"
proof -
  from inv have "invar c" "bc_rx_live (abs c)" by (simp_all add: chan_part_def)
  from recv_refines [OF this] obtain c' where
    c': "try_recv c = Inr (fst (spec_try_recv (abs c)), c')" "invar c'" "abs c' = snd (spec_try_recv (abs c))"
    "\<forall>q. live q c' = live q c"
    by blast
  then have "case bc_queue (abs c) of
      [] \<Rightarrow> chan_part per val got c' ps
    | v # q \<Rightarrow> chan_part per val (got @ [v]) c' ps \<and> bc_queue (abs c') = q"
    using inv by (cases "bc_queue (abs c)") (simp_all add: chan_part_def spec_try_recv_def)
  with c'(1,3) show ?thesis by blast
qed

lemma chan_part_counts:
  assumes "chan_part per val got c ps"
  shows "length got + length (bc_queue (abs c)) + left_to_send per ps = length ps * unat per"
proof -
  have "mset got + mset (bc_queue (abs c)) = all_sent per val ps" "rounds_ok_upto per ps"
    using assms by (simp_all add: chan_part_def)
  from arg_cong [OF this(1), of size] sent_plus_left [OF this(2), of val] show ?thesis by simp
qed

text \<open>All producers gone: everything has been sent.\<close>

lemma gone_left_nothing:
  assumes "list_all (\<lambda>p. snd p = HGone) ps"
  shows "left_to_send per ps = 0"
  using assms unfolding left_to_send_def by (induction ps) simp_all

lemma chan_part_senders:
  assumes "chan_part per val got c ps" "bc_senders (abs c) = 0"
  shows "left_to_send per ps = 0"
proof -
  have "list_all (\<lambda>p. snd p = HGone) ps" using assms by (simp add: chan_part_def filter_empty_conv list_all_iff)
  then show ?thesis by (rule gone_left_nothing)
qed

lemma consumer_turn_keeps:
  assumes inv: "handoff_inv per val target st" and step: "consumer_turn try_recv target st = Some r"
  shows "\<exists>st'. r = Inr st' \<and> handoff_inv per val target st'"
proof (cases "ho_got st < target")
  case False
  have "unat (ho_got st) \<le> unat target"
    using inv chan_part_counts [of per val "ho_values st" "ho_chan st" "ho_producers st"] by (simp add: handoff_inv_def)
  with False have "ho_got st = target" by (simp add: word_less_nat_alt word_unat_eq_iff)
  with inv step False show ?thesis by (auto simp: consumer_turn_def handoff_inv_def split: if_splits)
next
  case True
  have part: "chan_part per val (ho_values st) (ho_chan st) (ho_producers st)" using inv by (simp add: handoff_inv_def)
  from consumer_recv_keeps [OF part] obtain c' where
    c': "try_recv (ho_chan st) = Inr (fst (spec_try_recv (abs (ho_chan st))), c')"
    "case bc_queue (abs (ho_chan st)) of
       [] \<Rightarrow> chan_part per val (ho_values st) c' (ho_producers st)
     | v # q \<Rightarrow> chan_part per val (ho_values st @ [v]) c' (ho_producers st) \<and> bc_queue (abs c') = q"
    by blast
  have more: "unat (ho_got st + 1) = Suc (length (ho_values st))"
    using unat_less_suc [OF True] inv by (simp add: handoff_inv_def)
  have waits: "bc_senders (abs (ho_chan st)) \<noteq> 0" if "bc_queue (abs (ho_chan st)) = []"
  proof
    assume "bc_senders (abs (ho_chan st)) = 0"
    with chan_part_counts [OF part] chan_part_senders [OF part] that inv have "unat (ho_got st) = unat target"
      by (simp add: handoff_inv_def)
    with True show False by (simp add: word_less_nat_alt)
  qed
  from inv step True c' more waits show ?thesis
    by (cases "bc_queue (abs (ho_chan st))")
      (auto simp: consumer_turn_def handoff_inv_def spec_try_recv_def split: if_splits)
qed

lemma producer_turn_keeps:
  assumes inv: "handoff_inv per val target st" and step: "producer_turn try_send drop_tx per val k n st = Some r"
  shows "\<exists>st'. r = Inr st' \<and> handoff_inv per val target st'"
proof -
  let ?ps = "ho_producers st"
  have part: "chan_part per val (ho_values st) (ho_chan st) ?ps" using inv by (simp add: handoff_inv_def)
  have k: "k < length ?ps" using step by (auto simp: producer_turn_def split: if_splits)
  have upd: "handoff_inv per val target (set_sender k s c st)"
    if "chan_part per val (ho_values st) c (?ps[k := (fst (?ps ! k), s)])" for s c
    using that inv by (simp add: handoff_inv_def set_sender_def)
  show ?thesis
  proof (cases "snd (?ps ! k)")
    case (HSending i)
    show ?thesis
    proof (cases "i < per")
      case True
      from producer_send_keeps [OF part k HSending True, of n] obtain c' where
        "try_send (fst (?ps ! k), n) (val i) (ho_chan st) = Inr (fst (spec_try_send (val i) (abs (ho_chan st))), c')"
        "chan_part per val (ho_values st) c' (?ps[k := (fst (?ps ! k),
         case poll_send (fst (spec_try_send (val i) (abs (ho_chan st)))) of
           None \<Rightarrow> HSending i | Some sent \<Rightarrow> (if sent then HSending (i + 1) else HLeaving))])"
        by blast
      with step k HSending True upd show ?thesis
        by (auto simp: producer_turn_def case_prod_unfold Let_def)
    next
      case False
      with step k HSending upd [OF producer_leave_keeps [OF part k HSending False]] show ?thesis
        by (auto simp: producer_turn_def case_prod_unfold Let_def)
    qed
  next
    case HLeaving
    from producer_drop_keeps [OF part k HLeaving] step k HLeaving upd show ?thesis
      by (auto simp: producer_turn_def case_prod_unfold Let_def)
  next
    case HGone
    with step k show ?thesis by (simp add: producer_turn_def case_prod_unfold Let_def)
  qed
qed

lemma handoff_step_keeps:
  "handoff_inv per val target st \<Longrightarrow> handoff_step per val target a st = Some r \<Longrightarrow>
     \<exists>st'. r = Inr st' \<and> handoff_inv per val target st'"
  using producer_turn_keeps consumer_turn_keeps by (cases a) simp_all

lemma handoff_run_keeps:
  assumes "handoff_inv per val target st" "run_steps (handoff_step per val target) as st = Some r"
  shows "\<exists>st'. r = Inr st' \<and> handoff_inv per val target st' \<and> length (ho_producers st') = length (ho_producers st)"
  using assms
proof (induction as arbitrary: st)
  case (Cons a as)
  from Cons.prems(2) obtain r1 where r1: "handoff_step per val target a st = Some r1"
    by (cases "handoff_step per val target a st") simp_all
  from handoff_step_keeps [OF Cons.prems(1) this] obtain st1 where st1: "r1 = Inr st1" "handoff_inv per val target st1" by blast
  have "length (ho_producers st1) = length (ho_producers st)"
    using handoff_micro_length r1 st1(1) by blast
  with Cons.IH [OF st1(2)] Cons.prems(2) r1 st1(1) show ?case by simp
qed auto

section \<open>The workload ends\<close>

text \<open>
  A measure of the remaining work: rounds to send, values to receive, loops to leave and handles to drop.
\<close>

definition sender_work :: "usize \<Rightarrow> 'h \<times> producer_state \<Rightarrow> nat" where
  "sender_work per p = (case snd p of HSending i \<Rightarrow> 2 + (unat per - unat i) | HLeaving \<Rightarrow> 1 | HGone \<Rightarrow> 0)"

definition handoff_work :: "usize \<Rightarrow> usize \<Rightarrow> ('c, 'h, 'a) handoff \<Rightarrow> nat" where
  "handoff_work per target st =
     (if ho_done st then 0 else Suc (unat target - unat (ho_got st))) + sum_list (map (sender_work per) (ho_producers st))"

lemma set_sender_work:
  assumes k: "k < length (ho_producers st)" and s: "sender_work per (h, s) < sender_work per (ho_producers st ! k)"
  shows "handoff_work per target (set_sender k s c st) < handoff_work per target st"
proof -
  have "sender_work per (fst (ho_producers st ! k), s) = sender_work per (h, s)" by (simp add: sender_work_def)
  with sum_list_map_update [OF k, of "sender_work per" "(fst (ho_producers st ! k), s)"] s
  show ?thesis by (simp add: handoff_work_def set_sender_def)
qed

lemma handoff_start_work: "handoff_work per target (handoff_start hs c) = Suc (unat target) + length hs * (2 + unat per)"
  by (simp add: handoff_work_def handoff_start_def sender_work_def comp_def sum_list_triv)

lemma left_to_send_ge: "k < length ps \<Longrightarrow> unat per - rounds_done per (snd (ps ! k)) \<le> left_to_send per ps"
  unfolding left_to_send_def by (rule member_le_sum_list) auto

text \<open>A sender with rounds left has a turn that sends, when the queue is empty.\<close>

lemma producer_turn_sends:
  assumes inv: "handoff_inv per val target st" and k: "k < length (ho_producers st)"
    and s: "snd (ho_producers st ! k) = HSending i" "i < per" and e: "bc_queue (abs (ho_chan st)) = []"
  shows "\<exists>c. producer_turn try_send drop_tx per val k 0 st = Some (Inr (set_sender k (HSending (i + 1)) c st))"
proof -
  let ?ps = "ho_producers st"
  have part: "chan_part per val (ho_values st) (ho_chan st) ?ps" using inv by (simp add: handoff_inv_def)
  have "0 < bc_cap (abs (ho_chan st))" using part abs_ok by (auto simp: chan_part_def bchan_ok_def)
  moreover have "0 < left_to_send per ?ps" using left_to_send_ge [OF k, of per] s by (simp add: word_less_nat_alt)
  ultimately have "fst (spec_try_send (val i) (abs (ho_chan st))) = Ok ()"
    using part e by (auto simp: spec_try_send_def chan_part_def)
  with producer_send_keeps [OF part k s, of 0] k s show ?thesis
    by (auto simp: producer_turn_def case_prod_unfold Let_def)
qed

lemma some_sender_left:
  assumes "0 < left_to_send per ps"
  obtains k i where "k < length ps" "snd (ps ! k) = HSending i" "i < per"
proof -
  have "\<not> list_all (\<lambda>p. unat per \<le> rounds_done per (snd p)) ps"
  proof
    assume "list_all (\<lambda>p. unat per \<le> rounds_done per (snd p)) ps"
    then have "left_to_send per ps = 0" unfolding left_to_send_def by (induction ps) simp_all
    with assms show False by simp
  qed
  then obtain k where k: "k < length ps" "rounds_done per (snd (ps ! k)) < unat per"
    by (auto simp: list_all_length)
  then show thesis by (cases "snd (ps ! k)") (auto intro: that simp: word_less_nat_alt)
qed

text \<open>Who can go on while the workload is not over.\<close>

lemma handoff_cases:
  assumes inv: "handoff_inv per val target st" and go: "\<not> handoff_over st"
  obtains (leaving) k where "k < length (ho_producers st)" "snd (ho_producers st ! k) = HLeaving"
    | (over) k i where "k < length (ho_producers st)" "snd (ho_producers st ! k) = HSending i" "\<not> i < per"
    | (finish) "\<not> ho_done st" "\<not> ho_got st < target"
    | (recv) v q where "\<not> ho_done st" "ho_got st < target" "bc_queue (abs (ho_chan st)) = v # q"
    | (send) k i where "bc_queue (abs (ho_chan st)) = []" "k < length (ho_producers st)"
        "snd (ho_producers st ! k) = HSending i" "i < per"
proof -
  let ?ps = "ho_producers st" and ?q = "bc_queue (abs (ho_chan st))"
  have "chan_part per val (ho_values st) (ho_chan st) ?ps" "unat (ho_got st) = length (ho_values st)"
    "unat target = length ?ps * unat per" "ho_done st \<longrightarrow> ho_got st = target"
    using inv by (simp_all add: handoff_inv_def)
  with chan_part_counts [OF this(1)]
  have counts: "unat (ho_got st) + length ?q + left_to_send per ?ps = unat target" "ho_done st \<longrightarrow> ho_got st = target" by simp_all
  consider "\<not> ho_done st" "\<not> ho_got st < target" | v q where "\<not> ho_done st" "ho_got st < target" "?q = v # q"
    | "?q = []" "0 < left_to_send per ?ps" | "ho_done st" "left_to_send per ?ps = 0"
    using counts by (cases ?q; cases "ho_done st"; cases "left_to_send per ?ps") (auto simp: word_less_nat_alt)
  then show thesis
  proof cases
    case 3
    with some_sender_left [OF 3(2)] send show thesis by metis
  next
    case 4
    with go obtain k where k: "k < length ?ps" "snd (?ps ! k) \<noteq> HGone" by (auto simp: handoff_over_def list_all_length)
    with left_to_send_ge [OF k(1), of per] 4 leaving over show thesis
      by (cases "snd (?ps ! k)") (auto simp: word_less_nat_alt)
  qed (use finish recv in blast)+
qed

lemma handoff_progress:
  assumes inv: "handoff_inv per val target st" and go: "\<not> handoff_over st"
  shows "\<exists>a st'. handoff_step per val target a st = Some (Inr st') \<and> handoff_work per target st' < handoff_work per target st"
proof -
  let ?ps = "ho_producers st"
  have part: "chan_part per val (ho_values st) (ho_chan st) ?ps" using inv by (simp add: handoff_inv_def)
  from inv go show ?thesis
  proof (cases rule: handoff_cases)
    case (leaving k)
    from producer_drop_keeps [OF part leaving] obtain vs c' where "drop_tx (fst (?ps ! k)) (ho_chan st) = Inr (vs, c')" by blast
    then have "handoff_step per val target (ProducerTurn k 0) st = Some (Inr (set_sender k HGone c' st))"
      using leaving by (simp add: producer_turn_def case_prod_unfold Let_def)
    moreover have "handoff_work per target (set_sender k HGone c' st) < handoff_work per target st"
      using leaving by (intro set_sender_work) (simp_all add: sender_work_def)
    ultimately show ?thesis by blast
  next
    case (over k i)
    then have "handoff_step per val target (ProducerTurn k 0) st = Some (Inr (set_sender k HLeaving (ho_chan st) st))"
      by (simp add: producer_turn_def case_prod_unfold Let_def)
    moreover have "handoff_work per target (set_sender k HLeaving (ho_chan st) st) < handoff_work per target st"
      using over by (intro set_sender_work) (simp_all add: sender_work_def)
    ultimately show ?thesis by blast
  next
    case finish
    then show ?thesis by (intro exI [of _ ConsumerTurn]) (simp add: consumer_turn_def handoff_work_def)
  next
    case (recv v q)
    from consumer_recv_keeps [OF part] recv show ?thesis
      by (intro exI [of _ ConsumerTurn])
        (auto simp: consumer_turn_def handoff_work_def spec_try_recv_def unat_less_suc word_less_nat_alt)
  next
    case (send k i)
    from producer_turn_sends [OF inv send(2-4,1)] obtain c where
      "handoff_step per val target (ProducerTurn k 0) st = Some (Inr (set_sender k (HSending (i + 1)) c st))" by auto
    moreover have "handoff_work per target (set_sender k (HSending (i + 1)) c st) < handoff_work per target st"
      using send by (intro set_sender_work) (simp_all add: sender_work_def unat_less_suc word_less_nat_alt)
    ultimately show ?thesis by blast
  qed
qed

lemma handoff_finishes:
  assumes "handoff_inv per val target st"
  shows "\<exists>as st'. length as \<le> handoff_work per target st \<and> run_steps (handoff_step per val target) as st = Some (Inr st')
     \<and> handoff_over st' \<and> handoff_inv per val target st'"
  using assms
proof (induction "handoff_work per target st" arbitrary: st rule: less_induct)
  case less
  show ?case
  proof (cases "handoff_over st")
    case True
    with less.prems show ?thesis by (intro exI [of _ "[]"] exI [of _ st]) simp
  next
    case False
    from handoff_progress [OF less.prems this] obtain a st1 where
      s: "handoff_step per val target a st = Some (Inr st1)" "handoff_work per target st1 < handoff_work per target st"
      by blast
    from handoff_step_keeps [OF less.prems s(1)] have "handoff_inv per val target st1" by auto
    from less.hyps [OF s(2) this] obtain as st' where
      "length as \<le> handoff_work per target st1" "run_steps (handoff_step per val target) as st1 = Some (Inr st')"
      "handoff_over st'" "handoff_inv per val target st'"
      by blast
    with s show ?thesis by (intro exI [of _ "a # as"] exI [of _ st']) simp
  qed
qed

text \<open>When the consumer has left its loop it has every value of every producer.\<close>

lemma handoff_complete:
  assumes "handoff_inv per val target st" "ho_done st"
  shows "ho_got st = target" "mset (ho_values st) = all_sent per val (ho_producers st)" "bc_queue (abs (ho_chan st)) = []"
    "left_to_send per (ho_producers st) = 0"
proof -
  have part: "chan_part per val (ho_values st) (ho_chan st) (ho_producers st)" and "ho_got st = target"
    "unat (ho_got st) = length (ho_values st)" "unat target = length (ho_producers st) * unat per"
    using assms by (auto simp: handoff_inv_def)
  with chan_part_counts [OF part]
  show "ho_got st = target" "bc_queue (abs (ho_chan st)) = []" "left_to_send per (ho_producers st) = 0" by simp_all
  then show "mset (ho_values st) = all_sent per val (ho_producers st)" using part by (simp add: chan_part_def)
qed

lemma handoff_start_inv:
  assumes "invar c" "bc_rx_live (abs c)" "bc_queue (abs c) = []" "distinct hs" "\<And>h n. h \<in> set hs \<Longrightarrow> live (h, n) c"
    and "bc_senders (abs c) = length hs" "unat target = length hs * unat per"
    and "\<And>q. bc_quota (abs c) = Some q \<Longrightarrow> length hs * unat per \<le> q"
  shows "handoff_inv per val target (handoff_start hs c)"
proof -
  let ?ps = "map (\<lambda>h. (h, HSending 0)) hs"
  have "rounds_ok_upto per ?ps" by (simp add: rounds_ok_upto_def list_all_iff)
  moreover have "all_sent per val ?ps = {#}" by (simp add: all_sent_def sent_values_def comp_def)
  moreover have "left_to_send per ?ps = length hs * unat per" by (simp add: left_to_send_def comp_def sum_list_triv)
  ultimately show ?thesis
    using assms by (simp add: handoff_inv_def handoff_start_def chan_part_def comp_def)
qed

section \<open>A single producer\<close>

text \<open>With one producer the values arrive in the order in which they were sent.\<close>

definition single_fifo :: "usize \<Rightarrow> (usize \<Rightarrow> 'a) \<Rightarrow> ('c, 'h, 'a) handoff \<Rightarrow> bool" where
  "single_fifo per val st \<longleftrightarrow>
     (\<exists>h s. ho_producers st = [(h, s)] \<and> ho_values st @ bc_queue (abs (ho_chan st)) = sent_values val (rounds_done per s))"

lemma single_producer_turn:
  assumes inv: "handoff_inv per val target st" and one: "single_fifo per val st"
    and step: "producer_turn try_send drop_tx per val k n st = Some (Inr st')"
  shows "single_fifo per val st'"
proof -
  obtain h s where ps: "ho_producers st = [(h, s)]"
    and q: "ho_values st @ bc_queue (abs (ho_chan st)) = sent_values val (rounds_done per s)"
    using one by (auto simp: single_fifo_def)
  have part: "chan_part per val (ho_values st) (ho_chan st) [(h, s)]" using inv by (simp add: handoff_inv_def ps)
  have k: "k = 0" "0 < length [(h, s)]" using step ps by (auto simp: producer_turn_def split: if_splits)
  show ?thesis
  proof (cases s)
    case (HSending i)
    show ?thesis
    proof (cases "i < per")
      case True
      have rx: "bc_rx_live (abs (ho_chan st))" using part by (simp add: chan_part_def)
      have one: "unat (i + 1) = Suc (unat i)" using True by (simp add: unat_less_suc)
      from producer_send_keeps [OF part k(2), of i n] HSending True obtain c' where
        "try_send (h, n) (val i) (ho_chan st) = Inr (fst (spec_try_send (val i) (abs (ho_chan st))), c')"
        "abs c' = snd (spec_try_send (val i) (abs (ho_chan st)))"
        by auto
      with step k(1) ps HSending True rx q one show ?thesis
        by (auto simp: producer_turn_def set_sender_def single_fifo_def spec_try_send_def sent_values_Suc split: if_splits)
    next
      case False
      have "unat i \<le> unat per" using part HSending by (simp add: chan_part_def rounds_ok_upto_def)
      with False have "i = per" by (simp add: word_less_nat_alt word_unat_eq_iff)
      with step k(1) ps HSending q show ?thesis by (auto simp: producer_turn_def set_sender_def single_fifo_def)
    qed
  next
    case HLeaving
    from producer_drop_keeps [OF part k(2)] HLeaving obtain vs c' where
      "drop_tx h (ho_chan st) = Inr (vs, c')" "bc_queue (abs c') = bc_queue (abs (ho_chan st))" by auto
    with step k(1) ps HLeaving q show ?thesis by (auto simp: producer_turn_def set_sender_def single_fifo_def)
  next
    case HGone
    with step k(1) ps show ?thesis by (simp add: producer_turn_def)
  qed
qed

lemma single_consumer_turn:
  assumes inv: "handoff_inv per val target st" and one: "single_fifo per val st"
    and step: "consumer_turn try_recv target st = Some (Inr st')"
  shows "single_fifo per val st'"
proof -
  have part: "chan_part per val (ho_values st) (ho_chan st) (ho_producers st)" using inv by (simp add: handoff_inv_def)
  from consumer_recv_keeps [OF part] obtain c' where
    "try_recv (ho_chan st) = Inr (fst (spec_try_recv (abs (ho_chan st))), c')" "abs c' = snd (spec_try_recv (abs (ho_chan st)))"
    by blast
  with step one show ?thesis
    by (cases "bc_queue (abs (ho_chan st))")
      (auto simp: consumer_turn_def single_fifo_def spec_try_recv_def split: if_splits)
qed

lemma single_run:
  assumes "handoff_inv per val target st" "single_fifo per val st" "run_steps (handoff_step per val target) as st = Some (Inr st')"
  shows "single_fifo per val st' \<and> handoff_inv per val target st'"
  using assms
proof (induction as arbitrary: st)
  case (Cons a as)
  from Cons.prems(3) obtain r1 where r1: "handoff_step per val target a st = Some r1"
    by (cases "handoff_step per val target a st") simp_all
  from handoff_step_keeps [OF Cons.prems(1) this] obtain st1 where st1: "r1 = Inr st1" "handoff_inv per val target st1" by blast
  have "single_fifo per val st1"
  proof (cases a)
    case (ProducerTurn k n)
    with r1 st1(1) have "producer_turn try_send drop_tx per val k n st = Some (Inr st1)" by simp
    with Cons.prems(1,2) show ?thesis by (rule single_producer_turn)
  next
    case ConsumerTurn
    with r1 st1(1) have "consumer_turn try_recv target st = Some (Inr st1)" by simp
    with Cons.prems(1,2) show ?thesis by (rule single_consumer_turn)
  qed
  with Cons.IH [OF st1(2)] Cons.prems(3) r1 st1(1) show ?case by simp
qed simp

lemma single_complete:
  assumes "handoff_inv per val target st" "single_fifo per val st" "ho_done st"
  shows "ho_values st = sent_values val (unat per)"
proof -
  obtain h s where ps: "ho_producers st = [(h, s)]"
    and q: "ho_values st @ bc_queue (abs (ho_chan st)) = sent_values val (rounds_done per s)"
    using assms(2) by (auto simp: single_fifo_def)
  note fin = handoff_complete [OF assms(1,3)]
  have "rounds_done per s \<le> unat per" using assms(1) by (simp add: handoff_inv_def chan_part_def rounds_ok_upto_def ps)
  then have "rounds_done per s = unat per" using fin(4) by (simp add: left_to_send_def ps)
  with q fin(3) show ?thesis by simp
qed

end

text \<open>Once nothing is left to send, what was sent is every round's value of every producer.\<close>

lemma all_sent_complete:
  assumes "rounds_ok_upto per ps" "left_to_send per ps = 0"
  shows "all_sent per val ps = repeat_mset (length ps) (mset (sent_values val (unat per)))"
  using assms unfolding all_sent_def rounds_ok_upto_def left_to_send_def
  by (induction ps) (auto dest!: le_antisym)

end
