(* ===== verification/Cpu_Cost.thy ===== *)
theory Cpu_Cost
  imports Text_Input Sort_By Handoff Mpsc
begin

text \<open>
  The measurement program \<^verbatim>\<open>examples/cpu_cost.rs\<close>: how it reads its environment, sizes itself, drives the MPSC
  channel through a workload of known size, and picks the run that it reports. What the outside world provides (environment
  variables, the number of cores, the text of \<^verbatim>\<open>/proc/thread-self/schedstat\<close>, clock readings, the schedule of the
  threads) is an argument; \<^verbatim>\<open>f64\<close> is a record of operations; the tables' text and the runs on
  third-party channels are left out.
\<close>

type_synonym u64 = "64 word"
type_synonym u128 = "128 word"

section \<open>Sizes\<close>

definition BATCH :: u64 where "BATCH = 1000000"
definition CAP :: usize where "CAP = 1024"
definition PRODUCERS :: u64 where "PRODUCERS = 2"
definition ITERS :: u64 where "ITERS = 5"
definition ROUNDS :: nat where "ROUNDS = 3"
definition PACED_ELEMS :: u64 where "PACED_ELEMS = 5000"
definition OVER_BATCH :: u64 where "OVER_BATCH = 200000"
definition OVER_ITERS :: u64 where "OVER_ITERS = 3"

text \<open>
  \<open>var\<close> is \<^verbatim>\<open>URINGS_CORES\<close> (absent, or not Unicode: \<open>None\<close>), \<open>par\<close> the result of \<^verbatim>\<open>available_parallelism\<close>.
\<close>

definition cores :: "string option \<Rightarrow> usize option \<Rightarrow> u64" where
  "cores var par =
     (case Option.bind var parse_u64 of
        Some n \<Rightarrow> n
      | None \<Rightarrow> (case par of Some n \<Rightarrow> n | None \<Rightarrow> 4))"

definition ext_threads :: "string option \<Rightarrow> usize option \<Rightarrow> usize" where
  "ext_threads var par = cores var par"

text \<open>The products wrap around, as in a release build.\<close>

definition producer_ladder :: "u64 \<Rightarrow> (u64 \<times> string) list" where
  "producer_ladder c =
     [(max (c div 2) 2, ''0.5x''), (max c 2, ''1x''), (max (c * 2) 4, ''2x''), (max (c * 8) 8, ''8x'')]"

section \<open>Input\<close>

text \<open>\<open>file\<close> is the content of \<^verbatim>\<open>/proc/thread-self/schedstat\<close>, or \<open>None\<close> when it cannot be read.\<close>

definition thread_cpu_ns :: "string option \<Rightarrow> u64 outcome" where
  "thread_cpu_ns file =
     (case file of
        None \<Rightarrow> Inl (Panic ''this example requires Linux procfs'')
      | Some s \<Rightarrow>
          (case first_word s of
             None \<Rightarrow> Inl (Panic ''schedstat field 0'')
           | Some w \<Rightarrow>
               (case parse_u64 w of
                  None \<Rightarrow> Inl (Panic ''schedstat field 0 is a u64'')
                | Some n \<Rightarrow> Inr n)))"

definition want :: "string option \<Rightarrow> string \<Rightarrow> bool" where
  "want var section_name =
     (case var of
        Some v \<Rightarrow> list_ex (\<lambda>s. trim s = section_name) (split_on (CHR '','') v)
      | None \<Rightarrow> True)"

text \<open>
  C40: the first field of a \<^verbatim>\<open>schedstat\<close> line is read back as printed: whatever white space precedes it and whatever
  fields follow, \<^verbatim>\<open>thread_cpu_ns\<close> returns the number whose decimal digits are the first field, for
  every \<^verbatim>\<open>u64\<close>.
\<close>

theorem thread_cpu_ns_reads_printed:
  assumes "list_all is_whitespace before" "after = [] \<or> is_whitespace (hd after)"
  shows "thread_cpu_ns (Some (before @ fmt_usize n @ after)) = Inr n"
proof -
  have "fmt_usize n \<noteq> []" by (simp add: fmt_usize_def fmt_digits_nonempty)
  with first_word_found [OF assms(1) this fmt_usize_no_whitespace assms(2)] show ?thesis
    by (simp add: thread_cpu_ns_def parse_fmt_usize)
qed

theorem thread_cpu_ns_reads_printed_witness:
  "thread_cpu_ns (Some ('' '' @ fmt_usize 18446744073709551615 @ '' 77 3'')) = Inr 18446744073709551615
   \<and> fmt_usize 18446744073709551615 = ''18446744073709551615''"
proof
  have "list_all is_whitespace '' ''" "is_whitespace (hd '' 77 3'')" by code_simp+
  then show "thread_cpu_ns (Some ('' '' @ fmt_usize 18446744073709551615 @ '' 77 3'')) = Inr 18446744073709551615"
    using thread_cpu_ns_reads_printed [of "'' ''" "'' 77 3''" 18446744073709551615] by blast
  show "fmt_usize 18446744073709551615 = ''18446744073709551615''" by code_simp
qed

text \<open>An entry of the list of sections: a name with white space around it.\<close>

definition padded :: "string \<times> string \<times> string \<Rightarrow> string" where
  "padded p = (case p of (a, w, b) \<Rightarrow> a @ w @ b)"

definition section_entry :: "string \<times> string \<times> string \<Rightarrow> bool" where
  "section_entry p \<longleftrightarrow>
     (case p of (a, w, b) \<Rightarrow>
        list_all is_whitespace a \<and> list_all is_whitespace b \<and> w \<noteq> [] \<and> \<not> list_ex is_whitespace w \<and> CHR '','' \<notin> set w)"

lemma padded_entry:
  assumes "section_entry p"
  shows "trim (padded p) = fst (snd p)" "CHR '','' \<notin> set (padded p)"
proof -
  obtain a w b where p: "p = (a, w, b)" by (cases p)
  show "trim (padded p) = fst (snd p)"
    using assms trim_surrounded [of a b w] by (simp add: p padded_def section_entry_def)
  have "\<not> is_whitespace CHR '',''" by code_simp
  then show "CHR '','' \<notin> set (padded p)"
    using assms by (auto simp: p padded_def section_entry_def list_all_iff)
qed

text \<open>
  \<^verbatim>\<open>URINGS_SECTIONS\<close> selects exactly the sections it lists: for a comma-separated list of names, each with white
  space around it, \<^verbatim>\<open>want\<close> holds of a name if and only if the name is in the list; without the variable
  every section runs.
\<close>

theorem want_selects:
  assumes "ps \<noteq> []" "list_all section_entry ps"
  shows "(want (Some (join_with (CHR '','') (map padded ps))) name \<longleftrightarrow> name \<in> set (map (\<lambda>p. fst (snd p)) ps))
    \<and> want None name"
proof -
  have "split_on (CHR '','') (join_with (CHR '','') (map padded ps)) = map padded ps"
    using assms padded_entry(2) by (intro split_join) (auto simp: list_all_iff)
  with assms padded_entry(1) show ?thesis by (auto simp: want_def list_ex_iff list_all_iff)
qed

theorem want_selects_witness:
  "want (Some (join_with (CHR '','') (map padded [([], ''paced'', []), ('' '', ''oversub'', [])]))) ''oversub''
   \<and> \<not> want (Some (join_with (CHR '','') (map padded [([], ''paced'', []), ('' '', ''oversub'', [])]))) ''external''
   \<and> join_with (CHR '','') (map padded [([], ''paced'', []), ('' '', ''oversub'', [])]) = ''paced, oversub''"
proof -
  let ?ps = "[([], ''paced'', []), ('' '', ''oversub'', [])]"
  have "?ps \<noteq> []" "list_all section_entry ?ps" by code_simp+
  from want_selects [OF this, of "''oversub''"] want_selects [OF this, of "''external''"]
  show ?thesis by (simp add: padded_def)
qed

lemma unat_max_u64: "unat (max a b) = max (unat a) (unat b)" for a b :: u64
  by (simp add: max_def word_le_nat_alt)

lemma producer_ladder_unat:
  assumes "unat c < 2 ^ 61"
  shows "map (\<lambda>p. unat (fst p)) (producer_ladder c) = [max (unat c div 2) 2, max (unat c) 2, max (unat c * 2) 4, max (unat c * 8) 8]"
  using assms by (simp add: producer_ladder_def unat_max_u64 unat_div unat_word_ariths)

text \<open>
  The ladder of producer counts never asks for fewer than two producers, so \<^verbatim>\<open>measure_with\<close> does not divide by zero
  on it; below \<open>2\<^sup>6\<^sup>1\<close> cores nothing wraps around, the entries are the core count's half, itself, its double
  and its eightfold, each with its lower limit, and they climb.
\<close>

theorem producer_ladder_bounds:
  "list_all (\<lambda>p. 2 \<le> fst p) (producer_ladder c)
   \<and> (unat c < 2 ^ 61 \<longrightarrow>
        map (\<lambda>p. unat (fst p)) (producer_ladder c)
          = [max (unat c div 2) 2, max (unat c) 2, max (unat c * 2) 4, max (unat c * 8) 8]
        \<and> sorted (map (\<lambda>p. unat (fst p)) (producer_ladder c)))"
proof -
  have "list_all (\<lambda>p. 2 \<le> fst p) (producer_ladder c)"
    by (simp add: producer_ladder_def word_le_nat_alt unat_max_u64 le_max_iff_disj)
  then show ?thesis using producer_ladder_unat [of c] by auto
qed

theorem producer_ladder_bounds_witness:
  "map (\<lambda>p. unat (fst p)) (producer_ladder 16) = [8, 16, 32, 128] \<and> sorted (map (\<lambda>p. unat (fst p)) (producer_ladder 16))"
proof -
  have "unat (16 :: u64) < 2 ^ 61" by simp
  then show ?thesis using producer_ladder_bounds [of 16] by simp
qed

section \<open>The load outside the channel\<close>

definition lcg :: "u64 \<Rightarrow> u64" where
  "lcg x = x * 6364136223846793005 + 1"

text \<open>
  A thread of \<^verbatim>\<open>spawn_external\<close>: \<open>flags\<close> are the values that its loads of the stop flag return; \<open>None\<close> while it still
  runs. It returns the count of operations.
\<close>

fun external_loop :: "u64 \<Rightarrow> u64 \<Rightarrow> bool list \<Rightarrow> u64 option" where
  "external_loop x ops [] = None"
| "external_loop x ops (stop # flags) =
     (if stop then Some ops else external_loop ((lcg ^^ 1024) x) (ops + 1024) flags)"

definition external_thread :: "usize \<Rightarrow> bool list \<Rightarrow> u64 option" where
  "external_thread i flags = external_loop (0x9e3779b97f4a7c15 XOR i) 0 flags"

definition stop_external :: "u64 list \<Rightarrow> u64" where
  "stop_external joined = foldl (+) 0 joined"

lemma external_loop_counts:
  "external_loop x ops (replicate n False @ True # flags) = Some (ops + 1024 * of_nat n)"
  by (induction n arbitrary: x ops) (simp_all add: algebra_simps)

section \<open>Runs and reports\<close>

text \<open>\<^verbatim>\<open>f64\<close>: conversion from an integer, quotient and product, and the comparison that is undefined on NaN.\<close>

record 'f f64_ops =
  f64_of :: "nat \<Rightarrow> 'f"
  f64_div :: "'f \<Rightarrow> 'f \<Rightarrow> 'f"
  f64_mul :: "'f \<Rightarrow> 'f \<Rightarrow> 'f"
  f64_partial_cmp :: "'f \<Rightarrow> 'f \<Rightarrow> rust_ordering option"

record run =
  run_wall_ns :: u128
  run_cpu_ns :: u64
  run_elems :: u64

definition melem_per_s :: "'f f64_ops \<Rightarrow> run \<Rightarrow> 'f" where
  "melem_per_s F r =
     f64_div F (f64_div F (f64_of F (unat (run_elems r))) (f64_div F (f64_of F (unat (run_wall_ns r))) (f64_of F 1000000000)))
       (f64_of F 1000000)"

definition run_cores :: "'f f64_ops \<Rightarrow> run \<Rightarrow> 'f" where
  "run_cores F r = f64_div F (f64_of F (unat (run_cpu_ns r))) (f64_of F (unat (run_wall_ns r)))"

definition cpu_ns_per_elem :: "'f f64_ops \<Rightarrow> run \<Rightarrow> 'f" where
  "cpu_ns_per_elem F r = f64_div F (f64_of F (unat (run_cpu_ns r))) (f64_of F (unat (run_elems r)))"

record paced_run =
  paced_wall_ns :: u128
  paced_consumer_cpu_ns :: u64

definition paced_cores :: "'f f64_ops \<Rightarrow> paced_run \<Rightarrow> 'f" where
  "paced_cores F p = f64_div F (f64_of F (unat (paced_consumer_cpu_ns p))) (f64_of F (unat (paced_wall_ns p)))"

definition paced_cpu_ns_per_elem :: "'f f64_ops \<Rightarrow> paced_run \<Rightarrow> 'f" where
  "paced_cpu_ns_per_elem F p = f64_div F (f64_of F (unat (paced_consumer_cpu_ns p))) (f64_of F (unat PACED_ELEMS))"

definition median_by :: "('a \<Rightarrow> 'a \<Rightarrow> rust_ordering option) \<Rightarrow> 'a list \<Rightarrow> 'a outcome" where
  "median_by cmp runs =
     obind (sort_by cmp runs) (\<lambda>sorted_runs.
       if length sorted_runs div 2 < length sorted_runs then Inr (sorted_runs ! (length sorted_runs div 2))
       else Inl (Panic ''index out of bounds''))"

text \<open>The columns that \<^verbatim>\<open>report\<close> and \<^verbatim>\<open>report_paced\<close> print behind the name.\<close>

definition report :: "'f f64_ops \<Rightarrow> string \<Rightarrow> run list \<Rightarrow> (string \<times> 'f \<times> 'f \<times> 'f) outcome" where
  "report F name runs =
     obind (median_by (\<lambda>a b. f64_partial_cmp F (cpu_ns_per_elem F a) (cpu_ns_per_elem F b)) runs) (\<lambda>m.
       Inr (name, melem_per_s F m, run_cores F m, cpu_ns_per_elem F m))"

definition report_paced :: "'f f64_ops \<Rightarrow> string \<Rightarrow> paced_run list \<Rightarrow> (string \<times> 'f \<times> 'f \<times> 'f) outcome" where
  "report_paced F name runs =
     obind (median_by (\<lambda>a b. f64_partial_cmp F (paced_cores F a) (paced_cores F b)) runs) (\<lambda>m.
       Inr (name, paced_cores F m, f64_mul F (paced_cores F m) (f64_of F 100), paced_cpu_ns_per_elem F m))"

subsection \<open>The reported run is the median\<close>

lemma median_by_correct:
  assumes r: "ranks rank cmp (set runs)" and "runs \<noteq> []"
  shows "\<exists>m \<in> set runs. median_by cmp runs = Inr m
     \<and> length (filter (\<lambda>z. rank z < rank m) runs) \<le> length runs div 2
     \<and> length (filter (\<lambda>z. rank m < rank z) runs) \<le> length runs - 1 - length runs div 2"
proof -
  from sort_by_sorts [OF r] obtain zs where zs: "sort_by cmp runs = Inr zs" "mset zs = mset runs" "sorted (map rank zs)" by blast
  have l: "length zs = length runs" using zs(2) by (metis size_mset)
  have i: "length zs div 2 < length zs" using assms(2) l by simp
  have "zs ! (length zs div 2) \<in> set runs" using nth_mem [OF i] zs(2) by (metis set_mset_mset)
  moreover note sorted_nth_counts [OF zs(3) i]
  ultimately show ?thesis
    using zs(1) i length_filter_mset [OF zs(2)] by (intro bexI [of _ "zs ! (length zs div 2)"]) (simp_all add: median_by_def l)
qed

text \<open>
  The run that \<^verbatim>\<open>report\<close> prints is the median of the runs by CPU time per element. Whenever the comparison of \<^verbatim>\<open>f64\<close> is a
  linear order on the runs' figures (none is NaN), the report of a non-empty list of runs returns, and its
  columns are those of one of the runs, below which lie at most half of the runs and above which
  at most the rest: with three runs, at most one on each side.
\<close>

theorem report_is_median:
  assumes "runs \<noteq> []" "ranks rank (f64_partial_cmp F) (cpu_ns_per_elem F ` set runs)"
  shows "\<exists>m \<in> set runs. report F name runs = Inr (name, melem_per_s F m, run_cores F m, cpu_ns_per_elem F m)
     \<and> length (filter (\<lambda>r. rank (cpu_ns_per_elem F r) < rank (cpu_ns_per_elem F m)) runs) \<le> length runs div 2
     \<and> length (filter (\<lambda>r. rank (cpu_ns_per_elem F m) < rank (cpu_ns_per_elem F r)) runs)
        \<le> length runs - 1 - length runs div 2"
proof -
  have "ranks (\<lambda>r. rank (cpu_ns_per_elem F r)) (\<lambda>a b. f64_partial_cmp F (cpu_ns_per_elem F a) (cpu_ns_per_elem F b)) (set runs)"
    using assms(2) by (simp add: ranks_def)
  from median_by_correct [OF this assms(1)] show ?thesis by (auto simp: report_def)
qed

text \<open>Whole-number quotients as a stand-in for \<^verbatim>\<open>f64\<close> on an example.\<close>

definition whole_f64 :: "nat f64_ops" where
  "whole_f64 = \<lparr>f64_of = id, f64_div = (div), f64_mul = (*), f64_partial_cmp = (\<lambda>a b. Some (ordering_of a b))\<rparr>"

theorem report_is_median_witness:
  "\<exists>m \<in> set [\<lparr>run_wall_ns = 10, run_cpu_ns = 90, run_elems = 2\<rparr>, \<lparr>run_wall_ns = 10, run_cpu_ns = 10, run_elems = 2\<rparr>,
              \<lparr>run_wall_ns = 10, run_cpu_ns = 30, run_elems = 2\<rparr>].
     report whole_f64 ''x'' [\<lparr>run_wall_ns = 10, run_cpu_ns = 90, run_elems = 2\<rparr>, \<lparr>run_wall_ns = 10, run_cpu_ns = 10, run_elems = 2\<rparr>,
              \<lparr>run_wall_ns = 10, run_cpu_ns = 30, run_elems = 2\<rparr>] = Inr (''x'', melem_per_s whole_f64 m, run_cores whole_f64 m, 15)"
proof -
  let ?runs = "[\<lparr>run_wall_ns = 10, run_cpu_ns = 90, run_elems = 2\<rparr>, \<lparr>run_wall_ns = 10, run_cpu_ns = 10, run_elems = 2\<rparr>,
      \<lparr>run_wall_ns = 10, run_cpu_ns = 30, run_elems = 2\<rparr>]"
  have "?runs \<noteq> []" "ranks id (f64_partial_cmp whole_f64) (cpu_ns_per_elem whole_f64 ` set ?runs)"
    by (simp_all add: ranks_def whole_f64_def)
  from report_is_median [OF this, of "''x''"] show ?thesis
    by (auto simp: cpu_ns_per_elem_def whole_f64_def)
qed

section \<open>The measured workload\<close>

text \<open>
  \<^verbatim>\<open>measure_with\<close> gives each producer a clone of the sender and drops the original before the barrier opens.
\<close>

interpretation mpsc_workload: handoff_channel mpsc_inv mpsc_abs mpsc_tx_live mpsc_send_op mpsc_recv_op mpsc_drain_vec
    mpsc_drop_tx
proof unfold_locales
  fix c :: "'a mpsc" and h
  assume inv: "mpsc_inv c" and live: "\<And>n. mpsc_tx_live (h, n) c" and rx: "bc_rx_live (mpsc_abs c)"
  from live obtain tx where tx: "mc_tx h c = Some tx" by (auto simp: mpsc_tx_live_def)
  have r: "mc_rx c \<noteq> None" using rx by (simp add: mpsc_abs_def)
  from mpsc_drop_tx_correct [OF inv tx] r obtain c' where
    c': "mpsc_drop_tx h c = Inr ([], c')" "mpsc_inv c'" "mpsc_abs c' = (mpsc_abs c)\<lparr>bc_senders := live_senders c - 1\<rparr>"
    "mc_txs c' = (mc_txs c)[h := None]"
    by auto
  have "mpsc_tx_live (g, n) c' = mpsc_tx_live (g, n) c" if "g \<noteq> h" for g n
    using c'(4) that by (simp add: mpsc_tx_live_def mc_tx_def)
  moreover have "live_senders c = bc_senders (mpsc_abs c)" by (simp add: mpsc_abs_def)
  ultimately show "\<exists>vs c'. mpsc_drop_tx h c = Inr (vs, c') \<and> mpsc_inv c'
      \<and> mpsc_abs c' = (mpsc_abs c)\<lparr>bc_senders := bc_senders (mpsc_abs c) - 1\<rparr>
      \<and> (\<forall>g n. g \<noteq> h \<longrightarrow> mpsc_tx_live (g, n) c' = mpsc_tx_live (g, n) c)"
    using c' by auto
qed

primrec clone_handles :: "nat \<Rightarrow> 'a mpsc \<Rightarrow> (nat list \<times> 'a mpsc) outcome" where
  "clone_handles 0 c = Inr ([], c)"
| "clone_handles (Suc n) c =
     obind (mpsc_clone_op 0 c) (\<lambda>(h, c1). obind (clone_handles n c1) (\<lambda>(hs, c2). Inr (h # hs, c2)))"

text \<open>One iteration: the channel, the clones, the drop of \<^verbatim>\<open>tx\<close>, then the threads in the order of \<open>schedule\<close>.\<close>

definition measure_iteration ::
    "u64 \<Rightarrow> u64 \<Rightarrow> usize \<Rightarrow> wait_strategy \<Rightarrow> handoff_action list \<Rightarrow> (u64 mpsc, nat, u64) handoff outcome option" where
  "measure_iteration producers batch cap strategy schedule =
     (case obind (mpsc_open cap strategy) (\<lambda>c.
             obind (clone_handles (unat producers) c) (\<lambda>(hs, c1).
             obind (mpsc_drop_tx 0 c1) (\<lambda>(_, c2). Inr (handoff_start hs c2)))) of
        Inl e \<Rightarrow> Some (Inl e)
      | Inr st \<Rightarrow>
          run_steps (handoff_micro mpsc_send_op mpsc_recv_op mpsc_drop_tx (batch div producers) id
            ((batch div producers) * producers)) schedule st)"

text \<open>
  The iterations of \<^verbatim>\<open>measure_with\<close>: each has its schedule and the readings of \<^verbatim>\<open>thread_cpu_ns\<close> before and after each
  thread's work. \<open>None\<close>: an iteration's threads have not all ended.
\<close>

fun measure_iterations ::
    "u64 \<Rightarrow> u64 \<Rightarrow> usize \<Rightarrow> wait_strategy \<Rightarrow> (handoff_action list \<times> (u64 \<times> u64) list) list \<Rightarrow> u64 \<Rightarrow> u64 outcome option" where
  "measure_iterations producers batch cap strategy [] cpu_ns = Some (Inr cpu_ns)"
| "measure_iterations producers batch cap strategy ((schedule, readings) # rest) cpu_ns =
     (case measure_iteration producers batch cap strategy schedule of
        None \<Rightarrow> None
      | Some (Inl e) \<Rightarrow> Some (Inl e)
      | Some (Inr st) \<Rightarrow>
          (if handoff_over st then
             measure_iterations producers batch cap strategy rest
               (foldl (\<lambda>sum (t0, t1). sum + (t1 - t0)) cpu_ns readings)
           else None))"

definition measure_with ::
    "u64 \<Rightarrow> u64 \<Rightarrow> u64 \<Rightarrow> usize \<Rightarrow> wait_strategy \<Rightarrow> (handoff_action list \<times> (u64 \<times> u64) list) list \<Rightarrow> u128 \<Rightarrow>
     run outcome option" where
  "measure_with producers batch iters cap strategy rounds wall =
     (if producers = 0 then Some (Inl (Panic ''attempt to divide by zero''))
      else if length rounds \<noteq> unat iters then None
      else
        map_option (\<lambda>r. obind r (\<lambda>cpu_ns.
            Inr \<lparr>run_wall_ns = wall, run_cpu_ns = cpu_ns, run_elems = (batch div producers) * producers * iters\<rparr>))
          (measure_iterations producers batch cap strategy rounds 0))"

text \<open>\<^verbatim>\<open>measure\<close>: the standard sizes.\<close>

definition measure_standard ::
    "usize \<Rightarrow> wait_strategy \<Rightarrow> (handoff_action list \<times> (u64 \<times> u64) list) list \<Rightarrow> u128 \<Rightarrow> run outcome option" where
  "measure_standard cap strategy rounds wall = measure_with PRODUCERS BATCH ITERS cap strategy rounds wall"

subsection \<open>The channel at the barrier\<close>

lemma mpsc_clone_op_length: "mpsc_clone_op i c = Inr (h, c') \<Longrightarrow> length (mc_txs c') = Suc (length (mc_txs c))"
  by (auto simp: mpsc_clone_op_def Let_def case_prod_unfold split: option.splits)

lemma clone_handles_correct:
  assumes "mpsc_inv c" "mc_tx 0 c \<noteq> None" "live_senders c + n < 2 ^ 64"
  shows "\<exists>c'. clone_handles n c = Inr ([length (mc_txs c)..<length (mc_txs c) + n], c') \<and> mpsc_inv c'
     \<and> mpsc_abs c' = (mpsc_abs c)\<lparr>bc_senders := live_senders c + n\<rparr>
     \<and> (\<forall>h. length (mc_txs c) \<le> h \<and> h < length (mc_txs c) + n \<longrightarrow> mc_tx h c' \<noteq> None)
     \<and> (\<forall>j < length (mc_txs c). mc_tx j c' = mc_tx j c)"
  using assms
proof (induction n arbitrary: c)
  case 0
  then show ?case by (auto simp: mpsc_abs_def)
next
  case (Suc n)
  let ?k = "length (mc_txs c)"
  have k: "0 < ?k" using Suc.prems(2) by (auto simp: mc_tx_def split: if_splits)
  from Suc.prems obtain tx where tx: "mc_tx 0 c = Some tx" by auto
  from mpsc_clone_op_correct [OF Suc.prems(1) tx] Suc.prems(3) obtain c1 where
    c1: "mpsc_clone_op 0 c = Inr (?k, c1)" "mpsc_inv c1" "mpsc_abs c1 = (mpsc_abs c)\<lparr>bc_senders := Suc (live_senders c)\<rparr>"
    "mc_tx ?k c1 \<noteq> None" "\<forall>j < ?k. mc_tx j c1 = mc_tx j c"
    by auto
  have l1: "length (mc_txs c1) = Suc ?k" using mpsc_clone_op_length [OF c1(1)] .
  have s1: "live_senders c1 = Suc (live_senders c)" using arg_cong [OF c1(3), of bc_senders] by (simp add: mpsc_abs_def)
  have "mc_tx 0 c1 \<noteq> None" using c1(5) k tx by simp
  with Suc.IH [of c1] c1(2) s1 Suc.prems(3) l1 obtain c' where
    c': "clone_handles n c1 = Inr ([Suc ?k..<Suc ?k + n], c')" "mpsc_inv c'"
    "mpsc_abs c' = (mpsc_abs c1)\<lparr>bc_senders := live_senders c1 + n\<rparr>"
    "\<forall>h. Suc ?k \<le> h \<and> h < Suc ?k + n \<longrightarrow> mc_tx h c' \<noteq> None" "\<forall>j < Suc ?k. mc_tx j c' = mc_tx j c1"
    by auto
  have "mc_tx h c' \<noteq> None" if "?k \<le> h" "h < ?k + Suc n" for h
    using that c'(4,5) c1(4) by (cases "h = ?k") auto
  moreover have "[?k..<?k + Suc n] = ?k # [Suc ?k..<Suc ?k + n]" by (simp add: upt_conv_Cons)
  ultimately show ?case using c1 c' s1 by simp
qed

text \<open>The state in which the barrier opens satisfies the workload's invariant.\<close>

lemma measure_starts:
  assumes cap: "is_power_of_two cap" and n: "0 < producers" "unat producers < 2 ^ 64 - 1"
  shows "\<exists>st. obind (mpsc_open cap strategy) (\<lambda>c.
            obind (clone_handles (unat producers) c) (\<lambda>(hs, c1).
            obind (mpsc_drop_tx 0 c1) (\<lambda>(_, c2). Inr (handoff_start hs c2)))) = Inr st
     \<and> mpsc_workload.handoff_inv (batch div producers) id ((batch div producers) * producers) st
     \<and> length (ho_producers st) = unat producers
     \<and> mpsc_workload.handoff_work (batch div producers) ((batch div producers) * producers) st
        \<le> 2 * unat ((batch div producers) * producers) + 2 * unat producers + 1"
proof -
  let ?n = "unat producers" and ?per = "batch div producers"
  from mpsc_open_inv [OF cap] obtain c :: "u64 mpsc" where
    c: "mpsc_open cap strategy = Inr c" "mpsc_inv c" "mpsc_abs c = (fresh_bchan cap)\<lparr>bc_quota := Some (2 ^ 64 - 1)\<rparr>" "mc_tx 0 c \<noteq> None"
    by blast
  have one: "live_senders c = 1" using arg_cong [OF c(3), of bc_senders] by (simp add: mpsc_abs_def)
  have len: "0 < length (mc_txs c)" using c(4) by (auto simp: mc_tx_def split: if_splits)
  let ?hs = "[length (mc_txs c)..<length (mc_txs c) + ?n]"
  from clone_handles_correct [OF c(2,4), of ?n] one n(2) obtain c1 where
    c1: "clone_handles ?n c = Inr (?hs, c1)" "mpsc_inv c1" "mpsc_abs c1 = (mpsc_abs c)\<lparr>bc_senders := 1 + ?n\<rparr>"
    "\<forall>h \<in> set ?hs. mc_tx h c1 \<noteq> None" "mc_tx 0 c1 \<noteq> None"
    using len c(4) by auto
  have "\<And>m. mpsc_tx_live (0, m) c1" "bc_rx_live (mpsc_abs c1)" using c1 c(3) by (simp_all add: mpsc_tx_live_def)
  from mpsc_workload.drop_refines [OF c1(2) this] obtain vs c2 where
    c2: "mpsc_drop_tx 0 c1 = Inr (vs, c2)" "mpsc_inv c2" "mpsc_abs c2 = (mpsc_abs c1)\<lparr>bc_senders := bc_senders (mpsc_abs c1) - 1\<rparr>"
    "\<forall>g m. g \<noteq> 0 \<longrightarrow> mpsc_tx_live (g, m) c2 = mpsc_tx_live (g, m) c1"
    by blast
  have "unat ?per * ?n \<le> unat batch" by (simp add: unat_div)
  then have small: "unat ?per * ?n < 2 ^ 64" using unsigned_less [of batch, where 'a = nat] by simp
  then have target: "unat (?per * producers) = ?n * unat ?per" by (simp add: unat_word_ariths mult.commute)
  have "mpsc_workload.handoff_inv ?per id (?per * producers) (handoff_start ?hs c2)"
  proof (rule mpsc_workload.handoff_start_inv)
    show "mpsc_tx_live (h, m) c2" if "h \<in> set ?hs" for h m
    proof -
      from that have "length (mc_txs c) \<le> h" by simp
      with len have "h \<noteq> 0" by linarith
      with that c1(4) c2(4) show ?thesis by (simp add: mpsc_tx_live_def)
    qed
    show "length ?hs * unat ?per \<le> q" if "bc_quota (mpsc_abs c2) = Some q" for q
      using that c1(3) c2(3) c(3) small by (simp add: mult.commute)
  qed (use c1 c2 c(3) target in simp_all)
  moreover have "mpsc_workload.handoff_work ?per (?per * producers) (handoff_start ?hs c2) \<le> 2 * unat (?per * producers) + 2 * ?n + 1"
    by (simp add: mpsc_workload.handoff_start_work target)
  ultimately show ?thesis using c(1) c1(1) c2(1) by (auto simp: handoff_start_def)
qed


text \<open>
  C39: \<^verbatim>\<open>measure_with\<close> reports what was delivered. For every number of producers and every schedule, no step of an iteration
  faults, and when the consumer has left its loop it has received exactly \<^verbatim>\<open>(batch / producers) * producers\<close> values,
  namely each of the numbers \<open>0, \<dots>, batch / producers - 1\<close> once from every producer: the consumer never breaks off early
  on \<^verbatim>\<open>Disconnected\<close>, and \<^verbatim>\<open>elems\<close> counts delivered elements.
\<close>

theorem measure_delivers:
  assumes "is_power_of_two cap" "0 < producers" "unat producers < 2 ^ 64 - 1"
    and "measure_iteration producers batch cap strategy schedule = Some r"
  shows "\<exists>st. r = Inr st \<and> (ho_done st \<longrightarrow> ho_got st = (batch div producers) * producers
     \<and> mset (ho_values st) = repeat_mset (unat producers) (mset (map of_nat [0..<unat (batch div producers)])))"
proof -
  let ?per = "batch div producers" and ?n = "unat producers"
  let ?inv = "\<lambda>st. mpsc_workload.handoff_inv ?per id (?per * producers) st \<and> length (ho_producers st) = ?n"
  from measure_starts [OF assms(1-3), of strategy batch] obtain st0 where
    st0: "obind (mpsc_open cap strategy) (\<lambda>c. obind (clone_handles ?n c) (\<lambda>(hs, c1).
            obind (mpsc_drop_tx 0 c1) (\<lambda>(_, c2). Inr (handoff_start hs c2)))) = Inr st0" "?inv st0"
    by blast
  from assms(4) st0(1) have run: "run_steps (mpsc_workload.handoff_step ?per id (?per * producers)) schedule st0 = Some r"
    by (simp add: measure_iteration_def)
  from mpsc_workload.handoff_run_keeps [OF st0(2) [THEN conjunct1] run] st0(2) obtain st where
    st: "r = Inr st" "mpsc_workload.handoff_inv ?per id (?per * producers) st" "length (ho_producers st) = ?n"
    by auto
  have "ho_got st = ?per * producers \<and> mset (ho_values st) = repeat_mset ?n (mset (sent_values id (unat ?per)))" if "ho_done st"
    using mpsc_workload.handoff_complete [OF st(2) that] st(2,3)
    by (simp add: all_sent_complete mpsc_workload.handoff_inv_def mpsc_workload.chan_part_def)
  with st(1) show ?thesis by (simp add: sent_values_def)
qed

text \<open>The schedule of the witness: two producers of two values each through a ring of two slots.\<close>

abbreviation two_by_two :: "handoff_action list" where
  "two_by_two \<equiv> [ProducerTurn 0 0, ProducerTurn 1 1, ProducerTurn 1 0, ConsumerTurn, ConsumerTurn, ConsumerTurn,
     ProducerTurn 1 0, ProducerTurn 0 0, ProducerTurn 0 0, ProducerTurn 0 0, ConsumerTurn, ConsumerTurn, ConsumerTurn,
     ProducerTurn 1 0, ProducerTurn 1 0]"

theorem measure_delivers_witness:
  "\<exists>st. measure_iteration 2 5 2 BusySpin two_by_two = Some (Inr st) \<and> handoff_over st
     \<and> ho_got st = 4 \<and> mset (ho_values st) = {# 0, 1, 0, 1 #}"
proof -
  have r: "case measure_iteration 2 5 2 BusySpin two_by_two of Some (Inr st) \<Rightarrow> handoff_over st | _ \<Rightarrow> False" by code_simp
  obtain st where st: "measure_iteration 2 5 2 BusySpin two_by_two = Some (Inr st)" "handoff_over st"
  proof (cases "measure_iteration 2 5 2 BusySpin two_by_two")
    case (Some x)
    with r that show thesis by (cases x) auto
  qed (use r in simp)
  have "is_power_of_two 2" "(0 :: u64) < 2" "unat (2 :: u64) < 2 ^ 64 - 1" by (code_simp, simp, simp)
  from measure_delivers [OF this st(1)] st(2) have
    "ho_got st = (5 div 2) * 2" "mset (ho_values st) = repeat_mset 2 (mset (map of_nat [0..<unat (5 div 2 :: u64)]))"
    by (auto simp: handoff_over_def)
  moreover have "(5 div 2 :: u64) = 2" by code_simp
  moreover have "map of_nat [0..<2] = [0, 1 :: u64]" by (simp add: upt_conv_Cons)
  moreover have "replicate_mset 2 x = {# x, x #}" for x :: u64 by (simp add: numeral_2_eq_2)
  ultimately show ?thesis using st by simp
qed

lemma measure_iteration_ends:
  assumes "is_power_of_two cap" "0 < producers" "unat producers < 2 ^ 64 - 1"
  shows "\<exists>s st. length s \<le> 2 * unat ((batch div producers) * producers) + 2 * unat producers + 1
     \<and> measure_iteration producers batch cap strategy s = Some (Inr st) \<and> handoff_over st"
proof -
  let ?per = "batch div producers"
  from measure_starts [OF assms, of strategy batch] obtain st0 where
    st0: "obind (mpsc_open cap strategy) (\<lambda>c. obind (clone_handles (unat producers) c) (\<lambda>(hs, c1).
            obind (mpsc_drop_tx 0 c1) (\<lambda>(_, c2). Inr (handoff_start hs c2)))) = Inr st0"
    "mpsc_workload.handoff_inv ?per id (?per * producers) st0" "length (ho_producers st0) = unat producers"
    "mpsc_workload.handoff_work ?per (?per * producers) st0 \<le> 2 * unat (?per * producers) + 2 * unat producers + 1"
    by blast
  from mpsc_workload.handoff_finishes [OF st0(2)] st0(1,4) show ?thesis
    by (auto simp: measure_iteration_def intro: order_trans)
qed

text \<open>
  \<^verbatim>\<open>measure_with\<close> terminates. For every number of iterations and all clock readings there are schedules, each at most as
  long as the work of one iteration, under which every thread ends, and then the result is returned: the
  elapsed time, the sum of the threads' CPU times and \<^verbatim>\<open>(batch / producers) * producers * iters\<close> elements.
\<close>

theorem measure_with_returns:
  assumes "is_power_of_two cap" "0 < producers" "unat producers < 2 ^ 64 - 1" "length readings = unat iters"
  shows "\<exists>schedules. length schedules = unat iters
     \<and> (\<forall>s \<in> set schedules. length s \<le> 2 * unat ((batch div producers) * producers) + 2 * unat producers + 1)
     \<and> measure_with producers batch iters cap strategy (zip schedules readings) wall
        = Some (Inr \<lparr>run_wall_ns = wall,
            run_cpu_ns = foldl (\<lambda>sum (t0, t1). sum + (t1 - t0)) 0 (concat readings),
            run_elems = (batch div producers) * producers * iters\<rparr>)"
proof -
  let ?per = "batch div producers" and ?n = "unat producers"
  let ?bound = "2 * unat (?per * producers) + 2 * ?n + 1"
  obtain s where s: "length s \<le> ?bound"
    "\<exists>st. measure_iteration producers batch cap strategy s = Some (Inr st) \<and> handoff_over st"
    using measure_iteration_ends [OF assms(1-3)] by blast
  have "measure_iterations producers batch cap strategy (zip (replicate (length rs) s) rs) cpu
      = Some (Inr (foldl (\<lambda>sum (t0, t1). sum + (t1 - t0)) cpu (concat rs)))" for rs cpu
    using s(2) by (induction rs arbitrary: cpu) auto
  from this [of readings 0] s(1) assms(2,4) show ?thesis
    by (intro exI [of _ "replicate (unat iters) s"]) (auto simp: measure_with_def)
qed


theorem measure_with_returns_witness:
  "\<exists>schedules. length schedules = 2 \<and> measure_with 2 5 2 2 Park (zip schedules [[(3, 10), (0, 4)], [(7, 8)]]) 100
     = Some (Inr \<lparr>run_wall_ns = 100, run_cpu_ns = 12, run_elems = 8\<rparr>)"
proof -
  have h: "is_power_of_two 2" "(0 :: u64) < 2" "unat (2 :: u64) < 2 ^ 64 - 1"
    "length [[(3, 10), (0, 4)], [(7, 8)]] = unat (2 :: u64)"
    by (code_simp, simp, simp, simp)
  have "(5 div 2 :: u64) * 2 * 2 = 8" by code_simp
  with measure_with_returns [OF h, of 5 Park 100] show ?thesis by auto
qed

section \<open>The paced section\<close>

text \<open>
  \<^verbatim>\<open>paced\<close>: one producer with the original handle; the sleep between sends only spends time. \<open>t0\<close> and \<open>t1\<close> are the
  consumer's readings.
\<close>

definition paced ::
    "usize \<Rightarrow> wait_strategy \<Rightarrow> handoff_action list \<Rightarrow> u64 \<Rightarrow> u64 \<Rightarrow> u128 \<Rightarrow> paced_run outcome option" where
  "paced cap strategy schedule t0 t1 wall =
     (case mpsc_open cap strategy of
        Inl e \<Rightarrow> Some (Inl e)
      | Inr c \<Rightarrow>
          (case run_steps (handoff_micro mpsc_send_op mpsc_recv_op mpsc_drop_tx PACED_ELEMS id PACED_ELEMS) schedule
                  (handoff_start [0] (c :: u64 mpsc)) of
             None \<Rightarrow> None
           | Some (Inl e) \<Rightarrow> Some (Inl e)
           | Some (Inr st) \<Rightarrow>
               (if handoff_over st then Some (Inr \<lparr>paced_wall_ns = wall, paced_consumer_cpu_ns = t1 - t0\<rparr>) else None)))"

lemma paced_returns:
  assumes "is_power_of_two cap"
  shows "\<exists>schedule. paced cap strategy schedule t0 t1 wall = Some (Inr \<lparr>paced_wall_ns = wall, paced_consumer_cpu_ns = t1 - t0\<rparr>)"
proof -
  from mpsc_open_inv [OF assms] obtain c :: "u64 mpsc" where
    c: "mpsc_open cap strategy = Inr c" "mpsc_inv c" "mpsc_abs c = (fresh_bchan cap)\<lparr>bc_quota := Some (2 ^ 64 - 1)\<rparr>" "mc_tx 0 c \<noteq> None"
    by blast
  have "mpsc_workload.handoff_inv PACED_ELEMS id PACED_ELEMS (handoff_start [0] c)"
    by (rule mpsc_workload.handoff_start_inv) (use c in \<open>simp_all add: mpsc_tx_live_def PACED_ELEMS_def\<close>)
  from mpsc_workload.handoff_finishes [OF this] obtain as st where
    "run_steps (mpsc_workload.handoff_step PACED_ELEMS id PACED_ELEMS) as (handoff_start [0] c) = Some (Inr st)" "handoff_over st"
    by blast
  with c(1) show ?thesis by (intro exI [of _ as]) (simp add: paced_def)
qed

section \<open>The tables\<close>

text \<open>The configurations of the sections, in the order of the rows; a third-party channel has no strategy of this crate.\<close>

definition saturated_configs :: "(string \<times> wait_strategy option) list" where
  "saturated_configs =
     [(''ultima BusySpin (poll)'', Some BusySpin), (''ultima Park (block)'', Some Park), (''crossbeam (poll)'', None),
      (''crossbeam (block)'', None), (''thingbuf (poll)'', None), (''thingbuf (block)'', None)]"

definition paced_configs :: "(string \<times> wait_strategy option) list" where
  "paced_configs =
     [(''ultima BusySpin'', Some BusySpin), (''ultima BackoffYield'', Some BackoffYield), (''ultima Backoff'', Some Backoff),
      (''ultima Park'', Some Park), (''crossbeam (block)'', None), (''thingbuf (block)'', None)]"

definition swept_strategies :: "(string \<times> wait_strategy) list" where
  "swept_strategies = [(''BusySpin'', BusySpin), (''BackoffYield'', BackoffYield), (''Backoff'', Backoff), (''Park'', Park)]"

definition oversub_plan :: "u64 \<Rightarrow> (u64 \<times> string \<times> string \<times> wait_strategy) list" where
  "oversub_plan c =
     concat (map (\<lambda>(producers, ratio). map (\<lambda>(name, strat). (producers, ratio, name, strat)) swept_strategies) (producer_ladder c))"

text \<open>The \<^verbatim>\<open>ROUNDS\<close> measurements of a row, one after the other; a panic or a run without end is the row's.\<close>

fun collect :: "'a outcome option list \<Rightarrow> 'a list outcome option" where
  "collect [] = Some (Inr [])"
| "collect (r # rs) =
     (case r of
        None \<Rightarrow> None
      | Some (Inl e) \<Rightarrow> Some (Inl e)
      | Some (Inr x) \<Rightarrow> map_option (\<lambda>m. obind m (\<lambda>xs. Inr (x # xs))) (collect rs))"

type_synonym inputs = "(handoff_action list \<times> (u64 \<times> u64) list) list \<times> u128"

definition saturated_row ::
    "'f f64_ops \<Rightarrow> string \<Rightarrow> wait_strategy \<Rightarrow> inputs list \<Rightarrow> (string \<times> 'f \<times> 'f \<times> 'f) outcome option" where
  "saturated_row F name strat rounds =
     (if length rounds \<noteq> ROUNDS then None
      else map_option (\<lambda>m. obind m (report F name)) (collect (map (\<lambda>(its, wall). measure_standard CAP strat its wall) rounds)))"

definition paced_row ::
    "'f f64_ops \<Rightarrow> string \<Rightarrow> wait_strategy \<Rightarrow> (handoff_action list \<times> u64 \<times> u64 \<times> u128) list \<Rightarrow>
     (string \<times> 'f \<times> 'f \<times> 'f) outcome option" where
  "paced_row F name strat rounds =
     (if length rounds \<noteq> ROUNDS then None
      else map_option (\<lambda>m. obind m (report_paced F name))
        (collect (map (\<lambda>(schedule, t0, t1, wall). paced CAP strat schedule t0 t1 wall) rounds)))"

definition oversub_row ::
    "'f f64_ops \<Rightarrow> u64 \<times> string \<times> string \<times> wait_strategy \<Rightarrow> inputs list \<Rightarrow>
     (string \<times> u64 \<times> string \<times> 'f \<times> 'f \<times> 'f) outcome option" where
  "oversub_row F cfg rounds =
     (case cfg of (producers, ratio, name, strat) \<Rightarrow>
        if length rounds \<noteq> ROUNDS then None
        else map_option (\<lambda>m. obind m (\<lambda>runs.
            obind (median_by (\<lambda>a b. f64_partial_cmp F (cpu_ns_per_elem F a) (cpu_ns_per_elem F b)) runs) (\<lambda>m.
              Inr (name, producers, ratio, melem_per_s F m, run_cores F m, cpu_ns_per_elem F m))))
          (collect (map (\<lambda>(its, wall). measure_with producers OVER_BATCH OVER_ITERS CAP strat its wall) rounds)))"

text \<open>A round of the external-load section also has the operation counts that its outside threads return.\<close>

definition external_row ::
    "'f f64_ops \<Rightarrow> string \<Rightarrow> wait_strategy \<Rightarrow> 'f \<Rightarrow> (inputs \<times> u64 list) list \<Rightarrow>
     (string \<times> 'f \<times> 'f \<times> 'f \<times> 'f) outcome option" where
  "external_row F name strat baseline rounds =
     (if length rounds \<noteq> ROUNDS then None
      else map_option (\<lambda>m. obind m (\<lambda>runs.
          let rows = map2 (\<lambda>run (_, joined).
                (melem_per_s F run,
                 f64_div F (f64_of F (unat (stop_external joined))) (f64_div F (f64_of F (unat (run_wall_ns run))) (f64_of F 1000000000)),
                 cpu_ns_per_elem F run)) runs rounds
          in obind (median_by (\<lambda>a b. f64_partial_cmp F (fst a) (fst b)) rows) (\<lambda>(m0, m1, m2).
               Inr (name, m0, f64_div F m1 (f64_of F 1000000), f64_mul F (f64_div F m1 baseline) (f64_of F 100), m2))))
        (collect (map (\<lambda>((its, wall), _). measure_with 2 OVER_BATCH OVER_ITERS CAP strat its wall) rounds)))"

lemma collect_all:
  assumes "\<And>x. x \<in> set xs \<Longrightarrow> f x = Some (Inr (g x))"
  shows "collect (map f xs) = Some (Inr (map g xs))"
  using assms by (induction xs) simp_all

text \<open>\<^verbatim>\<open>f64\<close> quotients of whole numbers by positive ones are not NaN, and compare linearly.\<close>

definition quotients_ranked :: "('f \<Rightarrow> 'k :: linorder) \<Rightarrow> 'f f64_ops \<Rightarrow> bool" where
  "quotients_ranked rank F \<longleftrightarrow> ranks rank (f64_partial_cmp F) {f64_div F (f64_of F a) (f64_of F b) | a b. 0 < b}"

lemma ladder_producers:
  assumes "(producers, ratio, name, strat) \<in> set (oversub_plan c)" "unat c \<le> 25000"
  shows "0 < producers" "unat producers \<le> 200000"
proof -
  have "(producers, ratio) \<in> set (producer_ladder c)" using assms(1) by (auto simp: oversub_plan_def)
  then have p: "unat producers \<in> set (map (\<lambda>p. unat (fst p)) (producer_ladder c))" by force
  with p assms(2) producer_ladder_unat [of c] have "0 < unat producers \<and> unat producers \<le> 200000" by auto
  then show "0 < producers" "unat producers \<le> 200000" by (simp_all add: word_less_nat_alt)
qed

lemma over_elems:
  assumes "0 < producers" "unat producers \<le> 200000"
  shows "(OVER_BATCH div producers) * producers * OVER_ITERS \<noteq> 0"
proof -
  let ?n = "unat producers"
  have n: "0 < ?n" using assms(1) by (simp add: word_less_nat_alt)
  have le: "200000 div ?n * ?n < 600000" by (rule le_less_trans [OF div_times_less_eq_dividend]) simp
  define q where "q = 200000 div ?n * ?n"
  have small: "q < 2 ^ 64" "q * 3 < 2 ^ 64" using le by (simp_all add: q_def)
  have "unat (OVER_BATCH div producers) = 200000 div ?n" by (simp add: OVER_BATCH_def unat_div)
  then have "unat ((OVER_BATCH div producers) * producers) = q"
    using small(1) by (simp add: unat_word_ariths(2) flip: q_def)
  then have "unat ((OVER_BATCH div producers) * producers * OVER_ITERS) = q * 3"
    using small(2) unat_word_ariths(2) [of "(OVER_BATCH div producers) * producers" OVER_ITERS] by (simp add: OVER_ITERS_def)
  moreover have "0 < 200000 div ?n" using n assms(2) by (simp add: div_greater_zero_iff)
  then have "0 < q" using n by (simp add: q_def)
  ultimately show ?thesis by (auto simp: word_unat_eq_iff)
qed

lemma figures_ranked:
  assumes "quotients_ranked rank F" "\<And>r. r \<in> A \<Longrightarrow> run_elems r \<noteq> 0"
  shows "ranks (\<lambda>r. rank (cpu_ns_per_elem F r)) (\<lambda>a b. f64_partial_cmp F (cpu_ns_per_elem F a) (cpu_ns_per_elem F b)) A"
proof -
  have "cpu_ns_per_elem F r \<in> {f64_div F (f64_of F a) (f64_of F b) | a b. 0 < b}" if "r \<in> A" for r
    using assms(2) [OF that] unfolding cpu_ns_per_elem_def by (intro CollectI exI conjI) (auto simp: unat_gt_0)
  with assms(1) show ?thesis unfolding quotients_ranked_def ranks_def by blast
qed

text \<open>
  Every row of the oversubscription table is produced. On a machine of at most 25000 cores, for each entry of the plan (a
  producer count of the ladder with a strategy) and all clock readings of its rounds there are schedules
  under which the row's measurements end without a fault and its columns are those of the median run: the element count
  is positive, so no figure is NaN and the comparison never panics.
\<close>

theorem oversub_row_returns:
  assumes "(producers, ratio, name, strat) \<in> set (oversub_plan c)" "unat c \<le> 25000" "quotients_ranked rank F"
    and "length clocks = ROUNDS" "list_all (\<lambda>(readings, wall). length readings = unat OVER_ITERS) clocks"
  shows "\<exists>rounds m. map (\<lambda>(its, wall). (map snd its, wall)) rounds = clocks
     \<and> oversub_row F (producers, ratio, name, strat) rounds
        = Some (Inr (name, producers, ratio, melem_per_s F m, run_cores F m, cpu_ns_per_elem F m))
     \<and> run_elems m = (OVER_BATCH div producers) * producers * OVER_ITERS \<and> run_elems m \<noteq> 0"
proof -
  note p = ladder_producers [OF assms(1,2)]
  have cap: "is_power_of_two CAP" unfolding CAP_def by code_simp
  let ?elems = "(OVER_BATCH div producers) * producers * OVER_ITERS"
  have "\<forall>clock \<in> set clocks. \<exists>ss. length ss = unat OVER_ITERS \<and>
      measure_with producers OVER_BATCH OVER_ITERS CAP strat (zip ss (fst clock)) (snd clock)
        = Some (Inr \<lparr>run_wall_ns = snd clock,
            run_cpu_ns = foldl (\<lambda>sum (t0, t1). sum + (t1 - t0)) 0 (concat (fst clock)), run_elems = ?elems\<rparr>)"
    using measure_with_returns [OF cap p(1)] p(2) assms(5) by (fastforce simp: list_all_iff case_prod_unfold)
  then obtain sched where sched: "\<forall>clock \<in> set clocks. length (sched clock) = unat OVER_ITERS \<and>
      measure_with producers OVER_BATCH OVER_ITERS CAP strat (zip (sched clock) (fst clock)) (snd clock)
        = Some (Inr \<lparr>run_wall_ns = snd clock,
            run_cpu_ns = foldl (\<lambda>sum (t0, t1). sum + (t1 - t0)) 0 (concat (fst clock)), run_elems = ?elems\<rparr>)"
    by metis
  let ?run = "\<lambda>clock. \<lparr>run_wall_ns = snd clock,
      run_cpu_ns = foldl (\<lambda>sum (t0, t1). sum + (t1 - t0)) 0 (concat (fst clock)), run_elems = ?elems\<rparr>"
  let ?rounds = "map (\<lambda>clock. (zip (sched clock) (fst clock), snd clock)) clocks"
  have runs: "collect (map (\<lambda>(its, wall). measure_with producers OVER_BATCH OVER_ITERS CAP strat its wall) ?rounds)
      = Some (Inr (map ?run clocks))"
    using sched by (simp add: comp_def collect_all)
  have elems: "?elems \<noteq> 0" using p by (rule over_elems)
  have "ranks (\<lambda>r. rank (cpu_ns_per_elem F r)) (\<lambda>a b. f64_partial_cmp F (cpu_ns_per_elem F a) (cpu_ns_per_elem F b))
      (set (map ?run clocks))"
    by (rule figures_ranked [OF assms(3)]) (use elems in auto)
  moreover have "map ?run clocks \<noteq> []" using assms(4) by (auto simp: ROUNDS_def)
  ultimately obtain m where m: "m \<in> set (map ?run clocks)"
    "median_by (\<lambda>a b. f64_partial_cmp F (cpu_ns_per_elem F a) (cpu_ns_per_elem F b)) (map ?run clocks) = Inr m"
    using median_by_correct by blast
  have "map (\<lambda>(its, wall). (map snd its, wall)) ?rounds = clocks"
    using sched assms(5) by (auto simp: list_all_iff case_prod_unfold intro!: map_idI)
  moreover have "oversub_row F (producers, ratio, name, strat) ?rounds
      = Some (Inr (name, producers, ratio, melem_per_s F m, run_cores F m, cpu_ns_per_elem F m))"
    using runs m(2) assms(4) by (simp add: oversub_row_def)
  moreover have "run_elems m = ?elems" using m(1) by auto
  ultimately show ?thesis using elems by (intro exI [of _ ?rounds] exI [of _ m]) simp
qed


theorem oversub_row_returns_witness:
  "\<exists>rounds m. oversub_row whole_f64 (8, ''2x'', ''Park'', Park) rounds
     = Some (Inr (''Park'', 8, ''2x'', melem_per_s whole_f64 m, run_cores whole_f64 m, cpu_ns_per_elem whole_f64 m)) \<and> run_elems m \<noteq> 0"
proof -
  let ?clocks = "replicate 3 ([[(0, 5)], [], [(2, 9)]], 100) :: ((u64 \<times> u64) list list \<times> u128) list"
  have "(8, ''2x'', ''Park'', Park) \<in> set (oversub_plan 4)" by (simp add: oversub_plan_def producer_ladder_def swept_strategies_def max_def)
  moreover have "unat (4 :: u64) \<le> 25000" by simp
  moreover have "quotients_ranked id whole_f64" by (simp add: quotients_ranked_def ranks_def whole_f64_def)
  moreover have "length ?clocks = ROUNDS" by (simp add: ROUNDS_def)
  moreover have "list_all (\<lambda>(readings, wall). length readings = unat OVER_ITERS) ?clocks"
    by (simp add: OVER_ITERS_def list_all_iff)
  ultimately show ?thesis using oversub_row_returns by metis
qed

end
