(* ===== verification/Wake_Latency.thy ===== *)
theory Wake_Latency
  imports Sort_By Handoff Spsc_Blocking
begin

text \<open>
  The measurement program \<^verbatim>\<open>examples/wake_latency.rs\<close>: a producer stamps the time into each value, the consumer subtracts
  the stamp from the time of receipt, and the sorted samples give the percentiles. Clock readings, in nanoseconds, and the
  schedule of the two threads are arguments; the spinning between two sends only spends time. \<^verbatim>\<open>f64\<close> is a
  conversion and a division given as arguments.
\<close>

definition SAMPLES :: usize where "SAMPLES = 1000"

record 'f stats =
  st_p50 :: 'f
  st_p99 :: 'f
  st_max :: 'f

text \<open>\<^verbatim>\<open>sent.elapsed().as_nanos() as u64\<close>: the difference saturates at zero, the conversion truncates.\<close>

definition elapsed_ns :: "nat \<Rightarrow> nat \<Rightarrow> 64 word" where
  "elapsed_ns sent now = of_nat (now - sent)"

definition percentiles :: "(64 word \<Rightarrow> 'f) \<Rightarrow> 64 word list \<Rightarrow> 'f stats outcome" where
  "percentiles us lat =
     (let s = sort lat; n = unat SAMPLES
      in if n \<le> length s then
           Inr \<lparr>st_p50 = us (s ! (n div 2)), st_p99 = us (s ! (n * 99 div 100)), st_max = us (s ! (n - 1))\<rparr>
         else Inl (Panic ''index out of bounds''))"

text \<open>
  \<open>stamp i\<close> is the time at which the \<open>i\<close>-th value is sent, \<open>receipt i\<close> that at which the consumer reads its
  clock for the \<open>i\<close>-th sample. A consumer that stops early has panicked in \<^verbatim>\<open>recv().unwrap()\<close>. (The sender's handle
  lives to the end of \<^verbatim>\<open>measure\<close>; here its drop may also come as soon as the last value is sent.)
\<close>

definition latencies :: "(nat \<Rightarrow> nat) \<Rightarrow> nat list \<Rightarrow> 64 word list" where
  "latencies receipt stamps = map2 (\<lambda>i sent. elapsed_ns sent (receipt i)) [0..<length stamps] stamps"

definition wake_measure ::
    "(64 word \<Rightarrow> 'f) \<Rightarrow> wait_strategy \<Rightarrow> (usize \<Rightarrow> nat) \<Rightarrow> (nat \<Rightarrow> nat) \<Rightarrow> handoff_action list \<Rightarrow> 'f stats outcome option" where
  "wake_measure us strategy stamp receipt schedule =
     (case spsc_open 1024 strategy of
        Inl e \<Rightarrow> Some (Inl e)
      | Inr c \<Rightarrow>
          (case run_steps (handoff_micro (\<lambda>_. spsc_send_op) spsc_recv_op (\<lambda>_. spsc_drop_tx) SAMPLES stamp SAMPLES) schedule
                  (handoff_start [()] c) of
             None \<Rightarrow> None
           | Some (Inl e) \<Rightarrow> Some (Inl e)
           | Some (Inr st) \<Rightarrow>
               (if \<not> handoff_over st then None
                else if ho_got st < SAMPLES
                then Some (Inl (Panic ''called `Result::unwrap()` on an `Err` value: RecvError''))
                else Some (percentiles us (latencies receipt (ho_values st))))))"

text \<open>The table: the control first, then the other strategies with their excess over it at p50.\<close>

fun wake_rows ::
    "('f \<Rightarrow> 'f \<Rightarrow> 'f) \<Rightarrow> (wait_strategy \<Rightarrow> 'f stats outcome) \<Rightarrow> 'f stats \<Rightarrow> (string \<times> wait_strategy) list \<Rightarrow>
     (string \<times> 'f stats \<times> 'f) list outcome" where
  "wake_rows sub m baseline [] = Inr []"
| "wake_rows sub m baseline ((name, strategy) # rest) =
     obind (m strategy) (\<lambda>s.
     obind (wake_rows sub m baseline rest) (\<lambda>rows. Inr ((name, s, sub (st_p50 s) (st_p50 baseline)) # rows)))"

definition wake_main ::
    "('f \<Rightarrow> 'f \<Rightarrow> 'f) \<Rightarrow> (wait_strategy \<Rightarrow> 'f stats outcome) \<Rightarrow> ('f stats \<times> (string \<times> 'f stats \<times> 'f) list) outcome" where
  "wake_main sub m =
     obind (m BusySpin) (\<lambda>baseline.
     obind (wake_rows sub m baseline [(''BackoffYield'', BackoffYield), (''Park'', Park), (''Backoff'', Backoff)])
       (\<lambda>rows. Inr (baseline, rows)))"

section \<open>The workload on the SPSC ring\<close>

interpretation spsc_workload: handoff_channel spsc_inv spsc_abs "\<lambda>_ :: unit \<times> nat. spsc_tx_live ()" "\<lambda>_. spsc_send_op" spsc_recv_op
    spsc_drain_vec "\<lambda>_. spsc_drop_tx"
proof unfold_locales
  fix c :: "'a spsc" and v n
  assume inv: "spsc_inv c"
  then show "bchan_ok (spsc_abs c)" by (rule spsc.abs_ok)
  show "\<exists>c'. spsc_send_op v c = Inr (fst (spec_try_send v (spsc_abs c)), c') \<and> spsc_inv c'
      \<and> spsc_abs c' = snd (spec_try_send v (spsc_abs c)) \<and> (\<forall>q. spsc_tx_live () c' = spsc_tx_live () c)"
    if "spsc_tx_live () c"
    using spsc.send_refines [OF inv that, of v] by auto
  show "\<exists>c'. spsc_recv_op c = Inr (fst (spec_try_recv (spsc_abs c)), c') \<and> spsc_inv c'
      \<and> spsc_abs c' = snd (spec_try_recv (spsc_abs c)) \<and> (\<forall>q. spsc_tx_live () c' = spsc_tx_live () c)"
    if "bc_rx_live (spsc_abs c)"
    using spsc.recv_refines [OF inv that] by auto
  show "\<exists>c'. spsc_drain_vec n c = Inr (fst (spec_drain (unat n) (spsc_abs c)), c') \<and> spsc_inv c'
      \<and> spsc_abs c' = snd (spec_drain (unat n) (spsc_abs c)) \<and> (\<forall>q. spsc_tx_live () c' = spsc_tx_live () c)"
    if "bc_rx_live (spsc_abs c)"
    using spsc.drain_refines [OF inv that, of n] by auto
next
  fix c :: "'a spsc" and h :: unit
  assume "spsc_inv c" "\<And>n :: nat. spsc_tx_live () c" "bc_rx_live (spsc_abs c)"
  moreover from this obtain tx rx where "ch_tx c = Some tx" "ch_rx c = Some rx"
    by (auto simp: spsc_tx_live_def spsc_abs_def)
  ultimately obtain c' where "spsc_drop_tx c = Inr ([], c')" "spsc_inv c'" "spsc_abs c' = (spsc_abs c)\<lparr>bc_senders := 0\<rparr>"
    by (metis spsc_drop_tx_live)
  moreover have "bc_senders (spsc_abs c) - 1 = 0" by (simp add: spsc_abs_def)
  ultimately show "\<exists>vs c'. spsc_drop_tx c = Inr (vs, c') \<and> spsc_inv c'
      \<and> spsc_abs c' = (spsc_abs c)\<lparr>bc_senders := bc_senders (spsc_abs c) - 1\<rparr>
      \<and> (\<forall>g. \<forall>n :: nat. g \<noteq> h \<longrightarrow> spsc_tx_live () c' = spsc_tx_live () c)"
    by (cases h) simp
qed


lemma wake_starts:
  fixes strategy and stamp :: "usize \<Rightarrow> nat"
  obtains c where "spsc_open 1024 strategy = Inr c"
    and "spsc_workload.handoff_inv SAMPLES stamp SAMPLES (handoff_start [()] c)"
    and "spsc_workload.single_fifo SAMPLES stamp (handoff_start [()] c)"
proof -
  have "is_power_of_two 1024" by code_simp
  from spsc_open_inv [OF this] obtain c :: "nat spsc" where
    c: "spsc_open 1024 strategy = Inr c" "spsc_inv c" "spsc_abs c = fresh_bchan 1024"
    by metis
  have "spsc_tx_live () c" using c(3) by (simp add: spsc_tx_live_abs)
  then have "spsc_workload.handoff_inv SAMPLES stamp SAMPLES (handoff_start [()] c)"
    by (intro spsc_workload.handoff_start_inv) (use c in simp_all)
  moreover have "spsc_workload.single_fifo SAMPLES stamp (handoff_start [()] c)"
    using c(3) by (simp add: spsc_workload.single_fifo_def handoff_start_def sent_values_def)
  ultimately show thesis using c(1) by (intro that)
qed

section \<open>The samples and their percentiles\<close>

text \<open>The latency of sample \<open>i\<close>: its receipt against its own stamp.\<close>

definition paired_latencies :: "(usize \<Rightarrow> nat) \<Rightarrow> (nat \<Rightarrow> nat) \<Rightarrow> 64 word list" where
  "paired_latencies stamp receipt = map (\<lambda>i. elapsed_ns (stamp (of_nat i)) (receipt i)) [0..<unat SAMPLES]"

lemma latencies_paired: "latencies receipt (sent_values stamp (unat SAMPLES)) = paired_latencies stamp receipt"
  by (rule nth_equalityI) (simp_all add: latencies_def sent_values_def paired_latencies_def)

lemma paired_latencies_length: "length (paired_latencies stamp receipt) = 1000"
  by (simp add: paired_latencies_def SAMPLES_def)

text \<open>
  \<^verbatim>\<open>measure\<close> of \<^verbatim>\<open>wake_latency.rs\<close> pairs each receipt with its own stamp. Whatever the schedule, the measurement does not panic, and
  the samples are the receipts' times less the stamps of the values sent first, second, and so on.
\<close>

theorem wake_measure_pairs:
  assumes "wake_measure us strategy stamp receipt schedule = Some r"
  shows "r = percentiles us (paired_latencies stamp receipt) \<and> (\<exists>s. r = Inr s)"
proof -
  obtain c where c: "spsc_open 1024 strategy = Inr c"
    "spsc_workload.handoff_inv SAMPLES stamp SAMPLES (handoff_start [()] c)"
    "spsc_workload.single_fifo SAMPLES stamp (handoff_start [()] c)"
    by (rule wake_starts)
  from assms c(1) obtain q where run: "run_steps (spsc_workload.handoff_step SAMPLES stamp SAMPLES) schedule (handoff_start [()] c) = Some q"
    by (auto simp: wake_measure_def split: option.splits)
  from spsc_workload.handoff_run_keeps [OF c(2) run] obtain st where st: "q = Inr st" by blast
  note keeps = spsc_workload.single_run [OF c(2,3) run [unfolded st]]
  have over: "handoff_over st" using assms c(1) run st by (auto simp: wake_measure_def split: if_splits)
  then have d: "ho_done st" by (simp add: handoff_over_def)
  have "ho_got st = SAMPLES" using spsc_workload.handoff_complete(1) keeps d by blast
  moreover have "ho_values st = sent_values stamp (unat SAMPLES)" using spsc_workload.single_complete keeps d by blast
  ultimately have "r = percentiles us (paired_latencies stamp receipt)"
    using assms c(1) run st over by (simp add: wake_measure_def latencies_paired)
  then show ?thesis by (simp add: percentiles_def paired_latencies_length SAMPLES_def Let_def)
qed

lemma wake_measure_returns:
  "\<exists>schedule. wake_measure us strategy stamp receipt schedule = Some (percentiles us (paired_latencies stamp receipt))"
proof -
  obtain c where c: "spsc_open 1024 strategy = Inr c"
    "spsc_workload.handoff_inv SAMPLES stamp SAMPLES (handoff_start [()] c)"
    "spsc_workload.single_fifo SAMPLES stamp (handoff_start [()] c)"
    by (rule wake_starts)
  from spsc_workload.handoff_finishes [OF c(2)] obtain as st where
    run: "run_steps (spsc_workload.handoff_step SAMPLES stamp SAMPLES) as (handoff_start [()] c) = Some (Inr st)"
    and over: "handoff_over st"
    by blast
  note keeps = spsc_workload.single_run [OF c(2,3) run]
  have d: "ho_done st" using over by (simp add: handoff_over_def)
  have "ho_got st = SAMPLES" using spsc_workload.handoff_complete(1) keeps d by blast
  moreover have "ho_values st = sent_values stamp (unat SAMPLES)" using spsc_workload.single_complete keeps d by blast
  ultimately show ?thesis using c(1) run over by (intro exI [of _ as]) (simp add: wake_measure_def latencies_paired)
qed

theorem wake_measure_pairs_witness:
  "\<exists>schedule s. wake_measure id Park (\<lambda>_. 5) (\<lambda>i. 7) schedule = Some (Inr s)
     \<and> Inr s = percentiles id (paired_latencies (\<lambda>_. 5) (\<lambda>i. 7))"
proof -
  from wake_measure_returns obtain schedule where
    w: "wake_measure id Park (\<lambda>_. 5) (\<lambda>i. 7) schedule = Some (percentiles id (paired_latencies (\<lambda>_. 5) (\<lambda>i. 7)))" by blast
  from wake_measure_pairs [OF this] w show ?thesis by auto
qed

text \<open>
  The percentiles are what their names say. Of a thousand samples at most 500 lie below the reported p50 and at most 499 above
  it, at most 9 lie above the reported p99, none above the maximum, and the three are in order.
\<close>

theorem percentiles_correct:
  assumes "length lat = 1000"
  shows "\<exists>p50 \<in> set lat. \<exists>p99 \<in> set lat. \<exists>mx \<in> set lat.
     percentiles us lat = Inr \<lparr>st_p50 = us p50, st_p99 = us p99, st_max = us mx\<rparr>
     \<and> length (filter (\<lambda>x. x < p50) lat) \<le> 500 \<and> length (filter (\<lambda>x. p50 < x) lat) \<le> 499
     \<and> length (filter (\<lambda>x. p99 < x) lat) \<le> 9 \<and> (\<forall>x \<in> set lat. x \<le> mx) \<and> p50 \<le> p99 \<and> p99 \<le> mx"
proof -
  let ?s = "sort lat"
  have l: "length ?s = 1000" and m: "mset ?s = mset lat" and sorted: "sorted (map id ?s)" using assms by simp_all
  have counts: "length (filter (\<lambda>x. x < ?s ! i) lat) \<le> i" "length (filter (\<lambda>x. ?s ! i < x) lat) \<le> 999 - i" if "i < 1000" for i
    using sorted_nth_counts [OF sorted, of i] that length_filter_mset [OF m] l by simp_all
  have mem: "?s ! i \<in> set lat" if "i < 1000" for i using nth_mem [of i ?s] that l by simp
  have le: "?s ! i \<le> ?s ! j" if "i \<le> j" "j < 1000" for i j using sorted_nth_mono [of ?s i j] that l by simp
  have "length (filter (\<lambda>x. ?s ! 999 < x) lat) = 0" using counts(2) [of 999] by simp
  then have "\<forall>x \<in> set lat. x \<le> ?s ! 999" by (auto simp: filter_empty_conv not_less)
  moreover have "percentiles us lat = Inr \<lparr>st_p50 = us (?s ! 500), st_p99 = us (?s ! 990), st_max = us (?s ! 999)\<rparr>"
    using l by (simp add: percentiles_def SAMPLES_def Let_def)
  ultimately show ?thesis
    using counts(1) [of 500] counts(2) [of 500] counts(2) [of 990] le [of 500 990] le [of 990 999]
    by (intro bexI [of _ "?s ! 500"] bexI [of _ "?s ! 990"] bexI [of _ "?s ! 999"]) (use mem in simp_all)
qed

theorem percentiles_correct_witness:
  "\<exists>p50 p99 mx. percentiles id (map of_nat [0..<1000]) = Inr \<lparr>st_p50 = p50, st_p99 = p99, st_max = mx\<rparr> \<and> p50 \<le> p99 \<and> p99 \<le> mx"
  using percentiles_correct [of "map of_nat [0..<1000]" id] by auto

end
