(* ===== verification/Spec2Isabelle.thy ===== *)
theory Spec2Isabelle
  imports Prelude Errors Wait Notify Cells Channel_Spec Blocking Spsc Spsc_Blocking Spsc_Properties
    Mpsc Mpsc_Blocking Mpsc_Properties Sharded Sharded_Properties Sharded_Blocking
    Step_Machine Spsc_Concurrent Mpsc_Concurrent Mpsc_Undisturbed Park_Protocol Waiter_Protocol Unit_Tests
    Spsc_Calls Mpsc_Calls Sharded_Concurrent Sharded_Undisturbed Sharded_Delivery Integration_Tests
    Text_Input Sort_By Handoff Cpu_Cost Wake_Latency
begin

text \<open>
  Verification of \<^verbatim>\<open>ultima_rings\<close>, a crate of bounded ring channels: a single-producer ring
  (\<^verbatim>\<open>src/spsc.rs\<close>), a multi-producer ring (\<^verbatim>\<open>src/mpsc.rs\<close>) and a sharded channel made of one
  single-producer ring per producer (\<^verbatim>\<open>src/sharded.rs\<close>). They share the error types and the capacity
  assertion (\<^verbatim>\<open>src/lib.rs\<close>), the wait strategies (\<^verbatim>\<open>src/wait.rs\<close>), the notify layer that parks and wakes
  threads (\<^verbatim>\<open>src/notify.rs\<close>) and a facade over the atomics (\<^verbatim>\<open>src/atomic.rs\<close>). Two programs under \<^verbatim>\<open>examples\<close> measure the
  rings.

  \<^bold>\<open>Theories and what they model\<close>
  \<^item> \<open>Prelude\<close>: the 64-bit \<^verbatim>\<open>usize\<close> (words, wrapping arithmetic), the outcome of a fallible operation
    (a panic or a broken \<^verbatim>\<open>SAFETY\<close> obligation against a value), mask indexing and round numbers.
  \<^item> \<open>Errors\<close>, \<open>Wait\<close>, \<open>Notify\<close>, \<open>Cells\<close>: \<^verbatim>\<open>lib.rs\<close>, \<^verbatim>\<open>wait.rs\<close>, \<^verbatim>\<open>notify.rs\<close> (both the std and the loom variant) and
    the slots (\<^verbatim>\<open>UnsafeCell<MaybeUninit<T>>\<close>). A cell remembers whether it was never written, is live, or was
    moved out, so that overwriting a live value, reading an uninitialised or consumed one, and dropping twice are faults of
    the model, not unspecified values.
  \<^item> \<open>Channel_Spec\<close>: the abstract contract, a bounded FIFO queue with its two liveness flags, and the
    locale \<open>bounded_channel\<close> in which the behaviour of whole programs of calls is proved once.
  \<^item> \<open>Blocking\<close>: the loop that \<^verbatim>\<open>send\<close> and \<^verbatim>\<open>recv\<close> are instances of, with the locales
    \<open>blocking_operation\<close> and \<open>live_blocking_operation\<close>.
  \<^item> \<open>Spsc\<close>, \<open>Mpsc\<close>, \<open>Sharded\<close>: state and every operation of the three channels, in the order of
    the source: the constructor, \<^verbatim>\<open>try_send\<close>, \<^verbatim>\<open>try_recv\<close>, \<^verbatim>\<open>drain\<close> with its publish guard on return and
    on unwinding, \<^verbatim>\<open>clone\<close>, the drops of the handles and of the ring. The shared struct, the handles
    and the slots are records with the fields of the source. The locale
    \<open>bounded_channel\<close> is interpreted on both rings.
  \<^item> \<open>Spsc_Blocking\<close>, \<open>Mpsc_Blocking\<close>, \<open>Sharded_Blocking\<close>: \<^verbatim>\<open>send\<close> and \<^verbatim>\<open>recv\<close> under every wait
    strategy, with the interpretations of the blocking locales.
  \<^item> \<open>Step_Machine\<close>: reachable states, schedules and the locale \<open>safe_machine\<close>, interpreted on the five
    concurrent machines that follow; \<open>bounded_call\<close> extends it by a call that other threads cannot push back, and is
    interpreted on the non-blocking methods.
  \<^item> \<open>Spsc_Concurrent\<close>, \<open>Mpsc_Concurrent\<close>: the same methods cut into single shared accesses and
    interleaved in every order, as step functions with a reachability predicate. Loads may be stale
    as far as the release/acquire rules allow, an exchange may fail spuriously, handles are cloned and dropped in
    mid-flight, a drain's closure may panic.
  \<^item> \<open>Spsc_Calls\<close>, \<open>Mpsc_Calls\<close>: the calls of these machines as their clients see them: how many steps a call can
    take, and what its result has to do with the values that left the ring.
  \<^item> \<open>Sharded_Concurrent\<close>: the sharded channel as a composition of SPSC machines, one per producer, with the receiver's
    sweep (\<open>sweep_micro\<close>: the loops of \<^verbatim>\<open>try_recv\<close> and \<^verbatim>\<open>drain\<close>, the drop of the vector of rings) as thread-local code around
    the steps of the ring at the cursor. \<open>Sharded_Delivery\<close>: what a consumer that loops on \<^verbatim>\<open>try_recv\<close> has in the end.
    \<open>Sharded_Undisturbed\<close>: the machine run without interference.
  \<^item> \<open>Park_Protocol\<close>: the wake protocol of the \<^verbatim>\<open>Park\<close> strategy on store buffers, with the two
    \<^verbatim>\<open>SeqCst\<close> fences as switches.
  \<^item> \<open>Waiter_Protocol\<close>: the same for \<^verbatim>\<open>WaiterList\<close>: any number of senders blocked on a full MPSC ring
    (\<open>sender_step\<close>: the claim, the registration, the re-check and the park of \<^verbatim>\<open>send\<close>) against the receiver's
    head store and \<^verbatim>\<open>wake_all\<close> (\<open>take_start\<close>, \<open>wake_all_step\<close>).
  \<^item> \<open>Mpsc_Undisturbed\<close>: the MPSC machine run without interference.
  \<^item> \<open>Spsc_Properties\<close>, \<open>Mpsc_Properties\<close>, \<open>Sharded_Properties\<close>: what the channels guarantee to a client.
  \<^item> \<open>Unit_Tests\<close>: the crate's unit tests, run on the model by the kernel. \<open>Integration_Tests\<close>: the tests under
    \<^verbatim>\<open>tests\<close>: deterministic ones are run, the randomised one is proved for all seeds, the assertions of the loom
    scenarios are proved for every interleaving.
  \<^item> \<open>Text_Input\<close>, \<open>Sort_By\<close>: the parts of \<^verbatim>\<open>str\<close> and \<^verbatim>\<open>slice\<close> that the example programs use.
  \<^item> \<open>Handoff\<close>: the workload of the example programs, producers that send a fixed number of values and a consumer that
    receives them all, over the locale \<open>handoff_channel\<close>, which extends \<open>bounded_channel\<close> by the drop of a handle.
  \<^item> \<open>Cpu_Cost\<close>: \<^verbatim>\<open>examples/cpu_cost.rs\<close>: environment, sizes, \<^verbatim>\<open>schedstat\<close>, \<^verbatim>\<open>measure_with\<close> and \<^verbatim>\<open>paced\<close> on the MPSC ring,
    the external load, the reports and the rows of the tables. \<open>handoff_channel\<close> is interpreted on the MPSC ring.
  \<^item> \<open>Wake_Latency\<close>: \<^verbatim>\<open>examples/wake_latency.rs\<close>, with \<open>handoff_channel\<close> interpreted on the SPSC ring.

  \<^bold>\<open>What is proved\<close>
  \<^item> Functional behaviour: every program of calls on either ring behaves as one bounded FIFO queue, across
    wrap-around of the counters for the SPSC ring and up to the last sequence number for the MPSC ring;
    the sharded channel keeps each producer's order, reports \<^verbatim>\<open>Full\<close> per shard and \<^verbatim>\<open>Disconnected\<close> exactly
    when every shard is closed and empty, and visits every shard within its budget.
  \<^item> Memory safety: no call, in no interleaving, breaks an obligation of an \<^verbatim>\<open>unsafe\<close> block; every
    accepted value is delivered or destroyed exactly once; two threads never access one slot at a time.
  \<^item> Concurrency: the values taken are a prefix of the values published (in claim order for the
    MPSC ring, per producer for the sharded channel), the consumer stops at a claimed slot that is not yet published,
    \<^verbatim>\<open>Disconnected\<close> is never early, also when a sweep collects the answers of the shards one after the other, and a consumer
    that received until \<^verbatim>\<open>Disconnected\<close> has every value exactly once; undisturbed runs of the three machines are the
    sequential methods.
  \<^item> Progress of the non-blocking methods: the SPSC ring's \<^verbatim>\<open>try_send\<close> and \<^verbatim>\<open>try_recv\<close>, the MPSC ring's \<^verbatim>\<open>try_recv\<close> and the sharded
    \<^verbatim>\<open>try_recv\<close> are wait-free, with the bound on their own steps: no stopped thread can hold them up.
  \<^item> Blocking: \<^verbatim>\<open>send\<close> and \<^verbatim>\<open>recv\<close> return once the other side makes progress or goes away; the wake
    protocols of the single parker and of the waiter list lose no wake-up, reach every blocked thread, and would lose
    one without either fence.
  \<^item> Well-formedness: every operation on a live handle of the MPSC channel keeps its invariant and does not fault.
  \<^item> Examples: the measured workload ends and delivers exactly the elements that the report counts; in the latency program
    each receipt is paired with its own stamp; the reported run is the median, the percentiles are percentiles; the numbers of
    \<^verbatim>\<open>schedstat\<close> are read back as printed, and \<^verbatim>\<open>URINGS_SECTIONS\<close> selects what it lists.
  \<^item> Limits of the code: values leaked by the ring's drop after the tail wrapped, a panic in a
    drain's closure that strands parked senders, the last sequence number of the MPSC ring, a sharded
    \<^verbatim>\<open>drain\<close> that is not bound by the visit budget, and a loom stand-in of the waiter list that can lose a wake-up
    which the real one delivers.

  \<^bold>\<open>Bounds and fuel\<close>
  Blocking loops are fuelled; the liveness theorems state that some amount of fuel gives a result, for
  every environment that eventually acts. \<open>mpsc_shared_drop\<close> runs its loop \<open>cap + 1\<close> times,
  which \<open>mpsc_shared_drop_correct\<close> shows to be enough. All other loops are total functions with a
  measure. The machine integers have their real width; the histories of the concurrent machines are
  unbounded ghosts. A run has fewer than \<open>2\<^sup>6\<^sup>4\<close> MPSC handles.
  The workloads of the examples have no fuel: a schedule is a list of turns, and the termination results give one whose length
  is bounded by the work.

  \<^bold>\<open>Memory model\<close>
  \<^verbatim>\<open>Spsc_Concurrent\<close> and \<^verbatim>\<open>Mpsc_Concurrent\<close> let a load return any value the reader may still see; that the
  data behind a counter, a round or a flag is visible with it is the release/acquire rule, which the machines take
  for granted. \<^verbatim>\<open>Park_Protocol\<close> and \<^verbatim>\<open>Waiter_Protocol\<close> use store buffers, in which stores to different places keep their order; in
  \<^verbatim>\<open>Waiter_Protocol\<close> a read-modify-write does not wait for the thread's own buffer. The counters of these two machines are
  natural numbers, and a panicking drain, which skips its wake, is not one of their steps.

  \<^bold>\<open>Not modelled\<close>
  The re-exports of atomics and the padding of \<^verbatim>\<open>atomic.rs\<close> (the language's memory operations and layout), the
  \<^verbatim>\<open>Debug\<close> and \<^verbatim>\<open>Error\<close> derivations, and the benchmarks. Of the integration tests: the stress and round-trip tests with
  several threads and thousands of values, of which the theorems on every interleaving are the general
  statement. Of the examples: the text of the tables, the runs on third-party channels, and what only spends time. Clock
  readings, environment variables, the text of procfs and \<^verbatim>\<open>f64\<close> are arguments. Spin hints, yields and timed parks are
  actions without effect on the state. The blocking methods are modelled as loops with an environment and, for their
  park and wake steps, in the two protocol machines; they are not steps of the ring machines. The MPSC producer's exchange
  loop has no bound of its own steps: the machine lets a failed exchange read any earlier claim, so only safety is stated of
  it under interference, and that it ends without interference.
\<close>

end
